(* ===== verification/Prelude.thy ===== *)
theory Prelude
  imports Main "HOL-Library.Word"
begin

text \<open>
  Shared vocabulary of the development: bytes, the exceptions the code raises, the
  state-and-exception monad in which the stateful components are written, little-endian
  packing (\<^verbatim>\<open>struct.pack\<close> of \<^verbatim>\<open><i\<close>, \<^verbatim>\<open><I\<close>, \<^verbatim>\<open><q\<close>, \<^verbatim>\<open><Q\<close>) and the lemmas on
  Python's unbounded integers that several components use.
\<close>

unbundle bit_operations_syntax

type_synonym byte = "8 word"
type_synonym bytes = "byte list"

named_theorems monad_simps \<open>unfolding of the state-and-exception monad\<close>
named_theorems stream_simps \<open>effect of a stream operation on the abstract byte sequence\<close>
named_theorems roundtrip_simps \<open>decoding what has been encoded\<close>

section \<open>Exceptions\<close>

text \<open>
  The exception classes raised by the modelled code. Messages are left out, except for the
  row count that the reader stores in a truncation error. \<open>FuelExhausted\<close> is no exception of the
  code: it marks the runs of a bounded loop whose bound was too small.
\<close>

datatype py_error =
    EncodeError
  | DecodeError
  | ChecksumError
  | StreamTruncated nat
  | ValueError
  | TypeError
  | KeyError
  | IndexError
  | OSError
  | OverflowError
  | StructError
  | UnicodeDecodeError
  | AssertionError
  | ImportError
  | TimeoutError
  | DAGValidationError
  | NotImplementedError
  | AttributeError
  | DatetimeOverflowError
  | ODPSError "nat option"
  | MaxStorageError
  | TunnelError
  | SessionNotFound
  | ZeroDivisionError
  | FuelExhausted

type_synonym 'a result = "py_error + 'a"

definition rbind :: "'e + 'a \<Rightarrow> ('a \<Rightarrow> 'e + 'b) \<Rightarrow> 'e + 'b" where
  "rbind m f = (case m of Inl e \<Rightarrow> Inl e | Inr x \<Rightarrow> f x)"

lemma rbind_simps [simp]:
  "rbind (Inl e) f = Inl e"
  "rbind (Inr x) f = f x"
  by (simp_all add: rbind_def)

lemma rbind_eq_Inr: "rbind m f = Inr y \<longleftrightarrow> (\<exists>x. m = Inr x \<and> f x = Inr y)"
  by (cases m) simp_all

lemma rbind_cong [fundef_cong]:
  "m = m' \<Longrightarrow> (\<And>x. m' = Inr x \<Longrightarrow> f x = f' x) \<Longrightarrow> rbind m f = rbind m' f'"
  by (cases m') simp_all

text \<open>A list comprehension whose element expression may raise: stops at the first error.\<close>

fun rmap :: "('a \<Rightarrow> 'e + 'b) \<Rightarrow> 'a list \<Rightarrow> 'e + 'b list" where
  "rmap f [] = Inr []"
| "rmap f (x # xs) = rbind (f x) (\<lambda>y. rbind (rmap f xs) (\<lambda>ys. Inr (y # ys)))"

lemma rmap_cong [fundef_cong]:
  "xs = ys \<Longrightarrow> (\<And>x. x \<in> set ys \<Longrightarrow> f x = g x) \<Longrightarrow> rmap f xs = rmap g ys"
proof (induction ys arbitrary: xs)
  case (Cons y ys)
  then have "rmap f ys = rmap g ys" by simp
  with Cons show ?case by simp
qed simp

lemma rmap_ident: "(\<And>x. x \<in> set xs \<Longrightarrow> f x = Inr x) \<Longrightarrow> rmap f xs = Inr xs"
  by (induction xs) simp_all

section \<open>Stateful operations\<close>

text \<open>
  A method of an object is a function from the object's state to its outcome (the value
  returned or the exception raised) and the state it leaves. The state is returned in both
  cases: what Python had written into the object before it raised is still there.
\<close>

type_synonym ('s, 'a) sm = "'s \<Rightarrow> 'a result \<times> 's"

definition sret :: "'a \<Rightarrow> ('s, 'a) sm" where
  "sret x = (\<lambda>s. (Inr x, s))"

definition sraise :: "py_error \<Rightarrow> ('s, 'a) sm" where
  "sraise e = (\<lambda>s. (Inl e, s))"

definition sbind :: "('s, 'a) sm \<Rightarrow> ('a \<Rightarrow> ('s, 'b) sm) \<Rightarrow> ('s, 'b) sm" where
  "sbind m f = (\<lambda>s. case m s of (Inl e, s') \<Rightarrow> (Inl e, s') | (Inr x, s') \<Rightarrow> f x s')"

abbreviation sthen :: "('s, 'a) sm \<Rightarrow> ('s, 'b) sm \<Rightarrow> ('s, 'b) sm" where
  "sthen m k \<equiv> sbind m (\<lambda>_. k)"

definition sget :: "('s \<Rightarrow> 'a) \<Rightarrow> ('s, 'a) sm" where
  "sget f = (\<lambda>s. (Inr (f s), s))"

definition smod :: "('s \<Rightarrow> 's) \<Rightarrow> ('s, unit) sm" where
  "smod f = (\<lambda>s. (Inr (), f s))"

definition slift :: "'a result \<Rightarrow> ('s, 'a) sm" where
  "slift r = (\<lambda>s. (r, s))"

fun sseq :: "('s, 'a) sm list \<Rightarrow> ('s, 'a list) sm" where
  "sseq [] = sret []"
| "sseq (m # ms) = sbind m (\<lambda>x. sbind (sseq ms) (\<lambda>xs. sret (x # xs)))"

lemma sret_apply [monad_simps]: "sret x s = (Inr x, s)"
  by (simp add: sret_def)

lemma sraise_apply [monad_simps]: "sraise e s = (Inl e, s)"
  by (simp add: sraise_def)

lemma sget_apply [monad_simps]: "sget f s = (Inr (f s), s)"
  by (simp add: sget_def)

lemma smod_apply [monad_simps]: "smod f s = (Inr (), f s)"
  by (simp add: smod_def)

lemma slift_apply [monad_simps]: "slift r s = (r, s)"
  by (simp add: slift_def)

lemma sbind_apply [monad_simps]:
  "sbind m f s = (case m s of (Inl e, s') \<Rightarrow> (Inl e, s') | (Inr x, s') \<Rightarrow> f x s')"
  by (simp add: sbind_def)

lemma sbind_Inr: "m s = (Inr x, s') \<Longrightarrow> sbind m f s = f x s'"
  by (simp add: sbind_def)

lemma sbind_Inl: "m s = (Inl e, s') \<Longrightarrow> sbind m f s = (Inl e, s')"
  by (simp add: sbind_def)

lemma sbind_eq_Inr:
  "sbind m f s = (Inr y, t) \<longleftrightarrow> (\<exists>x u. m s = (Inr x, u) \<and> f x u = (Inr y, t))"
  by (auto simp: sbind_def split: prod.splits sum.splits)

lemma sbind_sret [simp]: "sbind (sret x) f = f x"
  by (simp add: sbind_def sret_def)

lemma sbind_sraise [simp]: "sbind (sraise e) f = sraise e"
  by (simp add: sbind_def sraise_def)

lemma sbind_assoc: "sbind (sbind m f) g = sbind m (\<lambda>x. sbind (f x) g)"
  by (rule ext) (auto simp: sbind_def split: prod.splits sum.splits)

lemma sseq_append_Inr:
  assumes "sseq ms s = (Inr xs, s')" and "sseq ns s' = (Inr ys, t)"
  shows "sseq (ms @ ns) s = (Inr (xs @ ys), t)"
  using assms
proof (induction ms arbitrary: s xs)
  case (Cons m ms)
  then obtain x u zs where m: "m s = (Inr x, u)" and "sseq ms u = (Inr zs, s')" "xs = x # zs"
    by (auto simp: sbind_eq_Inr sret_apply)
  with Cons show ?case by (simp add: sbind_Inr sret_apply)
qed (simp add: sret_apply)

subsection \<open>Simulation\<close>

text \<open>
  Two operations simulate each other under a relation between their states when, from related
  states, they have the same outcome and leave related states.
\<close>

named_theorems sim_intros \<open>composing simulations\<close>

definition ssim :: "('s \<Rightarrow> 't \<Rightarrow> bool) \<Rightarrow> ('s, 'a) sm \<Rightarrow> ('t, 'a) sm \<Rightarrow> bool" where
  "ssim R m m' \<longleftrightarrow>
     (\<forall>s t. R s t \<longrightarrow> fst (m s) = fst (m' t) \<and> R (snd (m s)) (snd (m' t)))"

lemma ssimD: "ssim R m m' \<Longrightarrow> R s t \<Longrightarrow> fst (m s) = fst (m' t) \<and> R (snd (m s)) (snd (m' t))"
  by (simp add: ssim_def)

lemma ssimE:
  assumes "ssim R m m'" and "R s t"
  obtains r s' t' where "m s = (r, s')" and "m' t = (r, t')" and "R s' t'"
  using ssimD [OF assms] by (metis prod.collapse)

lemma ssim_outcome:
  assumes "ssim R m m'" and "R s t" and "m' t = (r, t')"
  obtains s' where "m s = (r, s')" and "R s' t'"
  using ssimE [OF assms(1,2)] assms(3) by (metis Pair_inject)

lemma ssim_sret [sim_intros]: "ssim R (sret x) (sret x)"
  by (simp add: ssim_def sret_apply)

lemma ssim_sraise [sim_intros]: "ssim R (sraise e) (sraise e)"
  by (simp add: ssim_def sraise_apply)

lemma ssim_slift [sim_intros]: "ssim R (slift r) (slift r)"
  by (simp add: ssim_def slift_apply)

lemma ssim_sbind [sim_intros]:
  assumes "ssim R m m'" and "\<And>x. ssim R (f x) (f' x)"
  shows "ssim R (sbind m f) (sbind m' f')"
  unfolding ssim_def
proof (intro allI impI)
  fix s t assume "R s t"
  with assms(1) obtain r s' t' where m: "m s = (r, s')" "m' t = (r, t')" and R: "R s' t'"
    by (rule ssimE)
  show "fst (sbind m f s) = fst (sbind m' f' t) \<and> R (snd (sbind m f s)) (snd (sbind m' f' t))"
  proof (cases r)
    case (Inl e)
    with m R show ?thesis by (simp add: sbind_Inl)
  next
    case (Inr x)
    with m R assms(2) [of x] show ?thesis by (simp add: sbind_Inr ssim_def)
  qed
qed

lemma ssim_if [sim_intros]:
  "(b \<Longrightarrow> ssim R m m') \<Longrightarrow> (\<not> b \<Longrightarrow> ssim R n n') \<Longrightarrow>
   ssim R (if b then m else n) (if b then m' else n')"
  by simp

lemma ssim_sget [sim_intros]: "(\<And>s t. R s t \<Longrightarrow> f s = g t) \<Longrightarrow> ssim R (sget f) (sget g)"
  by (auto simp: ssim_def sget_apply)

lemma ssim_smod [sim_intros]: "(\<And>s t. R s t \<Longrightarrow> R (f s) (g t)) \<Longrightarrow> ssim R (smod f) (smod g)"
  by (auto simp: ssim_def smod_apply)

lemma ssim_sseq [sim_intros]: "list_all2 (ssim R) ms ns \<Longrightarrow> ssim R (sseq ms) (sseq ns)"
  by (induction ms ns rule: list_all2_induct) (auto intro!: sim_intros)

text \<open>Branching on the data that an operation returned.\<close>

lemma ssim_cases:
  "ssim R m m' \<Longrightarrow> (\<And>x. ssim R (f x) (f' x)) \<Longrightarrow> ssim R (case_option m f x) (case_option m' f' x)"
  "(\<And>a. ssim R (g a) (g' a)) \<Longrightarrow> (\<And>b. ssim R (h b) (h' b)) \<Longrightarrow> ssim R (case_sum g h y) (case_sum g' h' y)"
  "(\<And>a b. ssim R (k a b) (k' a b)) \<Longrightarrow> ssim R (case_prod k z) (case_prod k' z)"
  by (auto split: option.split sum.split prod.split)

section \<open>Python integers\<close>

lemma int_and_mask: "(n::int) AND (2 ^ k - 1) = n mod 2 ^ k"
  by (metis mask_eq_exp_minus_1 take_bit_eq_mask take_bit_eq_mod)

lemma signed_take_bit_mod:
  "signed_take_bit n (v::int) = (let m = v mod 2 ^ Suc n in if 2 ^ n \<le> m then m - 2 ^ Suc n else m)"
proof -
  define m where "m = v mod 2 ^ Suc n"
  have m: "0 \<le> m" "m < 2 * 2 ^ n" by (simp_all add: m_def)
  have "signed_take_bit n v = (v + 2 ^ n) mod 2 ^ Suc n - 2 ^ n"
    by (simp only: signed_take_bit_eq_take_bit_shift take_bit_eq_mod)
  also have "(v + 2 ^ n) mod 2 ^ Suc n = (m + 2 ^ n) mod 2 ^ Suc n"
    by (simp only: m_def mod_add_left_eq)
  also have "\<dots> = (if 2 ^ n \<le> m then m - 2 ^ n else m + 2 ^ n)"
  proof (cases "2 ^ n \<le> m")
    case True
    have "m + 2 ^ n = (m - 2 ^ n) + 2 ^ Suc n" by simp
    then have "(m + 2 ^ n) mod 2 ^ Suc n = (m - 2 ^ n) mod 2 ^ Suc n" by (simp only: mod_add_self2)
    also have "\<dots> = m - 2 ^ n" using True m by simp
    finally show ?thesis using True by simp
  next
    case False
    with m show ?thesis by simp
  qed
  finally have "signed_take_bit n v = (if 2 ^ n \<le> m then m - 2 ^ n else m + 2 ^ n) - 2 ^ n" .
  then show ?thesis unfolding m_def [symmetric] Let_def by simp
qed

lemma int_drop_bit: "drop_bit k (n::int) = n div 2 ^ k"
  by (rule drop_bit_eq_div)

lemma int_drop_bit_nonneg [simp]: "0 \<le> drop_bit k (n::int) \<longleftrightarrow> 0 \<le> n"
  by (simp add: int_drop_bit pos_imp_zdiv_nonneg_iff)

lemma int_drop_bit_less: "0 < k \<Longrightarrow> 0 < n \<Longrightarrow> drop_bit k (n::int) < n"
  by (simp add: int_drop_bit int_div_less_self)

lemma int_disjoint_or:
  assumes "0 \<le> a" and "a < 2 ^ k"
  shows "(a::int) OR push_bit k b = a + b * 2 ^ k"
proof -
  from assms have a: "take_bit k a = a" by (simp add: take_bit_int_eq_self)
  have "take_bit k a AND push_bit k b = 0"
    by (rule bit_eqI) (auto simp: bit_simps)
  with a have "a OR push_bit k b = a + push_bit k b"
    by (simp add: disjunctive_add_eq_or)
  then show ?thesis by (simp add: push_bit_eq_mult)
qed

lemma nat_disjoint_or:
  assumes "a < 2 ^ k"
  shows "(a::nat) OR push_bit k b = a + b * 2 ^ k"
proof -
  from assms have "int (a OR push_bit k b) = int (a + b * 2 ^ k)"
    using int_disjoint_or [of "int a" k "int b"] by (simp add: of_nat_or_eq of_nat_push_bit)
  then show ?thesis by (simp only: of_nat_eq_iff)
qed

lemma bit_nat_less_exp: "bit (i::nat) m \<Longrightarrow> i < 2 ^ k \<Longrightarrow> m < k"
  by (metis bit_take_bit_iff take_bit_nat_eq_self)

section \<open>Little-endian packing\<close>

text \<open>
  \<open>le_bytes n v\<close> is the little-endian image of \<open>v\<close> on \<open>n\<close> bytes, two's complement when
  \<open>v\<close> is negative; \<open>le_value\<close> reads such an image as an unsigned number.
\<close>

fun le_bytes :: "nat \<Rightarrow> int \<Rightarrow> bytes" where
  "le_bytes 0 v = []"
| "le_bytes (Suc n) v = word_of_int v # le_bytes n (v div 256)"

fun le_value :: "bytes \<Rightarrow> int" where
  "le_value [] = 0"
| "le_value (b # bs) = uint b + 256 * le_value bs"

lemma length_le_bytes [simp]: "length (le_bytes n v) = n"
  by (induction n arbitrary: v) simp_all

lemma le_value_bounds: "0 \<le> le_value bs \<and> le_value bs < 256 ^ length bs"
proof (induction bs)
  case (Cons b bs)
  moreover have "0 \<le> uint b" and "uint b < 256"
    using uint_lt2p [of b] by simp_all
  ultimately show ?case by simp
qed simp

lemma le_value_le_bytes_mod: "le_value (le_bytes n v) = v mod 256 ^ n"
proof (induction n arbitrary: v)
  case (Suc n)
  have "uint (word_of_int v :: byte) = v mod 256"
    by (simp add: uint_word_of_int)
  then have "le_value (le_bytes (Suc n) v) = v mod 256 + 256 * (v div 256 mod 256 ^ n)"
    by (simp add: Suc)
  also have "\<dots> = v mod (256 * 256 ^ n)"
    by (simp add: zmod_zmult2_eq)
  finally show ?case by simp
qed simp

lemma le_value_le_bytes [roundtrip_simps]:
  "0 \<le> v \<Longrightarrow> v < 256 ^ n \<Longrightarrow> le_value (le_bytes n v) = v"
  by (simp add: le_value_le_bytes_mod)

lemma le_bytes_le_value [simp]: "length bs = n \<Longrightarrow> le_bytes n (le_value bs) = bs"
proof (induction bs arbitrary: n)
  case (Cons b bs)
  have "uint b < 256" using uint_lt2p [of b] by simp
  moreover have "0 \<le> uint b" by simp
  ultimately have "(uint b + 256 * le_value bs) div 256 = le_value bs" by linarith
  moreover have "word_of_int (uint b + 256 * le_value bs) = b"
  proof -
    have "256 * w = (0 :: byte)" for w
    proof -
      have "(256 :: byte) = 0" by code_simp
      then show ?thesis by (simp only: mult_zero_left)
    qed
    then show ?thesis by simp
  qed
  ultimately show ?case using Cons by auto
qed simp

lemma le_bytes_mod: "m = 8 * n \<Longrightarrow> le_bytes n (v mod 2 ^ m) = le_bytes n v"
proof (induction n arbitrary: v m)
  case (Suc n)
  have "(word_of_int (v mod 2 ^ m) :: byte) = word_of_int v"
    using Suc.prems by (intro word_of_int_eq_iff [THEN iffD2])
      (simp add: take_bit_eq_mod mod_mod_cancel power_add)
  moreover have "v mod 2 ^ m div 256 = v div 256 mod 2 ^ (8 * n)"
    using Suc.prems by (simp add: power_add zmod_zmult2_eq)
  ultimately show ?case using Suc.IH [of "8 * n"] by simp
qed simp

lemma le_bytes_inj:
  assumes "le_bytes n v = le_bytes n w" "0 \<le> v" "v < 256 ^ n" "0 \<le> w" "w < 256 ^ n"
  shows "v = w"
  using assms by (metis le_value_le_bytes)

text \<open>\<^verbatim>\<open>struct.pack("<i", v)\<close> and \<^verbatim>\<open>struct.pack("<q", v)\<close> refuse what does not fit.\<close>

definition pack_i32 :: "int \<Rightarrow> bytes result" where
  "pack_i32 v = (if - (2 ^ 31) \<le> v \<and> v < 2 ^ 31 then Inr (le_bytes 4 v) else Inl StructError)"

definition pack_i64 :: "int \<Rightarrow> bytes result" where
  "pack_i64 v = (if - (2 ^ 63) \<le> v \<and> v < 2 ^ 63 then Inr (le_bytes 8 v) else Inl StructError)"

definition pack_u32 :: "int \<Rightarrow> bytes result" where
  "pack_u32 v = (if 0 \<le> v \<and> v < 2 ^ 32 then Inr (le_bytes 4 v) else Inl StructError)"

definition pack_u64 :: "int \<Rightarrow> bytes result" where
  "pack_u64 v = (if 0 \<le> v \<and> v < 2 ^ 64 then Inr (le_bytes 8 v) else Inl StructError)"

text \<open>\<^verbatim>\<open>struct.unpack\<close> insists on the exact number of bytes.\<close>

definition unpack_u32 :: "bytes \<Rightarrow> int result" where
  "unpack_u32 bs = (if length bs = 4 then Inr (le_value bs) else Inl StructError)"

definition unpack_u64 :: "bytes \<Rightarrow> int result" where
  "unpack_u64 bs = (if length bs = 8 then Inr (le_value bs) else Inl StructError)"

end
