(* ===== verification/Wire_Format.thy ===== *)
theory Wire_Format
  imports Prelude
begin

text \<open>
  \<^verbatim>\<open>odps/tunnel/pb/wire_format.py\<close> and \<^verbatim>\<open>odps/tunnel/wireconstants.py\<close>: the constants of
  the protocol-buffer wire format, field tags, the zigzag transform, and the functions that
  predict the size of an encoded field. Python integers are \<^typ>\<open>int\<close>; shifts and masks
  are kept as the code writes them.
\<close>

section \<open>Constants\<close>

definition TAG_TYPE_BITS :: nat where "TAG_TYPE_BITS = 3"
definition TAG_TYPE_MASK :: int where "TAG_TYPE_MASK = push_bit TAG_TYPE_BITS 1 - 1"

definition WIRETYPE_VARINT :: int where "WIRETYPE_VARINT = 0"
definition WIRETYPE_FIXED64 :: int where "WIRETYPE_FIXED64 = 1"
definition WIRETYPE_LENGTH_DELIMITED :: int where "WIRETYPE_LENGTH_DELIMITED = 2"
definition WIRETYPE_START_GROUP :: int where "WIRETYPE_START_GROUP = 3"
definition WIRETYPE_END_GROUP :: int where "WIRETYPE_END_GROUP = 4"
definition WIRETYPE_FIXED32 :: int where "WIRETYPE_FIXED32 = 5"
definition WIRETYPE_MAX :: int where "WIRETYPE_MAX = 5"

definition INT32_MAX :: int where "INT32_MAX = push_bit 31 1 - 1"
definition INT32_MIN :: int where "INT32_MIN = - push_bit 31 1"
definition UINT32_MAX :: int where "UINT32_MAX = push_bit 32 1 - 1"
definition INT64_MAX :: int where "INT64_MAX = push_bit 63 1 - 1"
definition INT64_MIN :: int where "INT64_MIN = - push_bit 63 1"
definition UINT64_MAX :: int where "UINT64_MAX = push_bit 64 1 - 1"

definition TUNNEL_META_COUNT :: int where "TUNNEL_META_COUNT = 33554430"
definition TUNNEL_META_CHECKSUM :: int where "TUNNEL_META_CHECKSUM = 33554431"
definition TUNNEL_END_RECORD :: int where "TUNNEL_END_RECORD = 33553408"
definition TUNNEL_END_METRICS :: int where "TUNNEL_END_METRICS = 33554176"

lemmas wiretype_defs =
  WIRETYPE_VARINT_def WIRETYPE_FIXED64_def WIRETYPE_LENGTH_DELIMITED_def
  WIRETYPE_START_GROUP_def WIRETYPE_END_GROUP_def WIRETYPE_FIXED32_def WIRETYPE_MAX_def

lemmas tunnel_tag_defs =
  TUNNEL_META_COUNT_def TUNNEL_META_CHECKSUM_def TUNNEL_END_RECORD_def TUNNEL_END_METRICS_def

lemma int_bounds [simp]:
  "INT32_MAX = 2147483647" "INT32_MIN = -2147483648" "UINT32_MAX = 4294967295"
  "INT64_MAX = 9223372036854775807" "INT64_MIN = -9223372036854775808"
  "UINT64_MAX = 18446744073709551615"
  by (simp_all add: INT32_MAX_def INT32_MIN_def UINT32_MAX_def INT64_MAX_def INT64_MIN_def
      UINT64_MAX_def push_bit_eq_mult)

section \<open>Tags\<close>

definition pack_tag :: "int \<Rightarrow> int \<Rightarrow> int result" where
  "pack_tag field_number wire_type =
     (if \<not> (0 \<le> wire_type \<and> wire_type \<le> WIRETYPE_MAX) then Inl EncodeError
      else Inr (push_bit TAG_TYPE_BITS field_number OR wire_type))"

definition unpack_tag :: "int \<Rightarrow> int \<times> int" where
  "unpack_tag tag = (drop_bit TAG_TYPE_BITS tag, tag AND TAG_TYPE_MASK)"

lemma pack_tag_eq:
  "0 \<le> w \<Longrightarrow> w \<le> 5 \<Longrightarrow> pack_tag f w = Inr (f * 8 + w)"
  using int_disjoint_or [of w 3 f]
  by (simp add: pack_tag_def WIRETYPE_MAX_def TAG_TYPE_BITS_def or.commute add.commute)

lemma pack_tag_error: "pack_tag f w = Inl e \<longleftrightarrow> e = EncodeError \<and> (w < 0 \<or> 5 < w)"
  by (auto simp: pack_tag_def WIRETYPE_MAX_def)

lemma unpack_tag_eq: "unpack_tag t = (t div 8, t mod 8)"
  using int_and_mask [of t 3]
  by (simp add: unpack_tag_def TAG_TYPE_BITS_def TAG_TYPE_MASK_def push_bit_eq_mult int_drop_bit)

lemma unpack_pack_tag [roundtrip_simps]:
  "pack_tag f w = Inr t \<Longrightarrow> unpack_tag t = (f, w)"
proof -
  assume p: "pack_tag f w = Inr t"
  then have w: "0 \<le> w" "w \<le> 5"
    by (auto simp: pack_tag_def WIRETYPE_MAX_def split: if_splits)
  with p have "t = f * 8 + w" by (simp add: pack_tag_eq)
  with w show ?thesis by (simp add: unpack_tag_eq)
qed

section \<open>Zigzag transform\<close>

definition zig_zag_encode :: "int \<Rightarrow> int" where
  "zig_zag_encode v =
     (if 0 \<le> v then push_bit 1 v else (push_bit 1 v XOR NOT 0) OR 1)"

definition zig_zag_decode :: "int \<Rightarrow> int" where
  "zig_zag_decode v =
     (if \<not> (v AND 1 \<noteq> 0) then drop_bit 1 v else drop_bit 1 v XOR NOT 0)"

lemma zig_zag_encode_eq: "zig_zag_encode v = (if 0 \<le> v then 2 * v else - 2 * v - 1)"
proof -
  have "(push_bit 1 v XOR NOT 0) OR 1 = - 2 * v - 1"
    by (simp add: push_bit_eq_mult or_one_eq not_int_def)
  then show ?thesis by (simp add: zig_zag_encode_def push_bit_eq_mult)
qed

lemma zig_zag_decode_eq: "zig_zag_decode v = (if even v then v div 2 else - (v div 2) - 1)"
  by (simp add: zig_zag_decode_def and_one_eq mod_2_eq_odd int_drop_bit not_int_def)

lemma zig_zag_decode_encode [simp, roundtrip_simps]: "zig_zag_decode (zig_zag_encode v) = v"
  by (auto simp: zig_zag_encode_eq zig_zag_decode_eq)

lemma zig_zag_encode_decode: "0 \<le> v \<Longrightarrow> zig_zag_encode (zig_zag_decode v) = v"
  by (auto simp: zig_zag_encode_eq zig_zag_decode_eq elim!: evenE oddE)

lemma zig_zag_encode_nonneg [simp]: "0 \<le> zig_zag_encode v"
  by (simp add: zig_zag_encode_eq)

lemma zig_zag_encode_bound:
  "zig_zag_encode v < 2 * b \<longleftrightarrow> - b \<le> v \<and> v < b"
  by (auto simp: zig_zag_encode_eq)

section \<open>Sizes\<close>

function varint_size_loop :: "int \<Rightarrow> int \<Rightarrow> int" where
  "varint_size_loop n uint64 =
     (if 0x7F < uint64 then varint_size_loop (n + 1) (drop_bit 7 uint64) else n)"
  by pat_completeness auto
termination
  by (relation "measure (\<lambda>(_, u). nat u)") (auto simp: int_drop_bit_less)

declare varint_size_loop.simps [simp del]

definition var_uint64_byte_size_no_tag :: "int \<Rightarrow> int result" where
  "var_uint64_byte_size_no_tag uint64 =
     (if UINT64_MAX < uint64 then Inl EncodeError else Inr (varint_size_loop 1 uint64))"

definition tag_byte_size :: "int \<Rightarrow> int result" where
  "tag_byte_size field_number =
     rbind (pack_tag field_number 0) (\<lambda>t. var_uint64_byte_size_no_tag t)"

definition plus_tag :: "int \<Rightarrow> int result \<Rightarrow> int result" where
  "plus_tag field_number body =
     rbind (tag_byte_size field_number) (\<lambda>t. rbind body (\<lambda>n. Inr (t + n)))"

definition UInt64ByteSize :: "int \<Rightarrow> int \<Rightarrow> int result" where
  "UInt64ByteSize field_number uint64 =
     plus_tag field_number (var_uint64_byte_size_no_tag uint64)"

definition int64_byte_size :: "int \<Rightarrow> int \<Rightarrow> int result" where
  "int64_byte_size field_number int64 =
     UInt64ByteSize field_number (0xFFFFFFFFFFFFFFFF AND int64)"

definition int32_byte_size :: "int \<Rightarrow> int \<Rightarrow> int result" where
  "int32_byte_size field_number int32 = int64_byte_size field_number int32"

definition uint32_byte_size :: "int \<Rightarrow> int \<Rightarrow> int result" where
  "uint32_byte_size field_number uint32 = UInt64ByteSize field_number uint32"

definition sint32_byte_size :: "int \<Rightarrow> int \<Rightarrow> int result" where
  "sint32_byte_size field_number int32 = uint32_byte_size field_number (zig_zag_encode int32)"

definition sint64_byte_size :: "int \<Rightarrow> int \<Rightarrow> int result" where
  "sint64_byte_size field_number int64 = UInt64ByteSize field_number (zig_zag_encode int64)"

definition fixed32_byte_size :: "int \<Rightarrow> int result" where
  "fixed32_byte_size field_number = plus_tag field_number (Inr 4)"

definition fixed64_byte_size :: "int \<Rightarrow> int result" where
  "fixed64_byte_size field_number = plus_tag field_number (Inr 8)"

definition sfixed32_byte_size :: "int \<Rightarrow> int result" where
  "sfixed32_byte_size field_number = plus_tag field_number (Inr 4)"

definition sfixed64_byte_size :: "int \<Rightarrow> int result" where
  "sfixed64_byte_size field_number = plus_tag field_number (Inr 8)"

definition float_byte_size :: "int \<Rightarrow> int result" where
  "float_byte_size field_number = plus_tag field_number (Inr 4)"

definition double_byte_size :: "int \<Rightarrow> int result" where
  "double_byte_size field_number = plus_tag field_number (Inr 8)"

definition bool_byte_size :: "int \<Rightarrow> int result" where
  "bool_byte_size field_number = plus_tag field_number (Inr 1)"

definition enum_byte_size :: "int \<Rightarrow> int \<Rightarrow> int result" where
  "enum_byte_size field_number enum = uint32_byte_size field_number enum"

definition string_byte_size :: "int \<Rightarrow> bytes \<Rightarrow> int result" where
  "string_byte_size field_number str =
     rbind (UInt64ByteSize field_number (int (length str))) (\<lambda>n. Inr (n + int (length str)))"

definition bytes_byte_size :: "int \<Rightarrow> bytes \<Rightarrow> int result" where
  "bytes_byte_size field_number b = string_byte_size field_number b"

definition group_byte_size :: "int \<Rightarrow> int \<Rightarrow> int result" where
  "group_byte_size field_number byte_size =
     rbind (tag_byte_size field_number) (\<lambda>t. Inr (2 * t + byte_size))"

definition message_byte_size :: "int \<Rightarrow> int \<Rightarrow> int result" where
  "message_byte_size field_number byte_size =
     rbind (UInt64ByteSize field_number byte_size) (\<lambda>n. Inr (n + byte_size))"

definition message_set_item_byte_size :: "int \<Rightarrow> int \<Rightarrow> int result" where
  "message_set_item_byte_size field_number message_size =
     rbind (tag_byte_size 1) (\<lambda>t1. rbind (tag_byte_size 2) (\<lambda>t2. rbind (tag_byte_size 3) (\<lambda>t3.
     rbind (var_uint64_byte_size_no_tag field_number) (\<lambda>n.
     rbind (var_uint64_byte_size_no_tag message_size) (\<lambda>m.
       Inr (2 * t1 + t2 + t3 + n + m + message_size))))))"

lemmas byte_size_defs =
  UInt64ByteSize_def int64_byte_size_def int32_byte_size_def uint32_byte_size_def
  sint32_byte_size_def sint64_byte_size_def fixed32_byte_size_def fixed64_byte_size_def
  sfixed32_byte_size_def sfixed64_byte_size_def float_byte_size_def double_byte_size_def
  bytes_byte_size_def bool_byte_size_def enum_byte_size_def string_byte_size_def plus_tag_def tag_byte_size_def

lemma varint_size_loop_plus: "varint_size_loop (k + n) u = k + varint_size_loop n u"
proof (induction n u rule: varint_size_loop.induct)
  case (1 n u)
  show ?case
    using "1.IH"
    by (simp add: varint_size_loop.simps [of "k + n" u] varint_size_loop.simps [of n u]
        add.assoc)
qed

lemma varint_size_loop_step:
  "0x7F < u \<Longrightarrow> varint_size_loop n u = 1 + varint_size_loop n (drop_bit 7 u)"
  using varint_size_loop_plus [of 1 n] by (simp add: varint_size_loop.simps [of n u] add.commute)

end
