(* ===== verification/Pb_Stream.thy ===== *)
theory Pb_Stream
  imports Wire_Format
begin

text \<open>
  \<^verbatim>\<open>odps/tunnel/pb\<close>: \<^verbatim>\<open>output_stream.py\<close> and \<^verbatim>\<open>encoder.py\<close> (the state is the byte buffer),
  \<^verbatim>\<open>input_stream.py\<close> and \<^verbatim>\<open>decoder.py\<close> (the state is the input object and the position).
  The input object is read through an operation \<open>rd n\<close>, its \<^verbatim>\<open>read(n)\<close>, an argument of every
  decoding operation; the locale \<open>byte_source\<close> states what a file-like object promises.
  The wall-clock accounting of \<^verbatim>\<open>record_network_time\<close> is left out.
\<close>

section \<open>OutputStream\<close>

type_synonym out_stream = bytes

definition append_raw_bytes :: "bytes \<Rightarrow> (out_stream, unit) sm" where
  "append_raw_bytes raw_bytes = smod (\<lambda>buf. buf @ raw_bytes)"

definition append_little_endian32 :: "int \<Rightarrow> (out_stream, unit) sm" where
  "append_little_endian32 v =
     (if \<not> (0 \<le> v \<and> v \<le> UINT32_MAX) then sraise EncodeError
      else sbind (slift (pack_u32 v)) append_raw_bytes)"

definition append_little_endian64 :: "int \<Rightarrow> (out_stream, unit) sm" where
  "append_little_endian64 v =
     (if \<not> (0 \<le> v \<and> v \<le> UINT64_MAX) then sraise EncodeError
      else sbind (slift (pack_u64 v)) append_raw_bytes)"

text \<open>
  The loop of \<^verbatim>\<open>append_var_uint64\<close>; it runs on a value already checked to be non-negative.
\<close>

function varint_loop :: "nat \<Rightarrow> out_stream \<Rightarrow> out_stream" where
  "varint_loop u buf =
     (let bits = u AND 0x7F; u' = drop_bit 7 u;
          bits' = (if u' \<noteq> 0 then bits OR 0x80 else bits);
          buf' = buf @ [word_of_nat bits']
      in if u' = 0 then buf' else varint_loop u' buf')"
  by pat_completeness auto
termination
  by (relation "measure fst") (auto simp: drop_bit_eq_div)

declare varint_loop.simps [simp del]

definition append_var_uint64 :: "int \<Rightarrow> (out_stream, unit) sm" where
  "append_var_uint64 v =
     (if \<not> (0 \<le> v \<and> v \<le> UINT64_MAX) then sraise EncodeError else smod (varint_loop (nat v)))"

definition append_varint64 :: "int \<Rightarrow> (out_stream, unit) sm" where
  "append_varint64 v =
     (if \<not> (INT64_MIN \<le> v \<and> v \<le> INT64_MAX) then sraise EncodeError
      else append_var_uint64 (if v < 0 then v + push_bit 64 1 else v))"

definition append_var_uint32 :: "int \<Rightarrow> (out_stream, unit) sm" where
  "append_var_uint32 v =
     (if \<not> (0 \<le> v \<and> v \<le> UINT32_MAX) then sraise EncodeError else append_var_uint64 v)"

definition append_varint32 :: "int \<Rightarrow> (out_stream, unit) sm" where
  "append_varint32 v =
     (if \<not> (INT32_MIN \<le> v \<and> v \<le> INT32_MAX) then sraise EncodeError else append_varint64 v)"

section \<open>Encoder\<close>

text \<open>
  Floating-point values enter as the IEEE-754 bit pattern that \<^verbatim>\<open>struct.pack\<close> gives them; native
  byte order is little-endian.
\<close>

definition append_tag :: "int \<Rightarrow> int \<Rightarrow> (out_stream, unit) sm" where
  "append_tag field_number wire_type =
     sbind (slift (pack_tag field_number wire_type)) append_var_uint32"

definition append_uint32 :: "int \<Rightarrow> (out_stream, unit) sm" where
  "append_uint32 v = append_var_uint32 v"

definition append_uint64 :: "int \<Rightarrow> (out_stream, unit) sm" where
  "append_uint64 v = append_var_uint64 v"

definition append_sint32 :: "int \<Rightarrow> (out_stream, unit) sm" where
  "append_sint32 v = append_var_uint32 (zig_zag_encode v)"

definition append_sint64 :: "int \<Rightarrow> (out_stream, unit) sm" where
  "append_sint64 v = append_var_uint64 (zig_zag_encode v)"

definition append_fixed32 :: "int \<Rightarrow> (out_stream, unit) sm" where
  "append_fixed32 v = append_little_endian32 v"

definition append_fixed64 :: "int \<Rightarrow> (out_stream, unit) sm" where
  "append_fixed64 v = append_little_endian64 v"

definition append_sfixed32 :: "int \<Rightarrow> (out_stream, unit) sm" where
  "append_sfixed32 v =
     (let sign = (if v AND 0x80000000 \<noteq> 0 then - 1 else 0)
      in if drop_bit 32 v \<noteq> sign then sraise EncodeError
         else append_little_endian32 (v AND 0xFFFFFFFF))"

definition append_sfixed64 :: "int \<Rightarrow> (out_stream, unit) sm" where
  "append_sfixed64 v =
     (let sign = (if v AND 0x8000000000000000 \<noteq> 0 then - 1 else 0)
      in if drop_bit 64 v \<noteq> sign then sraise EncodeError
         else append_little_endian64 (v AND 0xFFFFFFFFFFFFFFFF))"

definition append_float :: "32 word \<Rightarrow> (out_stream, unit) sm" where
  "append_float v = append_raw_bytes (le_bytes 4 (uint v))"

definition append_double :: "64 word \<Rightarrow> (out_stream, unit) sm" where
  "append_double v = append_raw_bytes (le_bytes 8 (uint v))"

definition append_bool :: "bool \<Rightarrow> (out_stream, unit) sm" where
  "append_bool v = append_varint32 (of_bool v)"

definition append_string :: "bytes \<Rightarrow> (out_stream, unit) sm" where
  "append_string v = sthen (append_var_uint32 (int (length v))) (append_raw_bytes v)"

definition append_bytes :: "bytes \<Rightarrow> (out_stream, unit) sm" where
  "append_bytes v = append_string v"

section \<open>InputStream\<close>

record 's in_stream =
  is_input :: 's
  is_pos :: nat

type_synonym 's reading = "nat \<Rightarrow> 's \<Rightarrow> bytes \<times> 's"

text \<open>\<^verbatim>\<open>self._input.read(n)\<close>, without moving \<^verbatim>\<open>self._pos\<close>.\<close>

definition input_read :: "'s reading \<Rightarrow> nat \<Rightarrow> ('s in_stream, bytes) sm" where
  "input_read rd n =
     (\<lambda>s. case rd n (is_input s) of (bs, i) \<Rightarrow> (Inr bs, s\<lparr>is_input := i\<rparr>))"

definition advance :: "nat \<Rightarrow> ('s in_stream, unit) sm" where
  "advance n = smod (\<lambda>s. s\<lparr>is_pos := is_pos s + n\<rparr>)"

definition read_string_sized :: "'s reading \<Rightarrow> int \<Rightarrow> ('s in_stream, bytes) sm" where
  "read_string_sized rd n =
     (if n < 0 then sraise DecodeError
      else sbind (input_read rd (nat n)) (\<lambda>s.
        if int (length s) \<noteq> n then sraise DecodeError
        else sthen (advance (length s)) (sret s)))"

text \<open>A \<^verbatim>\<open>struct.error\<close> is turned into a \<^verbatim>\<open>DecodeError\<close> by the handler of both readers.\<close>

definition read_little_endian32 :: "'s reading \<Rightarrow> ('s in_stream, int) sm" where
  "read_little_endian32 rd =
     sbind (input_read rd 4) (\<lambda>bs. case unpack_u32 bs of
       Inl _ \<Rightarrow> sraise DecodeError | Inr i \<Rightarrow> sthen (advance 4) (sret i))"

definition read_little_endian64 :: "'s reading \<Rightarrow> ('s in_stream, int) sm" where
  "read_little_endian64 rd =
     sbind (input_read rd 8) (\<lambda>bs. case unpack_u64 bs of
       Inl _ \<Rightarrow> sraise DecodeError | Inr i \<Rightarrow> sthen (advance 8) (sret i))"

function read_varint_loop ::
  "'s reading \<Rightarrow> int \<Rightarrow> nat \<Rightarrow> 's in_stream \<Rightarrow> int result \<times> 's in_stream" where
  "read_varint_loop rd r shift s =
     (if 64 \<le> shift then (Inl DecodeError, s)
      else case rd 1 (is_input s) of (bs, i) \<Rightarrow>
        (case bs of [] \<Rightarrow> (Inl DecodeError, s\<lparr>is_input := i\<rparr>)
         | b # _ \<Rightarrow>
           (let s' = s\<lparr>is_input := i, is_pos := is_pos s + 1\<rparr>;
                r' = r OR push_bit shift (uint b AND 0x7F)
            in if uint b AND 0x80 = 0 then (Inr r', s')
               else read_varint_loop rd r' (shift + 7) s')))"
  by pat_completeness auto
termination
  by (relation "measure (\<lambda>(_, _, shift, _). 64 - shift)") auto

declare read_varint_loop.simps [simp del]

definition read_varint_helper :: "'s reading \<Rightarrow> ('s in_stream, int) sm" where
  "read_varint_helper rd = read_varint_loop rd 0 0"

definition read_var_uint64 :: "'s reading \<Rightarrow> ('s in_stream, int) sm" where
  "read_var_uint64 rd =
     sbind (read_varint_helper rd) (\<lambda>i.
       if \<not> (0 \<le> i \<and> i \<le> UINT64_MAX) then sraise DecodeError else sret i)"

definition read_varint64 :: "'s reading \<Rightarrow> ('s in_stream, int) sm" where
  "read_varint64 rd =
     sbind (read_var_uint64 rd) (\<lambda>i. sret (if INT64_MAX < i then i - push_bit 64 1 else i))"

definition read_var_uint32 :: "'s reading \<Rightarrow> ('s in_stream, int) sm" where
  "read_var_uint32 rd =
     sbind (read_var_uint64 rd) (\<lambda>i. if UINT32_MAX < i then sraise DecodeError else sret i)"

definition read_varint32 :: "'s reading \<Rightarrow> ('s in_stream, int) sm" where
  "read_varint32 rd =
     sbind (read_varint64 rd) (\<lambda>i.
       if \<not> (INT32_MIN \<le> i \<and> i \<le> INT32_MAX) then sraise DecodeError else sret i)"

section \<open>Decoder\<close>

definition read_uint32 :: "'s reading \<Rightarrow> ('s in_stream, int) sm" where
  "read_uint32 rd = read_var_uint32 rd"

definition read_uint64 :: "'s reading \<Rightarrow> ('s in_stream, int) sm" where
  "read_uint64 rd = read_var_uint64 rd"

definition read_field_number_and_wire_type :: "'s reading \<Rightarrow> ('s in_stream, int \<times> int) sm" where
  "read_field_number_and_wire_type rd = sbind (read_uint32 rd) (\<lambda>t. sret (unpack_tag t))"

definition read_sint32 :: "'s reading \<Rightarrow> ('s in_stream, int) sm" where
  "read_sint32 rd = sbind (read_var_uint32 rd) (\<lambda>v. sret (zig_zag_decode v))"

definition read_sint64 :: "'s reading \<Rightarrow> ('s in_stream, int) sm" where
  "read_sint64 rd = sbind (read_var_uint64 rd) (\<lambda>v. sret (zig_zag_decode v))"

definition read_fixed32 :: "'s reading \<Rightarrow> ('s in_stream, int) sm" where
  "read_fixed32 rd = read_little_endian32 rd"

definition read_fixed64 :: "'s reading \<Rightarrow> ('s in_stream, int) sm" where
  "read_fixed64 rd = read_little_endian64 rd"

definition read_sfixed32 :: "'s reading \<Rightarrow> ('s in_stream, int) sm" where
  "read_sfixed32 rd =
     sbind (read_little_endian32 rd) (\<lambda>v. sret (if push_bit 31 1 \<le> v then v - push_bit 32 1 else v))"

definition read_sfixed64 :: "'s reading \<Rightarrow> ('s in_stream, int) sm" where
  "read_sfixed64 rd =
     sbind (read_little_endian64 rd) (\<lambda>v. sret (if push_bit 63 1 \<le> v then v - push_bit 64 1 else v))"

definition read_float :: "'s reading \<Rightarrow> ('s in_stream, 32 word) sm" where
  "read_float rd = sbind (read_string_sized rd 4) (\<lambda>bs. sret (word_of_int (le_value bs)))"

definition read_double :: "'s reading \<Rightarrow> ('s in_stream, 64 word) sm" where
  "read_double rd = sbind (read_string_sized rd 8) (\<lambda>bs. sret (word_of_int (le_value bs)))"

definition read_bool :: "'s reading \<Rightarrow> ('s in_stream, bool) sm" where
  "read_bool rd = sbind (read_var_uint32 rd) (\<lambda>i. sret (i \<noteq> 0))"

definition read_enum :: "'s reading \<Rightarrow> ('s in_stream, int) sm" where
  "read_enum rd = read_var_uint32 rd"

definition read_string :: "'s reading \<Rightarrow> ('s in_stream, bytes) sm" where
  "read_string rd = sbind (read_var_uint32 rd) (\<lambda>n. read_string_sized rd n)"

end
