(* ===== verification/Pb_Codec.thy ===== *)
theory Pb_Codec
  imports Pb_Stream
begin

text \<open>
  The laws of the encoder and the decoder. \<open>byte_source\<close> is the contract of a file-like object
  (\<^verbatim>\<open>read(n)\<close> returns the next \<open>n\<close> bytes, fewer only at the end); decoding from any such
  object is simulated by decoding from the list of bytes it holds. \<open>field_codec\<close> is the contract
  of one kind of field: what the encoder appends is what the decoder consumes. Every pair of
  encoding and decoding methods is an interpretation of it.
\<close>

section \<open>Byte sources\<close>

definition list_read :: "bytes reading" where
  "list_read n bs = (take n bs, drop n bs)"

lemma list_read_simps [simp]:
  "fst (list_read n bs) = take n bs" "snd (list_read n bs) = drop n bs"
  by (simp_all add: list_read_def)

locale byte_source =
  fixes rd :: "nat \<Rightarrow> 's \<Rightarrow> bytes \<times> 's"
    and content :: "'s \<Rightarrow> bytes"
    and valid :: "'s \<Rightarrow> bool"
  assumes rd_result: "valid s \<Longrightarrow> fst (rd n s) = take n (content s)"
    and rd_content: "valid s \<Longrightarrow> content (snd (rd n s)) = drop n (content s)"
    and rd_valid: "valid s \<Longrightarrow> valid (snd (rd n s))"
begin

definition holds :: "'s in_stream \<Rightarrow> bytes in_stream \<Rightarrow> bool" where
  "holds s t \<longleftrightarrow> valid (is_input s) \<and> is_input t = content (is_input s) \<and> is_pos t = is_pos s"

lemma sim_input_read [sim_intros]: "ssim holds (input_read rd n) (input_read list_read n)"
  by (auto simp: ssim_def input_read_def holds_def list_read_def rd_result rd_content rd_valid
      split: prod.splits) (metis fst_conv snd_conv rd_result rd_content rd_valid)+

lemma sim_advance [sim_intros]: "ssim holds (advance n) (advance n)"
  unfolding advance_def by (intro sim_intros) (simp add: holds_def)

lemma sim_read_varint_loop:
  assumes "holds s t"
  shows "fst (read_varint_loop rd r shift s) = fst (read_varint_loop list_read r shift t) \<and>
    holds (snd (read_varint_loop rd r shift s)) (snd (read_varint_loop list_read r shift t))"
  using assms
proof (induction "64 - shift" arbitrary: r shift s t rule: less_induct)
  case less
  obtain bs i where rd: "rd 1 (is_input s) = (bs, i)" by fastforce
  with less.prems have h: "bs = take 1 (is_input t)" "content i = drop 1 (is_input t)" "valid i"
    by (auto simp: holds_def dest: rd_result [of _ 1] rd_content [of _ 1] rd_valid [of _ 1])
  note unfold = read_varint_loop.simps [of rd r shift s]
    read_varint_loop.simps [of list_read r shift t]
  show ?case
  proof (cases "64 \<le> shift")
    case True
    with less.prems show ?thesis by (simp add: unfold)
  next
    case sh: False
    show ?thesis
    proof (cases "is_input t")
      case Nil
      with sh rd h less.prems show ?thesis
        by (simp add: unfold holds_def list_read_def)
    next
      case (Cons b cs)
      define s' t' where "s' = s\<lparr>is_input := i, is_pos := is_pos s + 1\<rparr>"
        and "t' = t\<lparr>is_input := cs, is_pos := is_pos t + 1\<rparr>"
      have st: "holds s' t'"
        using h Cons less.prems by (simp add: s'_def t'_def holds_def)
      from sh have "64 - (shift + 7) < 64 - shift" by simp
      note IH = less.hyps [OF this st]
      show ?thesis
        using sh rd h Cons st IH by (simp add: unfold list_read_def Let_def s'_def t'_def)
    qed
  qed
qed

lemma sim_read_varint_helper [sim_intros]:
  "ssim holds (read_varint_helper rd) (read_varint_helper list_read)"
  by (simp add: ssim_def read_varint_helper_def sim_read_varint_loop)

lemma sim_read_string_sized [sim_intros]:
  "ssim holds (read_string_sized rd n) (read_string_sized list_read n)"
  unfolding read_string_sized_def by (intro sim_intros)

lemma sim_read_little_endian [sim_intros]:
  "ssim holds (read_little_endian32 rd) (read_little_endian32 list_read)"
  "ssim holds (read_little_endian64 rd) (read_little_endian64 list_read)"
  unfolding read_little_endian32_def read_little_endian64_def
  by (intro sim_intros; simp split: sum.split; intro conjI allI impI sim_intros)+

lemma sim_read_varints [sim_intros]:
  "ssim holds (read_var_uint64 rd) (read_var_uint64 list_read)"
  "ssim holds (read_var_uint32 rd) (read_var_uint32 list_read)"
  "ssim holds (read_varint64 rd) (read_varint64 list_read)"
  "ssim holds (read_varint32 rd) (read_varint32 list_read)"
  unfolding read_var_uint64_def read_var_uint32_def read_varint64_def read_varint32_def
  by (intro sim_intros)+

text \<open>Every method of the decoder gives on the source what it gives on the source's bytes.\<close>

lemma sim_decoder [sim_intros]:
  "ssim holds (read_field_number_and_wire_type rd) (read_field_number_and_wire_type list_read)"
  "ssim holds (read_uint32 rd) (read_uint32 list_read)"
  "ssim holds (read_uint64 rd) (read_uint64 list_read)"
  "ssim holds (read_sint32 rd) (read_sint32 list_read)"
  "ssim holds (read_sint64 rd) (read_sint64 list_read)"
  "ssim holds (read_fixed32 rd) (read_fixed32 list_read)"
  "ssim holds (read_fixed64 rd) (read_fixed64 list_read)"
  "ssim holds (read_sfixed32 rd) (read_sfixed32 list_read)"
  "ssim holds (read_sfixed64 rd) (read_sfixed64 list_read)"
  "ssim holds (read_float rd) (read_float list_read)"
  "ssim holds (read_double rd) (read_double list_read)"
  "ssim holds (read_bool rd) (read_bool list_read)"
  "ssim holds (read_enum rd) (read_enum list_read)"
  "ssim holds (read_string rd) (read_string list_read)"
  unfolding read_field_number_and_wire_type_def read_uint32_def read_uint64_def read_sint32_def
    read_sint64_def read_fixed32_def read_fixed64_def read_sfixed32_def read_sfixed64_def
    read_float_def read_double_def read_bool_def read_enum_def read_string_def
  by (intro sim_intros)+

end

interpretation list_source: byte_source list_read "\<lambda>bs. bs" "\<lambda>_. True"
  by unfold_locales (simp_all add: list_read_def)

section \<open>Varints\<close>

text \<open>What the loop of \<^verbatim>\<open>append_var_uint64\<close> appends: base-128 digits, least significant first.\<close>

fun varint_img :: "nat \<Rightarrow> bytes" where
  "varint_img u =
     (if u < 128 then [word_of_nat u] else word_of_nat (u mod 128 + 128) # varint_img (u div 128))"

declare varint_img.simps [simp del]

lemma nat_and_127: "(u::nat) AND 127 = u mod 128"
  using take_bit_eq_mask [of 7 u] by (simp add: mask_eq_exp_minus_1 take_bit_eq_mod)

lemma nat_or_128: "(u::nat) < 128 \<Longrightarrow> u OR 128 = u + 128"
  using nat_disjoint_or [of u 7 1] by (simp add: push_bit_eq_mult)

lemma varint_loop_img: "varint_loop u buf = buf @ varint_img u"
proof (induction u buf rule: varint_loop.induct)
  case (1 u buf)
  show ?case
  proof (cases "u < 128")
    case True
    then have "drop_bit 7 u = 0" by (simp add: drop_bit_eq_div)
    with True show ?thesis
      by (simp add: varint_loop.simps [of u] varint_img.simps [of u] nat_and_127)
  next
    case False
    then have d: "drop_bit 7 u \<noteq> 0" by (simp add: drop_bit_eq_div)
    have "varint_loop u buf
        = varint_loop (drop_bit 7 u) (buf @ [word_of_nat (u AND 127 OR 128)])"
      using d by (simp add: varint_loop.simps [of u])
    also have "\<dots> = buf @ [word_of_nat (u AND 127 OR 128)] @ varint_img (drop_bit 7 u)"
      using "1.IH" d by (simp add: Let_def)
    finally show ?thesis
      using False by (simp add: varint_img.simps [of u] nat_and_127 nat_or_128 drop_bit_eq_div)
  qed
qed

lemma varint_img_nonempty [simp]: "varint_img u \<noteq> []"
  by (simp add: varint_img.simps [of u])

lemma uint_byte_of_nat: "u < 256 \<Longrightarrow> uint (word_of_nat u :: byte) = int u"
  by (simp add: unsigned_of_nat take_bit_nat_eq_self flip: uint_nat)

lemma int_and_127: "(n::int) AND 127 = n mod 128"
  using int_and_mask [of n 7] by simp

lemma int_and_128_zero: "(n::int) AND 128 = 0 \<longleftrightarrow> \<not> bit n 7"
  using and_exp_eq_0_iff_not_bit [of n 7] by simp

lemma bit7_low: "u < 128 \<Longrightarrow> \<not> bit (int u) 7"
  by (simp add: bit_iff_odd)

lemma bit7_high: "u < 128 \<Longrightarrow> bit (int u + 128) 7"
proof -
  assume "u < 128"
  then have "(int u + 128) div 128 = 1" by (simp add: div_add_self2)
  then show ?thesis by (simp add: bit_iff_odd)
qed

lemmas varint_byte_simps =
  uint_byte_of_nat int_and_127 int_and_128_zero bit7_low bit7_high

lemma read_varint_loop_Cons:
  "shift < 64 \<Longrightarrow> read_varint_loop list_read r shift \<lparr>is_input = b # bs, is_pos = p\<rparr> =
    (let r' = r OR push_bit shift (uint b AND 127); s' = \<lparr>is_input = bs, is_pos = Suc p\<rparr>
     in if uint b AND 128 = 0 then (Inr r', s')
        else read_varint_loop list_read r' (shift + 7) s')"
  by (simp add: read_varint_loop.simps [of list_read r shift] list_read_def Let_def)

lemma read_varint_loop_img:
  assumes "0 \<le> r" and "r < 2 ^ shift" and "shift < 64" and "u < 2 ^ (64 - shift)"
  shows "read_varint_loop list_read r shift \<lparr>is_input = varint_img u @ rest, is_pos = p\<rparr> =
    (Inr (r + int u * 2 ^ shift), \<lparr>is_input = rest, is_pos = p + length (varint_img u)\<rparr>)"
  using assms
proof (induction u arbitrary: r shift p rule: varint_img.induct)
  case (1 u)
  show ?case
  proof (cases "u < 128")
    case True
    with "1.prems" show ?thesis
      by (simp add: read_varint_loop_Cons varint_img.simps [of u] varint_byte_simps int_disjoint_or)
  next
    case False
    define d where "d = u mod 128"
    have "u = d + 128 * (u div 128)" by (simp add: d_def)
    then have "int u = int (d + 128 * (u div 128))" by (simp only:)
    then have d2: "int u = int d + 128 * int (u div 128)"
      by (simp only: of_nat_add of_nat_mult of_nat_numeral)
    have "d < 128" by (simp add: d_def)
    note d = this d2
    have "7 < 64 - shift"
    proof (rule ccontr)
      assume "\<not> 7 < 64 - shift"
      then have "(2::nat) ^ (64 - shift) \<le> 2 ^ 7" by (intro power_increasing) simp_all
      with False "1.prems"(4) show False by simp
    qed
    then have sh: "shift + 7 < 64" and e: "64 - shift = (64 - (shift + 7)) + 7" by simp_all
    have u: "u div 128 < 2 ^ (64 - (shift + 7))"
      using "1.prems"(4) unfolding e power_add by (simp add: less_mult_imp_div_less)
    define r' where "r' = r + int d * 2 ^ shift"
    have "int d * 2 ^ shift \<le> 127 * 2 ^ shift"
      using d by (intro mult_right_mono) simp_all
    then have "r' < 2 ^ shift + 127 * 2 ^ shift"
      using "1.prems"(2) unfolding r'_def by linarith
    then have r': "0 \<le> r'" "r' < 2 ^ (shift + 7)"
      using "1.prems"(1) by (simp_all add: r'_def power_add)
    have "read_varint_loop list_read r shift \<lparr>is_input = varint_img u @ rest, is_pos = p\<rparr> =
      read_varint_loop list_read r' (shift + 7)
        \<lparr>is_input = varint_img (u div 128) @ rest, is_pos = Suc p\<rparr>"
    proof -
      define b :: byte where "b = word_of_nat (d + 128)"
      have b: "uint b = int d + 128"
        using uint_byte_of_nat [of "d + 128"] d(1) by (simp only: b_def)
      have "varint_img u = b # varint_img (u div 128)"
        using False by (simp only: varint_img.simps [of u] b_def d_def if_False)
      moreover have "r OR push_bit shift (uint b AND 127) = r'"
        using b d(1) "1.prems"(1,2) by (simp only: int_and_127) (simp add: int_disjoint_or r'_def)
      moreover have "uint b AND 128 \<noteq> 0"
        using b d(1) by (simp add: int_and_128_zero bit7_high)
      ultimately show ?thesis
        using sh by (simp only: append_Cons read_varint_loop_Cons Let_def if_False)
    qed
    also have "\<dots> = (Inr (r' + int (u div 128) * 2 ^ (shift + 7)),
        \<lparr>is_input = rest, is_pos = Suc p + length (varint_img (u div 128))\<rparr>)"
      using "1.IH" [OF False r' sh u] by simp
    finally show ?thesis
      using False d by (simp add: varint_img.simps [of u] r'_def algebra_simps power_add)
  qed
qed

lemma read_varint_helper_img:
  "u < 2 ^ 64 \<Longrightarrow> read_varint_helper list_read \<lparr>is_input = varint_img u @ rest, is_pos = p\<rparr> =
    (Inr (int u), \<lparr>is_input = rest, is_pos = p + length (varint_img u)\<rparr>)"
  using read_varint_loop_img [of 0 0 u] by (simp add: read_varint_helper_def)

section \<open>Field codecs\<close>

text \<open>
  \<open>enc\<close> appends \<open>img x\<close> for every value \<open>x\<close> that is \<open>ok\<close>, and \<open>dec\<close> consumes exactly that.
\<close>

locale field_codec =
  fixes enc :: "'a \<Rightarrow> (bytes, unit) sm"
    and dec :: "(bytes in_stream, 'a) sm"
    and ok :: "'a \<Rightarrow> bool"
    and img :: "'a \<Rightarrow> bytes"
  assumes enc_img: "ok x \<Longrightarrow> enc x buf = (Inr (), buf @ img x)"
    and dec_img: "ok x \<Longrightarrow> dec \<lparr>is_input = img x @ rest, is_pos = p\<rparr> =
      (Inr x, \<lparr>is_input = rest, is_pos = p + length (img x)\<rparr>)"
begin

lemma roundtrip:
  "ok x \<Longrightarrow> dec \<lparr>is_input = snd (enc x []) @ rest, is_pos = p\<rparr> =
    (Inr x, \<lparr>is_input = rest, is_pos = p + length (snd (enc x []))\<rparr>)"
  by (simp add: enc_img dec_img)

text \<open>The images are uniquely readable: no image is a prefix of another.\<close>

lemma img_prefix_free:
  assumes "ok x" and "ok y" and "img x @ r = img y @ r'"
  shows "x = y \<and> r = r'"
proof -
  have "dec \<lparr>is_input = img x @ r, is_pos = 0\<rparr> = dec \<lparr>is_input = img y @ r', is_pos = 0\<rparr>"
    using assms(3) by simp
  with assms(1,2) show ?thesis by (simp add: dec_img)
qed

lemma enc_all:
  "\<forall>x \<in> set xs. ok x \<Longrightarrow>
   sseq (map enc xs) buf = (Inr (replicate (length xs) ()), buf @ concat (map img xs))"
  by (induction xs arbitrary: buf) (simp_all add: sbind_apply enc_img sret_apply)

lemma dec_all:
  "\<forall>x \<in> set xs. ok x \<Longrightarrow>
   sseq (replicate (length xs) dec) \<lparr>is_input = concat (map img xs) @ rest, is_pos = p\<rparr> =
     (Inr xs, \<lparr>is_input = rest, is_pos = p + length (concat (map img xs))\<rparr>)"
  by (induction xs arbitrary: p) (simp_all add: sbind_apply dec_img sret_apply add.assoc)

text \<open>A sequence of fields written one after the other is read back field by field.\<close>

lemma roundtrip_all:
  assumes "\<forall>x \<in> set xs. ok x"
  shows "sseq (replicate (length xs) dec)
      \<lparr>is_input = snd (sseq (map enc xs) []) @ rest, is_pos = p\<rparr> =
    (Inr xs, \<lparr>is_input = rest, is_pos = p + length (snd (sseq (map enc xs) []))\<rparr>)"
  using dec_all [OF assms] by (simp add: enc_all [OF assms])

end

section \<open>The encoder's methods as codecs\<close>

definition uint_img :: "int \<Rightarrow> bytes" where
  "uint_img v = varint_img (nat v)"

definition sint_img :: "int \<Rightarrow> bytes" where
  "sint_img v = varint_img (nat (zig_zag_encode v))"

definition string_img :: "bytes \<Rightarrow> bytes" where
  "string_img s = varint_img (length s) @ s"

interpretation uint64_codec: field_codec append_uint64 "read_uint64 list_read"
  "\<lambda>v. 0 \<le> v \<and> v < 2 ^ 64" uint_img
proof
  fix v :: int and buf :: bytes
  assume "0 \<le> v \<and> v < 2 ^ 64"
  then show "append_uint64 v buf = (Inr (), buf @ uint_img v)"
    by (simp add: append_uint64_def append_var_uint64_def smod_apply varint_loop_img uint_img_def)
next
  fix v :: int and rest p
  assume v: "0 \<le> v \<and> v < 2 ^ 64"
  then have "nat v < 2 ^ 64" by (simp add: nat_less_iff)
  with v show "read_uint64 list_read \<lparr>is_input = uint_img v @ rest, is_pos = p\<rparr> =
      (Inr v, \<lparr>is_input = rest, is_pos = p + length (uint_img v)\<rparr>)"
    by (simp add: read_uint64_def read_var_uint64_def uint_img_def sbind_apply sret_apply
        read_varint_helper_img)
qed

interpretation uint32_codec: field_codec append_uint32 "read_uint32 list_read"
  "\<lambda>v. 0 \<le> v \<and> v < 2 ^ 32" uint_img
proof
  fix v :: int and buf :: bytes
  assume "0 \<le> v \<and> v < 2 ^ 32"
  then show "append_uint32 v buf = (Inr (), buf @ uint_img v)"
    using uint64_codec.enc_img [of v buf]
    by (simp add: append_uint32_def append_var_uint32_def append_uint64_def)
next
  fix v :: int and rest p
  assume "0 \<le> v \<and> v < 2 ^ 32"
  then show "read_uint32 list_read \<lparr>is_input = uint_img v @ rest, is_pos = p\<rparr> =
      (Inr v, \<lparr>is_input = rest, is_pos = p + length (uint_img v)\<rparr>)"
    using uint64_codec.dec_img [of v rest p]
    by (simp add: read_uint32_def read_var_uint32_def read_uint64_def sbind_apply sret_apply)
qed

interpretation sint64_codec: field_codec append_sint64 "read_sint64 list_read"
  "\<lambda>v. - (2 ^ 63) \<le> v \<and> v < 2 ^ 63" sint_img
proof
  fix v :: int and buf :: bytes
  assume v: "- (2 ^ 63) \<le> v \<and> v < 2 ^ 63"
  then have z: "zig_zag_encode v < 2 ^ 64" using zig_zag_encode_bound [of v "2 ^ 63"] by simp
  show "append_sint64 v buf = (Inr (), buf @ sint_img v)"
    using uint64_codec.enc_img [of "zig_zag_encode v" buf] z
    by (simp add: append_sint64_def append_uint64_def sint_img_def uint_img_def)
  fix rest p
  show "read_sint64 list_read \<lparr>is_input = sint_img v @ rest, is_pos = p\<rparr> =
      (Inr v, \<lparr>is_input = rest, is_pos = p + length (sint_img v)\<rparr>)"
    using uint64_codec.dec_img [of "zig_zag_encode v" rest p] z
    by (simp add: read_sint64_def read_uint64_def sint_img_def uint_img_def sbind_apply sret_apply)
qed

interpretation sint32_codec: field_codec append_sint32 "read_sint32 list_read"
  "\<lambda>v. - (2 ^ 31) \<le> v \<and> v < 2 ^ 31" sint_img
proof
  fix v :: int and buf :: bytes
  assume v: "- (2 ^ 31) \<le> v \<and> v < 2 ^ 31"
  then have z: "zig_zag_encode v < 2 ^ 32" using zig_zag_encode_bound [of v "2 ^ 31"] by simp
  show "append_sint32 v buf = (Inr (), buf @ sint_img v)"
    using uint32_codec.enc_img [of "zig_zag_encode v" buf] z
    by (simp add: append_sint32_def append_uint32_def sint_img_def uint_img_def)
  fix rest p
  show "read_sint32 list_read \<lparr>is_input = sint_img v @ rest, is_pos = p\<rparr> =
      (Inr v, \<lparr>is_input = rest, is_pos = p + length (sint_img v)\<rparr>)"
    using uint32_codec.dec_img [of "zig_zag_encode v" rest p] z
    by (simp add: read_sint32_def read_uint32_def sint_img_def uint_img_def sbind_apply sret_apply)
qed

interpretation varint64_codec: field_codec append_varint64 "read_varint64 list_read"
  "\<lambda>v. - (2 ^ 63) \<le> v \<and> v < 2 ^ 63" "\<lambda>v. uint_img (v mod 2 ^ 64)"
proof
  fix v :: int and buf :: bytes
  assume v: "- (2 ^ 63) \<le> v \<and> v < 2 ^ 63"
  have m: "v mod 18446744073709551616 = (if v < 0 then v + 18446744073709551616 else v)"
    using v mod_pos_pos_trivial [of "v + 2 ^ 64" "2 ^ 64"] by simp
  show "append_varint64 v buf = (Inr (), buf @ uint_img (v mod 2 ^ 64))"
    using uint64_codec.enc_img [of "v mod 2 ^ 64" buf] v
    by (cases "v < 0") (simp_all add: append_varint64_def append_uint64_def m push_bit_eq_mult)
  fix rest p
  show "read_varint64 list_read \<lparr>is_input = uint_img (v mod 2 ^ 64) @ rest, is_pos = p\<rparr> =
      (Inr v, \<lparr>is_input = rest, is_pos = p + length (uint_img (v mod 2 ^ 64))\<rparr>)"
    using uint64_codec.dec_img [of "v mod 2 ^ 64" rest p] v
    by (cases "v < 0")
      (simp_all add: read_varint64_def read_uint64_def sbind_apply sret_apply m push_bit_eq_mult)
qed

interpretation bool_codec: field_codec append_bool "read_bool list_read"
  "\<lambda>_. True" "\<lambda>b. uint_img (of_bool b)"
proof
  fix b :: bool and buf :: bytes
  show "append_bool b buf = (Inr (), buf @ uint_img (of_bool b))"
    using varint64_codec.enc_img [of "of_bool b" buf]
    by (simp add: append_bool_def append_varint32_def of_bool_def split: if_splits)
  fix rest p
  show "read_bool list_read \<lparr>is_input = uint_img (of_bool b) @ rest, is_pos = p\<rparr> =
      (Inr b, \<lparr>is_input = rest, is_pos = p + length (uint_img (of_bool b))\<rparr>)"
    using uint32_codec.dec_img [of "of_bool b" rest p]
    by (simp add: read_bool_def read_uint32_def sbind_apply sret_apply)
qed

lemma read_string_sized_exact:
  "length s = n \<Longrightarrow> read_string_sized list_read (int n) \<lparr>is_input = s @ rest, is_pos = p\<rparr> =
    (Inr s, \<lparr>is_input = rest, is_pos = p + n\<rparr>)"
  by (simp add: read_string_sized_def input_read_def advance_def sbind_apply sret_apply smod_apply
      list_read_def)

interpretation string_codec: field_codec append_string "read_string list_read"
  "\<lambda>s. length s < 2 ^ 32" string_img
proof
  fix s buf :: bytes
  assume s: "length s < 2 ^ 32"
  show "append_string s buf = (Inr (), buf @ string_img s)"
    using uint32_codec.enc_img [of "int (length s)" buf] s
    by (simp add: append_string_def append_uint32_def append_raw_bytes_def sbind_apply smod_apply
        string_img_def uint_img_def)
  fix rest p
  show "read_string list_read \<lparr>is_input = string_img s @ rest, is_pos = p\<rparr> =
      (Inr s, \<lparr>is_input = rest, is_pos = p + length (string_img s)\<rparr>)"
    using uint32_codec.dec_img [of "int (length s)" "s @ rest" p] s
    by (simp add: read_string_def read_uint32_def sbind_apply string_img_def uint_img_def
        read_string_sized_exact)
qed

interpretation float_codec: field_codec append_float "read_float list_read"
  "\<lambda>_. True" "\<lambda>w. le_bytes 4 (uint w)"
proof
  fix w :: "32 word" and buf :: bytes
  show "append_float w buf = (Inr (), buf @ le_bytes 4 (uint w))"
    by (simp add: append_float_def append_raw_bytes_def smod_apply)
  fix rest p
  have "0 \<le> uint w" "uint w < 2 ^ 32" using uint_lt2p [of w] by simp_all
  then show "read_float list_read \<lparr>is_input = le_bytes 4 (uint w) @ rest, is_pos = p\<rparr> =
      (Inr w, \<lparr>is_input = rest, is_pos = p + length (le_bytes 4 (uint w))\<rparr>)"
    using read_string_sized_exact [of "le_bytes 4 (uint w)" 4 rest p]
    by (simp add: read_float_def sbind_apply sret_apply le_value_le_bytes)
qed

interpretation double_codec: field_codec append_double "read_double list_read"
  "\<lambda>_. True" "\<lambda>w. le_bytes 8 (uint w)"
proof
  fix w :: "64 word" and buf :: bytes
  show "append_double w buf = (Inr (), buf @ le_bytes 8 (uint w))"
    by (simp add: append_double_def append_raw_bytes_def smod_apply)
  fix rest p
  have "0 \<le> uint w" "uint w < 2 ^ 64" using uint_lt2p [of w] by simp_all
  then show "read_double list_read \<lparr>is_input = le_bytes 8 (uint w) @ rest, is_pos = p\<rparr> =
      (Inr w, \<lparr>is_input = rest, is_pos = p + length (le_bytes 8 (uint w))\<rparr>)"
    using read_string_sized_exact [of "le_bytes 8 (uint w)" 8 rest p]
    by (simp add: read_double_def sbind_apply sret_apply le_value_le_bytes)
qed

interpretation fixed32_codec: field_codec append_fixed32 "read_fixed32 list_read"
  "\<lambda>v. 0 \<le> v \<and> v < 2 ^ 32" "le_bytes 4"
  by unfold_locales
    (simp_all add: append_fixed32_def append_little_endian32_def append_raw_bytes_def pack_u32_def
      read_fixed32_def read_little_endian32_def input_read_def advance_def list_read_def
      unpack_u32_def le_value_le_bytes monad_simps)

interpretation fixed64_codec: field_codec append_fixed64 "read_fixed64 list_read"
  "\<lambda>v. 0 \<le> v \<and> v < 2 ^ 64" "le_bytes 8"
  by unfold_locales
    (simp_all add: append_fixed64_def append_little_endian64_def append_raw_bytes_def pack_u64_def
      read_fixed64_def read_little_endian64_def input_read_def advance_def list_read_def
      unpack_u64_def le_value_le_bytes monad_simps)

text \<open>
  The sign test of \<^verbatim>\<open>append_sfixed32\<close> and \<^verbatim>\<open>append_sfixed64\<close> accepts exactly the values of the width.
\<close>

lemma sfixed_sign_test:
  "drop_bit (Suc k) (v::int) \<noteq> (if v AND 2 ^ k \<noteq> 0 then - 1 else 0) \<longleftrightarrow>
   \<not> (- (2 ^ k) \<le> v \<and> v < 2 ^ k)"
proof -
  define q where "q = v div 2 ^ k"
  have b: "v AND 2 ^ k \<noteq> 0 \<longleftrightarrow> odd q"
    by (simp add: and_exp_eq_0_iff_not_bit bit_iff_odd q_def)
  have d: "drop_bit (Suc k) v = q div 2"
    by (simp add: int_drop_bit q_def power_Suc2 zdiv_zmult2_eq del: power_Suc)
  have "q div 2 = (if odd q then - 1 else 0) \<longleftrightarrow> q = 0 \<or> q = - 1" by presburger
  also have "\<dots> \<longleftrightarrow> - 1 \<le> q \<and> q < 1" by auto
  also have "- 1 \<le> q \<longleftrightarrow> - (2 ^ k) \<le> v"
  proof -
    have "(v + 2 ^ k) div 2 ^ k = q + 1" by (simp add: q_def div_add_self2)
    with pos_imp_zdiv_nonneg_iff [of "2 ^ k" "v + 2 ^ k"] show ?thesis by auto
  qed
  also have "q < 1 \<longleftrightarrow> v < 2 ^ k"
  proof -
    have "(v + (- 1) * 2 ^ k) div 2 ^ k = q - 1"
      by (subst div_mult_self1) (simp_all add: q_def)
    with pos_imp_zdiv_neg_iff [of "2 ^ k" "v + (- 1) * 2 ^ k"] show ?thesis by auto
  qed
  finally show ?thesis by (simp only: b d)
qed

lemma signed_of_mod:
  assumes "- h \<le> v" and "v < h"
  shows "(h \<le> v mod (2 * h) \<longrightarrow> v mod (2 * h) - 2 * h = v) \<and>
    (\<not> h \<le> v mod (2 * h) \<longrightarrow> v mod (2 * h) = (v::int))"
proof (cases "v < 0")
  case True
  with assms mod_pos_pos_trivial [of "v + 2 * h" "2 * h"] show ?thesis by simp
next
  case False
  with assms mod_pos_pos_trivial [of v "2 * h"] show ?thesis by simp
qed

interpretation sfixed32_codec: field_codec append_sfixed32 "read_sfixed32 list_read"
  "\<lambda>v. - (2 ^ 31) \<le> v \<and> v < 2 ^ 31" "le_bytes 4"
proof
  fix v :: int and buf :: bytes
  assume v: "- (2 ^ 31) \<le> v \<and> v < 2 ^ 31"
  have t: "drop_bit 32 v = (if v AND 2 ^ 31 \<noteq> 0 then - 1 else 0)"
    using sfixed_sign_test [of 31 v] v by (simp del: power_numeral)
  have m: "v AND (2 ^ 32 - 1) = v mod 2 ^ 32" by (rule int_and_mask)
  have le: "le_bytes 4 (v mod 2 ^ 32) = le_bytes 4 v" by (rule le_bytes_mod) simp
  show "append_sfixed32 v buf = (Inr (), buf @ le_bytes 4 v)"
    using t m le
    by (simp add: append_sfixed32_def append_little_endian32_def append_raw_bytes_def pack_u32_def
        Let_def monad_simps split: if_splits)
  fix rest p
  show "read_sfixed32 list_read \<lparr>is_input = le_bytes 4 v @ rest, is_pos = p\<rparr> =
      (Inr v, \<lparr>is_input = rest, is_pos = p + length (le_bytes 4 v)\<rparr>)"
    using signed_of_mod [of "2 ^ 31" v] v
    by (simp add: read_sfixed32_def read_little_endian32_def input_read_def advance_def list_read_def
        unpack_u32_def le_value_le_bytes_mod push_bit_eq_mult monad_simps)
qed

interpretation sfixed64_codec: field_codec append_sfixed64 "read_sfixed64 list_read"
  "\<lambda>v. - (2 ^ 63) \<le> v \<and> v < 2 ^ 63" "le_bytes 8"
proof
  fix v :: int and buf :: bytes
  assume v: "- (2 ^ 63) \<le> v \<and> v < 2 ^ 63"
  have t: "drop_bit 64 v = (if v AND 2 ^ 63 \<noteq> 0 then - 1 else 0)"
    using sfixed_sign_test [of 63 v] v by (simp del: power_numeral)
  have m: "v AND (2 ^ 64 - 1) = v mod 2 ^ 64" by (rule int_and_mask)
  have le: "le_bytes 8 (v mod 2 ^ 64) = le_bytes 8 v" by (rule le_bytes_mod) simp
  show "append_sfixed64 v buf = (Inr (), buf @ le_bytes 8 v)"
    using t m le
    by (simp add: append_sfixed64_def append_little_endian64_def append_raw_bytes_def pack_u64_def
        Let_def monad_simps split: if_splits)
  fix rest p
  show "read_sfixed64 list_read \<lparr>is_input = le_bytes 8 v @ rest, is_pos = p\<rparr> =
      (Inr v, \<lparr>is_input = rest, is_pos = p + length (le_bytes 8 v)\<rparr>)"
    using signed_of_mod [of "2 ^ 63" v] v
    by (simp add: read_sfixed64_def read_little_endian64_def input_read_def advance_def list_read_def
        unpack_u64_def le_value_le_bytes_mod push_bit_eq_mult monad_simps)
qed

section \<open>Sizes\<close>

lemma length_varint_img: "int (length (varint_img u)) = varint_size_loop 1 (int u)"
proof (induction u rule: varint_img.induct)
  case (1 u)
  show ?case
  proof (cases "u < 128")
    case True
    then show ?thesis by (simp add: varint_img.simps [of u] varint_size_loop.simps)
  next
    case False
    moreover from False have "drop_bit 7 (int u) = int (u div 128)"
      by (simp add: int_drop_bit zdiv_int)
    ultimately show ?thesis
      using "1.IH" varint_size_loop_step [of "int u" 1]
      by (simp add: varint_img.simps [of u])
  qed
qed

lemma var_uint64_byte_size_img:
  "0 \<le> v \<Longrightarrow> v < 2 ^ 64 \<Longrightarrow>
   var_uint64_byte_size_no_tag v = Inr (int (length (uint_img v)))"
  by (simp add: var_uint64_byte_size_no_tag_def uint_img_def length_varint_img)

lemma length_varint_img_bound: "u < 2 ^ (7 * n) \<Longrightarrow> 0 < n \<Longrightarrow> length (varint_img u) \<le> n"
proof (induction u arbitrary: n rule: varint_img.induct)
  case (1 u)
  show ?case
  proof (cases "u < 128")
    case True
    with "1.prems" show ?thesis by (simp add: varint_img.simps [of u])
  next
    case False
    then have "n \<noteq> 1" using "1.prems" by auto
    then obtain m where m: "n = Suc m" "0 < m" using "1.prems"(2) by (cases n) auto
    have "u div 128 < 2 ^ (7 * m)"
      using "1.prems"(1) m by (simp add: power_add less_mult_imp_div_less)
    with "1.IH" [OF False _ m(2)] m(1) False show ?thesis
      by (simp add: varint_img.simps [of u])
  qed
qed

lemma length_uint_img_u64: "0 \<le> v \<Longrightarrow> v < 2 ^ 64 \<Longrightarrow> length (uint_img v) \<le> 10"
  unfolding uint_img_def by (rule length_varint_img_bound) (simp_all add: nat_less_iff)

section \<open>Tags\<close>

definition tag_img :: "int \<Rightarrow> int \<Rightarrow> bytes" where
  "tag_img f w = uint_img (f * 8 + w)"

lemma append_tag_img:
  assumes "0 \<le> w" "w \<le> 5" "0 \<le> f" "f < 2 ^ 29"
  shows "append_tag f w buf = (Inr (), buf @ tag_img f w)"
  using uint32_codec.enc_img [of "f * 8 + w" buf] assms
  by (simp add: append_tag_def pack_tag_eq tag_img_def append_uint32_def monad_simps)

lemma read_tag_img:
  assumes "0 \<le> w" "w \<le> 5" "0 \<le> f" "f < 2 ^ 29"
  shows "read_field_number_and_wire_type list_read
      \<lparr>is_input = tag_img f w @ rest, is_pos = p\<rparr> =
    (Inr (f, w), \<lparr>is_input = rest, is_pos = p + length (tag_img f w)\<rparr>)"
  using uint32_codec.dec_img [of "f * 8 + w" rest p] assms
  by (simp add: read_field_number_and_wire_type_def tag_img_def unpack_tag_eq monad_simps)

end
