(* ===== verification/Input_Source.thy ===== *)
theory Input_Source
  imports Pb_Codec
begin

text \<open>
  \<^verbatim>\<open>SimpleInputStream\<close> of \<^verbatim>\<open>odps/tunnel/io/stream.py\<close>: a file-like object over a network
  response that arrives in blocks. \<open>si_chunks\<close> lists what the successive calls of
  \<^verbatim>\<open>_buffer_next_chunk\<close> return before it returns \<^verbatim>\<open>None\<close>: the blocks read from the response, or,
  in the decompressing subclasses, what the decompressor gives for each of them, which may be
  empty. \<^verbatim>\<open>_buffered_len\<close> is written together with \<^verbatim>\<open>_internal_buffer\<close> and only there, so it
  is the length of \<open>si_buffer\<close>. The stream is shown to be a byte source whose content does not depend on how the
  network cut it into blocks.
\<close>

record simple_input =
  si_chunks :: "bytes list"
  si_buffer :: bytes
  si_buffered_pos :: nat
  si_pos :: nat
  si_closed :: bool

definition si_open :: "bytes list \<Rightarrow> simple_input" where
  "si_open chunks = \<lparr>si_chunks = chunks, si_buffer = [],  si_buffered_pos = 0, si_pos = 0, si_closed = False\<rparr>"

text \<open>The loop of \<^verbatim>\<open>_refill_buffer\<close>: empty chunks are skipped.\<close>

fun next_chunk :: "bytes list \<Rightarrow> bytes \<times> bytes list" where
  "next_chunk [] = ([], [])"
| "next_chunk (c # cs) = (if c = [] then next_chunk cs else (c, cs))"

definition refill_buffer :: "simple_input \<Rightarrow> simple_input" where
  "refill_buffer s =
     (case next_chunk (si_chunks s) of (c, cs) \<Rightarrow>
        s\<lparr>si_chunks := cs, si_buffer := c, si_buffered_pos := 0\<rparr>)"

definition take_buffered :: "nat \<Rightarrow> simple_input \<Rightarrow> bytes" where
  "take_buffered limit s = take limit (drop (si_buffered_pos s) (si_buffer s))"

definition internal_read :: "nat \<Rightarrow> simple_input \<Rightarrow> bytes \<times> simple_input" where
  "internal_read limit s =
     (let s' = (if si_buffered_pos s = length (si_buffer s) then refill_buffer s else s);
          mv = take_buffered limit s'
      in (mv, s'\<lparr>si_buffered_pos := si_buffered_pos s' + length mv\<rparr>))"

function read_loop :: "nat \<Rightarrow> simple_input \<Rightarrow> bytes \<times> simple_input" where
  "read_loop size_left s =
     (if size_left = 0 then ([], s)
      else case internal_read size_left s of (content, s') \<Rightarrow>
        if content = [] then ([], s')
        else case read_loop (size_left - length content) s' of (rest, t) \<Rightarrow> (content @ rest, t))"
  by pat_completeness auto
termination
  by (relation "measure fst") auto

declare read_loop.simps [simp del]

lemma read_loop_0 [simp]: "read_loop 0 s = ([], s)"
  by (simp add: read_loop.simps)

definition si_read_limit :: "nat \<Rightarrow> simple_input \<Rightarrow> bytes \<times> simple_input" where
  "si_read_limit limit s =
     (if limit \<le> length (si_buffer s) - si_buffered_pos s then
        (let mv = take_buffered limit s
         in (mv, s\<lparr>si_buffered_pos := si_buffered_pos s + length mv,
                   si_pos := si_pos s + length mv\<rparr>))
      else case read_loop limit s of (ret, s') \<Rightarrow> (ret, s'\<lparr>si_pos := si_pos s' + length ret\<rparr>))"

text \<open>
  \<^verbatim>\<open>read()\<close> without a limit reads blocks until one is empty. Each non-empty block shortens what
  is left, so the loop ends.
\<close>

definition READ_BLOCK_SIZE :: nat where "READ_BLOCK_SIZE = 1024 * 64"

definition si_left :: "simple_input \<Rightarrow> nat" where
  "si_left s = length (si_buffer s) - si_buffered_pos s + length (concat (si_chunks s))"

lemma concat_next_chunk: "next_chunk cs = (c, cs') \<Longrightarrow> concat cs = c @ concat cs'"
  by (induction cs) (auto split: if_splits)

lemma next_chunk_empty: "next_chunk cs = ([], cs') \<Longrightarrow> concat cs = []"
  by (induction cs) (auto split: if_splits)

lemma internal_read_left:
  "internal_read n s = (content, s') \<Longrightarrow> content \<noteq> [] \<Longrightarrow> si_left s' < si_left s"
  by (auto simp: internal_read_def Let_def si_left_def take_buffered_def refill_buffer_def
      dest: concat_next_chunk split: if_splits prod.splits)

function read_all_loop :: "simple_input \<Rightarrow> bytes \<times> simple_input" where
  "read_all_loop s =
     (case internal_read READ_BLOCK_SIZE s of (content, s') \<Rightarrow>
        if content = [] then ([], s')
        else case read_all_loop s' of (rest, t) \<Rightarrow> (content @ rest, t))"
  by pat_completeness auto
termination
  by (relation "measure si_left") (auto intro: internal_read_left [OF sym])

declare read_all_loop.simps [simp del]

definition si_read :: "int \<Rightarrow> (simple_input, bytes) sm" where
  "si_read limit s =
     (if si_closed s then (Inl OSError, s)
      else if 0 \<le> limit then
        (case si_read_limit (nat limit) s of (ret, s') \<Rightarrow> (Inr ret, s'))
      else case read_all_loop s of (ret, s') \<Rightarrow>
        (Inr ret, s'\<lparr>si_pos := si_pos s' + length ret\<rparr>))"

definition si_peek :: "simple_input \<Rightarrow> byte option \<times> simple_input" where
  "si_peek s =
     (let s' = (if si_buffered_pos s = length (si_buffer s) then refill_buffer s else s)
      in if si_buffered_pos s' = length (si_buffer s') then (None, s')
         else (Some (si_buffer s' ! si_buffered_pos s'), s'))"

definition si_close :: "simple_input \<Rightarrow> simple_input" where
  "si_close s = s\<lparr>si_closed := True\<rparr>"

section \<open>Content\<close>

definition si_content :: "simple_input \<Rightarrow> bytes" where
  "si_content s = drop (si_buffered_pos s) (si_buffer s) @ concat (si_chunks s)"

definition si_valid :: "simple_input \<Rightarrow> bool" where
  "si_valid s \<longleftrightarrow> si_buffered_pos s \<le> length (si_buffer s) \<and> \<not> si_closed s"

lemma si_open_valid [simp]: "si_valid (si_open cs)" "si_content (si_open cs) = concat cs"
  by (simp_all add: si_open_def si_valid_def si_content_def)

lemma refill_buffer_content:
  "si_valid s \<Longrightarrow> si_buffered_pos s = length (si_buffer s) \<Longrightarrow>
   si_valid (refill_buffer s) \<and> si_content (refill_buffer s) = si_content s \<and>
   si_pos (refill_buffer s) = si_pos s \<and>
   (length (si_buffer (refill_buffer s)) = 0 \<longrightarrow> si_content s = [])"
  by (auto simp: refill_buffer_def si_valid_def si_content_def split: prod.splits
      dest: concat_next_chunk next_chunk_empty)

lemma internal_read_content:
  assumes "si_valid s" and "internal_read n s = (bs, s')"
  shows "si_valid s' \<and> si_content s = bs @ si_content s' \<and> length bs \<le> n \<and>
    (bs = [] \<longrightarrow> n = 0 \<or> si_content s = []) \<and> si_pos s' = si_pos s"
proof -
  define t where "t = (if si_buffered_pos s = length (si_buffer s) then refill_buffer s else s)"
  have t: "si_valid t" "si_content t = si_content s" "si_pos t = si_pos s"
    "si_buffered_pos t = length (si_buffer t) \<longrightarrow> si_content s = []"
    using assms(1) refill_buffer_content [of s]
    by (auto simp: t_def si_valid_def refill_buffer_def split: prod.splits)
  from assms(2) have r: "bs = take n (drop (si_buffered_pos t) (si_buffer t))"
    "s' = t\<lparr>si_buffered_pos := si_buffered_pos t + length bs\<rparr>"
    by (auto simp: internal_read_def t_def Let_def take_buffered_def)
  from t(1) have le: "si_buffered_pos t + length bs \<le> length (si_buffer t)"
    by (simp add: r(1) si_valid_def) arith
  have "drop (si_buffered_pos t) (si_buffer t)
      = bs @ drop (si_buffered_pos t + length bs) (si_buffer t)"
    by (metis r(1) append_eq_conv_conj append_take_drop_id drop_drop add.commute)
  then have "si_content t = bs @ si_content s'"
    by (simp add: si_content_def r(2))
  moreover have "bs = [] \<longrightarrow> n = 0 \<or> si_content s = []"
    using t by (auto simp: r(1) si_valid_def)
  moreover have "si_valid s'" using t(1) le by (simp add: r(2) si_valid_def)
  moreover have "length bs \<le> n" by (simp add: r(1))
  moreover have "si_pos s' = si_pos s" using t(3) by (simp add: r(2))
  ultimately show ?thesis using t(2) by simp
qed

lemma read_loop_content:
  assumes "si_valid s" and "read_loop n s = (bs, s')"
  shows "si_valid s' \<and> bs = take n (si_content s) \<and> si_content s' = drop n (si_content s) \<and>
    si_pos s' = si_pos s"
  using assms
proof (induction n s arbitrary: bs s' rule: read_loop.induct)
  case (1 n s)
  obtain c u where c: "internal_read n s = (c, u)" by fastforce
  with "1.prems"(1) have u: "si_valid u" "si_content s = c @ si_content u" "length c \<le> n"
    "c = [] \<longrightarrow> n = 0 \<or> si_content s = []" "si_pos u = si_pos s"
    by (blast dest: internal_read_content)+
  show ?case
  proof (cases "n = 0 \<or> c = []")
    case True
    with "1.prems" u c show ?thesis
      by (cases "n = 0") (auto simp: read_loop.simps [of n s])
  next
    case False
    obtain rest t where r: "read_loop (n - length c) u = (rest, t)" by fastforce
    with False c "1.prems"(2) have "bs = c @ rest" "s' = t"
      by (simp_all add: read_loop.simps [of n s])
    moreover from False have "n \<noteq> 0" "c \<noteq> []" by auto
    note "1.IH" [OF this(1) c [symmetric] this(2) u(1) r]
    ultimately show ?thesis using u by simp
  qed
qed

lemma si_read_limit_content:
  assumes "si_valid s" and "si_read_limit n s = (bs, s')"
  shows "si_valid s' \<and> bs = take n (si_content s) \<and> si_content s' = drop n (si_content s) \<and>
    si_pos s' = si_pos s + length bs"
proof (cases "n \<le> length (si_buffer s) - si_buffered_pos s")
  case True
  with assms show ?thesis
    by (auto simp: si_read_limit_def Let_def take_buffered_def si_content_def si_valid_def
        add.commute)
next
  case False
  obtain b t where r: "read_loop n s = (b, t)" by fastforce
  with False assms(2) have "bs = b" "s' = t\<lparr>si_pos := si_pos t + length b\<rparr>"
    by (auto simp: si_read_limit_def)
  with read_loop_content [OF assms(1) r] show ?thesis
    by (simp add: si_valid_def si_content_def)
qed

interpretation simple_source: byte_source si_read_limit si_content si_valid
  by unfold_locales (metis si_read_limit_content prod.collapse)+

lemma si_read_nat:
  "\<not> si_closed s \<Longrightarrow> si_read (int n) s = (Inr (fst (si_read_limit n s)), snd (si_read_limit n s))"
  by (simp add: si_read_def split: prod.split)

lemma read_all_loop_content:
  assumes "si_valid s" and "read_all_loop s = (bs, s')"
  shows "si_valid s' \<and> bs = si_content s \<and> si_content s' = [] \<and> si_pos s' = si_pos s"
  using assms
proof (induction s arbitrary: bs s' rule: read_all_loop.induct)
  case (1 s)
  obtain c u where c: "internal_read READ_BLOCK_SIZE s = (c, u)" by fastforce
  with "1.prems"(1) have u: "si_valid u" "si_content s = c @ si_content u"
    "c = [] \<longrightarrow> si_content s = []" "si_pos u = si_pos s"
    using internal_read_content [OF _ c] by (auto simp: READ_BLOCK_SIZE_def)
  show ?case
  proof (cases "c = []")
    case True
    with "1.prems" u c show ?thesis by (simp add: read_all_loop.simps [of s])
  next
    case False
    obtain rest t where r: "read_all_loop u = (rest, t)" by fastforce
    with False c "1.prems"(2) have "bs = c @ rest" "s' = t"
      by (simp_all add: read_all_loop.simps [of s])
    with "1.IH" [OF c [symmetric] False u(1) r] u show ?thesis by simp
  qed
qed

section \<open>Reading into a buffer\<close>

text \<open>\<^verbatim>\<open>readinto(b)\<close> overwrites a prefix of the caller's buffer and returns its length.\<close>

definition internal_readinto ::
    "bytes \<Rightarrow> nat \<Rightarrow> simple_input \<Rightarrow> nat \<times> bytes \<times> simple_input" where
  "internal_readinto b start s =
     (let s' = (if si_buffered_pos s = length (si_buffer s) then refill_buffer s else s);
          mv = take_buffered (length b - start) s';
          size = length mv
      in (size, take start b @ mv @ drop (start + size) b,
          s'\<lparr>si_buffered_pos := si_buffered_pos s' + size\<rparr>))"

lemma internal_readinto_eq:
  "internal_readinto b start s =
     (case internal_read (length b - start) s of (mv, s') \<Rightarrow>
        (length mv, take start b @ mv @ drop (start + length mv) b, s'))"
  by (simp add: internal_readinto_def internal_read_def Let_def)

lemma internal_readinto_length:
  "internal_readinto b start s = (n, b', s') \<Longrightarrow> start \<le> length b \<Longrightarrow>
   length b' = length b \<and> n \<le> length b - start"
  by (auto simp: internal_readinto_def Let_def take_buffered_def)

function readinto_loop :: "bytes \<Rightarrow> nat \<Rightarrow> simple_input \<Rightarrow> nat \<times> bytes \<times> simple_input" where
  "readinto_loop b pos s =
     (if \<not> pos < length b then (pos, b, s)
      else case internal_readinto b pos s of (rsize, b', s') \<Rightarrow>
        if rsize = 0 then (pos, b', s') else readinto_loop b' (pos + rsize) s')"
  by pat_completeness auto
termination
  by (relation "measure (\<lambda>(b, pos, _). length b - pos)")
    (auto dest!: internal_readinto_length [OF sym])

declare readinto_loop.simps [simp del]

definition si_readinto :: "bytes \<Rightarrow> simple_input \<Rightarrow> (nat \<times> bytes) result \<times> simple_input" where
  "si_readinto b s =
     (if si_closed s then (Inl OSError, s)
      else if length b \<le> length (si_buffer s) - si_buffered_pos s then
        (let mv = take_buffered (length b) s
         in (Inr (length mv, mv),
             s\<lparr>si_buffered_pos := si_buffered_pos s + length mv, si_pos := si_pos s + length mv\<rparr>))
      else case readinto_loop b 0 s of (pos, b', s') \<Rightarrow>
        (Inr (pos, b'), s'\<lparr>si_pos := si_pos s' + pos\<rparr>))"

lemma readinto_loop_content:
  assumes "si_valid s" and "pos \<le> length b" and "readinto_loop b pos s = (n, b', s')"
  shows "si_valid s' \<and> pos \<le> n \<and> n - pos = min (length b - pos) (length (si_content s)) \<and>
    b' = take pos b @ take (n - pos) (si_content s) @ drop n b \<and>
    si_content s' = drop (n - pos) (si_content s) \<and> si_pos s' = si_pos s"
  using assms
proof (induction b pos s arbitrary: n b' s' rule: readinto_loop.induct)
  case (1 b pos s)
  show ?case
  proof (cases "pos < length b")
    case False
    with "1.prems" have "n = pos" "b' = b" "s' = s" "pos = length b"
      by (auto simp: readinto_loop.simps [of b])
    with "1.prems" show ?thesis by simp
  next
    case True
    obtain mv u where rd: "internal_read (length b - pos) s = (mv, u)" by fastforce
    note c = internal_read_content [OF "1.prems"(1) rd]
    define b1 where "b1 = take pos b @ mv @ drop (pos + length mv) b"
    have into: "internal_readinto b pos s = (length mv, b1, u)"
      by (simp add: internal_readinto_eq rd b1_def)
    show ?thesis
    proof (cases "mv = []")
      case True
      with c \<open>pos < length b\<close> "1.prems" into show ?thesis
        by (auto simp: readinto_loop.simps [of b] b1_def)
    next
      case False
      from c \<open>pos < length b\<close> have len: "length b1 = length b" "pos + length mv \<le> length b"
        by (auto simp: b1_def)
      from False True "1.prems" into
      have "readinto_loop b1 (pos + length mv) u = (n, b', s')"
        by (simp add: readinto_loop.simps [of b])
      from "1.IH" [OF _ into [symmetric] refl _ _ _ this] False True c len
      have ih: "si_valid s'" "pos + length mv \<le> n"
        "n - (pos + length mv) = min (length b - (pos + length mv)) (length (si_content u))"
        "b' = take (pos + length mv) b1 @ take (n - (pos + length mv)) (si_content u) @ drop n b1"
        "si_content s' = drop (n - (pos + length mv)) (si_content u)" "si_pos s' = si_pos u"
        by auto
      moreover have "take (pos + length mv) b1 = take pos b @ mv"
        using len by (simp add: b1_def)
      moreover have "drop n b1 = drop n b"
        using ih(2) len by (simp add: b1_def)
      ultimately show ?thesis using c len by auto
    qed
  qed
qed

lemma si_readinto_content:
  assumes "si_valid s"
  obtains n s' where "si_readinto b s = (Inr (n, take n (si_content s) @ drop n b), s')"
    and "n = min (length b) (length (si_content s))" and "si_valid s'"
    and "si_content s' = drop n (si_content s)" and "si_pos s' = si_pos s + n"
proof (cases "length b \<le> length (si_buffer s) - si_buffered_pos s")
  case True
  with assms that show ?thesis
    by (auto simp: si_readinto_def si_valid_def si_content_def take_buffered_def Let_def
        add.commute)
next
  case False
  obtain n b' u where l: "readinto_loop b 0 s = (n, b', u)" by (metis prod_cases3)
  from readinto_loop_content [OF assms _ l] that [of n "u\<lparr>si_pos := si_pos u + n\<rparr>"] False assms l
  show ?thesis
    by (auto simp: si_readinto_def si_valid_def si_content_def)
qed

end
