(* ===== verification/Py_String.thy ===== *)
theory Py_String
  imports Prelude "HOL-Library.Sublist"
begin

text \<open>
  Python's \<^verbatim>\<open>str\<close> methods, on the strings HOL has: lists of 8-bit characters, read as the
  Latin-1 code points. Lower-casing, the white-space test and the digits are those of
  \<^verbatim>\<open>str.lower\<close>, \<^verbatim>\<open>str.strip\<close> and \<^verbatim>\<open>int()\<close> on that range.
\<close>

section \<open>Characters\<close>

definition py_lower_char :: "char \<Rightarrow> char" where
  "py_lower_char c =
     (let n = of_char c :: nat
      in if (65 \<le> n \<and> n \<le> 90) \<or> (192 \<le> n \<and> n \<le> 222 \<and> n \<noteq> 215) then char_of (n + 32) else c)"

definition py_lower :: "string \<Rightarrow> string" where
  "py_lower s = List.map py_lower_char s"

definition py_isspace :: "char \<Rightarrow> bool" where
  "py_isspace c =
     (let n = of_char c :: nat
      in (9 \<le> n \<and> n \<le> 13) \<or> (28 \<le> n \<and> n \<le> 32) \<or> n = 133 \<or> n = 160)"

definition py_lstrip :: "string \<Rightarrow> string" where
  "py_lstrip s = dropWhile py_isspace s"

definition py_rstrip :: "string \<Rightarrow> string" where
  "py_rstrip s = rev (dropWhile py_isspace (rev s))"

definition py_strip :: "string \<Rightarrow> string" where
  "py_strip s = py_rstrip (py_lstrip s)"

section \<open>Integers\<close>

definition digit_char :: "nat \<Rightarrow> char" where
  "digit_char d = char_of (48 + d)"

definition is_digit :: "char \<Rightarrow> bool" where
  "is_digit c = (let n = of_char c :: nat in 48 \<le> n \<and> n \<le> 57)"

definition digit_val :: "char \<Rightarrow> nat" where
  "digit_val c = of_char c - 48"

text \<open>\<^verbatim>\<open>str(n)\<close>.\<close>

fun py_str_nat :: "nat \<Rightarrow> string" where
  "py_str_nat n = (if n < 10 then [digit_char n] else py_str_nat (n div 10) @ [digit_char (n mod 10)])"

declare py_str_nat.simps [simp del]

definition py_str_int :: "int \<Rightarrow> string" where
  "py_str_int v = (if v < 0 then CHR ''-'' # py_str_nat (nat (- v)) else py_str_nat (nat v))"

text \<open>\<^verbatim>\<open>int(s)\<close>: single underscores are allowed between digits.\<close>

fun int_digits :: "string \<Rightarrow> nat \<Rightarrow> nat option" where
  "int_digits [] acc = Some acc"
| "int_digits (c # cs) acc =
     (if is_digit c then int_digits cs (10 * acc + digit_val c)
      else if c = CHR ''_'' then
        (case cs of [] \<Rightarrow> None
         | d # ds \<Rightarrow> if is_digit d then int_digits ds (10 * acc + digit_val d) else None)
      else None)"

definition unsigned_int :: "string \<Rightarrow> int result" where
  "unsigned_int s =
     (case s of [] \<Rightarrow> Inl ValueError
      | c # cs \<Rightarrow>
          if is_digit c then
            (case int_digits cs (digit_val c) of None \<Rightarrow> Inl ValueError | Some n \<Rightarrow> Inr (int n))
          else Inl ValueError)"

definition py_int :: "string \<Rightarrow> int result" where
  "py_int s =
     (case py_strip s of
        [] \<Rightarrow> Inl ValueError
      | c # cs \<Rightarrow>
          if c = CHR ''-'' then rbind (unsigned_int cs) (\<lambda>n. Inr (- n))
          else if c = CHR ''+'' then unsigned_int cs
          else unsigned_int (c # cs))"

section \<open>Splitting and joining\<close>

text \<open>\<^verbatim>\<open>s.split(sep)\<close> with a one-character separator, and \<^verbatim>\<open>sep.join(parts)\<close>.\<close>

fun py_split :: "char \<Rightarrow> string \<Rightarrow> string list" where
  "py_split sep [] = [[]]"
| "py_split sep (c # cs) =
     (if c = sep then [] # py_split sep cs
      else case py_split sep cs of [] \<Rightarrow> [[c]] | p # ps \<Rightarrow> (c # p) # ps)"

fun py_join :: "string \<Rightarrow> string list \<Rightarrow> string" where
  "py_join sep [] = []"
| "py_join sep [p] = p"
| "py_join sep (p # q # ps) = p @ sep @ py_join sep (q # ps)"

text \<open>\<^verbatim>\<open>s.strip(chars)\<close>.\<close>

definition py_strip_chars :: "string \<Rightarrow> string \<Rightarrow> string" where
  "py_strip_chars chars s =
     rev (dropWhile (\<lambda>c. c \<in> set chars) (rev (dropWhile (\<lambda>c. c \<in> set chars) s)))"

section \<open>Lemmas\<close>

lemma py_split_nonempty [simp]: "py_split sep s \<noteq> []"
  by (cases s) (auto split: list.split)

lemma py_split_free: "sep \<notin> set p \<Longrightarrow> py_split sep p = [p]"
  by (induction p) auto

lemma py_split_append: "sep \<notin> set p \<Longrightarrow> py_split sep (p @ sep # s) = p # py_split sep s"
  by (induction p) auto

lemma py_split_join:
  "ps \<noteq> [] \<Longrightarrow> \<forall>p \<in> set ps. sep \<notin> set p \<Longrightarrow> py_split sep (py_join [sep] ps) = ps"
  by (induction "[sep]" ps rule: py_join.induct) (auto simp: py_split_free py_split_append)

lemma dropWhile_id: "s = [] \<or> \<not> P (hd s) \<Longrightarrow> dropWhile P s = s"
  by (cases s) auto

lemma py_strip_id:
  "s = [] \<or> \<not> py_isspace (hd s) \<and> \<not> py_isspace (last s) \<Longrightarrow> py_strip s = s"
  by (auto simp: py_strip_def py_lstrip_def py_rstrip_def dropWhile_id hd_rev)

lemma py_strip_Nil [simp]: "py_strip [] = []"
  by (simp add: py_strip_def py_lstrip_def py_rstrip_def)

lemma py_strip_nospace: "\<forall>c \<in> set s. \<not> py_isspace c \<Longrightarrow> py_strip s = s"
  by (intro py_strip_id) (cases s; auto)

lemma py_strip_idem: "py_strip (py_strip s) = py_strip s"
proof (cases "py_strip s = []")
  case False
  define t where "t = dropWhile py_isspace s"
  have t: "t = [] \<or> \<not> py_isspace (hd t)" unfolding t_def by (metis hd_dropWhile)
  define u where "u = rev (dropWhile py_isspace (rev t))"
  have u: "py_strip s = u" by (simp add: u_def t_def py_strip_def py_rstrip_def py_lstrip_def)
  with False have ne: "u \<noteq> []" by simp
  then have "\<not> py_isspace (last u)"
    unfolding u_def by (metis hd_dropWhile last_rev rev_is_Nil_conv)
  moreover have "\<exists>w. t = u @ w"
    by (rule exI [of _ "rev (takeWhile py_isspace (rev t))"])
      (simp add: u_def flip: rev_append)
  with ne t have "\<not> py_isspace (hd u)" by auto
  ultimately show ?thesis unfolding u by (intro py_strip_id) simp
next
  case True
  then show ?thesis by simp
qed

lemma digit_char_simps:
  assumes "d < 10"
  shows "is_digit (digit_char d)" "digit_val (digit_char d) = d" "\<not> py_isspace (digit_char d)"
    "digit_char d \<noteq> CHR ''-''" "digit_char d \<noteq> CHR ''+''" "digit_char d \<noteq> CHR ''_''"
proof -
  have n: "of_char (digit_char d) = 48 + d" using assms by (simp add: digit_char_def)
  from n assms show "is_digit (digit_char d)" "digit_val (digit_char d) = d"
    "\<not> py_isspace (digit_char d)"
    by (simp_all add: is_digit_def digit_val_def py_isspace_def Let_def)
  from n show "digit_char d \<noteq> CHR ''-''" "digit_char d \<noteq> CHR ''+''"
    by auto
  from n assms show "digit_char d \<noteq> CHR ''_''" by auto
qed

lemma int_digits_append:
  "\<forall>c \<in> set s. is_digit c \<Longrightarrow>
   int_digits (s @ t) acc = int_digits t (fold (\<lambda>c a. 10 * a + digit_val c) s acc)"
  by (induction s arbitrary: acc) auto

lemma py_str_nat_digits: "c \<in> set (py_str_nat n) \<Longrightarrow> \<exists>d < 10. c = digit_char d"
proof (induction n rule: py_str_nat.induct)
  case (1 n)
  show ?case
  proof (cases "n < 10")
    case True
    with 1 show ?thesis by (auto simp: py_str_nat.simps [of n])
  next
    case False
    with "1.prems" have "c \<in> set (py_str_nat (n div 10)) \<or> c = digit_char (n mod 10)"
      by (auto simp: py_str_nat.simps [of n])
    with "1.IH" [OF False] show ?thesis by (metis mod_less_divisor zero_less_numeral)
  qed
qed

lemma py_str_nat_value:
  "fold (\<lambda>c a. 10 * a + digit_val c) (py_str_nat n) 0 = n \<and> py_str_nat n \<noteq> []"
proof (induction n rule: py_str_nat.induct)
  case (1 n)
  show ?case
  proof (cases "n < 10")
    case True
    then show ?thesis by (simp add: py_str_nat.simps [of n] digit_char_simps)
  next
    case False
    with "1.IH" show ?thesis by (simp add: py_str_nat.simps [of n] digit_char_simps)
  qed
qed

lemma unsigned_int_str: "unsigned_int (py_str_nat n) = Inr (int n)"
proof -
  obtain c cs where s: "py_str_nat n = c # cs" using py_str_nat_value by (metis list.exhaust)
  have d: "\<forall>x \<in> set (c # cs). is_digit x"
    using py_str_nat_digits [of _ n] s digit_char_simps(1) by metis
  from py_str_nat_value [of n] s have "fold (\<lambda>c a. 10 * a + digit_val c) cs (digit_val c) = n" by simp
  with d int_digits_append [of cs "[]" "digit_val c"] show ?thesis
    by (simp add: unsigned_int_def s)
qed

text \<open>\<^verbatim>\<open>int(str(v)) == v\<close>.\<close>

lemma py_int_str: "py_int (py_str_int v) = Inr v"
proof -
  have nospace: "\<forall>c \<in> set (py_str_nat n). \<not> py_isspace c" for n
    using py_str_nat_digits [of _ n] digit_char_simps(3) by metis
  show ?thesis
  proof (cases "v < 0")
    case True
    then have "py_strip (py_str_int v) = CHR ''-'' # py_str_nat (nat (- v))"
      using nospace by (simp add: py_str_int_def py_strip_nospace py_isspace_def)
    with True show ?thesis by (simp add: py_int_def unsigned_int_str)
  next
    case False
    obtain c cs where s: "py_str_nat (nat v) = c # cs"
      using py_str_nat_value by (metis list.exhaust)
    then have "c \<noteq> CHR ''-''" "c \<noteq> CHR ''+''"
      using py_str_nat_digits [of c "nat v"] digit_char_simps(4,5) by auto
    with False s nospace [of "nat v"] unsigned_int_str [of "nat v"] show ?thesis
      by (simp add: py_int_def py_str_int_def py_strip_nospace)
  qed
qed

end
