(* ===== verification/Checksum.thy ===== *)
theory Checksum
  imports Py_String
begin

text \<open>
  \<^verbatim>\<open>odps/crc.py\<close> and \<^verbatim>\<open>odps/tunnel/checksum.py\<close>. The pure-Python \<^verbatim>\<open>Crc32c\<close> is modelled as it
  is written, with its table; every intermediate value is masked to 32 bits in the code, so
  the register is a 32-bit word. \<^verbatim>\<open>Crc32\<close> delegates to \<^verbatim>\<open>zlib.crc32\<close>, modelled by its
  definition. The table-driven loop is proved to be the bitwise CRC of the Castagnoli
  polynomial, and to detect every change confined to one byte.
\<close>

section \<open>Crc32c\<close>

definition CRC_TABLE :: "32 word list" where
  "CRC_TABLE =
  [0x00000000, 0xF26B8303, 0xE13B70F7, 0x1350F3F4, 0xC79A971F, 0x35F1141C,
   0x26A1E7E8, 0xD4CA64EB, 0x8AD958CF, 0x78B2DBCC, 0x6BE22838, 0x9989AB3B,
   0x4D43CFD0, 0xBF284CD3, 0xAC78BF27, 0x5E133C24, 0x105EC76F, 0xE235446C,
   0xF165B798, 0x030E349B, 0xD7C45070, 0x25AFD373, 0x36FF2087, 0xC494A384,
   0x9A879FA0, 0x68EC1CA3, 0x7BBCEF57, 0x89D76C54, 0x5D1D08BF, 0xAF768BBC,
   0xBC267848, 0x4E4DFB4B, 0x20BD8EDE, 0xD2D60DDD, 0xC186FE29, 0x33ED7D2A,
   0xE72719C1, 0x154C9AC2, 0x061C6936, 0xF477EA35, 0xAA64D611, 0x580F5512,
   0x4B5FA6E6, 0xB93425E5, 0x6DFE410E, 0x9F95C20D, 0x8CC531F9, 0x7EAEB2FA,
   0x30E349B1, 0xC288CAB2, 0xD1D83946, 0x23B3BA45, 0xF779DEAE, 0x05125DAD,
   0x1642AE59, 0xE4292D5A, 0xBA3A117E, 0x4851927D, 0x5B016189, 0xA96AE28A,
   0x7DA08661, 0x8FCB0562, 0x9C9BF696, 0x6EF07595, 0x417B1DBC, 0xB3109EBF,
   0xA0406D4B, 0x522BEE48, 0x86E18AA3, 0x748A09A0, 0x67DAFA54, 0x95B17957,
   0xCBA24573, 0x39C9C670, 0x2A993584, 0xD8F2B687, 0x0C38D26C, 0xFE53516F,
   0xED03A29B, 0x1F682198, 0x5125DAD3, 0xA34E59D0, 0xB01EAA24, 0x42752927,
   0x96BF4DCC, 0x64D4CECF, 0x77843D3B, 0x85EFBE38, 0xDBFC821C, 0x2997011F,
   0x3AC7F2EB, 0xC8AC71E8, 0x1C661503, 0xEE0D9600, 0xFD5D65F4, 0x0F36E6F7,
   0x61C69362, 0x93AD1061, 0x80FDE395, 0x72966096, 0xA65C047D, 0x5437877E,
   0x4767748A, 0xB50CF789, 0xEB1FCBAD, 0x197448AE, 0x0A24BB5A, 0xF84F3859,
   0x2C855CB2, 0xDEEEDFB1, 0xCDBE2C45, 0x3FD5AF46, 0x7198540D, 0x83F3D70E,
   0x90A324FA, 0x62C8A7F9, 0xB602C312, 0x44694011, 0x5739B3E5, 0xA55230E6,
   0xFB410CC2, 0x092A8FC1, 0x1A7A7C35, 0xE811FF36, 0x3CDB9BDD, 0xCEB018DE,
   0xDDE0EB2A, 0x2F8B6829, 0x82F63B78, 0x709DB87B, 0x63CD4B8F, 0x91A6C88C,
   0x456CAC67, 0xB7072F64, 0xA457DC90, 0x563C5F93, 0x082F63B7, 0xFA44E0B4,
   0xE9141340, 0x1B7F9043, 0xCFB5F4A8, 0x3DDE77AB, 0x2E8E845F, 0xDCE5075C,
   0x92A8FC17, 0x60C37F14, 0x73938CE0, 0x81F80FE3, 0x55326B08, 0xA759E80B,
   0xB4091BFF, 0x466298FC, 0x1871A4D8, 0xEA1A27DB, 0xF94AD42F, 0x0B21572C,
   0xDFEB33C7, 0x2D80B0C4, 0x3ED04330, 0xCCBBC033, 0xA24BB5A6, 0x502036A5,
   0x4370C551, 0xB11B4652, 0x65D122B9, 0x97BAA1BA, 0x84EA524E, 0x7681D14D,
   0x2892ED69, 0xDAF96E6A, 0xC9A99D9E, 0x3BC21E9D, 0xEF087A76, 0x1D63F975,
   0x0E330A81, 0xFC588982, 0xB21572C9, 0x407EF1CA, 0x532E023E, 0xA145813D,
   0x758FE5D6, 0x87E466D5, 0x94B49521, 0x66DF1622, 0x38CC2A06, 0xCAA7A905,
   0xD9F75AF1, 0x2B9CD9F2, 0xFF56BD19, 0x0D3D3E1A, 0x1E6DCDEE, 0xEC064EED,
   0xC38D26C4, 0x31E6A5C7, 0x22B65633, 0xD0DDD530, 0x0417B1DB, 0xF67C32D8,
   0xE52CC12C, 0x1747422F, 0x49547E0B, 0xBB3FFD08, 0xA86F0EFC, 0x5A048DFF,
   0x8ECEE914, 0x7CA56A17, 0x6FF599E3, 0x9D9E1AE0, 0xD3D3E1AB, 0x21B862A8,
   0x32E8915C, 0xC083125F, 0x144976B4, 0xE622F5B7, 0xF5720643, 0x07198540,
   0x590AB964, 0xAB613A67, 0xB831C993, 0x4A5A4A90, 0x9E902E7B, 0x6CFBAD78,
   0x7FAB5E8C, 0x8DC0DD8F, 0xE330A81A, 0x115B2B19, 0x020BD8ED, 0xF0605BEE,
   0x24AA3F05, 0xD6C1BC06, 0xC5914FF2, 0x37FACCF1, 0x69E9F0D5, 0x9B8273D6,
   0x88D28022, 0x7AB90321, 0xAE7367CA, 0x5C18E4C9, 0x4F48173D, 0xBD23943E,
   0xF36E6F75, 0x0105EC76, 0x12551F82, 0xE03E9C81, 0x34F4F86A, 0xC69F7B69,
   0xD5CF889D, 0x27A40B9E, 0x79B737BA, 0x8BDCB4B9, 0x988C474D, 0x6AE7C44E,
   0xBE2DA0A5, 0x4C4623A6, 0x5F16D052, 0xAD7D5351]"

definition CRC_INIT :: "32 word" where
  "CRC_INIT = 0xFFFFFFFF"

text \<open>One turn of the loop in \<^verbatim>\<open>update\<close>.\<close>

definition crc32c_step :: "byte \<Rightarrow> 32 word \<Rightarrow> 32 word" where
  "crc32c_step b crc =
     (let table_index = unat ((crc XOR ucast b) AND 0xFF)
      in (CRC_TABLE ! table_index XOR drop_bit 8 crc) AND 0xFFFFFFFF)"

text \<open>\<^verbatim>\<open>buf[off : off + length]\<close>, with the defaults for \<^verbatim>\<open>None\<close> and for \<^verbatim>\<open>0\<close>.\<close>

definition to_crc :: "bytes \<Rightarrow> nat option \<Rightarrow> nat option \<Rightarrow> bytes" where
  "to_crc buf off len =
     (let off' = (case off of None \<Rightarrow> 0 | Some n \<Rightarrow> n);
          len' = (case len of None \<Rightarrow> length buf | Some n \<Rightarrow> if n = 0 then length buf else n)
      in take len' (drop off' buf))"

definition crc32c_update :: "bytes \<Rightarrow> nat option \<Rightarrow> nat option \<Rightarrow> 32 word \<Rightarrow> 32 word" where
  "crc32c_update buf off len crc = fold crc32c_step (to_crc buf off len) crc AND 0xFFFFFFFF"

definition crc32c_getvalue :: "32 word \<Rightarrow> 32 word" where
  "crc32c_getvalue crc = crc XOR 0xFFFFFFFF"

section \<open>The bitwise definition\<close>

text \<open>
  A CRC register shifted right by one bit with the reflected polynomial \<open>poly\<close>; eight shifts
  consume a byte.
\<close>

definition crc_bit :: "32 word \<Rightarrow> 32 word \<Rightarrow> 32 word" where
  "crc_bit poly c = (if bit c 0 then drop_bit 1 c XOR poly else drop_bit 1 c)"

definition crc_byte :: "32 word \<Rightarrow> byte \<Rightarrow> 32 word \<Rightarrow> 32 word" where
  "crc_byte poly b c = (crc_bit poly ^^ 8) (c XOR ucast b)"

definition castagnoli :: "32 word" where "castagnoli = 0x82F63B78"

lemma bit_crc_bit:
  "bit (crc_bit poly c) i \<longleftrightarrow> bit c (Suc i) \<noteq> (bit c 0 \<and> bit poly i)"
  by (auto simp: crc_bit_def bit_simps)

lemma crc_bit_xor: "crc_bit poly (a XOR b) = crc_bit poly a XOR crc_bit poly b"
  by (rule bit_word_eqI) (auto simp: bit_crc_bit bit_xor_iff)

lemma crc_bits_xor:
  "(crc_bit poly ^^ k) (a XOR b) = (crc_bit poly ^^ k) a XOR (crc_bit poly ^^ k) b"
  by (induction k) (simp_all add: crc_bit_xor)

lemma crc_bit_even: "\<not> bit c 0 \<Longrightarrow> crc_bit poly c = drop_bit 1 c"
  by (simp add: crc_bit_def)

lemma crc_bits_drop:
  "(\<And>i. i < k \<Longrightarrow> \<not> bit y i) \<Longrightarrow> (crc_bit poly ^^ k) y = drop_bit k y"
proof (induction k)
  case (Suc k)
  then have "(crc_bit poly ^^ k) y = drop_bit k y" by simp
  moreover have "\<not> bit (drop_bit k y) 0" using Suc.prems [of k] by (simp add: bit_drop_bit_eq)
  ultimately show ?case by (simp add: crc_bit_even)
qed simp

text \<open>Shifting is reversible when the polynomial has its top bit: it shows which bit fell out.\<close>

lemma crc_bit_inj:
  assumes "bit poly 31" and "crc_bit poly a = crc_bit poly b"
  shows "a = b"
proof (rule bit_word_eqI)
  fix n assume n: "n < LENGTH(32)"
  have h: "bit a (Suc i) \<noteq> (bit a 0 \<and> bit poly i) \<longleftrightarrow> bit b (Suc i) \<noteq> (bit b 0 \<and> bit poly i)" for i
    using arg_cong [OF assms(2), of "\<lambda>w. bit w i"] by (simp add: bit_crc_bit)
  have "\<not> bit a 32" "\<not> bit b 32" using bit_imp_le_length [of a 32] bit_imp_le_length [of b 32] by auto
  with h [of 31] assms(1) have "bit a 0 = bit b 0" by simp
  with h [of "n - 1"] show "bit a n = bit b n" by (cases n) auto
qed

lemma crc_bits_inj: "bit poly 31 \<Longrightarrow> (crc_bit poly ^^ k) a = (crc_bit poly ^^ k) b \<Longrightarrow> a = b"
  by (induction k) (auto dest: crc_bit_inj)

subsection \<open>The table\<close>

definition table_entry :: "32 word \<Rightarrow> 32 word" where
  "table_entry c = (crc_bit castagnoli ^^ 8) c"

definition table_upto :: "nat \<Rightarrow> 32 word list" where
  "table_upto n = map (\<lambda>i. table_entry (word_of_nat i)) [0..<n]"

text \<open>By linearity the table of \<open>2 * 2 ^ k\<close> entries is the table of \<open>2 ^ k\<close> entries twice, the second
  time with the entry of \<open>2 ^ k\<close> added.\<close>

lemma table_double:
  assumes "n = 2 ^ k"
  shows "table_upto (2 * n) =
    table_upto n @ map (\<lambda>w. table_entry (word_of_nat n) XOR w) (table_upto n)"
proof -
  have "word_of_nat (n + i) = (word_of_nat n XOR word_of_nat i :: 32 word)" if "i < n" for i
  proof -
    have "word_of_nat n AND word_of_nat i = (0 :: 32 word)"
      using that assms
      by (intro bit_word_eqI) (auto simp: bit_simps dest: bit_nat_less_exp)
    then show ?thesis by (simp add: disjunctive_add_eq_xor)
  qed
  then have e: "map (\<lambda>i. table_entry (word_of_nat i)) [n..<2 * n] =
      map (\<lambda>w. table_entry (word_of_nat n) XOR w) (table_upto n)"
    by (intro nth_equalityI) (simp_all add: table_upto_def table_entry_def crc_bits_xor del: of_nat_add)
  have "[0..<2 * n] = [0..<n] @ [n..<2 * n]"
    using upt_add_eq_append [of 0 n n] by (simp add: mult_2)
  with e show ?thesis by (simp add: table_upto_def)
qed

lemma table_upto_1: "table_upto 1 = [0]"
  using crc_bits_drop [of 8 0 castagnoli] by (simp add: table_upto_def table_entry_def)

lemma table_entry_unroll:
  "table_entry c = crc_bit castagnoli (crc_bit castagnoli (crc_bit castagnoli (crc_bit castagnoli
     (crc_bit castagnoli (crc_bit castagnoli (crc_bit castagnoli (crc_bit castagnoli c)))))))"
  by (simp add: table_entry_def eval_nat_numeral)

lemma table_entries:
  "table_entry 1 = 0xF26B8303" "table_entry 2 = 0xE13B70F7" "table_entry 4 = 0xC79A971F"
  "table_entry 8 = 0x8AD958CF" "table_entry 16 = 0x105EC76F" "table_entry 32 = 0x20BD8EDE"
  "table_entry 64 = 0x417B1DBC" "table_entry 128 = 0x82F63B78"
  by (simp_all add: table_entry_unroll castagnoli_def crc_bit_def)

lemmas table_upto_2 = table_double [of 1 0, unfolded table_upto_1, simplified, unfolded table_entries, simplified]
lemmas table_upto_4 = table_double [of 2 1, unfolded table_upto_2, simplified, unfolded table_entries, simplified]
lemmas table_upto_8 = table_double [of 4 2, unfolded table_upto_4, simplified, unfolded table_entries, simplified]
lemmas table_upto_16 = table_double [of 8 3, unfolded table_upto_8, simplified, unfolded table_entries, simplified]
lemmas table_upto_32 = table_double [of 16 4, unfolded table_upto_16, simplified, unfolded table_entries, simplified]
lemmas table_upto_64 = table_double [of 32 5, unfolded table_upto_32, simplified, unfolded table_entries, simplified]
lemmas table_upto_128 = table_double [of 64 6, unfolded table_upto_64, simplified, unfolded table_entries, simplified]
lemmas table_upto_256 = table_double [of 128 7, unfolded table_upto_128, simplified, unfolded table_entries, simplified]

lemma crc_table_eq: "CRC_TABLE = table_upto 256"
  by (simp only: table_upto_256 CRC_TABLE_def)

lemma crc_table_nth: "i < 256 \<Longrightarrow> CRC_TABLE ! i = table_entry (word_of_nat i)"
  by (simp add: crc_table_eq table_upto_def)

subsection \<open>The loop is the bitwise CRC\<close>

lemma ones_32: "(0xFFFFFFFF :: 32 word) = - 1"
  by simp

lemma minus_one_32: "(- 1 :: 32 word) = 0xFFFFFFFF"
  by simp

lemma and_ones [simp]: "w AND 0xFFFFFFFF = (w :: 32 word)"
  by (simp only: ones_32) simp

lemma xor_ones: "w XOR 0xFFFFFFFF = NOT (w :: 32 word)"
  by (simp only: ones_32) simp

lemma and_ff: "(w :: 32 word) AND 0xFF = take_bit 8 w"
  by (simp add: take_bit_eq_mask mask_eq_exp_minus_1)

lemma crc32c_step_eq: "crc32c_step b c = crc_byte castagnoli b c"
proof -
  define x where "x = c XOR ucast b"
  define lo hi where "lo = take_bit 8 x" and "hi = push_bit 8 (drop_bit 8 x)"
  have x: "x = lo XOR hi"
    by (rule bit_word_eqI) (auto simp: lo_def hi_def bit_simps dest: bit_imp_le_length)
  have "unat lo < 256"
    using take_bit_nat_less_exp [of 8 "unat x"] by (simp add: lo_def unsigned_take_bit_eq)
  then have lo: "CRC_TABLE ! unat lo = (crc_bit castagnoli ^^ 8) lo"
    by (simp add: crc_table_nth table_entry_def)
  have "(crc_bit castagnoli ^^ 8) hi = drop_bit 8 hi"
    by (rule crc_bits_drop) (simp add: hi_def bit_simps)
  also have "drop_bit 8 hi = drop_bit 8 c"
  proof (rule bit_word_eqI)
    fix n assume "n < LENGTH(32)"
    have "\<not> bit b (8 + n)" using bit_imp_le_length [of b "8 + n"] by auto
    then show "bit (drop_bit 8 hi) n = bit (drop_bit 8 c) n"
      by (auto simp: hi_def x_def bit_simps dest: bit_imp_le_length)
  qed
  finally have "(crc_bit castagnoli ^^ 8) x = CRC_TABLE ! unat lo XOR drop_bit 8 c"
    by (subst x) (simp add: crc_bits_xor lo)
  then show ?thesis
    by (simp add: crc32c_step_def crc_byte_def x_def lo_def and_ff Let_def)
qed

lemma crc32c_update_fold:
  "crc32c_update buf None None c = fold (crc_byte castagnoli) buf c"
proof -
  have "crc32c_step = crc_byte castagnoli"
    by (intro ext) (simp add: crc32c_step_eq)
  then show ?thesis by (simp add: crc32c_update_def to_crc_def)
qed

text \<open>\<^verbatim>\<open>Crc32c\<close> over a buffer, from a fresh object.\<close>

definition crc32c_of :: "bytes \<Rightarrow> 32 word" where
  "crc32c_of buf = crc32c_getvalue (crc32c_update buf None None CRC_INIT)"

definition crc_bitwise :: "32 word \<Rightarrow> bytes \<Rightarrow> 32 word" where
  "crc_bitwise poly buf = NOT (fold (crc_byte poly) buf 0xFFFFFFFF)"

lemma crc32c_of_eq: "crc32c_of buf = crc_bitwise castagnoli buf"
  by (simp add: crc32c_of_def crc_bitwise_def crc32c_getvalue_def crc32c_update_fold xor_ones
      CRC_INIT_def)

subsection \<open>Burst errors\<close>

text \<open>The bytes of a burst of up to four bytes, the first one lowest.\<close>

fun burst_word :: "bytes \<Rightarrow> 32 word" where
  "burst_word [] = 0"
| "burst_word (b # bs) = ucast b XOR push_bit 8 (burst_word bs)"

lemma crc_byte_fold_burst:
  "length m \<le> 4 \<Longrightarrow>
   fold (crc_byte poly) m c = (crc_bit poly ^^ (8 * length m)) (c XOR burst_word m)"
proof (induction m arbitrary: c)
  case (Cons b m)
  define hi where "hi = push_bit 8 (burst_word m)"
  have low: "(crc_bit poly ^^ 8) hi = drop_bit 8 hi"
    by (rule crc_bits_drop) (simp add: hi_def bit_simps)
  have drop: "drop_bit 8 hi = burst_word m AND mask 24"
    unfolding hi_def by (rule bit_word_eqI) (auto simp: bit_simps dest: bit_imp_le_length)
  have bits: "bit (burst_word xs) i \<Longrightarrow> i < 8 * length xs" for xs i
  proof (induction xs arbitrary: i)
    case (Cons x xs)
    then show ?case
      using Cons.IH [of "i - 8"] bit_imp_le_length [of x i]
      by (cases "bit x i") (fastforce simp: bit_simps)+
  qed simp
  have "burst_word m AND mask 24 = burst_word m"
    using Cons.prems by (intro bit_word_eqI) (auto simp: bit_simps dest: bits)
  with low drop have hi: "(crc_bit poly ^^ 8) hi = burst_word m" by simp
  have "fold (crc_byte poly) (b # m) c =
      (crc_bit poly ^^ (8 * length m)) (crc_byte poly b c XOR burst_word m)"
    using Cons by simp
  also have "crc_byte poly b c XOR burst_word m = (crc_bit poly ^^ 8) (c XOR ucast b XOR hi)"
    by (simp add: crc_byte_def crc_bits_xor hi xor.assoc)
  moreover have "(crc_bit poly ^^ (8 * length m)) ((crc_bit poly ^^ 8) w) =
      (crc_bit poly ^^ (8 * length (b # m))) w" for w
    using fun_cong [OF funpow_add [of "8 * length m" 8 "crc_bit poly"], of w]
    by (simp only: comp_apply list.size mult_Suc_right add.commute) simp
  ultimately show ?case
    by (simp add: hi_def xor.assoc)
qed simp

lemma bit_burst_word: "bit (burst_word xs) i \<Longrightarrow> i < 8 * length xs"
proof (induction xs arbitrary: i)
  case (Cons x xs)
  then show ?case
    using Cons.IH [of "i - 8"] bit_imp_le_length [of x i]
    by (cases "bit x i") (fastforce simp: bit_simps)+
qed simp

lemma burst_word_inj:
  "length xs = length ys \<Longrightarrow> length xs \<le> 4 \<Longrightarrow> burst_word xs = burst_word ys \<Longrightarrow> xs = ys"
proof (induction xs ys rule: list_induct2)
  case (Cons x xs y ys)
  have bits: "bit (burst_word (x # xs)) i = bit (burst_word (y # ys)) i" for i
    using Cons.prems(2) by simp
  have xy: "x = y"
  proof (rule bit_word_eqI)
    fix n assume "n < LENGTH(8)"
    then show "bit x n = bit y n" using bits [of n] by (simp add: bit_simps)
  qed
  have "burst_word xs = burst_word ys"
  proof (rule bit_word_eqI)
    fix n assume n: "n < LENGTH(32)"
    show "bit (burst_word xs) n = bit (burst_word ys) n"
    proof (cases "n < 24")
      case True
      then show ?thesis
        using bits [of "n + 8"] bit_imp_le_length [of x "n + 8"] bit_imp_le_length [of y "n + 8"]
        by (auto simp: bit_simps)
    next
      case False
      with Cons show ?thesis
        using bit_burst_word [of xs n] bit_burst_word [of ys n] by auto
    qed
  qed
  with Cons xy show ?case by simp
qed simp

lemma xor_cancel_right: "(a :: 'a::len word) XOR u = b XOR u \<Longrightarrow> a = b"
proof -
  assume "a XOR u = b XOR u"
  then have "(a XOR u) XOR u = (b XOR u) XOR u" by (rule arg_cong)
  then show "a = b" by (simp add: xor.assoc)
qed

lemma xor_cancel_left: "(u :: 'a::len word) XOR a = u XOR b \<Longrightarrow> a = b"
  by (rule xor_cancel_right [of _ u]) (simp only: xor.commute)

lemma crc_byte_inj: "bit poly 31 \<Longrightarrow> crc_byte poly b c = crc_byte poly b d \<Longrightarrow> c = d"
  unfolding crc_byte_def by (drule crc_bits_inj, assumption) (rule xor_cancel_right)

lemma crc_fold_inj:
  "bit poly 31 \<Longrightarrow> fold (crc_byte poly) bs c = fold (crc_byte poly) bs d \<Longrightarrow> c = d"
proof (induction bs arbitrary: c d)
  case (Cons b bs)
  have "crc_byte poly b c = crc_byte poly b d"
    using Cons.IH [of "crc_byte poly b c" "crc_byte poly b d"] Cons.prems by simp
  with Cons.prems(1) show ?case by (rule crc_byte_inj)
qed simp

lemma crc_bitwise_burst:
  assumes poly: "bit poly 31"
    and len: "length m = length m'" "length m \<le> 4" and "m \<noteq> m'"
  shows "crc_bitwise poly (pre @ m @ post) \<noteq> crc_bitwise poly (pre @ m' @ post)"
proof
  define c where "c = fold (crc_byte poly) pre 0xFFFFFFFF"
  assume "crc_bitwise poly (pre @ m @ post) = crc_bitwise poly (pre @ m' @ post)"
  then have "fold (crc_byte poly) post (fold (crc_byte poly) m c) =
      fold (crc_byte poly) post (fold (crc_byte poly) m' c)"
    by (simp add: crc_bitwise_def c_def)
  then have "fold (crc_byte poly) m c = fold (crc_byte poly) m' c"
    using crc_fold_inj [OF poly] by simp
  with len have "c XOR burst_word m = c XOR burst_word m'"
    using crc_bits_inj [OF poly] by (simp add: crc_byte_fold_burst)
  then have "burst_word m = burst_word m'"
    by (rule xor_cancel_left)
  with burst_word_inj [OF len] assms(4) show False by simp
qed

section \<open>Crc32\<close>

text \<open>\<^verbatim>\<open>zlib.crc32(data, value)\<close>: the reflected IEEE polynomial.\<close>

definition ieee_poly :: "32 word" where "ieee_poly = 0xEDB88320"

definition zlib_crc32 :: "bytes \<Rightarrow> 32 word \<Rightarrow> 32 word" where
  "zlib_crc32 buf value = NOT (fold (crc_byte ieee_poly) buf (NOT value))"

definition crc32_update ::
    "bytes \<Rightarrow> nat option \<Rightarrow> nat option \<Rightarrow> 32 word option \<Rightarrow> 32 word option" where
  "crc32_update buf off len crc =
     (case crc of
        Some c \<Rightarrow> if c \<noteq> 0 then Some (zlib_crc32 (to_crc buf off len) c)
                  else Some (zlib_crc32 (to_crc buf off len) 0)
      | None \<Rightarrow> Some (zlib_crc32 (to_crc buf off len) 0))"

section \<open>The checksum object of the tunnel\<close>

datatype checksum = C32c "32 word" | C32 "32 word option"

definition checksum_new :: "string \<Rightarrow> checksum" where
  "checksum_new method = (if py_lower method = ''crc32c'' then C32c CRC_INIT else C32 None)"

fun checksum_reset :: "checksum \<Rightarrow> checksum" where
  "checksum_reset (C32c c) = C32c CRC_INIT"
| "checksum_reset (C32 c) = C32 None"

fun checksum_getvalue :: "checksum \<Rightarrow> 32 word option" where
  "checksum_getvalue (C32c c) = Some (crc32c_getvalue c)"
| "checksum_getvalue (C32 c) = c"

text \<open>\<^verbatim>\<open>_update\<close>, to which \<^verbatim>\<open>update\<close> comes down on binary data.\<close>

fun checksum_raw :: "bytes \<Rightarrow> checksum \<Rightarrow> checksum" where
  "checksum_raw b (C32c c) = C32c (crc32c_update b None None c)"
| "checksum_raw b (C32 c) = C32 (crc32_update b None None c)"

definition checksum_update :: "bytes \<Rightarrow> (checksum, unit) sm" where
  "checksum_update b = smod (checksum_raw b)"

definition update_bool :: "bool \<Rightarrow> (checksum, unit) sm" where
  "update_bool val = smod (checksum_raw (if val then [1] else [0]))"

definition update_int :: "int \<Rightarrow> (checksum, unit) sm" where
  "update_int val = sbind (slift (pack_i32 val)) checksum_update"

definition update_long :: "int \<Rightarrow> (checksum, unit) sm" where
  "update_long val = sbind (slift (pack_i64 val)) checksum_update"

definition update_float :: "32 word \<Rightarrow> (checksum, unit) sm" where
  "update_float val = checksum_update (le_bytes 4 (uint val))"

definition update_double :: "64 word \<Rightarrow> (checksum, unit) sm" where
  "update_double val = checksum_update (le_bytes 8 (uint val))"

section \<open>Incremental checksums\<close>

text \<open>
  The contract the readers and writers rely on: feeding a checksum piecewise is feeding it the
  concatenation. \<open>digest\<close> names the value of a fresh checksum that was fed \<open>bs\<close>.
\<close>

locale incremental =
  fixes upd :: "bytes \<Rightarrow> 'c \<Rightarrow> 'c"
    and fresh :: 'c
    and getv :: "'c \<Rightarrow> 32 word"
  assumes upd_append: "upd ys (upd xs fresh) = upd (xs @ ys) fresh"
begin

definition digest :: "bytes \<Rightarrow> 32 word" where
  "digest bs = getv (upd bs fresh)"

lemma upd_concat: "fold upd bss (upd xs fresh) = upd (xs @ concat bss) fresh"
  by (induction bss arbitrary: xs) (simp_all add: upd_append)

lemma digest_pieces: "bss \<noteq> [] \<Longrightarrow> getv (fold upd bss fresh) = digest (concat bss)"
  by (cases bss) (simp_all add: upd_concat digest_def)

end

lemma crc32_update_eq:
  "crc32_update buf None None c =
     Some (zlib_crc32 buf (case c of None \<Rightarrow> 0 | Some v \<Rightarrow> v))"
  by (auto simp: crc32_update_def to_crc_def split: option.split)

interpretation crc32c: incremental "\<lambda>bs. crc32c_update bs None None" CRC_INIT crc32c_getvalue
  by unfold_locales (simp add: crc32c_update_fold)

interpretation crc32: incremental "\<lambda>bs. crc32_update bs None None" None "\<lambda>c. case c of None \<Rightarrow> 0 | Some v \<Rightarrow> v"
  by unfold_locales (simp add: crc32_update_eq zlib_crc32_def)

interpretation tunnel_checksum: incremental checksum_raw "C32c CRC_INIT"
    "\<lambda>c. case checksum_getvalue c of None \<Rightarrow> 0 | Some v \<Rightarrow> v"
  by unfold_locales (simp add: crc32c_update_fold)

text \<open>\<^verbatim>\<open>Crc32.update\<close> restarts when its value is zero; zlib's start value is zero too.\<close>

lemma crc32_of_eq: "crc32_update buf None None None = Some (crc_bitwise ieee_poly buf)"
  by (simp add: crc32_update_eq zlib_crc32_def crc_bitwise_def minus_one_32)

section \<open>Properties\<close>

text \<open>C13: the table-driven \<^verbatim>\<open>Crc32c\<close> of \<^verbatim>\<open>odps/crc.py\<close>, its 256 constants included, computes on every
  buffer exactly the CRC-32C defined bit by bit from the Castagnoli polynomial.\<close>

theorem crc32c_is_castagnoli:
  "crc32c_getvalue (crc32c_update buf None None CRC_INIT) = crc_bitwise castagnoli buf"
  using crc32c_of_eq by (simp add: crc32c_of_def)

text \<open>C14: \<^verbatim>\<open>Crc32c\<close> tells apart any two buffers of the same length that differ only inside one
  stretch of at most four consecutive bytes, wherever the stretch lies.\<close>

theorem crc32c_detects_bursts:
  assumes "length m = length m'" and "length m \<le> 4" and "m \<noteq> m'"
  shows "crc32c_getvalue (crc32c_update (pre @ m @ post) None None CRC_INIT) \<noteq>
         crc32c_getvalue (crc32c_update (pre @ m' @ post) None None CRC_INIT)"
  using crc_bitwise_burst [of castagnoli, OF _ assms] crc32c_of_eq
  by (simp add: crc32c_of_def castagnoli_def)

theorem crc32c_detects_bursts_witness:
  "crc32c_getvalue (crc32c_update ([7] @ [1, 2] @ [9, 9]) None None CRC_INIT) \<noteq>
   crc32c_getvalue (crc32c_update ([7] @ [3, 2] @ [9, 9]) None None CRC_INIT)"
  by (rule crc32c_detects_bursts) simp_all

text \<open>C15: feeding the tunnel checksum piece by piece, as the reader and the writer do, gives the
  checksum of the concatenation; \<^verbatim>\<open>Crc32.update\<close>, which starts over whenever its value is
  zero, computes zlib's CRC-32 of the concatenation all the same.\<close>

theorem checksum_incremental:
  "checksum_getvalue (fold checksum_raw bss (C32c CRC_INIT)) =
     Some (crc32c_of (concat bss)) \<and>
   checksum_getvalue (fold checksum_raw (bs # bss) (C32 None)) =
     Some (zlib_crc32 (concat (bs # bss)) 0)"
proof
  have "fold checksum_raw bss (C32c c) = C32c (fold (\<lambda>b. crc32c_update b None None) bss c)" for c
    by (induction bss arbitrary: c) simp_all
  moreover have "fold (\<lambda>b. crc32c_update b None None) bss CRC_INIT =
      crc32c_update (concat bss) None None CRC_INIT"
    using crc32c.upd_concat [of bss "[]"] by (simp add: crc32c_update_fold)
  ultimately show "checksum_getvalue (fold checksum_raw bss (C32c CRC_INIT)) =
      Some (crc32c_of (concat bss))"
    by (simp add: crc32c_of_def)
  have "fold checksum_raw bss (C32 c) = C32 (fold (\<lambda>b. crc32_update b None None) bss c)" for c
    by (induction bss arbitrary: c) simp_all
  moreover have "fold (\<lambda>b. crc32_update b None None) bss (crc32_update bs None None None) =
      crc32_update (bs @ concat bss) None None None"
    by (rule crc32.upd_concat)
  ultimately show "checksum_getvalue (fold checksum_raw (bs # bss) (C32 None)) =
      Some (zlib_crc32 (concat (bs # bss)) 0)"
    by (simp add: crc32_update_eq)
qed

end
