(* ===== verification/Dag.thy ===== *)
theory Dag
  imports Prelude "HOL-Library.AList" "HOL-Library.Multiset"
begin

text \<open>
  \<^verbatim>\<open>odps/dag.py\<close>. A graph is the dictionary from a node's id to the set of its successors'
  ids, as an association list in insertion order; \<^verbatim>\<open>_reversed_graph\<close> is optional. \<^verbatim>\<open>_map\<close> is
  written together with \<^verbatim>\<open>_graph\<close>, keeps its nodes alive and so keeps \<^verbatim>\<open>id\<close> injective: nodes
  are identified with their ids and \<^verbatim>\<open>_map.get\<close> is the identity on the keys.

  A Python set has no fixed iteration order. The stored list only records membership; every
  operation that iterates over a set does so through the parameter \<open>iter\<close>, of which the results
  assume only that it visits every element once.
\<close>

section \<open>State\<close>

type_synonym 'n graph = "('n \<times> 'n list) list"

record 'n dag =
  dg_graph :: "'n graph"
  dg_rev :: "'n graph option"

definition dag_new :: "bool \<Rightarrow> 'n dag" where
  "dag_new reverse = \<lparr>dg_graph = [], dg_rev = (if reverse then Some [] else None)\<rparr>"

definition dag_nodes :: "'n dag \<Rightarrow> 'n list" where
  "dag_nodes d = List.map fst (dg_graph d)"

definition has_key :: "('n \<times> 'v) list \<Rightarrow> 'n \<Rightarrow> bool" where
  "has_key g n \<longleftrightarrow> map_of g n \<noteq> None"

definition getitem :: "('n \<times> 'v) list \<Rightarrow> 'n \<Rightarrow> 'v result" where
  "getitem g n = (case map_of g n of None \<Rightarrow> Inl KeyError | Some v \<Rightarrow> Inr v)"

definition contains_node :: "'n dag \<Rightarrow> 'n \<Rightarrow> bool" where
  "contains_node d n = has_key (dg_graph d) n"

text \<open>\<^verbatim>\<open>set.add\<close> and \<^verbatim>\<open>set.remove\<close>.\<close>

definition set_add :: "'n \<Rightarrow> 'n list \<Rightarrow> 'n list" where
  "set_add x xs = (if x \<in> set xs then xs else xs @ [x])"

definition set_remove :: "'n \<Rightarrow> 'n list \<Rightarrow> 'n list result" where
  "set_remove x xs = (if x \<in> set xs then Inr (remove1 x xs) else Inl KeyError)"

text \<open>\<^verbatim>\<open>g[k].add(x)\<close> and \<^verbatim>\<open>g[k].remove(x)\<close>.\<close>

definition graph_add :: "'n \<Rightarrow> 'n \<Rightarrow> 'n graph \<Rightarrow> 'n graph result" where
  "graph_add k x g = rbind (getitem g k) (\<lambda>es. Inr (AList.update k (set_add x es) g))"

definition graph_remove :: "'n \<Rightarrow> 'n \<Rightarrow> 'n graph \<Rightarrow> 'n graph result" where
  "graph_remove k x g =
     rbind (getitem g k) (\<lambda>es. rbind (set_remove x es) (\<lambda>es'. Inr (AList.update k es' g)))"

section \<open>Nodes and edges\<close>

definition add_node :: "'n \<Rightarrow> ('n dag, unit) sm" where
  "add_node n =
     sthen (smod (\<lambda>d. d\<lparr>dg_graph := AList.update n [] (dg_graph d)\<rparr>))
       (smod (\<lambda>d. d\<lparr>dg_rev := map_option (AList.update n []) (dg_rev d)\<rparr>))"

definition drop_edges_to :: "'n \<Rightarrow> 'n graph \<Rightarrow> 'n graph" where
  "drop_edges_to n g =
     List.map (\<lambda>(k, es). (k, if n \<in> set es then remove1 n es else es)) g"

definition remove_node :: "'n \<Rightarrow> ('n dag, unit) sm" where
  "remove_node n d =
     (if \<not> has_key (dg_graph d) n then (Inl KeyError, d)
      else let d' = d\<lparr>dg_graph := drop_edges_to n (AList.delete n (dg_graph d))\<rparr>
       in case dg_rev d of
            None \<Rightarrow> (Inr (), d')
          | Some r \<Rightarrow>
              if \<not> has_key r n then (Inl KeyError, d')
              else (Inr (), d'\<lparr>dg_rev := Some (drop_edges_to n (AList.delete n r))\<rparr>))"

definition contains_edge :: "'n dag \<Rightarrow> 'n \<Rightarrow> 'n \<Rightarrow> bool" where
  "contains_edge d p s =
     (if \<not> has_key (dg_graph d) p \<or> \<not> has_key (dg_graph d) s then False
      else case map_of (dg_graph d) p of None \<Rightarrow> False | Some es \<Rightarrow> s \<in> set es)"

section \<open>Topological sort\<close>

definition indep_ids :: "('n list \<Rightarrow> 'n list) \<Rightarrow> 'n graph \<Rightarrow> 'n graph option \<Rightarrow> 'n list" where
  "indep_ids iter g r =
     (case r of
        Some rg \<Rightarrow> List.map fst (List.filter (\<lambda>(n, ps). length ps = 0) rg)
      | None \<Rightarrow> iter (List.filter (\<lambda>n. n \<notin> set (concat (List.map snd g))) (List.map fst g)))"

definition predecessor_ids :: "'n \<Rightarrow> 'n graph \<Rightarrow> 'n graph option \<Rightarrow> 'n list result" where
  "predecessor_ids n g r =
     (case r of
        Some rg \<Rightarrow> getitem rg n
      | None \<Rightarrow> Inr (List.map fst (List.filter (\<lambda>(nid, deps). n \<in> set deps) g)))"

text \<open>The inner loop, over the successors of the node just taken.\<close>

fun topo_deps ::
    "'n \<Rightarrow> 'n list \<Rightarrow> 'n graph \<Rightarrow> 'n graph option \<Rightarrow> 'n list \<Rightarrow>
     ('n graph \<times> 'n graph option \<times> 'n list) result" where
  "topo_deps n [] g r indep = Inr (g, r, indep)"
| "topo_deps n (dep # deps) g r indep =
     rbind (graph_remove n dep g) (\<lambda>g'.
     rbind (case r of None \<Rightarrow> Inr None
            | Some rg \<Rightarrow> rbind (graph_remove dep n rg) (\<lambda>rg'. Inr (Some rg'))) (\<lambda>r'.
     rbind (predecessor_ids dep g' r') (\<lambda>ps.
       topo_deps n deps g' r' (if length ps = 0 then indep @ [dep] else indep))))"

definition edge_count :: "'n graph \<Rightarrow> nat" where
  "edge_count g = sum_list (List.map (\<lambda>(k, es). length es) g)"

lemma edge_count_update:
  "map_of g k = Some es \<Longrightarrow>
   edge_count (AList.update k es' g) + length es = edge_count g + length es'"
  by (induction g) (auto simp: edge_count_def split: if_splits)

lemma graph_remove_Inr:
  "graph_remove k x g = Inr g' \<longleftrightarrow>
   (\<exists>es. map_of g k = Some es \<and> x \<in> set es \<and> g' = AList.update k (remove1 x es) g)"
  by (auto simp: graph_remove_def getitem_def set_remove_def split: option.splits)

lemma graph_remove_count: "graph_remove k x g = Inr g' \<Longrightarrow> Suc (edge_count g') = edge_count g"
proof -
  assume "graph_remove k x g = Inr g'"
  then obtain es where es: "map_of g k = Some es" "x \<in> set es"
    and g': "g' = AList.update k (remove1 x es) g"
    by (auto simp: graph_remove_Inr)
  then have "Suc (length (remove1 x es)) = length es"
    by (auto simp: length_remove1 dest: length_pos_if_in_set)
  with edge_count_update [OF es(1), of "remove1 x es"] g' show ?thesis by simp
qed

lemma topo_deps_count:
  "topo_deps n deps g r indep = Inr (g', r', indep') \<Longrightarrow>
   length indep' + edge_count g' \<le> length indep + edge_count g"
proof (induction n deps g r indep rule: topo_deps.induct)
  case (2 n dep deps g r indep)
  then show ?case
    by (auto simp: rbind_eq_Inr dest!: graph_remove_count split: if_splits option.splits)
      (fastforce)+
qed simp

function topo_loop ::
    "('n list \<Rightarrow> 'n list) \<Rightarrow> 'n graph \<Rightarrow> 'n graph option \<Rightarrow> 'n list \<Rightarrow> 'n list \<Rightarrow>
     ('n list \<times> 'n graph) result" where
  "topo_loop iter g r node_ids [] = Inr (node_ids, g)"
| "topo_loop iter g r node_ids (n # indep) =
     rbind (getitem g n) (\<lambda>es.
     rbind (topo_deps n (iter es) g r indep) (\<lambda>(g', r', indep').
       topo_loop iter g' r' (node_ids @ [n]) indep'))"
  by pat_completeness auto
termination
  by (relation "measure (\<lambda>(_, g, _, _, indep). length indep + edge_count g)")
    (auto dest!: topo_deps_count)

definition topological_sort ::
    "('n list \<Rightarrow> 'n list) \<Rightarrow> 'n graph \<Rightarrow> 'n graph option \<Rightarrow> 'n list result" where
  "topological_sort iter g r =
     rbind (topo_loop iter g r [] (indep_ids iter g r)) (\<lambda>(node_ids, g').
       if length node_ids \<noteq> length g' then Inl ValueError else Inr node_ids)"

text \<open>\<^verbatim>\<open>_validate\<close>: only a \<^verbatim>\<open>ValueError\<close> of the sort is caught.\<close>

definition validate :: "('n list \<Rightarrow> 'n list) \<Rightarrow> 'n graph \<Rightarrow> 'n graph option \<Rightarrow> bool result" where
  "validate iter g r =
     (if length (indep_ids iter g r) = 0 then Inr False
      else case topological_sort iter g r of
             Inl e \<Rightarrow> if e = ValueError then Inr False else Inl e
           | Inr _ \<Rightarrow> Inr True)"

definition add_edge :: "('n list \<Rightarrow> 'n list) \<Rightarrow> 'n \<Rightarrow> 'n \<Rightarrow> bool \<Rightarrow> ('n dag, unit) sm" where
  "add_edge iter p s do_validate d =
     (if \<not> has_key (dg_graph d) p \<or> \<not> has_key (dg_graph d) s then (Inl KeyError, d)
      else case (if do_validate then
                   rbind (graph_add p s (dg_graph d)) (\<lambda>test_graph.
                   rbind (case dg_rev d of None \<Rightarrow> Inr None
                          | Some rg \<Rightarrow> rbind (graph_add s p rg) (\<lambda>rg'. Inr (Some rg'))) (\<lambda>test_rev.
                     validate iter test_graph test_rev))
                 else Inr True) of
             Inl e \<Rightarrow> (Inl e, d)
           | Inr valid \<Rightarrow>
               if \<not> valid then (Inl DAGValidationError, d)
               else case graph_add p s (dg_graph d) of
                      Inl e \<Rightarrow> (Inl e, d)
                    | Inr g' \<Rightarrow>
                        (case dg_rev d of
                           None \<Rightarrow> (Inr (), d\<lparr>dg_graph := g'\<rparr>)
                         | Some rg \<Rightarrow>
                             (case graph_add s p rg of
                                Inl e \<Rightarrow> (Inl e, d\<lparr>dg_graph := g'\<rparr>)
                              | Inr rg' \<Rightarrow> (Inr (), d\<lparr>dg_graph := g', dg_rev := Some rg'\<rparr>))))"

definition remove_edge :: "'n \<Rightarrow> 'n \<Rightarrow> ('n dag, unit) sm" where
  "remove_edge p s d =
     (if s \<notin> set (case map_of (dg_graph d) p of None \<Rightarrow> [] | Some es \<Rightarrow> es) then (Inl KeyError, d)
      else case graph_remove p s (dg_graph d) of
             Inl e \<Rightarrow> (Inl e, d)
           | Inr g' \<Rightarrow>
               (case dg_rev d of
                  None \<Rightarrow> (Inr (), d\<lparr>dg_graph := g'\<rparr>)
                | Some rg \<Rightarrow>
                    (case graph_remove s p rg of
                       Inl e \<Rightarrow> (Inl e, d\<lparr>dg_graph := g'\<rparr>)
                     | Inr rg' \<Rightarrow> (Inr (), d\<lparr>dg_graph := g', dg_rev := Some rg'\<rparr>))))"

definition reset_graph :: "'n dag \<Rightarrow> 'n dag" where
  "reset_graph d = d\<lparr>dg_graph := [], dg_rev := (case dg_rev d of None \<Rightarrow> None | Some _ \<Rightarrow> Some [])\<rparr>"

section \<open>Traversal\<close>

definition predecessors :: "('n list \<Rightarrow> 'n list) \<Rightarrow> 'n dag \<Rightarrow> 'n \<Rightarrow> 'n list result" where
  "predecessors iter d n =
     (if \<not> has_key (dg_graph d) n then Inl KeyError
      else case dg_rev d of
             None \<Rightarrow> predecessor_ids n (dg_graph d) None
           | Some rg \<Rightarrow> rbind (predecessor_ids n (dg_graph d) (Some rg)) (\<lambda>ps. Inr (iter ps)))"

definition successors :: "('n list \<Rightarrow> 'n list) \<Rightarrow> 'n dag \<Rightarrow> 'n \<Rightarrow> 'n list result" where
  "successors iter d n =
     (if \<not> has_key (dg_graph d) n then Inl KeyError
      else rbind (getitem (dg_graph d) n) (\<lambda>es. Inr (iter es)))"

fun bfs_visit :: "'n list \<Rightarrow> 'n list \<Rightarrow> 'n list \<times> 'n list" where
  "bfs_visit visited [] = (visited, [])"
| "bfs_visit visited (u # us) =
     (if u \<in> set visited then bfs_visit visited us
      else case bfs_visit (u # visited) us of (v, ys) \<Rightarrow> (v, u # ys))"

text \<open>
  The generator, as the nodes it yields and the exception that ended it, if any. It may run for
  ever on an arbitrary successor function; \<open>None\<close> is that case.
\<close>

partial_function (option) bfs_loop ::
    "('n \<Rightarrow> 'n list result) \<Rightarrow> ('n \<Rightarrow> bool) \<Rightarrow> 'n list \<Rightarrow> 'n list \<Rightarrow>
     ('n list \<times> py_error option) option" where
  "bfs_loop succ cond visited queue =
     (case queue of
        [] \<Rightarrow> Some ([], None)
      | cur # rest \<Rightarrow>
          (case succ cur of
             Inl e \<Rightarrow> Some ([], Some e)
           | Inr ns \<Rightarrow>
               (case bfs_visit visited (List.filter cond ns) of (visited', ys) \<Rightarrow>
                  Option.bind (bfs_loop succ cond visited' (rest @ ys))
                    (\<lambda>(zs, e). Some (ys @ zs, e)))))"

definition bfs ::
    "'n dag \<Rightarrow> ('n \<Rightarrow> 'n list result) \<Rightarrow> ('n \<Rightarrow> bool) \<Rightarrow> 'n list \<Rightarrow>
     ('n list \<times> py_error option) option" where
  "bfs d succ cond start =
     (let start_nodes = List.filter cond start
      in if \<not> list_all (has_key (dg_graph d)) start_nodes then Some ([], Some AssertionError)
         else bfs_loop succ cond start_nodes start_nodes)"

definition ancestors ::
    "('n list \<Rightarrow> 'n list) \<Rightarrow> 'n dag \<Rightarrow> ('n \<Rightarrow> bool) \<Rightarrow> 'n list \<Rightarrow> ('n list \<times> py_error option) option" where
  "ancestors iter d cond start = bfs d (predecessors iter d) cond start"

definition descendants ::
    "('n list \<Rightarrow> 'n list) \<Rightarrow> 'n dag \<Rightarrow> ('n \<Rightarrow> bool) \<Rightarrow> 'n list \<Rightarrow> ('n list \<times> py_error option) option" where
  "descendants iter d cond start = bfs d (successors iter d) cond start"

section \<open>Well-formed graphs\<close>

definition gsucc :: "'n graph \<Rightarrow> 'n \<Rightarrow> 'n list" where
  "gsucc g k = (case map_of g k of None \<Rightarrow> [] | Some es \<Rightarrow> es)"

definition keys :: "('n \<times> 'v) list \<Rightarrow> 'n set" where
  "keys g = fst ` set g"

definition edges :: "'n graph \<Rightarrow> ('n \<times> 'n) set" where
  "edges g = {(p, k). k \<in> set (gsucc g p)}"

definition wf_graph :: "'n graph \<Rightarrow> bool" where
  "wf_graph g \<longleftrightarrow> distinct (List.map fst g) \<and>
     list_all (\<lambda>(k, es). distinct es \<and> set es \<subseteq> keys g) g"

definition rev_ok :: "'n graph \<Rightarrow> 'n graph option \<Rightarrow> bool" where
  "rev_ok g r \<longleftrightarrow> (case r of None \<Rightarrow> True
     | Some rg \<Rightarrow> wf_graph rg \<and> keys rg = keys g \<and>
         (\<forall>k \<in> keys g. \<forall>p \<in> keys g. p \<in> set (gsucc rg k) \<longleftrightarrow> k \<in> set (gsucc g p)))"

definition dag_ok :: "'n dag \<Rightarrow> bool" where
  "dag_ok d \<longleftrightarrow> wf_graph (dg_graph d) \<and> rev_ok (dg_graph d) (dg_rev d)"

definition visits_all :: "('n list \<Rightarrow> 'n list) \<Rightarrow> bool" where
  "visits_all iter \<longleftrightarrow> (\<forall>xs. mset (iter xs) = mset xs)"

lemma visits_all_simps:
  assumes "visits_all iter"
  shows "set (iter xs) = set xs" "distinct (iter xs) = distinct xs" "length (iter xs) = length xs"
    "iter xs = [] \<longleftrightarrow> xs = []"
  using assms by (metis visits_all_def mset_eq_setD, metis visits_all_def mset_eq_imp_distinct_iff,
      metis visits_all_def mset_eq_length, metis visits_all_def mset_eq_length length_0_conv)

lemma has_key_keys: "has_key g n \<longleftrightarrow> n \<in> keys g"
  by (simp add: has_key_def keys_def map_of_eq_None_iff)

lemma keys_map_of: "k \<in> keys g \<longleftrightarrow> map_of g k = Some (gsucc g k)"
  by (cases "map_of g k") (auto simp: keys_def gsucc_def map_of_eq_None_iff
      dest!: map_of_SomeD intro: rev_image_eqI)

lemma gsucc_not_key: "k \<notin> keys g \<Longrightarrow> gsucc g k = []"
  by (cases "map_of g k") (force simp: keys_def gsucc_def dest!: map_of_SomeD)+

lemma getitem_key: "k \<in> keys g \<Longrightarrow> getitem g k = Inr (gsucc g k)"
  by (simp add: getitem_def keys_map_of)

lemma wf_graph_iff:
  "wf_graph g \<longleftrightarrow> distinct (List.map fst g) \<and>
     (\<forall>k. distinct (gsucc g k) \<and> set (gsucc g k) \<subseteq> keys g)"
proof
  assume wf: "wf_graph g"
  have "distinct (gsucc g k) \<and> set (gsucc g k) \<subseteq> keys g" for k
  proof (cases "k \<in> keys g")
    case True
    then have "(k, gsucc g k) \<in> set g" by (simp add: keys_map_of map_of_SomeD)
    with wf show ?thesis by (auto simp: wf_graph_def list_all_iff)
  qed (simp add: gsucc_not_key)
  with wf show "distinct (List.map fst g) \<and>
     (\<forall>k. distinct (gsucc g k) \<and> set (gsucc g k) \<subseteq> keys g)"
    by (simp add: wf_graph_def)
next
  assume r: "distinct (List.map fst g) \<and>
     (\<forall>k. distinct (gsucc g k) \<and> set (gsucc g k) \<subseteq> keys g)"
  have "gsucc g k = es" if "(k, es) \<in> set g" for k es
    using r that by (simp add: gsucc_def)
  with r show "wf_graph g"
    by (fastforce simp: wf_graph_def list_all_iff)
qed

lemma gsucc_update [simp]: "gsucc (AList.update k v g) j = (if j = k then v else gsucc g j)"
  by (simp add: gsucc_def update_conv')

lemma keys_update [simp]: "keys (AList.update k v g) = insert k (keys g)"
  using dom_update [of k v g] by (simp add: keys_def dom_map_of_conv_image_fst)

lemma fst_update: "k \<in> keys g \<Longrightarrow> List.map fst (AList.update k v g) = List.map fst g"
  by (simp add: update_keys keys_def)

lemma keys_fst: "List.map fst g = List.map fst g' \<Longrightarrow> keys g = keys g'"
  by (metis keys_def list.set_map)

lemma edges_keys: "wf_graph g \<Longrightarrow> edges g \<subseteq> keys g \<times> keys g"
  by (auto simp: edges_def wf_graph_iff) (metis empty_iff gsucc_not_key list.set(1))

lemma gsucc_keys: "wf_graph g \<Longrightarrow> k \<in> set (gsucc g p) \<Longrightarrow> p \<in> keys g \<and> k \<in> keys g"
  using edges_keys [of g] by (auto simp: edges_def)

lemma finite_edges: "wf_graph g \<Longrightarrow> finite (edges g)"
  by (rule finite_subset [OF edges_keys]) (auto simp: keys_def)

lemma rev_ok_Some:
  assumes "rev_ok g (Some rg)" and "wf_graph g"
  shows "wf_graph rg" "keys rg = keys g" "p \<in> set (gsucc rg k) \<longleftrightarrow> k \<in> set (gsucc g p)"
proof -
  from assms(1) show rg: "wf_graph rg" and k: "keys rg = keys g" by (simp_all add: rev_ok_def)
  show "p \<in> set (gsucc rg k) \<longleftrightarrow> k \<in> set (gsucc g p)"
  proof (cases "k \<in> keys g \<and> p \<in> keys g")
    case True
    with assms(1) show ?thesis by (simp add: rev_ok_def)
  next
    case False
    with gsucc_keys [OF rg, of p k] gsucc_keys [OF assms(2), of k p] k show ?thesis by blast
  qed
qed

lemma rev_okI:
  "wf_graph rg \<Longrightarrow> keys rg = keys g \<Longrightarrow>
   (\<And>p k. p \<in> set (gsucc rg k) \<longleftrightarrow> k \<in> set (gsucc g p)) \<Longrightarrow> rev_ok g (Some rg)"
  by (simp add: rev_ok_def)

section \<open>The sort\<close>

lemma predecessor_ids_ok:
  assumes "wf_graph g" and "rev_ok g r" and "n \<in> keys g"
  obtains ps where "predecessor_ids n g r = Inr ps" and "set ps = {p. n \<in> set (gsucc g p)}"
proof (cases r)
  case None
  have "k \<in> fst ` {x \<in> set g. n \<in> set (snd x)} \<longleftrightarrow> n \<in> set (gsucc g k)" for k
  proof
    assume "k \<in> fst ` {x \<in> set g. n \<in> set (snd x)}"
    then obtain es where "(k, es) \<in> set g" "n \<in> set es" by auto
    with assms(1) show "n \<in> set (gsucc g k)" by (simp add: gsucc_def wf_graph_def)
  next
    assume n: "n \<in> set (gsucc g k)"
    with assms(1) have "(k, gsucc g k) \<in> set g"
      by (metis gsucc_keys keys_map_of map_of_SomeD)
    with n show "k \<in> fst ` {x \<in> set g. n \<in> set (snd x)}" by force
  qed
  with None that show ?thesis by (auto simp: predecessor_ids_def split_beta)
next
  case (Some rg)
  with assms have "keys rg = keys g"
    "\<And>p. p \<in> set (gsucc rg n) \<longleftrightarrow> n \<in> set (gsucc g p)"
    using rev_ok_Some [of g rg] by simp_all
  with Some assms(3) that show ?thesis by (auto simp: predecessor_ids_def getitem_key)
qed

lemma graph_remove_ok:
  assumes "wf_graph g" and "x \<in> set (gsucc g k)"
  obtains g' where "graph_remove k x g = Inr g'" and "wf_graph g'"
    and "List.map fst g' = List.map fst g"
    and "\<And>j. set (gsucc g' j) = (if j = k then set (gsucc g k) - {x} else set (gsucc g j))"
proof -
  from assms have k: "k \<in> keys g" and d: "distinct (gsucc g k)"
    using gsucc_keys [OF assms] by (simp_all add: wf_graph_iff)
  let ?g = "AList.update k (remove1 x (gsucc g k)) g"
  have fst: "List.map fst ?g = List.map fst g" by (rule fst_update [OF k])
  have "wf_graph ?g"
    using assms(1) fst k unfolding wf_graph_iff
    by (auto simp: insert_absorb dest: notin_set_remove1)
  with k d assms(2) fst show thesis
    by (intro that [of ?g]) (auto simp: graph_remove_Inr keys_map_of)
qed

lemma topo_deps_ok:
  assumes "wf_graph g" and "rev_ok g r" and "distinct deps" and "set deps \<subseteq> set (gsucc g n)"
  shows "\<exists>g' r'. topo_deps n deps g r indep =
       Inr (g', r', indep @ List.filter (\<lambda>d. \<forall>p. p \<noteq> n \<longrightarrow> d \<notin> set (gsucc g p)) deps) \<and>
     wf_graph g' \<and> rev_ok g' r' \<and> List.map fst g' = List.map fst g \<and>
     (\<forall>j. set (gsucc g' j) = (if j = n then set (gsucc g n) - set deps else set (gsucc g j)))"
  using assms
proof (induction deps arbitrary: g r indep)
  case (Cons d deps)
  then have d: "d \<in> set (gsucc g n)" by simp
  then have dk: "d \<in> keys g" using gsucc_keys [OF Cons.prems(1)] by blast
  obtain g1 where g1: "graph_remove n d g = Inr g1" "wf_graph g1"
    and fst1: "List.map fst g1 = List.map fst g"
    and s1: "\<And>j. set (gsucc g1 j) = (if j = n then set (gsucc g n) - {d} else set (gsucc g j))"
    using graph_remove_ok [OF Cons.prems(1) d] by metis
  have "\<exists>r1. (case r of None \<Rightarrow> Inr None
      | Some rg \<Rightarrow> rbind (graph_remove d n rg) (\<lambda>rg'. Inr (Some rg'))) = Inr r1 \<and> rev_ok g1 r1"
  proof (cases r)
    case None
    then show ?thesis by (simp add: rev_ok_def)
  next
    case (Some rg)
    note rg = rev_ok_Some [OF Cons.prems(2) [unfolded Some] Cons.prems(1)]
    from d rg(3) have "n \<in> set (gsucc rg d)" by simp
    from graph_remove_ok [OF rg(1) this] obtain rg1 where r1: "graph_remove d n rg = Inr rg1"
      "wf_graph rg1" "List.map fst rg1 = List.map fst rg"
      "\<And>j. set (gsucc rg1 j) = (if j = d then set (gsucc rg d) - {n} else set (gsucc rg j))"
      by blast
    have "rev_ok g1 (Some rg1)"
      using r1 rg s1 keys_fst [OF fst1] keys_fst [OF r1(3)] by (intro rev_okI) auto
    with r1(1) Some show ?thesis by simp
  qed
  then obtain r1 where r1: "(case r of None \<Rightarrow> Inr None
      | Some rg \<Rightarrow> rbind (graph_remove d n rg) (\<lambda>rg'. Inr (Some rg'))) = Inr r1" "rev_ok g1 r1"
    by blast
  have "d \<in> keys g1" using dk keys_fst [OF fst1] by simp
  from predecessor_ids_ok [OF g1(2) r1(2) this] obtain ps
    where ps: "predecessor_ids d g1 r1 = Inr ps" "set ps = {p. d \<in> set (gsucc g1 p)}" by blast
  have free: "ps = [] \<longleftrightarrow> (\<forall>p. p \<noteq> n \<longrightarrow> d \<notin> set (gsucc g p))"
    using ps(2) s1 by (auto simp flip: set_empty)
  have sub: "set deps \<subseteq> set (gsucc g1 n)" and dist: "distinct deps"
    using Cons.prems(3,4) s1 [of n] by auto
  have filt: "List.filter (\<lambda>d. \<forall>p. p \<noteq> n \<longrightarrow> d \<notin> set (gsucc g1 p)) deps =
      List.filter (\<lambda>d. \<forall>p. p \<noteq> n \<longrightarrow> d \<notin> set (gsucc g p)) deps"
    by (rule filter_cong) (simp_all add: s1)
  obtain g' r' where ih: "topo_deps n deps g1 r1 (if length ps = 0 then indep @ [d] else indep) =
       Inr (g', r', (if length ps = 0 then indep @ [d] else indep) @
         List.filter (\<lambda>d. \<forall>p. p \<noteq> n \<longrightarrow> d \<notin> set (gsucc g1 p)) deps)"
     and w: "wf_graph g'" "rev_ok g' r'" "List.map fst g' = List.map fst g1"
     and s': "\<forall>j. set (gsucc g' j) =
       (if j = n then set (gsucc g1 n) - set deps else set (gsucc g1 j))"
    using Cons.IH [OF g1(2) r1(2) dist sub] by blast
  have "topo_deps n (d # deps) g r indep = Inr (g', r',
      indep @ List.filter (\<lambda>d. \<forall>p. p \<noteq> n \<longrightarrow> d \<notin> set (gsucc g p)) (d # deps))"
    using ih unfolding filt by (simp add: g1(1) r1(1) ps(1)) (auto simp: free)
  moreover have "\<forall>j. set (gsucc g' j) =
      (if j = n then set (gsucc g n) - set (d # deps) else set (gsucc g j))"
    using s' s1 by auto
  ultimately show ?case using w fst1 by fastforce
qed simp

subsection \<open>The invariant of the main loop\<close>

definition topo_inv :: "'n graph \<Rightarrow> 'n graph \<Rightarrow> 'n graph option \<Rightarrow> 'n list \<Rightarrow> 'n list \<Rightarrow> bool" where
  "topo_inv g0 g r D I \<longleftrightarrow>
     wf_graph g \<and> rev_ok g r \<and> List.map fst g = List.map fst g0 \<and>
     (\<forall>j. set (gsucc g j) = (if j \<in> set D then {} else set (gsucc g0 j))) \<and>
     distinct (D @ I) \<and> set (D @ I) = {k \<in> keys g0. \<forall>p. k \<notin> set (gsucc g p)} \<and>
     (\<forall>i < length D. \<forall>p. D ! i \<in> set (gsucc g0 p) \<longrightarrow> p \<in> set (take i D))"

lemma topo_invD:
  assumes "topo_inv g0 g r D I"
  shows "wf_graph g" "rev_ok g r" "List.map fst g = List.map fst g0"
    and "\<And>j. set (gsucc g j) = (if j \<in> set D then {} else set (gsucc g0 j))"
    and "distinct (D @ I)" "set (D @ I) = {k \<in> keys g0. \<forall>p. k \<notin> set (gsucc g p)}"
    and "\<forall>i < length D. \<forall>p. D ! i \<in> set (gsucc g0 p) \<longrightarrow> p \<in> set (take i D)"
  using assms unfolding topo_inv_def by blast+

lemma topo_inv_step:
  assumes inv: "topo_inv g0 g r D (n # I)" and iter: "visits_all iter"
  shows "\<exists>g' r' I'. getitem g n = Inr (gsucc g n) \<and>
    topo_deps n (iter (gsucc g n)) g r I = Inr (g', r', I') \<and> topo_inv g0 g' r' (D @ [n]) I'"
proof -
  from inv have wf: "wf_graph g" "rev_ok g r" and fst: "List.map fst g = List.map fst g0"
    and s: "\<And>j. set (gsucc g j) = (if j \<in> set D then {} else set (gsucc g0 j))"
    and dist: "distinct (D @ n # I)"
    and free: "set (D @ n # I) = {k \<in> keys g0. \<forall>p. k \<notin> set (gsucc g p)}"
    and ord: "\<forall>i < length D. \<forall>p. D ! i \<in> set (gsucc g0 p) \<longrightarrow> p \<in> set (take i D)"
    by (auto simp: topo_inv_def)
  have "n \<in> set (D @ n # I)" by simp
  with free have n: "n \<in> keys g0" "\<And>p. n \<notin> set (gsucc g p)" by auto
  have nk: "n \<in> keys g" using n(1) keys_fst [OF fst] by simp
  note it = visits_all_simps [OF iter]
  let ?new = "List.filter (\<lambda>d. \<forall>p. p \<noteq> n \<longrightarrow> d \<notin> set (gsucc g p)) (iter (gsucc g n))"
  have "distinct (iter (gsucc g n))" "set (iter (gsucc g n)) \<subseteq> set (gsucc g n)"
    using wf(1) by (simp_all add: it wf_graph_iff)
  from topo_deps_ok [OF wf this, of I] obtain g' r'
    where deps: "topo_deps n (iter (gsucc g n)) g r I = Inr (g', r', I @ ?new)"
      and wf': "wf_graph g'" "rev_ok g' r'" "List.map fst g' = List.map fst g"
      and s': "\<And>j. set (gsucc g' j) = (if j = n then {} else set (gsucc g j))"
    by (auto simp: it)
  have new: "set ?new = {d. d \<in> set (gsucc g n) \<and> (\<forall>p. p \<noteq> n \<longrightarrow> d \<notin> set (gsucc g p))}"
    by (simp add: it)
  have "topo_inv g0 g' r' (D @ [n]) (I @ ?new)"
    unfolding topo_inv_def
  proof (intro conjI)
    show "\<forall>j. set (gsucc g' j) = (if j \<in> set (D @ [n]) then {} else set (gsucc g0 j))"
      using s s' by auto
    have "set ?new \<inter> set (D @ n # I) = {}" unfolding new free by auto
    moreover have "distinct ?new" using wf(1) by (simp add: it wf_graph_iff)
    ultimately show "distinct ((D @ [n]) @ I @ ?new)"
      using dist by auto
    have "set ((D @ [n]) @ I @ ?new) = set (D @ n # I) \<union> set ?new" by auto
    also have "\<dots> = {k \<in> keys g0. \<forall>p. k \<notin> set (gsucc g' p)}"
      unfolding new free using s' gsucc_keys [OF wf(1)] keys_fst [OF fst] by (auto; metis)
    finally show "set ((D @ [n]) @ I @ ?new) = {k \<in> keys g0. \<forall>p. k \<notin> set (gsucc g' p)}" .
    have "p \<in> set D" if "n \<in> set (gsucc g0 p)" for p
      using n(2) [of p] s [of p] that by (auto split: if_splits)
    then show "\<forall>i < length (D @ [n]). \<forall>p. (D @ [n]) ! i \<in> set (gsucc g0 p) \<longrightarrow>
        p \<in> set (take i (D @ [n]))"
      using ord by (auto simp: nth_append less_Suc_eq)
  qed (use wf' fst in simp_all)
  with deps getitem_key [OF nk] show ?thesis by blast
qed

lemma topo_loop_ok:
  "topo_inv g0 g r D I \<Longrightarrow> visits_all iter \<Longrightarrow>
   \<exists>D' g' r'. topo_loop iter g r D I = Inr (D', g') \<and> topo_inv g0 g' r' D' []"
proof (induction iter g r D I rule: topo_loop.induct)
  case (2 iter g r D n I)
  from topo_inv_step [OF 2(2,3)] obtain g' r' I'
    where s: "getitem g n = Inr (gsucc g n)"
      "topo_deps n (iter (gsucc g n)) g r I = Inr (g', r', I')"
      "topo_inv g0 g' r' (D @ [n]) I'"
    by blast
  from "2.IH" [OF s(1,2) refl refl s(3) 2(3)] show ?case by (simp add: s(1,2))
qed auto

lemma indep_ids_ok:
  assumes "wf_graph g" and "rev_ok g r" and "visits_all iter"
  shows "distinct (indep_ids iter g r)"
    and "set (indep_ids iter g r) = {k \<in> keys g. \<forall>p. k \<notin> set (gsucc g p)}"
proof -
  note it = visits_all_simps [OF assms(3)]
  have entry: "(k, es) \<in> set h \<longleftrightarrow> k \<in> keys h \<and> es = gsucc h k" if "wf_graph h" for h k es
  proof -
    have "map_of h k = Some es" if "(k, es) \<in> set h"
      using \<open>wf_graph h\<close> that by (simp add: wf_graph_def)
    then show ?thesis
      by (metis keys_map_of map_of_SomeD map_of_eq_None_iff option.inject option.simps(3) keys_def)
  qed
  have "distinct (indep_ids iter g r) \<and>
    set (indep_ids iter g r) = {k \<in> keys g. \<forall>p. k \<notin> set (gsucc g p)}"
  proof (cases r)
    case None
    have "k \<in> (\<Union>x \<in> set g. set (snd x)) \<longleftrightarrow> (\<exists>p. k \<in> set (gsucc g p))" for k
    proof
      assume "k \<in> (\<Union>x \<in> set g. set (snd x))"
      then obtain p es where "(p, es) \<in> set g" "k \<in> set es" by auto
      with entry [OF assms(1)] show "\<exists>p. k \<in> set (gsucc g p)" by auto
    next
      assume "\<exists>p. k \<in> set (gsucc g p)"
      then obtain p where p: "k \<in> set (gsucc g p)" ..
      with entry [OF assms(1)] gsucc_keys [OF assms(1)] have "(p, gsucc g p) \<in> set g" by simp
      with p show "k \<in> (\<Union>x \<in> set g. set (snd x))" by force
    qed
    with None assms(1) show ?thesis
      by (auto simp: indep_ids_def it wf_graph_def keys_def)
  next
    case (Some rg)
    note rg = rev_ok_Some [OF assms(2) [unfolded Some] assms(1)]
    have "k \<in> fst ` {x \<in> set rg. snd x = []} \<longleftrightarrow> k \<in> keys rg \<and> gsucc rg k = []" for k
    proof
      assume "k \<in> fst ` {x \<in> set rg. snd x = []}"
      then have "(k, []) \<in> set rg" by auto
      with entry [OF rg(1)] show "k \<in> keys rg \<and> gsucc rg k = []" by simp
    next
      assume "k \<in> keys rg \<and> gsucc rg k = []"
      with entry [OF rg(1), of k "[]"] have "(k, []) \<in> set rg" by simp
      then show "k \<in> fst ` {x \<in> set rg. snd x = []}" by force
    qed
    moreover have "gsucc rg k = [] \<longleftrightarrow> (\<forall>p. k \<notin> set (gsucc g p))" for k
      using rg(3) by (metis ex_in_conv set_empty)
    moreover have "distinct (List.map fst (List.filter P rg))" for P
      using rg(1) by (simp add: wf_graph_def distinct_map_filter)
    ultimately show ?thesis
      using Some rg(2) by (auto simp: indep_ids_def split_beta)
  qed
  then show "distinct (indep_ids iter g r)"
    and "set (indep_ids iter g r) = {k \<in> keys g. \<forall>p. k \<notin> set (gsucc g p)}" by simp_all
qed

subsection \<open>Topological order and acyclicity\<close>

text \<open>Every predecessor of a node of \<open>ids\<close> stands before it.\<close>

definition topo_order :: "'n graph \<Rightarrow> 'n list \<Rightarrow> bool" where
  "topo_order g ids \<longleftrightarrow>
     (\<forall>i < length ids. \<forall>p. ids ! i \<in> set (gsucc g p) \<longrightarrow> p \<in> set (take i ids))"

lemma topo_order_trancl:
  assumes "topo_order g ids" and "(p, k) \<in> (edges g)\<^sup>+" and "i < length ids" and "k = ids ! i"
  shows "p \<in> set (take i ids)"
  using assms(2)
proof (induction rule: converse_trancl_induct)
  case (base y)
  with assms show ?case by (simp add: topo_order_def edges_def)
next
  case (step y z)
  then obtain j where j: "j < i" "z = ids ! j"
    using assms(3) by (auto simp: in_set_conv_nth)
  with step(1) assms have "y \<in> set (take j ids)" by (simp add: topo_order_def edges_def)
  with j(1) show ?case by (meson in_mono less_imp_le set_take_subset_set_take)
qed

lemma topo_order_acyclic:
  assumes "topo_order g ids" and "distinct ids" and "set ids = keys g" and "wf_graph g"
  shows "acyclic (edges g)"
proof (rule acyclicI, intro allI notI)
  fix x assume x: "(x, x) \<in> (edges g)\<^sup>+"
  then obtain y where "(y, x) \<in> edges g" by (meson tranclE)
  with edges_keys [OF assms(4)] have "x \<in> set ids" using assms(3) by auto
  then obtain i where i: "i < length ids" "x = ids ! i" by (auto simp: in_set_conv_nth)
  from topo_order_trancl [OF assms(1) x i] obtain j where "j < i" "ids ! j = ids ! i"
    using i by (auto simp: in_set_conv_nth)
  with i assms(2) show False by (simp add: nth_eq_iff_index_eq)
qed

lemma topo_inv_cyclic:
  assumes inv: "topo_inv g0 g r D []" and ne: "set D \<noteq> keys g0" and wf0: "wf_graph g0"
  shows "\<not> acyclic (edges g0)"
proof
  assume "acyclic (edges g0)"
  with finite_edges [OF wf0] have wf: "wf (edges g0)" by (rule finite_acyclic_wf)
  have D: "set D = {k \<in> keys g0. \<forall>p. k \<notin> set (gsucc g p)}"
    using topo_invD(6) [OF inv] by (simp only: append_Nil2)
  note s = topo_invD(4) [OF inv]
  from D ne have "\<exists>k. k \<in> keys g0 - set D" by auto
  then obtain k where k: "k \<in> keys g0 - set D"
    and min: "\<And>y. (y, k) \<in> edges g0 \<Longrightarrow> y \<notin> keys g0 - set D"
    using wfE_min [OF wf] by metis
  from k D obtain p where p: "k \<in> set (gsucc g p)" by auto
  with s [of p] have "p \<notin> set D" "k \<in> set (gsucc g0 p)" by (auto split: if_splits)
  with min [of p] gsucc_keys [OF wf0, of k p] show False by (simp add: edges_def)
qed

lemma topological_sort_cases:
  assumes wf: "wf_graph g" and rev: "rev_ok g r" and iter: "visits_all iter"
  shows "acyclic (edges g) \<Longrightarrow> \<exists>ids. topological_sort iter g r = Inr ids \<and>
      distinct ids \<and> set ids = keys g \<and> topo_order g ids"
    and "\<not> acyclic (edges g) \<Longrightarrow> topological_sort iter g r = Inl ValueError"
proof -
  have "topo_inv g g r [] (indep_ids iter g r)"
    using wf rev indep_ids_ok [OF wf rev iter] by (simp add: topo_inv_def)
  from topo_loop_ok [OF this iter] obtain D g' r'
    where run: "topo_loop iter g r [] (indep_ids iter g r) = Inr (D, g')"
      and inv: "topo_inv g g' r' D []" by blast
  have dist: "distinct D" and sub: "set D \<subseteq> keys g"
    using topo_invD(5,6) [OF inv] by auto
  note fst = topo_invD(3) [OF inv]
  have order: "topo_order g D"
    using topo_invD(7) [OF inv] by (simp only: topo_order_def)
  have len: "length g' = card (keys g)"
    using wf fst distinct_card [of "List.map fst g'"]
    by (simp add: wf_graph_def keys_def flip: length_map [of fst g'])
  have "finite (keys g)" by (simp add: keys_def)
  then have full: "length D = length g' \<longleftrightarrow> set D = keys g"
    using len sub distinct_card [OF dist] by (metis card_subset_eq)
  show "\<exists>ids. topological_sort iter g r = Inr ids \<and>
      distinct ids \<and> set ids = keys g \<and> topo_order g ids" if "acyclic (edges g)"
    using topo_inv_cyclic [OF inv _ wf] that run full dist order
    by (auto simp: topological_sort_def)
  show "topological_sort iter g r = Inl ValueError" if "\<not> acyclic (edges g)"
    using topo_order_acyclic [OF order dist _ wf] that run full
    by (auto simp: topological_sort_def)
qed

lemma acyclic_indep:
  assumes "wf_graph g" and "rev_ok g r" and "visits_all iter" and "g \<noteq> []"
    and "acyclic (edges g)"
  shows "indep_ids iter g r \<noteq> []"
proof
  assume no: "indep_ids iter g r = []"
  from assms(4) have "keys g \<noteq> {}" by (simp add: keys_def)
  moreover have "topo_inv g g r [] []"
    using assms(1,2) indep_ids_ok [OF assms(1-3)] no by (simp add: topo_inv_def)
  ultimately show False using topo_inv_cyclic [of g g r "[]"] assms(1,5) by simp
qed

lemma validate_iff:
  assumes "wf_graph g" and "rev_ok g r" and "visits_all iter" and "g \<noteq> []"
  shows "validate iter g r = Inr (acyclic (edges g))"
proof (cases "acyclic (edges g)")
  case True
  with topological_sort_cases(1) [OF assms(1-3)] obtain ids
    where "topological_sort iter g r = Inr ids" by blast
  with True acyclic_indep [OF assms] show ?thesis by (simp add: validate_def)
next
  case False
  with topological_sort_cases(2) [OF assms(1-3)] show ?thesis by (simp add: validate_def)
qed

section \<open>Operations preserve the invariant\<close>

lemma graph_add_ok:
  assumes "wf_graph g" and "k \<in> keys g" and "x \<in> keys g"
  shows "\<exists>g'. graph_add k x g = Inr g' \<and> wf_graph g' \<and> List.map fst g' = List.map fst g \<and>
    (\<forall>j. set (gsucc g' j) = (if j = k then insert x (set (gsucc g k)) else set (gsucc g j)))"
proof -
  let ?g = "AList.update k (set_add x (gsucc g k)) g"
  have fst: "List.map fst ?g = List.map fst g" by (rule fst_update [OF assms(2)])
  have "wf_graph ?g"
    using assms fst unfolding wf_graph_iff by (auto simp: insert_absorb set_add_def)
  with fst assms(2) show ?thesis
    by (intro exI [of _ ?g]) (auto simp: graph_add_def getitem_key set_add_def)
qed

lemma rev_add_ok:
  assumes "wf_graph g" and "rev_ok g r" and "p \<in> keys g" and "s \<in> keys g"
    and g': "wf_graph g'" "List.map fst g' = List.map fst g"
      "\<forall>j. set (gsucc g' j) = (if j = p then insert s (set (gsucc g p)) else set (gsucc g j))"
  shows "\<exists>r'. (case r of None \<Rightarrow> Inr None
      | Some rg \<Rightarrow> rbind (graph_add s p rg) (\<lambda>rg'. Inr (Some rg'))) = Inr r' \<and> rev_ok g' r'"
proof (cases r)
  case None
  then show ?thesis by (simp add: rev_ok_def)
next
  case (Some rg)
  note rg = rev_ok_Some [OF assms(2) [unfolded Some] assms(1)]
  obtain rg' where r': "graph_add s p rg = Inr rg'" "wf_graph rg'"
    "List.map fst rg' = List.map fst rg"
    "\<forall>j. set (gsucc rg' j) = (if j = s then insert p (set (gsucc rg s)) else set (gsucc rg j))"
    using graph_add_ok [OF rg(1), of s p] rg(2) assms(3,4) by metis
  have "rev_ok g' (Some rg')"
    using r' rg(2,3) g' keys_fst [OF g'(2)] keys_fst [OF r'(3)] by (intro rev_okI) auto
  with r'(1) Some show ?thesis by simp
qed

lemma edges_insert:
  "\<forall>j. set (gsucc g' j) = (if j = p then insert s (set (gsucc g p)) else set (gsucc g j)) \<Longrightarrow>
   edges g' = insert (p, s) (edges g)"
  by (auto simp: edges_def split: if_splits)

lemma add_edge_cases:
  assumes ok: "dag_ok d" and iter: "visits_all iter"
    and k: "p \<in> keys (dg_graph d)" "s \<in> keys (dg_graph d)"
  shows "acyclic (insert (p, s) (edges (dg_graph d))) \<Longrightarrow>
      \<exists>d'. add_edge iter p s True d = (Inr (), d') \<and> dag_ok d' \<and>
        dag_nodes d' = dag_nodes d \<and> edges (dg_graph d') = insert (p, s) (edges (dg_graph d))"
    and "\<not> acyclic (insert (p, s) (edges (dg_graph d))) \<Longrightarrow>
      add_edge iter p s True d = (Inl DAGValidationError, d)"
proof -
  from ok have wf: "wf_graph (dg_graph d)" and rev: "rev_ok (dg_graph d) (dg_rev d)"
    by (simp_all add: dag_ok_def)
  from graph_add_ok [OF wf k] obtain g' where g': "graph_add p s (dg_graph d) = Inr g'"
    "wf_graph g'" "List.map fst g' = List.map fst (dg_graph d)"
    and s': "\<forall>j. set (gsucc g' j) =
      (if j = p then insert s (set (gsucc (dg_graph d) p)) else set (gsucc (dg_graph d) j))"
    by blast
  from rev_add_ok [OF wf rev k g'(2,3) s'] obtain r'
    where r': "(case dg_rev d of None \<Rightarrow> Inr None
      | Some rg \<Rightarrow> rbind (graph_add s p rg) (\<lambda>rg'. Inr (Some rg'))) = Inr r'" "rev_ok g' r'"
    by blast
  have "g' \<noteq> []" using g'(3) k(1) by (auto simp: keys_def)
  from validate_iff [OF g'(2) r'(2) iter this] edges_insert [OF s']
  have v: "validate iter g' r' = Inr (acyclic (insert (p, s) (edges (dg_graph d))))" by simp
  show "add_edge iter p s True d = (Inl DAGValidationError, d)"
    if "\<not> acyclic (insert (p, s) (edges (dg_graph d)))"
    using that k by (simp add: add_edge_def has_key_keys g'(1) r'(1) v)
  show "\<exists>d'. add_edge iter p s True d = (Inr (), d') \<and> dag_ok d' \<and>
      dag_nodes d' = dag_nodes d \<and> edges (dg_graph d') = insert (p, s) (edges (dg_graph d))"
    if ac: "acyclic (insert (p, s) (edges (dg_graph d)))"
  proof (intro exI conjI)
    show "add_edge iter p s True d = (Inr (), d\<lparr>dg_graph := g', dg_rev := r'\<rparr>)"
    proof (cases "dg_rev d")
      case None
      with r'(1) have "r' = None" by simp
      with None v ac k g'(1) show ?thesis by (cases d) (simp add: add_edge_def has_key_keys)
    next
      case (Some rg)
      with r'(1) obtain rg' where "graph_add s p rg = Inr rg'" "r' = Some rg'"
        by (auto simp: rbind_eq_Inr)
      with Some v ac k g'(1) show ?thesis by (simp add: add_edge_def has_key_keys)
    qed
  qed (use g' r' edges_insert [OF s'] in \<open>simp_all add: dag_ok_def dag_nodes_def\<close>)
qed

lemma remove_edge_ok:
  assumes ok: "dag_ok d" and e: "(p, s) \<in> edges (dg_graph d)"
  shows "\<exists>d'. remove_edge p s d = (Inr (), d') \<and> dag_ok d' \<and> dag_nodes d' = dag_nodes d \<and>
    edges (dg_graph d') = edges (dg_graph d) - {(p, s)}"
proof -
  let ?g = "dg_graph d"
  from ok have wf: "wf_graph ?g" and rev: "rev_ok ?g (dg_rev d)" by (simp_all add: dag_ok_def)
  from e have s: "s \<in> set (gsucc ?g p)" by (simp add: edges_def)
  then have guard: "s \<in> set (case map_of ?g p of None \<Rightarrow> [] | Some es \<Rightarrow> es)"
    by (simp add: gsucc_def)
  obtain g' where g': "graph_remove p s ?g = Inr g'" "wf_graph g'"
    "List.map fst g' = List.map fst ?g"
    and s': "\<And>j. set (gsucc g' j) = (if j = p then set (gsucc ?g p) - {s} else set (gsucc ?g j))"
    using graph_remove_ok [OF wf s] by metis
  have edges': "edges g' = edges ?g - {(p, s)}"
    using s' by (auto simp: edges_def split: if_splits)
  show ?thesis
  proof (cases "dg_rev d")
    case None
    with guard g' edges' show ?thesis
      by (simp add: remove_edge_def dag_ok_def rev_ok_def dag_nodes_def)
  next
    case (Some rg)
    note rg = rev_ok_Some [OF rev [unfolded Some] wf]
    from s rg(3) have "p \<in> set (gsucc rg s)" by simp
    then obtain rg' where r': "graph_remove s p rg = Inr rg'" "wf_graph rg'"
      "List.map fst rg' = List.map fst rg"
      "\<And>j. set (gsucc rg' j) = (if j = s then set (gsucc rg s) - {p} else set (gsucc rg j))"
      using graph_remove_ok [OF rg(1)] by metis
    have "rev_ok g' (Some rg')"
      using r' rg(2,3) s' keys_fst [OF g'(3)] keys_fst [OF r'(3)] by (intro rev_okI) auto
    with Some guard g' r'(1) edges' show ?thesis
      by (simp add: remove_edge_def dag_ok_def dag_nodes_def)
  qed
qed

lemma add_node_ok:
  assumes ok: "dag_ok d" and new: "n \<notin> keys (dg_graph d)"
  shows "\<exists>d'. add_node n d = (Inr (), d') \<and> dag_ok d' \<and> dag_nodes d' = dag_nodes d @ [n] \<and>
    edges (dg_graph d') = edges (dg_graph d)"
proof -
  have wf: "wf_graph (AList.update n [] g)" if "wf_graph g" "n \<notin> keys g" for g :: "'a graph"
    using that unfolding wf_graph_iff keys_update by (auto simp: update_keys keys_def)
  have s: "gsucc (AList.update n [] g) j = gsucc g j" if "n \<notin> keys g" for g :: "'a graph" and j
    using that by (simp add: gsucc_not_key)
  from ok have g: "wf_graph (dg_graph d)" "rev_ok (dg_graph d) (dg_rev d)"
    by (simp_all add: dag_ok_def)
  have "rev_ok (AList.update n [] (dg_graph d)) (map_option (AList.update n []) (dg_rev d))"
  proof (cases "dg_rev d")
    case None
    then show ?thesis by (simp add: rev_ok_def)
  next
    case (Some rg)
    note rg = rev_ok_Some [OF g(2) [unfolded Some] g(1)]
    with new have "n \<notin> keys rg" by simp
    with Some wf [OF rg(1)] new rg(2,3) show ?thesis
      by (auto intro!: rev_okI simp: s simp del: gsucc_update)
  qed
  with wf [OF g(1) new] new show ?thesis
    by (simp add: add_node_def monad_simps dag_ok_def dag_nodes_def edges_def s update_keys keys_def
        del: gsucc_update)
qed

text \<open>
  \<^verbatim>\<open>add_node\<close> has no test whether the node is there: adding it again empties both its sets, so the edges
  that leave it are gone from the graph, those that enter it from the reversed graph.
\<close>

definition isolated :: "'n dag \<Rightarrow> 'n \<Rightarrow> bool" where
  "isolated d n \<longleftrightarrow> (\<forall>(p, s) \<in> edges (dg_graph d). p \<noteq> n \<and> s \<noteq> n)"

lemma wf_cleared: "wf_graph g \<Longrightarrow> wf_graph (AList.update n [] g)"
proof -
  assume "wf_graph g"
  then have "set (gsucc g k) \<subseteq> insert n (keys g)" "distinct (List.map fst (AList.update n [] g))" for k
    by (auto simp: wf_graph_iff distinct_update)
  with \<open>wf_graph g\<close> show ?thesis by (simp add: wf_graph_iff)
qed

lemma add_node_edges:
  "edges (dg_graph (snd (add_node n d))) = {(p, s) \<in> edges (dg_graph d). p \<noteq> n}"
  by (auto simp: add_node_def monad_simps edges_def split: if_splits)

lemma add_node_any:
  assumes ok: "dag_ok d" and ac: "acyclic (edges (dg_graph d))"
  shows "dag_ok (snd (add_node n d)) \<longleftrightarrow> dg_rev d = None \<or> isolated d n"
proof -
  from ok have g: "wf_graph (dg_graph d)" "rev_ok (dg_graph d) (dg_rev d)" by (simp_all add: dag_ok_def)
  show ?thesis
  proof (cases "dg_rev d")
    case None
    then show ?thesis by (simp add: add_node_def monad_simps dag_ok_def rev_ok_def wf_cleared g)
  next
    case (Some rg)
    note rg = rev_ok_Some [OF g(2) [unfolded Some] g(1)]
    have loop: "n \<notin> set (gsucc (dg_graph d) n)" using ac by (auto simp: acyclic_def edges_def)
    have new: "snd (add_node n d) = d\<lparr>dg_graph := AList.update n [] (dg_graph d), dg_rev := Some (AList.update n [] rg)\<rparr>"
      by (simp add: add_node_def monad_simps Some)
    have "rev_ok (AList.update n [] (dg_graph d)) (Some (AList.update n [] rg)) \<longleftrightarrow> isolated d n"
    proof
      assume "isolated d n"
      then show "rev_ok (AList.update n [] (dg_graph d)) (Some (AList.update n [] rg))"
        using rg(2,3) by (intro rev_okI wf_cleared rg(1)) (auto simp: isolated_def edges_def)
    next
      assume "rev_ok (AList.update n [] (dg_graph d)) (Some (AList.update n [] rg))"
      from rev_ok_Some(3) [OF this wf_cleared [OF g(1)]] rg(3) loop
      have "p \<noteq> n \<and> s \<noteq> n" if "(p, s) \<in> edges (dg_graph d)" for p s
        using that unfolding edges_def mem_Collect_eq case_prod_conv
        by (metis gsucc_update empty_iff list.set(1))
      then show "isolated d n" by (auto simp: isolated_def)
    qed
    with Some new g(1) show ?thesis by (simp add: dag_ok_def wf_cleared)
  qed
qed

lemma isolated_fresh: "dag_ok d \<Longrightarrow> \<not> contains_node d n \<Longrightarrow> isolated d n"
  using edges_keys [of "dg_graph d"] by (auto simp: isolated_def dag_ok_def contains_node_def has_key_keys)

lemma drop_edges_to_simps:
  "List.map fst (drop_edges_to n g) = List.map fst g"
  "keys (drop_edges_to n g) = keys g"
  "gsucc (drop_edges_to n g) k = (if n \<in> set (gsucc g k) then remove1 n (gsucc g k) else gsucc g k)"
  by (simp_all add: drop_edges_to_def split_beta comp_def keys_def image_image gsucc_def map_of_map
      split: option.split)

lemma keys_dom: "keys g = dom (map_of g)"
  by (simp add: keys_def dom_map_of_conv_image_fst)

lemma delete_simps:
  "keys (AList.delete n g) = keys g - {n}"
  "gsucc (AList.delete n g) k = (if k = n then [] else gsucc g k)"
  by (auto simp: keys_dom gsucc_def delete_conv' split: if_splits)

lemma delete_drop_ok:
  assumes "wf_graph g"
  shows "wf_graph (drop_edges_to n (AList.delete n g))"
    "keys (drop_edges_to n (AList.delete n g)) = keys g - {n}"
    "set (gsucc (drop_edges_to n (AList.delete n g)) k) =
       (if k = n then {} else set (gsucc g k) - {n})"
proof -
  have d: "distinct (gsucc g k)" for k using assms by (simp add: wf_graph_iff)
  show k: "keys (drop_edges_to n (AList.delete n g)) = keys g - {n}"
    by (simp add: drop_edges_to_simps delete_simps)
  show s: "set (gsucc (drop_edges_to n (AList.delete n g)) k) =
       (if k = n then {} else set (gsucc g k) - {n})" for k
    using d [of k] by (auto simp: drop_edges_to_simps delete_simps)
  have "distinct (List.map fst (AList.delete n g))"
    using assms by (simp add: wf_graph_def distinct_delete)
  moreover have "distinct (gsucc (drop_edges_to n (AList.delete n g)) k)" for k
    using d [of k] by (auto simp: drop_edges_to_simps delete_simps)
  ultimately show "wf_graph (drop_edges_to n (AList.delete n g))"
    using assms unfolding wf_graph_iff k s by (auto simp: drop_edges_to_simps)
qed

lemma remove_node_ok:
  assumes ok: "dag_ok d" and n: "n \<in> keys (dg_graph d)"
  shows "\<exists>d'. remove_node n d = (Inr (), d') \<and> dag_ok d' \<and>
    keys (dg_graph d') = keys (dg_graph d) - {n} \<and>
    edges (dg_graph d') = {(p, s) \<in> edges (dg_graph d). p \<noteq> n \<and> s \<noteq> n}"
proof -
  let ?g = "dg_graph d" and ?g' = "drop_edges_to n (AList.delete n (dg_graph d))"
  from ok have wf: "wf_graph ?g" and rev: "rev_ok ?g (dg_rev d)" by (simp_all add: dag_ok_def)
  note g' = delete_drop_ok [OF wf, of n]
  have edges': "edges ?g' = {(p, s) \<in> edges ?g. p \<noteq> n \<and> s \<noteq> n}"
    by (auto simp: edges_def g'(3) split: if_splits)
  show ?thesis
  proof (cases "dg_rev d")
    case None
    with n g' edges' show ?thesis
      by (simp add: remove_node_def has_key_keys dag_ok_def rev_ok_def Let_def)
  next
    case (Some rg)
    note rg = rev_ok_Some [OF rev [unfolded Some] wf]
    have "rev_ok ?g' (Some (drop_edges_to n (AList.delete n rg)))"
      using delete_drop_ok [OF rg(1), of n] g' rg(2,3) by (intro rev_okI) auto
    with Some n g' edges' rg(2) show ?thesis
      by (simp add: remove_node_def has_key_keys dag_ok_def Let_def)
  qed
qed

section \<open>Reachability\<close>

text \<open>
  The graphs a program can build, whichever calls fail on the way. Where the reversed graph is kept, a node
  is added when no edge touches it: a new one, or again one that is still isolated. In a graph without it
  any node may be added, any number of times.
\<close>

inductive dag_reach :: "('n list \<Rightarrow> 'n list) \<Rightarrow> 'n dag \<Rightarrow> bool" for iter where
  new: "dag_reach iter (dag_new reverse)"
| add_node: "dag_reach iter d \<Longrightarrow> dg_rev d = None \<or> isolated d n \<Longrightarrow> dag_reach iter (snd (add_node n d))"
| remove_node: "dag_reach iter d \<Longrightarrow> dag_reach iter (snd (remove_node n d))"
| add_edge: "dag_reach iter d \<Longrightarrow> dag_reach iter (snd (add_edge iter p s True d))"
| remove_edge: "dag_reach iter d \<Longrightarrow> dag_reach iter (snd (remove_edge p s d))"
| reset: "dag_reach iter d \<Longrightarrow> dag_reach iter (reset_graph d)"

lemma empty_graph: "edges [] = {}" "wf_graph []" "keys [] = {}"
  by (simp_all add: edges_def gsucc_def wf_graph_def keys_def)

lemma dag_reach_invariant:
  assumes "dag_reach iter d" and iter: "visits_all iter"
  shows "dag_ok d \<and> acyclic (edges (dg_graph d))"
  using assms(1)
proof induction
  case (new reverse)
  show ?case by (simp add: dag_new_def dag_ok_def rev_ok_def empty_graph acyclic_def)
next
  case (add_node d n)
  have "edges (dg_graph (snd (add_node n d))) \<subseteq> edges (dg_graph d)" unfolding add_node_edges by auto
  with add_node add_node_any [of d n] show ?case by (auto intro: acyclic_subset)
next
  case (remove_node d n)
  show ?case
  proof (cases "n \<in> keys (dg_graph d)")
    case True
    from remove_node_ok [OF _ this] remove_node obtain d'
      where d': "remove_node n d = (Inr (), d')" "dag_ok d'"
        "edges (dg_graph d') = {(p, s) \<in> edges (dg_graph d). p \<noteq> n \<and> s \<noteq> n}" by auto
    then have "edges (dg_graph d') \<subseteq> edges (dg_graph d)" by auto
    with d' remove_node show ?thesis by (auto intro: acyclic_subset)
  next
    case False
    with remove_node show ?thesis by (simp add: remove_node_def has_key_keys)
  qed
next
  case (add_edge d p s)
  show ?case
  proof (cases "p \<in> keys (dg_graph d) \<and> s \<in> keys (dg_graph d)")
    case True
    then show ?thesis
      using add_edge_cases [of d iter p s, OF _ iter] add_edge.IH
      by (cases "acyclic (insert (p, s) (edges (dg_graph d)))") auto
  next
    case False
    then have "add_edge iter p s True d = (Inl KeyError, d)"
      by (simp add: add_edge_def has_key_keys)
    with add_edge show ?thesis by simp
  qed
next
  case (remove_edge d p s)
  show ?case
  proof (cases "(p, s) \<in> edges (dg_graph d)")
    case True
    from remove_edge_ok [OF _ this] remove_edge obtain d'
      where "remove_edge p s d = (Inr (), d')" "dag_ok d'"
        "edges (dg_graph d') \<subseteq> edges (dg_graph d)" by auto
    with remove_edge show ?thesis by (auto intro: acyclic_subset)
  next
    case False
    then have "remove_edge p s d = (Inl KeyError, d)"
      by (simp add: remove_edge_def edges_def gsucc_def)
    with remove_edge show ?thesis by simp
  qed
next
  case (reset d)
  show ?case
    by (simp add: reset_graph_def dag_ok_def rev_ok_def empty_graph acyclic_def split: option.split)
qed

section \<open>Breadth-first search\<close>

lemma bfs_visit_ok:
  "bfs_visit v us = (v', ys) \<Longrightarrow>
   set v' = set v \<union> set us \<and> set ys = set us - set v \<and> distinct ys"
proof (induction us arbitrary: v v' ys)
  case (Cons u us)
  show ?case
  proof (cases "u \<in> set v")
    case True
    with Cons.prems have "bfs_visit v us = (v', ys)" by simp
    from Cons.IH [OF this] True show ?thesis by auto
  next
    case False
    obtain w zs where w: "bfs_visit (u # v) us = (w, zs)" by fastforce
    with Cons.prems False have "v' = w" "ys = u # zs" by simp_all
    with Cons.IH [OF w] False show ?thesis by auto
  qed
qed simp

lemma bfs_loop_ok:
  assumes fin: "finite K" and succ: "\<And>u. u \<in> K \<Longrightarrow> \<exists>ns. succ u = Inr ns \<and> set ns = S u \<and> S u \<subseteq> K"
    and "set queue \<subseteq> set visited" and "set visited \<subseteq> K"
    and "\<And>u v. u \<in> set visited - set queue \<Longrightarrow> v \<in> S u \<Longrightarrow> cond v \<Longrightarrow> v \<in> set visited"
  shows "\<exists>ys. bfs_loop succ cond visited queue = Some (ys, None) \<and> distinct ys \<and>
    set ys \<inter> set visited = {} \<and> set ys \<subseteq> {(u, v). v \<in> S u \<and> cond v}\<^sup>* `` set queue \<and>
    (\<forall>u \<in> set visited \<union> set ys. \<forall>v \<in> S u. cond v \<longrightarrow> v \<in> set visited \<union> set ys)"
  using assms(3-5)
proof (induction "length queue + card (K - set visited)" arbitrary: queue visited rule: less_induct)
  case less
  show ?case
  proof (cases queue)
    case Nil
    then have "bfs_loop succ cond visited queue = Some ([], None)"
      by (simp add: bfs_loop.simps [of succ cond visited "[]"])
    with less.prems(3) Nil show ?thesis by simp
  next
    case (Cons cur rest)
    with less.prems(1,2) have "cur \<in> K" by auto
    from succ [OF this] obtain ns where ns: "succ cur = Inr ns" "set ns = S cur" "S cur \<subseteq> K"
      by blast
    obtain v' ys where vis: "bfs_visit visited (List.filter cond ns) = (v', ys)" by fastforce
    have v1: "set v' = set visited \<union> {x \<in> S cur. cond x}"
      and v2: "set ys = {x \<in> S cur. cond x} - set visited" and v3: "distinct ys"
      using bfs_visit_ok [OF vis] ns(2) by simp_all
    have v': "set v' = set visited \<union> set ys" unfolding v1 v2 by blast
    have ys: "set ys \<subseteq> K" "set ys \<inter> set visited = {}" unfolding v2 using ns(3) by blast+
    have "card (K - set v') + length ys = card (K - set visited)"
    proof -
      have "K - set visited = (K - set v') \<union> set ys" "(K - set v') \<inter> set ys = {}"
        using v' ys by blast+
      then have "card (K - set visited) = card (K - set v') + card (set ys)"
        using fin by (simp only: card_Un_disjoint finite_Diff List.finite_set)
      moreover have "card (set ys) = length ys" using v3 by (simp only: distinct_card)
      ultimately show ?thesis by simp
    qed
    then have meas: "length (rest @ ys) + card (K - set v') < length queue + card (K - set visited)"
      using Cons by simp
    have "\<exists>zs. bfs_loop succ cond v' (rest @ ys) = Some (zs, None) \<and> distinct zs \<and>
      set zs \<inter> set v' = {} \<and> set zs \<subseteq> {(u, v). v \<in> S u \<and> cond v}\<^sup>* `` set (rest @ ys) \<and>
      (\<forall>u \<in> set v' \<union> set zs. \<forall>v \<in> S u. cond v \<longrightarrow> v \<in> set v' \<union> set zs)"
    proof (rule less.hyps [OF meas])
      show "set (rest @ ys) \<subseteq> set v'" using less.prems(1) Cons v' by auto
      show "set v' \<subseteq> K" using less.prems(2) v' ys by blast
      fix a b assume ab: "a \<in> set v' - set (rest @ ys)" "b \<in> S a" "cond b"
      show "b \<in> set v'"
      proof (cases "a = cur")
        case True
        with ab v1 show ?thesis by blast
      next
        case False
        with ab Cons v' have "a \<in> set visited - set queue" by auto
        from less.prems(3) [OF this ab(2,3)] v' show ?thesis by simp
      qed
    qed
    then obtain zs where zs: "bfs_loop succ cond v' (rest @ ys) = Some (zs, None)" "distinct zs"
      "set zs \<inter> set v' = {}" "set zs \<subseteq> {(u, v). v \<in> S u \<and> cond v}\<^sup>* `` set (rest @ ys)"
      "\<forall>u \<in> set v' \<union> set zs. \<forall>v \<in> S u. cond v \<longrightarrow> v \<in> set v' \<union> set zs"
      by blast
    have run: "bfs_loop succ cond visited queue = Some (ys @ zs, None)"
      unfolding Cons by (subst bfs_loop.simps) (simp add: ns vis zs(1))
    have ysR: "set ys \<subseteq> {(u, v). v \<in> S u \<and> cond v} `` {cur}" unfolding v2 by blast
    have "set ys \<subseteq> {(u, v). v \<in> S u \<and> cond v}\<^sup>* `` set queue"
      using ysR Cons by auto
    moreover have "set zs \<subseteq> {(u, v). v \<in> S u \<and> cond v}\<^sup>* `` set queue"
    proof
      fix z assume "z \<in> set zs"
      with zs(4) obtain q where q: "q \<in> set (rest @ ys)" "(q, z) \<in> {(u, v). v \<in> S u \<and> cond v}\<^sup>*"
        by auto
      show "z \<in> {(u, v). v \<in> S u \<and> cond v}\<^sup>* `` set queue"
      proof (cases "q \<in> set rest")
        case True
        with q(2) Cons show ?thesis by auto
      next
        case False
        with q(1) ysR have "(cur, q) \<in> {(u, v). v \<in> S u \<and> cond v}" by auto
        from converse_rtrancl_into_rtrancl [OF this q(2)] Cons show ?thesis by auto
      qed
    qed
    moreover have "set visited \<union> set (ys @ zs) = set v' \<union> set zs" using v' by auto
    moreover have "distinct (ys @ zs)" "set (ys @ zs) \<inter> set visited = {}"
      using v3 zs(2,3) v' ys(2) by (auto simp: Int_Un_distrib2)
    ultimately show ?thesis using run zs(5) by (intro exI [of _ "ys @ zs"]) simp
  qed
qed

lemma bfs_ok:
  assumes ok: "dag_ok d"
    and succ: "\<And>u. u \<in> keys (dg_graph d) \<Longrightarrow>
      \<exists>ns. succ u = Inr ns \<and> set ns = S u \<and> S u \<subseteq> keys (dg_graph d)"
    and start: "set (List.filter cond start) \<subseteq> keys (dg_graph d)"
  shows "\<exists>ys. bfs d succ cond start = Some (ys, None) \<and> distinct ys \<and>
    set ys = {(u, v). v \<in> S u \<and> cond v}\<^sup>* `` set (List.filter cond start) -
      set (List.filter cond start)"
proof -
  let ?R = "{(u, v). v \<in> S u \<and> cond v}" and ?q = "List.filter cond start"
  have fin: "finite (keys (dg_graph d))" by (simp add: keys_def)
  obtain ys where ys: "bfs_loop succ cond ?q ?q = Some (ys, None)" "distinct ys"
    "set ys \<inter> set ?q = {}" "set ys \<subseteq> ?R\<^sup>* `` set ?q"
    and closed: "\<forall>u \<in> set ?q \<union> set ys. \<forall>v \<in> S u. cond v \<longrightarrow> v \<in> set ?q \<union> set ys"
    using bfs_loop_ok [where queue = ?q and visited = ?q and succ = succ and S = S and cond = cond,
        OF fin succ subset_refl start] by blast
  have "v \<in> set ?q \<union> set ys" if "(u, v) \<in> ?R\<^sup>*" "u \<in> set ?q" for u v
    using that by (induction rule: rtrancl_induct) (use closed in auto)
  then have "?R\<^sup>* `` set ?q \<subseteq> set ?q \<union> set ys" by blast
  with ys(3,4) have "set ys = ?R\<^sup>* `` set ?q - set ?q" by blast
  moreover have "list_all (has_key (dg_graph d)) ?q"
    using start by (auto simp: list_all_iff has_key_keys)
  ultimately show ?thesis using ys by (simp add: bfs_def)
qed

lemma successors_ok:
  assumes "dag_ok d" and "visits_all iter" and "u \<in> keys (dg_graph d)"
  shows "\<exists>ns. successors iter d u = Inr ns \<and> set ns = {v. (u, v) \<in> edges (dg_graph d)} \<and>
    {v. (u, v) \<in> edges (dg_graph d)} \<subseteq> keys (dg_graph d)"
  using assms edges_keys [of "dg_graph d"]
  by (auto simp: successors_def has_key_keys getitem_key visits_all_simps edges_def dag_ok_def)

lemma predecessors_ok:
  assumes "dag_ok d" and "visits_all iter" and "u \<in> keys (dg_graph d)"
  shows "\<exists>ns. predecessors iter d u = Inr ns \<and> set ns = {v. (v, u) \<in> edges (dg_graph d)} \<and>
    {v. (v, u) \<in> edges (dg_graph d)} \<subseteq> keys (dg_graph d)"
proof -
  from assms(1) have wf: "wf_graph (dg_graph d)" "rev_ok (dg_graph d) (dg_rev d)"
    by (simp_all add: dag_ok_def)
  obtain ps where ps: "predecessor_ids u (dg_graph d) (dg_rev d) = Inr ps"
    "set ps = {p. u \<in> set (gsucc (dg_graph d) p)}"
    by (rule predecessor_ids_ok [OF wf assms(3)])
  have "{v. (v, u) \<in> edges (dg_graph d)} \<subseteq> keys (dg_graph d)"
    using edges_keys [OF wf(1)] by auto
  with ps assms(2,3) show ?thesis
    by (cases "dg_rev d") (auto simp: predecessors_def has_key_keys visits_all_simps edges_def)
qed

section \<open>Properties\<close>

text \<open>C17: on a well-formed graph the topological sort answers with every node exactly once, each
  after all its predecessors, when the graph is acyclic, and raises \<^verbatim>\<open>ValueError\<close> when it is not,
  with or without the reversed graph and whatever the iteration order of the sets.\<close>

theorem topological_sort_correct:
  assumes "dag_ok d" and "visits_all iter"
  shows "if acyclic (edges (dg_graph d))
    then \<exists>ids. topological_sort iter (dg_graph d) (dg_rev d) = Inr ids \<and>
      mset ids = mset (dag_nodes d) \<and>
      (\<forall>i < length ids. \<forall>p. ids ! i \<in> set (gsucc (dg_graph d) p) \<longrightarrow> p \<in> set (take i ids))
    else topological_sort iter (dg_graph d) (dg_rev d) = Inl ValueError"
proof -
  from assms(1) have wf: "wf_graph (dg_graph d)" "rev_ok (dg_graph d) (dg_rev d)"
    by (simp_all add: dag_ok_def)
  then have "distinct (dag_nodes d)" "set (dag_nodes d) = keys (dg_graph d)"
    by (simp_all add: dag_nodes_def wf_graph_def keys_def)
  then have "mset ids = mset (dag_nodes d)" if "distinct ids" "set ids = keys (dg_graph d)" for ids
    using that set_eq_iff_mset_eq_distinct [of ids "dag_nodes d"] by simp
  with topological_sort_cases [OF wf assms(2)] show ?thesis
    unfolding topo_order_def by metis
qed

lemma visits_all_rev: "visits_all rev"
  by (simp add: visits_all_def)

theorem topological_sort_correct_witness:
  "\<exists>ids. topological_sort rev [(1::nat, [2, 3]), (2, [3]), (3, [])] None = Inr ids \<and>
     mset ids = mset [1, 2, 3]"
proof -
  let ?g = "[(1::nat, [2, 3]), (2, [3]), (3, [])]"
  have wf: "wf_graph ?g" by (simp add: wf_graph_def keys_def)
  have "topo_order ?g [1, 2, 3]"
    by (auto simp: topo_order_def gsucc_def less_Suc_eq numeral_3_eq_3 split: if_splits)
  then have "acyclic (edges ?g)"
    by (rule topo_order_acyclic) (use wf in \<open>simp_all add: keys_def\<close>)
  with topological_sort_correct [of "\<lparr>dg_graph = ?g, dg_rev = None\<rparr>" rev] wf show ?thesis
    by (auto simp: visits_all_rev dag_ok_def rev_ok_def dag_nodes_def)
qed

text \<open>C18: every graph built by adding nodes and edges, the edges with validation, by removing them and by
  resets, failing calls included, is well-formed, its reversed graph mirrors it, and it is acyclic, so
  sorting it never fails - provided that in a graph which keeps the reversed graph \<^verbatim>\<open>add_node\<close> is applied
  to nodes without edges only. That condition is needed: for a node that has edges \<^verbatim>\<open>add_node\<close> leaves the
  two graphs in disagreement, and in any graph it silently drops the edges that leave the node.\<close>

theorem dag_stays_acyclic:
  assumes "dag_reach iter d" and "visits_all iter"
  shows "dag_ok d \<and> acyclic (edges (dg_graph d)) \<and>
    (\<exists>ids. topological_sort iter (dg_graph d) (dg_rev d) = Inr ids) \<and>
    (\<forall>n. (dag_ok (snd (add_node n d)) \<longleftrightarrow> dg_rev d = None \<or> isolated d n) \<and>
      edges (dg_graph (snd (add_node n d))) = {(p, s) \<in> edges (dg_graph d). p \<noteq> n})"
proof -
  from dag_reach_invariant [OF assms] have ok: "dag_ok d" and ac: "acyclic (edges (dg_graph d))"
    by simp_all
  then have "\<exists>ids. topological_sort iter (dg_graph d) (dg_rev d) = Inr ids"
    using topological_sort_cases(1) [OF _ _ assms(2) ac] by (auto simp: dag_ok_def)
  with ok ac add_node_any [OF ok ac] show ?thesis by (simp add: add_node_edges)
qed

theorem dag_stays_acyclic_witness:
  "dag_ok (snd (add_edge rev (1::nat) 2 True (snd (add_node 2 (snd (add_node 1 (dag_new True))))))) \<and>
   \<not> dag_ok (snd (add_node 2
     (snd (add_edge rev (1::nat) 2 True (snd (add_node 2 (snd (add_node 1 (dag_new True)))))))))"
proof -
  let ?d = "snd (add_edge rev (1::nat) 2 True (snd (add_node 2 (snd (add_node 1 (dag_new True))))))"
  have "dag_reach rev ?d"
    by (intro dag_reach.intros)
      (simp_all add: isolated_def edges_def gsucc_def add_node_def monad_simps dag_new_def)
  note graph = dag_stays_acyclic [OF this visits_all_rev]
  have d: "?d = \<lparr>dg_graph = [(1, [2]), (2, [])], dg_rev = Some [(1, []), (2, [1])]\<rparr>" by code_simp
  then have "(1, 2) \<in> edges (dg_graph ?d)" by (simp add: edges_def gsucc_def)
  then have "\<not> isolated ?d 2" by (auto simp: isolated_def)
  with graph d show ?thesis by simp
qed

text \<open>C19: \<^verbatim>\<open>add_edge\<close> with validation between two nodes of a well-formed graph adds exactly that
  edge when the result is acyclic; otherwise it raises \<^verbatim>\<open>DAGValidationError\<close> and leaves the graph
  untouched.\<close>

theorem add_edge_validated:
  assumes "dag_ok d" and "visits_all iter" and "contains_node d p" and "contains_node d s"
  shows "if acyclic (insert (p, s) (edges (dg_graph d)))
    then \<exists>d'. add_edge iter p s True d = (Inr (), d') \<and> dag_ok d' \<and>
      dag_nodes d' = dag_nodes d \<and> edges (dg_graph d') = insert (p, s) (edges (dg_graph d))
    else add_edge iter p s True d = (Inl DAGValidationError, d)"
  using add_edge_cases [OF assms(1,2)] assms(3,4) by (simp add: contains_node_def has_key_keys)

theorem add_edge_validated_witness:
  "add_edge rev (2::nat) 1 True \<lparr>dg_graph = [(1, [2]), (2, [])], dg_rev = Some [(1, []), (2, [1])]\<rparr> =
     (Inl DAGValidationError,
      \<lparr>dg_graph = [(1, [2]), (2, [])], dg_rev = Some [(1, []), (2, [1])]\<rparr>)"
proof -
  let ?d = "\<lparr>dg_graph = [(1::nat, [2]), (2, [])], dg_rev = Some [(1, []), (2, [1])]\<rparr>"
  have "(1, 2) \<in> edges (dg_graph ?d)" by (simp add: edges_def gsucc_def)
  then have "(1, 1) \<in> (insert (2, 1) (edges (dg_graph ?d)))\<^sup>+"
    by (meson insertI1 insertI2 r_into_trancl trancl.trancl_into_trancl)
  then have "\<not> acyclic (insert (2, 1) (edges (dg_graph ?d)))" by (auto simp: acyclic_def)
  moreover have "dag_ok ?d"
    by (simp add: dag_ok_def wf_graph_def rev_ok_def keys_def gsucc_def)
  ultimately show ?thesis
    using add_edge_validated [of ?d rev 2 1]
    by (simp add: visits_all_rev contains_node_def has_key_def del: acyclic_insert)
qed

text \<open>C20: \<^verbatim>\<open>descendants\<close> and \<^verbatim>\<open>ancestors\<close> end, and yield exactly the nodes reachable forwards
  (backwards) from the start nodes through nodes that satisfy the condition, each of them once
  and none of the start nodes.\<close>

theorem traversal_correct:
  assumes "dag_ok d" and "visits_all iter"
    and "\<forall>n \<in> set (List.filter cond start). contains_node d n"
  shows "\<exists>ys zs. descendants iter d cond start = Some (ys, None) \<and> distinct ys \<and>
      set ys = {(u, v). (u, v) \<in> edges (dg_graph d) \<and> cond v}\<^sup>* `` set (List.filter cond start) -
        set (List.filter cond start) \<and>
    ancestors iter d cond start = Some (zs, None) \<and> distinct zs \<and>
      set zs = {(v, u). (u, v) \<in> edges (dg_graph d) \<and> cond u}\<^sup>* `` set (List.filter cond start) -
        set (List.filter cond start)"
proof -
  have start: "set (List.filter cond start) \<subseteq> keys (dg_graph d)"
    using assms(3) by (auto simp: contains_node_def has_key_keys)
  show ?thesis
    using bfs_ok [OF assms(1) successors_ok [OF assms(1,2)] start]
      bfs_ok [OF assms(1) predecessors_ok [OF assms(1,2)] start]
    by (simp add: descendants_def ancestors_def)
qed

theorem traversal_correct_witness:
  "\<exists>ys. descendants rev \<lparr>dg_graph = [(1::nat, [2]), (2, [])], dg_rev = None\<rparr> (\<lambda>_. True) [1] =
     Some (ys, None) \<and> distinct ys"
  using traversal_correct [of "\<lparr>dg_graph = [(1::nat, [2]), (2, [])], dg_rev = None\<rparr>" rev
      "\<lambda>_. True" "[1]"]
  by (auto simp: visits_all_rev dag_ok_def wf_graph_def rev_ok_def keys_def contains_node_def
      has_key_def)

end
