(* ===== verification/Py_Value.thy ===== *)
theory Py_Value
  imports Prelude
begin

text \<open>
  Python values as they occur in table cells, and the parts of the standard library the codecs use
  on them: UTF-8 validity and length of a \<^verbatim>\<open>str\<close>, and \<^verbatim>\<open>struct.pack("<f")\<close>, which rounds a
  double to a single. A float is its IEEE 754 bit pattern.
\<close>

section \<open>Values\<close>

text \<open>
  A \<^verbatim>\<open>str\<close> is represented by its UTF-8 encoding. \<open>PDatetime\<close> counts microseconds and
  \<open>PTimestamp\<close>, \<open>PTimedelta\<close> nanoseconds (from the epoch, time zones resolved), \<open>PDate\<close> days,
  \<open>PMonthdelta\<close> months; a decimal is its \<^verbatim>\<open>str()\<close> form. \<open>PTuple\<close> is a (named) tuple.
\<close>

datatype py_value =
    PNone
  | PBool bool
  | PInt int
  | PFloat "64 word"
  | PStr bytes
  | PBytes bytes
  | PDatetime int
  | PDate int
  | PTimestamp int
  | PTimedelta int
  | PMonthdelta int
  | PDecimal bytes
  | PList "py_value list"
  | PDict "(py_value \<times> py_value) list"
  | PTuple "py_value list"

section \<open>UTF-8\<close>

definition is_cont :: "byte \<Rightarrow> bool" where
  "is_cont b \<longleftrightarrow> 0x80 \<le> b \<and> b \<le> 0xBF"

text \<open>What \<^verbatim>\<open>bytes.decode("utf-8")\<close> accepts.\<close>

fun valid_utf8 :: "bytes \<Rightarrow> bool" where
  "valid_utf8 [] = True"
| "valid_utf8 (a # as) =
     (if a < 0x80 then valid_utf8 as
      else case as of
        [] \<Rightarrow> False
      | b # bs \<Rightarrow>
          if 0xC2 \<le> a \<and> a \<le> 0xDF then is_cont b \<and> valid_utf8 bs
          else case bs of
            [] \<Rightarrow> False
          | c # cs \<Rightarrow>
              if 0xE0 \<le> a \<and> a \<le> 0xEF then
                is_cont b \<and> is_cont c \<and> (a = 0xE0 \<longrightarrow> 0xA0 \<le> b) \<and> (a = 0xED \<longrightarrow> b \<le> 0x9F) \<and>
                valid_utf8 cs
              else case cs of
                [] \<Rightarrow> False
              | d # ds \<Rightarrow>
                  0xF0 \<le> a \<and> a \<le> 0xF4 \<and> is_cont b \<and> is_cont c \<and> is_cont d \<and>
                  (a = 0xF0 \<longrightarrow> 0x90 \<le> b) \<and> (a = 0xF4 \<longrightarrow> b \<le> 0x8F) \<and> valid_utf8 ds)"

definition utf8_decode :: "bytes \<Rightarrow> py_value result" where
  "utf8_decode bs = (if valid_utf8 bs then Inr (PStr bs) else Inl UnicodeDecodeError)"

text \<open>\<^verbatim>\<open>len\<close> of the text: one code point per byte that does not continue another.\<close>

definition utf8_len :: "bytes \<Rightarrow> nat" where
  "utf8_len bs = length (List.filter (\<lambda>b. \<not> is_cont b) bs)"

lemma utf8_len_le: "utf8_len bs \<le> length bs"
  by (simp add: utf8_len_def)

section \<open>Single precision\<close>

text \<open>The 32-bit pattern with the value of the integer \<open>m\<close> times \<open>2 ^ k\<close>, rounded half to even.\<close>

definition round_shift :: "nat \<Rightarrow> int \<Rightarrow> nat" where
  "round_shift m s =
     (if 0 \<le> s then m * 2 ^ nat s
      else let d = 2 ^ nat (- s); q = m div d; r = m mod d
           in if 2 * r < d \<or> (2 * r = d \<and> even q) then q else q + 1)"

fun floor_log2 :: "nat \<Rightarrow> nat" where
  "floor_log2 n = (if n < 2 then 0 else Suc (floor_log2 (n div 2)))"

declare floor_log2.simps [simp del]

definition single_of :: "nat \<Rightarrow> int \<Rightarrow> nat" where
  "single_of m k =
     (if m = 0 then 0
      else let q = max (- 149) (int (floor_log2 m) + k - 23)
           in nat (q + 149) * 2 ^ 23 + round_shift m (k - q))"

text \<open>
  \<^verbatim>\<open>struct.pack("<f", x)\<close>: infinities and NaNs keep their kind, a finite value that rounds
  beyond the range raises \<^verbatim>\<open>OverflowError\<close>.
\<close>

definition float_narrow :: "64 word \<Rightarrow> 32 word result" where
  "float_narrow x =
     (let n = unat x; sign = n div 2 ^ 63; e = n div 2 ^ 52 mod 2 ^ 11; f = n mod 2 ^ 52
      in if e = 2047 then
           Inr (word_of_nat (sign * 2 ^ 31 + 255 * 2 ^ 23 +
             (if f = 0 then 0 else 2 ^ 22 OR (f div 2 ^ 29))))
         else
           (let p = single_of (if e = 0 then f else 2 ^ 52 + f) (int (max e 1) - 1075)
            in if 255 * 2 ^ 23 \<le> p then Inl OverflowError
               else Inr (word_of_nat (sign * 2 ^ 31 + p))))"

text \<open>\<^verbatim>\<open>struct.unpack("<f", bs)\<close>.\<close>

definition float_widen :: "32 word \<Rightarrow> 64 word" where
  "float_widen y =
     (let n = unat y; sign = n div 2 ^ 31; e = n div 2 ^ 23 mod 2 ^ 8; f = n mod 2 ^ 23
      in word_of_nat (sign * 2 ^ 63 +
           (if e = 255 then 2047 * 2 ^ 52 + (if f = 0 then 0 else 2 ^ 51 OR (f * 2 ^ 29))
            else if e = 0 then
              (if f = 0 then 0
               else (floor_log2 f + 874) * 2 ^ 52 + (f - 2 ^ floor_log2 f) * 2 ^ (52 - floor_log2 f))
            else (e + 896) * 2 ^ 52 + f * 2 ^ 29)))"

lemma floor_log2_bounds: "0 < n \<Longrightarrow> 2 ^ floor_log2 n \<le> n \<and> n < 2 ^ Suc (floor_log2 n)"
proof (induction n rule: floor_log2.induct)
  case (1 n)
  show ?case
  proof (cases "n < 2")
    case True
    with 1 show ?thesis by (simp add: floor_log2.simps)
  next
    case False
    with 1 have "2 ^ floor_log2 (n div 2) \<le> n div 2" "n div 2 < 2 ^ Suc (floor_log2 (n div 2))"
      by auto
    moreover define P :: nat where "P = 2 ^ floor_log2 (n div 2)"
    ultimately have "2 * P \<le> n" "n < 4 * P" by simp_all
    with False show ?thesis by (simp add: floor_log2.simps [of n] P_def)
  qed
qed

lemma floor_log2_unique:
  assumes "2 ^ k \<le> n" and "n < 2 ^ Suc k"
  shows "floor_log2 n = k"
proof -
  from assms(1) have "0 < n" by (meson less_le_trans zero_less_numeral zero_less_power)
  then have n: "2 ^ floor_log2 n \<le> n" "n < 2 ^ Suc (floor_log2 n)"
    using floor_log2_bounds by blast+
  from le_less_trans [OF assms(1) n(2)] have "k < Suc (floor_log2 n)"
    by (rule power_less_imp_less_exp [rotated]) simp
  moreover from le_less_trans [OF n(1) assms(2)] have "floor_log2 n < Suc k"
    by (rule power_less_imp_less_exp [rotated]) simp
  ultimately show ?thesis by simp
qed

lemma floor_log2_shift: "0 < n \<Longrightarrow> floor_log2 (n * 2 ^ k) = floor_log2 n + k"
  using floor_log2_bounds [of n] by (intro floor_log2_unique) (simp_all add: power_add)

lemma round_shift_exact: "round_shift (m * 2 ^ j) (- int j) = m"
  by (simp add: round_shift_def Let_def)

lemma single_of_exact:
  assumes "0 < m" and "m < 2 ^ 24" and "2 ^ 23 \<le> m \<or> q = - 149" and "- 149 \<le> q"
  shows "single_of (m * 2 ^ j) (q - int j) = nat (q + 149) * 2 ^ 23 + m"
proof -
  have log: "floor_log2 (m * 2 ^ j) = floor_log2 m + j" by (rule floor_log2_shift [OF assms(1)])
  have "max (- 149) (int (floor_log2 (m * 2 ^ j)) + (q - int j) - 23) = q"
  proof (cases "2 ^ 23 \<le> m")
    case True
    then have "floor_log2 m = 23" using assms(2) by (intro floor_log2_unique) simp_all
    with log assms(4) show ?thesis by simp
  next
    case False
    then have "floor_log2 m < 23"
      using floor_log2_bounds [OF assms(1)] power_strict_increasing_iff [of "2::nat" "floor_log2 m" 23]
      by linarith
    with False log assms(3) show ?thesis by simp
  qed
  moreover have "q - int j - q = - int j" by simp
  ultimately show ?thesis
    using assms(1) by (simp only: single_of_def Let_def round_shift_exact) simp
qed

definition single_nan :: "32 word \<Rightarrow> bool" where
  "single_nan y \<longleftrightarrow> unat y div 2 ^ 23 mod 2 ^ 8 = 255 \<and> unat y mod 2 ^ 23 \<noteq> 0"

lemma unat_word64: "n < 2 ^ 64 \<Longrightarrow> unat (word_of_nat n :: 64 word) = n"
  by (simp add: unsigned_of_nat take_bit_nat_eq_self)

lemma unat_word32: "n < 2 ^ 32 \<Longrightarrow> unat (word_of_nat n :: 32 word) = n"
  by (simp add: unsigned_of_nat take_bit_nat_eq_self)

text \<open>The three fields of a 32-bit pattern, and those of a 64-bit pattern built from fields.\<close>

lemma single_fields:
  fixes y :: "32 word"
  defines "s \<equiv> unat y div 2 ^ 31" and "e \<equiv> unat y div 2 ^ 23 mod 2 ^ 8" and "f \<equiv> unat y mod 2 ^ 23"
  shows "unat y = s * 2 ^ 31 + (e * 2 ^ 23 + f)" "s < 2" "e < 2 ^ 8" "f < 2 ^ 23"
proof -
  have "unat y < 2 ^ 32" using unsigned_less [of y] by simp
  then show "s < 2" by (simp add: s_def)
  show "e < 2 ^ 8" "f < 2 ^ 23" by (simp_all add: e_def f_def)
  have "unat y div 2 ^ 31 = unat y div 2 ^ 23 div 2 ^ 8" by (simp flip: div_mult2_eq)
  then have "unat y div 2 ^ 23 = s * 2 ^ 8 + e" unfolding s_def e_def by simp
  then have "unat y = (s * 2 ^ 8 + e) * 2 ^ 23 + f" unfolding f_def by (metis div_mult_mod_eq)
  then show "unat y = s * 2 ^ 31 + (e * 2 ^ 23 + f)" by simp
qed

lemma double_fields:
  fixes s e f n :: nat
  assumes "s < 2" and "e < 2 ^ 11" and "f < 2 ^ 52" and n: "n = s * 2 ^ 63 + (e * 2 ^ 52 + f)"
  shows "n < 2 ^ 64" "n div 2 ^ 63 = s" "n div 2 ^ 52 mod 2 ^ 11 = e" "n mod 2 ^ 52 = f"
proof -
  show "n < 2 ^ 64" using assms by simp
  show "n div 2 ^ 63 = s" using assms(2,3) by (simp add: n)
  have "n = (s * 2 ^ 11 + e) * 2 ^ 52 + f" by (simp add: n)
  then have "n div 2 ^ 52 = s * 2 ^ 11 + e" and f: "n mod 2 ^ 52 = f"
    using assms(3) by (simp_all only: div_mult_self3 mod_mult_self3 div_less mod_less
      power_not_zero add_0_right zero_neq_numeral not_False_eq_True)
  with assms(2) show "n div 2 ^ 52 mod 2 ^ 11 = e" by simp
  show "n mod 2 ^ 52 = f" by (rule f)
qed

lemma float_narrow_finite:
  fixes s e f :: nat
  assumes "s < 2" and "e < 2047" and "f < 2 ^ 52"
    and "single_of (if e = 0 then f else 2 ^ 52 + f) (int (max e 1) - 1075) = p" and "p < 255 * 2 ^ 23"
  shows "float_narrow (word_of_nat (s * 2 ^ 63 + (e * 2 ^ 52 + f))) = Inr (word_of_nat (s * 2 ^ 31 + p))"
proof -
  define n where "n = s * 2 ^ 63 + (e * 2 ^ 52 + f)"
  from assms(2) have "e < 2 ^ 11" by simp
  note n = double_fields [OF assms(1) this assms(3) n_def]
  from assms(2,5) have "e \<noteq> 2047" "\<not> 255 * 2 ^ 23 \<le> p" by simp_all
  then show ?thesis
    unfolding n_def [symmetric] float_narrow_def Let_def unat_word64 [OF n(1)] n(2-4) assms(4)
    by (simp only: if_False)
qed

lemma float_narrow_inf:
  fixes s :: nat
  assumes "s < 2"
  shows "float_narrow (word_of_nat (s * 2 ^ 63 + (2047 * 2 ^ 52 + 0))) =
    Inr (word_of_nat (s * 2 ^ 31 + 255 * 2 ^ 23 + 0))"
proof -
  define n :: nat where "n = s * 2 ^ 63 + (2047 * 2 ^ 52 + 0)"
  have "(2047::nat) < 2 ^ 11" "(0::nat) < 2 ^ 52" by simp_all
  note n = double_fields [OF assms this n_def]
  show ?thesis
    unfolding n_def [symmetric] float_narrow_def Let_def unat_word64 [OF n(1)] n(2-4)
    by (simp only: if_True simp_thms)
qed

lemma word_of_nat_unat_32: "word_of_nat (unat w) = (w :: 32 word)"
  by simp

theorem float_narrow_widen:
  assumes "\<not> single_nan y"
  shows "float_narrow (float_widen y) = Inr y"
proof -
  define s e f where "s = unat y div 2 ^ 31" and "e = unat y div 2 ^ 23 mod 2 ^ 8"
    and "f = unat y mod 2 ^ 23"
  note y = single_fields [of y, folded s_def e_def f_def]
  have whole: "word_of_nat (s * 2 ^ 31 + (e * 2 ^ 23 + f)) = y"
    by (simp only: y(1) [symmetric] word_of_nat_unat_32)
  note widen = float_widen_def [of y, folded s_def e_def f_def, unfolded Let_def,
      folded s_def e_def f_def]
  consider "e = 255" | "e = 0" "f = 0" | "e = 0" "0 < f" | "0 < e" "e < 255"
    using y(3) by fastforce
  then show ?thesis
  proof cases
    case 1
    with assms have f: "f = 0" by (simp add: single_nan_def e_def f_def)
    from 1 f have w: "float_widen y = word_of_nat (s * 2 ^ 63 + (2047 * 2 ^ 52 + 0))"
      unfolding widen by simp
    show ?thesis
      using whole 1 f unfolding w float_narrow_inf [OF y(2)] by (simp add: add.assoc)
  next
    case 2
    from 2 have w: "float_widen y = word_of_nat (s * 2 ^ 63 + (0 * 2 ^ 52 + 0))"
      unfolding widen by simp
    show ?thesis unfolding w
      by (subst float_narrow_finite [where p = 0, OF y(2)])
        (use whole 2 in \<open>simp_all add: single_of_def\<close>)
  next
    case 3
    define L where "L = floor_log2 f"
    from floor_log2_bounds [OF 3(2)] have L: "2 ^ L \<le> f" "f < 2 ^ Suc L" by (simp_all add: L_def)
    with y(4) have "(2::nat) ^ L < 2 ^ 23" by linarith
    then have L22: "L < 23" by (rule power_less_imp_less_exp [rotated]) simp
    have pow: "(2::nat) ^ L * 2 ^ (52 - L) = 2 ^ 52" using L22 by (simp flip: power_add)
    define m where "m = (f - 2 ^ L) * 2 ^ (52 - L)"
    have m: "2 ^ 52 + m = f * 2 ^ (52 - L)"
      unfolding m_def diff_mult_distrib pow using mult_le_mono1 [OF L(1), of "2 ^ (52 - L)"] pow by simp
    have "f * 2 ^ (52 - L) < 2 ^ Suc L * 2 ^ (52 - L)"
      by (rule mult_strict_right_mono [OF L(2)]) simp
    also have "2 ^ Suc L * 2 ^ (52 - L) = (2::nat) * 2 ^ 52" using pow by simp
    finally have m52: "m < 2 ^ 52" using m by linarith
    from 3 have w: "float_widen y = word_of_nat (s * 2 ^ 63 + ((L + 874) * 2 ^ 52 + m))"
      unfolding widen by (simp add: L_def m_def)
    have "single_of (f * 2 ^ (52 - L)) (- 149 - int (52 - L)) = nat (- 149 + 149) * 2 ^ 23 + f"
      using 3(2) y(4) by (intro single_of_exact) simp_all
    moreover have "- 149 - int (52 - L) = int (max (L + 874) 1) - 1075" using L22 by simp
    ultimately have single: "single_of (if L + 874 = 0 then m else 2 ^ 52 + m)
        (int (max (L + 874) 1) - 1075) = f" using m by simp
    show ?thesis unfolding w
      by (subst float_narrow_finite [OF y(2) _ m52 single]) (use whole 3 L22 y(4) in simp_all)
  next
    case 4
    from 4 have w: "float_widen y = word_of_nat (s * 2 ^ 63 + ((e + 896) * 2 ^ 52 + f * 2 ^ 29))"
      unfolding widen by simp
    have "single_of ((2 ^ 23 + f) * 2 ^ 29) ((int e - 150) - int 29) =
        nat ((int e - 150) + 149) * 2 ^ 23 + (2 ^ 23 + f)"
      using 4 y(4) by (intro single_of_exact) simp_all
    also have "(2 ^ 23 + f) * 2 ^ 29 = 2 ^ 52 + f * 2 ^ 29" by simp
    also have "int e - 150 - int 29 = int (max (e + 896) 1) - 1075" by simp
    also have "nat ((int e - 150) + 149) * 2 ^ 23 + (2 ^ 23 + f) = e * 2 ^ 23 + f"
      using 4 by (cases e) simp_all
    finally have single: "single_of (if e + 896 = 0 then f * 2 ^ 29 else 2 ^ 52 + f * 2 ^ 29)
        (int (max (e + 896) 1) - 1075) = e * 2 ^ 23 + f" by simp
    show ?thesis unfolding w
      by (subst float_narrow_finite [OF y(2) _ _ single]) (use whole 4 y(4) in simp_all)
  qed
qed

end
