(* ===== verification/Types.thy ===== *)
theory Types
  imports Py_Value Py_String "HOL-Library.AList"
begin

text \<open>
  The data types of \<^verbatim>\<open>odps/types.py\<close>: names, equality, implicit casts, and the validation that
  turns a Python value into the value stored in a record. Types are nullable, as every type parsed
  from DDL is. numpy and pandas are installed; \<^verbatim>\<open>options.struct_as_dict\<close> is off.
\<close>

section \<open>Types\<close>

datatype prim =
    Tinyint | Smallint | IntT | Bigint | Float | Double | String | Datetime | Date | Boolean
  | Binary | Timestamp | TimestampNTZ | IntervalDayTime | IntervalYearMonth | Json
  | Geography | Blob | Variant

datatype odps_type =
    Prim prim
  | Varchar int
  | Char int
  | Decimal "int option" "int option"
  | Array odps_type
  | Map odps_type odps_type
  | Struct "(string \<times> odps_type) list"
  | Vector odps_type int

fun prim_name :: "prim \<Rightarrow> string" where
  "prim_name Tinyint = ''tinyint''"
| "prim_name Smallint = ''smallint''"
| "prim_name IntT = ''int''"
| "prim_name Bigint = ''bigint''"
| "prim_name Float = ''float''"
| "prim_name Double = ''double''"
| "prim_name String = ''string''"
| "prim_name Datetime = ''datetime''"
| "prim_name Date = ''date''"
| "prim_name Boolean = ''boolean''"
| "prim_name Binary = ''binary''"
| "prim_name Timestamp = ''timestamp''"
| "prim_name TimestampNTZ = ''timestamp_ntz''"
| "prim_name IntervalDayTime = ''interval_day_time''"
| "prim_name IntervalYearMonth = ''interval_year_month''"
| "prim_name Json = ''json''"
| "prim_name Geography = ''geography''"
| "prim_name Blob = ''blob''"
| "prim_name Variant = ''variant''"

definition all_prims :: "prim list" where
  "all_prims =
     [Tinyint, Smallint, IntT, Bigint, Float, Double, String, Datetime, Date, Boolean, Binary,
      Timestamp, TimestampNTZ, IntervalDayTime, IntervalYearMonth, Json, Geography, Blob, Variant]"

definition odps_primitive_data_types :: "(string \<times> prim) list" where
  "odps_primitive_data_types = List.map (\<lambda>t. (prim_name t, t)) all_prims"

text \<open>\<^verbatim>\<open>backquote_string\<close>: inner back quotes are doubled.\<close>

definition double_backquotes :: "string \<Rightarrow> string" where
  "double_backquotes s = concat (List.map (\<lambda>c. if c = CHR ''`'' then ''``'' else [c]) s)"

definition backquote_string :: "string \<Rightarrow> string" where
  "backquote_string s = ''`'' @ double_backquotes s @ ''`''"

definition sized_name :: "string \<Rightarrow> int \<Rightarrow> string" where
  "sized_name cls size_limit = cls @ ''('' @ py_str_int size_limit @ '')''"

definition decimal_name :: "int option \<Rightarrow> int option \<Rightarrow> string" where
  "decimal_name precision scale =
     (case precision of None \<Rightarrow> ''decimal''
      | Some p \<Rightarrow>
          (case scale of None \<Rightarrow> ''decimal('' @ py_str_int p @ '')''
           | Some s \<Rightarrow> ''decimal('' @ py_str_int p @ '','' @ py_str_int s @ '')''))"

definition array_name :: "string \<Rightarrow> string" where
  "array_name value_name = ''array<'' @ value_name @ ''>''"

definition map_name :: "string \<Rightarrow> string \<Rightarrow> string" where
  "map_name key_name value_name = ''map<'' @ key_name @ '','' @ value_name @ ''>''"

definition struct_name :: "(string \<times> string) list \<Rightarrow> string" where
  "struct_name field_names =
     ''struct<'' @
     py_join '','' (List.map (\<lambda>(k, n). backquote_string k @ '':'' @ n) field_names) @ ''>''"

definition vector_name :: "string \<Rightarrow> int \<Rightarrow> string" where
  "vector_name element_name dimension =
     ''vector('' @ element_name @ '','' @ py_str_int dimension @ '')''"

fun type_name :: "odps_type \<Rightarrow> string" where
  "type_name (Prim p) = prim_name p"
| "type_name (Varchar n) = sized_name ''varchar'' n"
| "type_name (Char n) = sized_name ''char'' n"
| "type_name (Decimal p s) = decimal_name p s"
| "type_name (Array t) = array_name (type_name t)"
| "type_name (Map k v) = map_name (type_name k) (type_name v)"
| "type_name (Struct fs) = struct_name (List.map (\<lambda>(k, v). (k, type_name v)) fs)"
| "type_name (Vector t n) = vector_name (type_name t) n"

lemma type_name_eqs:
  "type_name (Prim pr) = prim_name pr"
  "type_name (Varchar n) = ''varchar('' @ py_str_int n @ '')''"
  "type_name (Char n) = ''char('' @ py_str_int n @ '')''"
  "type_name (Decimal p s) =
     (case p of None \<Rightarrow> ''decimal''
      | Some p' \<Rightarrow>
          (case s of None \<Rightarrow> ''decimal('' @ py_str_int p' @ '')''
           | Some s' \<Rightarrow> ''decimal('' @ py_str_int p' @ '','' @ py_str_int s' @ '')''))"
  "type_name (Array t) = ''array<'' @ type_name t @ ''>''"
  "type_name (Map kt vt) = ''map<'' @ type_name kt @ '','' @ type_name vt @ ''>''"
  "type_name (Struct fs) =
     ''struct<'' @
     py_join '','' (List.map (\<lambda>(k, v). backquote_string k @ '':'' @ type_name v) fs) @ ''>''"
  "type_name (Vector t n) = ''vector('' @ type_name t @ '','' @ py_str_int n @ '')''"
  by (simp_all add: sized_name_def decimal_name_def array_name_def map_name_def struct_name_def
      vector_name_def comp_def case_prod_unfold)

declare type_name.simps [simp del]
declare type_name_eqs [simp]

section \<open>Constructors\<close>

text \<open>What the constructors check before they build a type.\<close>

definition mk_sized :: "(int \<Rightarrow> odps_type) \<Rightarrow> int \<Rightarrow> odps_type result" where
  "mk_sized cls size_limit = (if 65535 < size_limit then Inl ValueError else Inr (cls size_limit))"

definition mk_decimal :: "int option \<Rightarrow> int option \<Rightarrow> odps_type result" where
  "mk_decimal precision scale =
     (if precision = None \<and> scale \<noteq> None then Inl ValueError
      else if (case precision of None \<Rightarrow> False | Some p \<Rightarrow> p < 1) then Inl ValueError
      else if (case (precision, scale) of (Some p, Some s) \<Rightarrow> p < s | _ \<Rightarrow> False)
        then Inl ValueError
      else Inr (Decimal precision scale))"

text \<open>An \<^verbatim>\<open>OrderedDict\<close> filled in order: a repeated key keeps its place, the last value wins.\<close>

definition mk_struct :: "(string \<times> odps_type) list \<Rightarrow> odps_type" where
  "mk_struct fields = Struct (fold (\<lambda>(k, v) d. AList.update k v d) fields [])"

definition mk_vector :: "odps_type \<Rightarrow> int \<Rightarrow> odps_type result" where
  "mk_vector element_type dimension =
     (if element_type \<noteq> Prim Float \<and> element_type \<noteq> Prim Double then Inl ValueError
      else if dimension \<le> 0 then Inl ValueError
      else Inr (Vector element_type dimension))"

section \<open>Equality\<close>

text \<open>
  Equal types have the same class and parameters; the fields of structs are compared as
  dictionaries, so their order does not count.
\<close>

fun type_eq :: "odps_type \<Rightarrow> odps_type \<Rightarrow> bool" where
  "type_eq (Prim p) u = (u = Prim p)"
| "type_eq (Varchar n) u = (u = Varchar n)"
| "type_eq (Char n) u = (u = Char n)"
| "type_eq (Decimal p s) u = (u = Decimal p s)"
| "type_eq (Array t) u = (case u of Array t' \<Rightarrow> type_eq t t' | _ \<Rightarrow> False)"
| "type_eq (Map k v) u = (case u of Map k' v' \<Rightarrow> type_eq k k' \<and> type_eq v v' | _ \<Rightarrow> False)"
| "type_eq (Struct fs) u =
     (case u of
        Struct gs \<Rightarrow>
          length fs = length gs \<and>
          list_all (\<lambda>(k, t). case map_of gs k of None \<Rightarrow> False | Some t' \<Rightarrow> type_eq t t') fs
      | _ \<Rightarrow> False)"
| "type_eq (Vector t n) u = (case u of Vector t' n' \<Rightarrow> type_eq t t' \<and> n = n' | _ \<Rightarrow> False)"

section \<open>Implicit casts\<close>

fun is_integer :: "odps_type \<Rightarrow> bool" where
  "is_integer (Prim p) = (p \<in> {Tinyint, Smallint, IntT, Bigint})"
| "is_integer _ = False"

fun is_float :: "odps_type \<Rightarrow> bool" where
  "is_float (Prim p) = (p \<in> {Float, Double})"
| "is_float _ = False"

text \<open>\<^verbatim>\<open>Varchar\<close> and \<^verbatim>\<open>Char\<close> are subclasses of \<^verbatim>\<open>String\<close>.\<close>

fun is_string :: "odps_type \<Rightarrow> bool" where
  "is_string (Prim p) = (p = String)"
| "is_string (Varchar n) = True"
| "is_string (Char n) = True"
| "is_string _ = False"

fun is_timestamp :: "odps_type \<Rightarrow> bool" where
  "is_timestamp (Prim p) = (p \<in> {Timestamp, TimestampNTZ})"
| "is_timestamp _ = False"

fun is_decimal :: "odps_type \<Rightarrow> bool" where
  "is_decimal (Decimal p s) = True"
| "is_decimal _ = False"

fun store_bytes :: "odps_type \<Rightarrow> nat" where
  "store_bytes (Prim Tinyint) = 1"
| "store_bytes (Prim Smallint) = 2"
| "store_bytes (Prim IntT) = 4"
| "store_bytes (Prim Bigint) = 8"
| "store_bytes (Prim Float) = 4"
| "store_bytes (Prim Double) = 8"
| "store_bytes _ = 0"

text \<open>\<^verbatim>\<open>isinstance(self, type(other))\<close>.\<close>

fun instance_of_class :: "odps_type \<Rightarrow> odps_type \<Rightarrow> bool" where
  "instance_of_class (Prim p) (Prim q) = (p = q)"
| "instance_of_class (Varchar m) u = (case u of Varchar n \<Rightarrow> True | Prim q \<Rightarrow> q = String | _ \<Rightarrow> False)"
| "instance_of_class (Char m) u = (case u of Char n \<Rightarrow> True | Prim q \<Rightarrow> q = String | _ \<Rightarrow> False)"
| "instance_of_class (Decimal p s) (Decimal p' s') = True"
| "instance_of_class (Array t) (Array u) = True"
| "instance_of_class (Map k v) (Map k' v') = True"
| "instance_of_class (Struct fs) (Struct gs) = True"
| "instance_of_class (Vector t m) (Vector u n) = True"
| "instance_of_class _ _ = False"

definition integer_can_cast :: "prim \<Rightarrow> odps_type \<Rightarrow> bool" where
  "integer_can_cast self other =
     (if is_float other \<or> is_string other \<or> is_decimal other then True
      else if is_integer other then store_bytes other \<le> store_bytes (Prim self)
      else instance_of_class (Prim self) other)"

definition float_can_cast :: "prim \<Rightarrow> odps_type \<Rightarrow> bool" where
  "float_can_cast self other =
     (if is_integer other \<or> is_string other \<or> is_decimal other then True
      else if is_float other then store_bytes other \<le> store_bytes (Prim self)
      else instance_of_class (Prim self) other)"

definition string_can_cast :: "odps_type \<Rightarrow> bool" where
  "string_can_cast other =
     (if is_integer other \<or> is_float other \<or> other = Prim Datetime \<or> is_decimal other \<or>
         other = Prim Binary \<or> other = Prim Json then True
      else instance_of_class (Prim String) other)"

text \<open>\<^verbatim>\<open>_date_allow_int_conversion\<close> is the module flag.\<close>

definition datetime_can_cast :: "bool \<Rightarrow> odps_type \<Rightarrow> bool" where
  "datetime_can_cast allow_int other =
     (if is_timestamp other \<or> other = Prim Datetime \<or> other = Prim Date \<or> is_string other \<or>
         (allow_int \<and> other = Prim Bigint) then True
      else instance_of_class (Prim Datetime) other)"

definition date_can_cast :: "bool \<Rightarrow> odps_type \<Rightarrow> bool" where
  "date_can_cast allow_int other =
     (if is_timestamp other \<or> other = Prim Datetime \<or> is_string other \<or>
         (allow_int \<and> other = Prim Bigint) then True
      else instance_of_class (Prim Date) other)"

definition binary_can_cast :: "odps_type \<Rightarrow> bool" where
  "binary_can_cast other =
     (if is_integer other \<or> is_float other \<or> other = Prim Datetime \<or> is_decimal other \<or>
         is_string other then True
      else instance_of_class (Prim Binary) other)"

definition timestamp_can_cast :: "prim \<Rightarrow> odps_type \<Rightarrow> bool" where
  "timestamp_can_cast self other =
     (if is_timestamp other \<or> other = Prim Datetime \<or> is_string other then True
      else instance_of_class (Prim self) other)"

definition interval_day_time_can_cast :: "odps_type \<Rightarrow> bool" where
  "interval_day_time_can_cast other =
     (if is_timestamp other \<or> other = Prim Datetime \<or> is_string other then True
      else instance_of_class (Prim IntervalDayTime) other)"

definition interval_year_month_can_cast :: "odps_type \<Rightarrow> bool" where
  "interval_year_month_can_cast other =
     (if is_string other \<or> is_integer other then True
      else instance_of_class (Prim IntervalYearMonth) other)"

definition json_can_cast :: "odps_type \<Rightarrow> bool" where
  "json_can_cast other =
     (if is_string other \<or> other = Prim Binary then True
      else instance_of_class (Prim Json) other)"

fun prim_can_cast :: "bool \<Rightarrow> prim \<Rightarrow> odps_type \<Rightarrow> bool" where
  "prim_can_cast allow_int Tinyint other = integer_can_cast Tinyint other"
| "prim_can_cast allow_int Smallint other = integer_can_cast Smallint other"
| "prim_can_cast allow_int IntT other = integer_can_cast IntT other"
| "prim_can_cast allow_int Bigint other = integer_can_cast Bigint other"
| "prim_can_cast allow_int Float other = float_can_cast Float other"
| "prim_can_cast allow_int Double other = float_can_cast Double other"
| "prim_can_cast allow_int String other = string_can_cast other"
| "prim_can_cast allow_int Datetime other = datetime_can_cast allow_int other"
| "prim_can_cast allow_int Date other = date_can_cast allow_int other"
| "prim_can_cast allow_int Binary other = binary_can_cast other"
| "prim_can_cast allow_int Timestamp other = timestamp_can_cast Timestamp other"
| "prim_can_cast allow_int TimestampNTZ other = timestamp_can_cast TimestampNTZ other"
| "prim_can_cast allow_int IntervalDayTime other = interval_day_time_can_cast other"
| "prim_can_cast allow_int IntervalYearMonth other = interval_year_month_can_cast other"
| "prim_can_cast allow_int Json other = json_can_cast other"
| "prim_can_cast allow_int self other = instance_of_class (Prim self) other"

definition varchar_can_cast :: "int \<Rightarrow> odps_type \<Rightarrow> bool" where
  "varchar_can_cast size_limit other =
     (if is_integer other \<or> is_float other \<or> other = Prim Datetime \<or> is_decimal other \<or>
         is_string other \<or> other = Prim Binary then True
      else case other of
             Varchar n \<Rightarrow> n \<le> size_limit
           | Char n \<Rightarrow> n \<le> size_limit
           | _ \<Rightarrow> False)"

definition char_can_cast :: "int \<Rightarrow> odps_type \<Rightarrow> bool" where
  "char_can_cast size_limit other =
     (if is_integer other \<or> is_float other \<or> other = Prim Datetime \<or> is_decimal other \<or>
         is_string other \<or> other = Prim Binary then True
      else case other of
             Varchar n \<Rightarrow> n \<le> size_limit
           | Char n \<Rightarrow> n \<le> size_limit
           | _ \<Rightarrow> False)"

definition decimal_can_cast :: "int option \<Rightarrow> int option \<Rightarrow> odps_type \<Rightarrow> bool" where
  "decimal_can_cast precision scale other =
     (if is_integer other \<or> is_float other \<or> is_string other then True
      else instance_of_class (Decimal precision scale) other)"

definition array_can_cast :: "odps_type \<Rightarrow> odps_type \<Rightarrow> bool" where
  "array_can_cast value_type other = (case other of Array u \<Rightarrow> type_eq value_type u | _ \<Rightarrow> False)"

definition map_can_cast :: "odps_type \<Rightarrow> odps_type \<Rightarrow> odps_type \<Rightarrow> bool" where
  "map_can_cast key_type value_type other =
     (case other of Map k v \<Rightarrow> type_eq key_type k \<and> type_eq value_type v | _ \<Rightarrow> False)"

definition struct_can_cast :: "(string \<times> odps_type) list \<Rightarrow> odps_type \<Rightarrow> bool" where
  "struct_can_cast field_types other =
     (case other of Struct gs \<Rightarrow> type_eq (Struct field_types) other | _ \<Rightarrow> False)"

definition vector_can_cast :: "odps_type \<Rightarrow> int \<Rightarrow> odps_type \<Rightarrow> bool" where
  "vector_can_cast element_type dimension other =
     (case other of Vector u m \<Rightarrow> type_eq element_type u \<and> dimension = m | _ \<Rightarrow> False)"

fun can_implicit_cast :: "bool \<Rightarrow> odps_type \<Rightarrow> odps_type \<Rightarrow> bool" where
  "can_implicit_cast allow_int (Prim p) other = prim_can_cast allow_int p other"
| "can_implicit_cast allow_int (Varchar n) other = varchar_can_cast n other"
| "can_implicit_cast allow_int (Char n) other = char_can_cast n other"
| "can_implicit_cast allow_int (Decimal p s) other = decimal_can_cast p s other"
| "can_implicit_cast allow_int (Array t) other = array_can_cast t other"
| "can_implicit_cast allow_int (Map k v) other = map_can_cast k v other"
| "can_implicit_cast allow_int (Struct fs) other = struct_can_cast fs other"
| "can_implicit_cast allow_int (Vector t n) other = vector_can_cast t n other"

lemmas can_cast_defs =
  integer_can_cast_def float_can_cast_def string_can_cast_def datetime_can_cast_def
  date_can_cast_def binary_can_cast_def timestamp_can_cast_def interval_day_time_can_cast_def
  interval_year_month_can_cast_def json_can_cast_def varchar_can_cast_def char_can_cast_def
  decimal_can_cast_def array_can_cast_def map_can_cast_def struct_can_cast_def
  vector_can_cast_def

section \<open>Properties\<close>

text \<open>Struct types whose field names repeat cannot be built.\<close>

fun well_formed :: "odps_type \<Rightarrow> bool" where
  "well_formed (Array t) = well_formed t"
| "well_formed (Map k v) = (well_formed k \<and> well_formed v)"
| "well_formed (Struct fs) = (distinct (List.map fst fs) \<and> list_all (\<lambda>(k, t). well_formed t) fs)"
| "well_formed (Vector t n) = well_formed t"
| "well_formed _ = True"

lemma type_eq_refl: "well_formed t \<Longrightarrow> type_eq t t"
proof (induction t)
  case (Struct fs)
  have "map_of fs k = Some t \<and> type_eq t t" if "(k, t) \<in> set fs" for k t
    using Struct that by (fastforce simp: list_all_iff)
  then show ?case by (auto simp: list_all_iff)
qed simp_all

lemma type_eq_sym: "well_formed t \<Longrightarrow> well_formed u \<Longrightarrow> type_eq t u \<Longrightarrow> type_eq u t"
proof (induction t u rule: type_eq.induct)
  case (7 fs u)
  then obtain gs where u: "u = Struct gs" by (cases u) auto
  with 7 have len: "length fs = length gs" and d: "distinct (List.map fst fs)" "distinct (List.map fst gs)"
    and sub: "\<And>k t. (k, t) \<in> set fs \<Longrightarrow> \<exists>t'. map_of gs k = Some t' \<and> type_eq t t'"
    by (fastforce simp: list_all_iff split: option.splits)+
  have "fst ` set fs \<subseteq> fst ` set gs" using sub map_of_SomeD by force
  moreover have "card (fst ` set fs) = card (fst ` set gs)"
    using len d distinct_card [of "List.map fst fs"] distinct_card [of "List.map fst gs"] by simp
  ultimately have keys: "fst ` set gs = fst ` set fs" by (metis card_subset_eq finite_imageI List.finite_set)
  have "\<exists>t. map_of fs k = Some t \<and> type_eq t' t" if g: "(k, t') \<in> set gs" for k t'
  proof -
    have "k \<in> fst ` set fs" unfolding keys [symmetric] by (rule image_eqI [OF _ g]) simp
    then obtain t where t: "(k, t) \<in> set fs" by auto
    from sub [OF t] g d(2) have "type_eq t t'" by simp
    moreover have "well_formed t" "well_formed t'"
      using 7 u t g by (auto simp: list_all_iff)
    ultimately have "type_eq t' t"
      using "7.IH" [OF u t refl] g d(2) by simp
    with t d(1) show ?thesis by auto
  qed
  with u len show ?case by (fastforce simp: list_all_iff)
qed (auto split: odps_type.splits)

text \<open>Type equality is reflexive and symmetric, struct fields in any order included.\<close>

theorem type_equality:
  assumes "well_formed t" and "well_formed u"
  shows "type_eq t t \<and> (type_eq t u = type_eq u t)"
  using type_eq_refl type_eq_sym assms by blast

theorem type_equality_witness:
  "type_eq (Struct [(''a'', Prim Bigint), (''b'', Prim String)])
     (Struct [(''b'', Prim String), (''a'', Prim Bigint)]) =
   type_eq (Struct [(''b'', Prim String), (''a'', Prim Bigint)])
     (Struct [(''a'', Prim Bigint), (''b'', Prim String)])"
  using type_equality [of "Struct [(''a'', Prim Bigint), (''b'', Prim String)]"
      "Struct [(''b'', Prim String), (''a'', Prim Bigint)]"] by simp

end
