(* ===== verification/Type_Parser.thy ===== *)
theory Type_Parser
  imports Types
begin

text \<open>
  Parsing of type names: \<^verbatim>\<open>split_backquoted\<close>, \<^verbatim>\<open>strip_backquotes\<close> of \<^verbatim>\<open>odps/utils.py\<close>,
  \<^verbatim>\<open>parse_composite_types\<close> and \<^verbatim>\<open>validate_data_type\<close> of \<^verbatim>\<open>odps/types.py\<close>. The parser keeps a
  stack of tokens (strings, types, named types) and a stack of bracket positions.
\<close>

section \<open>Back quotes\<close>

fun undouble_backquotes :: "string \<Rightarrow> string" where
  "undouble_backquotes [] = []"
| "undouble_backquotes [c] = [c]"
| "undouble_backquotes (c # d # cs) =
     (if c = CHR ''`'' \<and> d = CHR ''`'' then CHR ''`'' # undouble_backquotes cs
      else c # undouble_backquotes (d # cs))"

definition strip_backquotes :: "string \<Rightarrow> string" where
  "strip_backquotes s =
     (let n = py_strip s
      in if n = [] \<or> hd n \<noteq> CHR ''`'' \<or> last n \<noteq> CHR ''`'' then n
         else undouble_backquotes (butlast (tl n)))"

text \<open>
  \<^verbatim>\<open>split_backquoted(s, sep, maxsplit)\<close> for a one-character separator. \<open>left\<close> counts the splits
  still allowed, \<open>None\<close> for no limit.
\<close>

fun split_backquoted_loop :: "char \<Rightarrow> nat option \<Rightarrow> bool \<Rightarrow> string \<Rightarrow> string \<Rightarrow> string list" where
  "split_backquoted_loop sep left quoted cur [] = [cur]"
| "split_backquoted_loop sep left quoted cur (c # cs) =
     (if c = CHR ''`'' then split_backquoted_loop sep left (\<not> quoted) (cur @ [c]) cs
      else if \<not> quoted \<and> left \<noteq> Some 0 \<and> c = sep then
        cur # split_backquoted_loop sep (map_option (\<lambda>n. n - 1) left) quoted [] cs
      else split_backquoted_loop sep left quoted (cur @ [c]) cs)"

definition split_backquoted :: "string \<Rightarrow> char \<Rightarrow> nat option \<Rightarrow> string list result" where
  "split_backquoted s sep maxsplit =
     (if sep = CHR ''`'' then Inl ValueError
      else Inr (split_backquoted_loop sep maxsplit False [] s))"

text \<open>\<^verbatim>\<open>_split_struct_kv\<close>: an optional field name and a type.\<close>

definition split_struct_kv :: "string \<Rightarrow> (string option \<times> string) result" where
  "split_struct_kv kv_str =
     rbind (split_backquoted kv_str CHR '':'' (Some 1)) (\<lambda>parts.
       case parts of
         [t] \<Rightarrow> Inr (None, py_strip t)
       | [k, t] \<Rightarrow> Inr (Some (strip_backquotes k), py_strip t)
       | _ \<Rightarrow> Inl ValueError)"

section \<open>Tokens\<close>

datatype token = TStr string | TType odps_type | TField string odps_type

text \<open>
  \<open>val\<close> is \<^verbatim>\<open>validate_data_type\<close> on strings. What it returns is a token: besides types it can hand
  back a string or a named type. Where an element type is expected, as in \<^verbatim>\<open>array<a:decimal>\<close>, the
  code would go on with the tuple \<^verbatim>\<open>("a", decimal)\<close> in place of a type; \<open>resolve\<close> refuses it.
\<close>

definition resolve :: "(string \<Rightarrow> token result) \<Rightarrow> token \<Rightarrow> odps_type result" where
  "resolve val tok =
     (case tok of
        TType t \<Rightarrow> Inr t
      | TField k t \<Rightarrow> Inl ValueError
      | TStr s \<Rightarrow> rbind (val s) (\<lambda>r. case r of TType t \<Rightarrow> Inr t | _ \<Rightarrow> Inl ValueError))"

definition int_arg :: "token \<Rightarrow> int result" where
  "int_arg tok = (case tok of TStr s \<Rightarrow> py_int s | _ \<Rightarrow> Inl ValueError)"

definition parse_sized :: "(int \<Rightarrow> odps_type) \<Rightarrow> token list \<Rightarrow> odps_type result" where
  "parse_sized cls args =
     (case args of [a] \<Rightarrow> rbind (int_arg a) (mk_sized cls) | _ \<Rightarrow> Inl ValueError)"

definition parse_decimal :: "token list \<Rightarrow> odps_type result" where
  "parse_decimal args =
     (if 2 < length args then Inl ValueError
      else rbind (rmap int_arg args) (\<lambda>ns.
        mk_decimal (case ns of [] \<Rightarrow> None | p # _ \<Rightarrow> Some p)
          (case ns of p # s # _ \<Rightarrow> Some s | _ \<Rightarrow> None)))"

definition parse_array :: "(string \<Rightarrow> token result) \<Rightarrow> token list \<Rightarrow> odps_type result" where
  "parse_array val args =
     (case args of [a] \<Rightarrow> rbind (resolve val a) (\<lambda>t. Inr (Array t)) | _ \<Rightarrow> Inl ValueError)"

definition parse_map :: "(string \<Rightarrow> token result) \<Rightarrow> token list \<Rightarrow> odps_type result" where
  "parse_map val args =
     (case args of
        [a, b] \<Rightarrow> rbind (resolve val a) (\<lambda>k. rbind (resolve val b) (\<lambda>v. Inr (Map k v)))
      | _ \<Rightarrow> Inl ValueError)"

text \<open>\<^verbatim>\<open>":" not in a\<close> on something that is neither a tuple nor a string raises \<^verbatim>\<open>TypeError\<close>.\<close>

fun check_fields :: "token list \<Rightarrow> unit result" where
  "check_fields [] = Inr ()"
| "check_fields (TField k t # as) = check_fields as"
| "check_fields (TStr s # as) = (if CHR '':'' \<notin> set s then Inl ValueError else check_fields as)"
| "check_fields (TType t # as) = Inl TypeError"

definition parse_field :: "(string \<Rightarrow> token result) \<Rightarrow> token \<Rightarrow> (string \<times> odps_type) result" where
  "parse_field val tok =
     (case tok of
        TField k t \<Rightarrow> Inr (k, t)
      | TStr s \<Rightarrow>
          rbind (split_struct_kv s) (\<lambda>(k, ts).
            case k of
              None \<Rightarrow> Inl ValueError
            | Some k' \<Rightarrow> rbind (resolve val (TStr ts)) (\<lambda>t. Inr (k', t)))
      | TType t \<Rightarrow> Inl TypeError)"

definition parse_struct :: "(string \<Rightarrow> token result) \<Rightarrow> token list \<Rightarrow> odps_type result" where
  "parse_struct val args =
     rbind (check_fields args) (\<lambda>_.
     rbind (rmap (parse_field val) args) (\<lambda>fs. Inr (mk_struct fs)))"

definition parse_vector :: "(string \<Rightarrow> token result) \<Rightarrow> token list \<Rightarrow> odps_type result" where
  "parse_vector val args =
     (case args of
        [a, b] \<Rightarrow> rbind (resolve val a) (\<lambda>t. rbind (int_arg b) (\<lambda>n. mk_vector t n))
      | _ \<Rightarrow> Inl ValueError)"

text \<open>\<^verbatim>\<open>_composite_handlers[typ].parse_composite(args)\<close>.\<close>

definition parse_composite :: "(string \<Rightarrow> token result) \<Rightarrow> string \<Rightarrow> token list \<Rightarrow> odps_type result" where
  "parse_composite val typ args =
     (if typ = ''varchar'' then parse_sized Varchar args
      else if typ = ''char'' then parse_sized Char args
      else if typ = ''decimal'' then parse_decimal args
      else if typ = ''array'' then parse_array val args
      else if typ = ''map'' then parse_map val args
      else if typ = ''struct'' then parse_struct val args
      else if typ = ''vector'' then parse_vector val args
      else Inl ValueError)"

definition create_composite_type ::
    "(string \<Rightarrow> token result) \<Rightarrow> string \<Rightarrow> token list \<Rightarrow> token result" where
  "create_composite_type val typ args =
     rbind (split_struct_kv typ) (\<lambda>(k, t).
     rbind (parse_composite val t args) (\<lambda>ctype.
       Inr (case k of None \<Rightarrow> TType ctype | Some n \<Rightarrow> TField n ctype)))"

section \<open>The parser\<close>

text \<open>The token since the last delimiter, pushed unless it is blank.\<close>

definition push_token :: "token list \<Rightarrow> string \<Rightarrow> token list" where
  "push_token stack cur = (if py_strip cur = [] then stack else stack @ [TStr (py_strip cur)])"

fun parse_loop ::
    "(string \<Rightarrow> token result) \<Rightarrow> token list \<Rightarrow> nat list \<Rightarrow> string \<Rightarrow> bool \<Rightarrow> string \<Rightarrow>
     token list result" where
  "parse_loop val stack brackets cur quoted [] = Inr stack"
| "parse_loop val stack brackets cur quoted (c # cs) =
     (if c = CHR ''`'' then parse_loop val stack brackets (cur @ [c]) (\<not> quoted) cs
      else if quoted then parse_loop val stack brackets (cur @ [c]) quoted cs
      else if c = CHR ''<'' \<or> c = CHR ''('' then
        parse_loop val (stack @ [TStr (py_strip cur)]) (length stack # brackets) [] quoted cs
      else if c = CHR ''>'' \<or> c = CHR '')'' then
        (let stack' = push_token stack cur
         in case brackets of
              [] \<Rightarrow> Inl IndexError
            | pos # brackets' \<Rightarrow>
                (case drop pos stack' of
                   TStr typ # args \<Rightarrow>
                     rbind (create_composite_type val typ args) (\<lambda>tok.
                       parse_loop val (take pos stack' @ [tok]) brackets' [] quoted cs)
                 | _ \<Rightarrow> Inl TypeError))
      else if c = CHR '','' then parse_loop val (push_token stack cur) brackets [] quoted cs
      else parse_loop val stack brackets (cur @ [c]) quoted cs)"

definition parse_composite_types :: "(string \<Rightarrow> token result) \<Rightarrow> string \<Rightarrow> token result" where
  "parse_composite_types val s =
     (let type_str = py_strip s
      in rbind (parse_loop val [] [] [] False type_str) (\<lambda>stack.
           case stack of
             [tok] \<Rightarrow> Inr tok
           | _ \<Rightarrow> create_composite_type val type_str []))"

text \<open>
  \<^verbatim>\<open>validate_data_type\<close> on a string calls itself on the tokens between brackets, which are
  shorter than the string: a depth of its length is enough.
\<close>

fun validate_fuel :: "nat \<Rightarrow> string \<Rightarrow> token result" where
  "validate_fuel 0 s = Inl ValueError"
| "validate_fuel (Suc n) s =
     (let data_type = py_lower (py_strip s)
      in case map_of odps_primitive_data_types data_type of
           Some p \<Rightarrow> Inr (TType (Prim p))
         | None \<Rightarrow> parse_composite_types (validate_fuel n) data_type)"

definition validate_data_type :: "string \<Rightarrow> token result" where
  "validate_data_type s = validate_fuel (Suc (length s)) s"

section \<open>The depth suffices\<close>

text \<open>
  Two versions of \<open>val\<close> that agree on strings shorter than \<open>n\<close> give the same parse of a string no
  longer than \<open>n\<close>: what stands between brackets is shorter than the whole. So any fuel greater
  than the length of the string gives the same answer as \<open>validate_data_type\<close>.
\<close>

definition agree :: "nat \<Rightarrow> (string \<Rightarrow> token result) \<Rightarrow> (string \<Rightarrow> token result) \<Rightarrow> bool" where
  "agree n val val' \<longleftrightarrow> (\<forall>s. length s < n \<longrightarrow> val s = val' s)"

definition short :: "nat \<Rightarrow> token \<Rightarrow> bool" where
  "short n tok \<longleftrightarrow> (\<forall>s. tok = TStr s \<longrightarrow> length s < n)"

lemma py_strip_length: "length (py_strip s) \<le> length s"
  unfolding py_strip_def py_lstrip_def py_rstrip_def
  by (metis length_dropWhile_le length_rev order_trans)

lemma split_part_length:
  "p \<in> set (split_backquoted_loop sep left quoted cur s) \<Longrightarrow> length p \<le> length cur + length s"
proof (induction sep left quoted cur s arbitrary: p rule: split_backquoted_loop.induct)
  case (2 sep left quoted cur c cs)
  consider (quote) "c = CHR ''`''" | (sep) "c \<noteq> CHR ''`''" "\<not> quoted \<and> left \<noteq> Some 0 \<and> c = sep"
    | (other) "c \<noteq> CHR ''`''" "\<not> (\<not> quoted \<and> left \<noteq> Some 0 \<and> c = sep)" by blast
  then show ?case
  proof cases
    case quote
    then have "p \<in> set (split_backquoted_loop sep left (\<not> quoted) (cur @ [c]) cs)" using "2.prems" by simp
    from "2.IH"(1) [OF quote this] show ?thesis by simp
  next
    case sep
    show ?thesis
    proof (cases "p = cur")
      case False
      with sep have "p \<in> set (split_backquoted_loop sep (map_option (\<lambda>n. n - 1) left) quoted [] cs)"
        using "2.prems" by auto
      from "2.IH"(2) [OF sep this] show ?thesis by simp
    qed simp
  next
    case other
    then have "p \<in> set (split_backquoted_loop sep left quoted (cur @ [c]) cs)" using "2.prems" by (auto simp del: de_Morgan_conj)
    from "2.IH"(3) [OF other this] show ?thesis by simp
  qed
qed simp

lemma resolve_agree: "agree n val val' \<Longrightarrow> short n tok \<Longrightarrow> resolve val tok = resolve val' tok"
  by (cases tok) (simp_all add: resolve_def agree_def short_def)

lemma kv_length:
  assumes "split_struct_kv s = Inr (k, t)"
  shows "length t \<le> length s"
proof -
  obtain p where "p \<in> set (split_backquoted_loop CHR '':'' (Some 1) False [] s)" "t = py_strip p"
    using assms by (auto simp: split_struct_kv_def split_backquoted_def split: list.splits)
  with split_part_length [of p "CHR '':''" "Some 1" False "[]" s] py_strip_length [of p] show ?thesis by simp
qed

lemma field_agree: 
  assumes "agree n val val'" and "short n tok"
  shows "parse_field val tok = parse_field val' tok"
proof (cases tok)
  case (TStr s)
  with assms(2) have s: "length s < n" by (simp add: short_def)
  show ?thesis
  proof (cases "split_struct_kv s")
    case (Inr kt)
    obtain k t where kt: "kt = (k, t)" by (cases kt)
    have "length t \<le> length s" using kv_length [of s k t] Inr kt by simp
    then have "resolve val (TStr t) = resolve val' (TStr t)"
      using s by (intro resolve_agree [OF assms(1)]) (simp add: short_def)
    with TStr Inr kt show ?thesis by (simp add: parse_field_def split: option.split)
  qed (use TStr in \<open>simp add: parse_field_def\<close>)
qed (simp_all add: parse_field_def)

lemma composite_agree:
  assumes "agree n val val'" and "list_all (short n) args"
  shows "create_composite_type val typ args = create_composite_type val' typ args"
proof -
  have r: "resolve val a = resolve val' a" if "a \<in> set args" for a
    using resolve_agree [OF assms(1)] assms(2) that by (simp add: list_all_iff)
  have "rmap (parse_field val) args = rmap (parse_field val') args"
    by (rule rmap_cong) (use field_agree [OF assms(1)] assms(2) in \<open>simp_all add: list_all_iff\<close>)
  moreover have "parse_array val args = parse_array val' args" "parse_map val args = parse_map val' args"
    "parse_vector val args = parse_vector val' args"
    using r by (auto simp: parse_array_def parse_map_def parse_vector_def split: list.split)
  ultimately have "parse_composite val t args = parse_composite val' t args" for t
    by (simp add: parse_composite_def parse_struct_def)
  then show ?thesis by (simp add: create_composite_type_def)
qed

definition bracketed :: "nat \<Rightarrow> token list \<Rightarrow> nat list \<Rightarrow> string \<Rightarrow> string \<Rightarrow> bool" where
  "bracketed n stack brackets cur cs \<longleftrightarrow>
     sorted_wrt (>) brackets \<and> (\<forall>b \<in> set brackets. b < length stack) \<and>
     (\<forall>b \<in> set brackets. list_all (short n) (drop (Suc b) stack)) \<and>
     length cur + length cs + (if brackets = [] then 0 else 1) \<le> n"

lemma short_strip: "length cur < n \<Longrightarrow> short n (TStr (py_strip cur))"
  using py_strip_length [of cur] by (simp add: short_def)

lemma push_short:
  "length cur < n \<Longrightarrow> list_all (short n) (drop k stack) \<Longrightarrow> list_all (short n) (drop k (push_token stack cur))"
  by (auto simp: push_token_def drop_append list_all_iff short_strip dest: in_set_dropD)

lemma bracketed_next: "bracketed n stack brackets cur (c # cs) \<Longrightarrow> bracketed n stack brackets (cur @ [c]) cs"
  by (simp add: bracketed_def)

lemma bracketed_open:
  assumes "bracketed n stack brackets cur (c # cs)"
  shows "bracketed n (stack @ [TStr (py_strip cur)]) (length stack # brackets) [] cs"
proof -
  have "list_all (short n) (drop (Suc b) (stack @ [TStr (py_strip cur)]))" if "b \<in> set brackets" for b
  proof -
    from that have "brackets \<noteq> []" by auto
    with assms have "length cur < n" by (simp add: bracketed_def)
    then have "short n (TStr (py_strip cur))" by (rule short_strip)
    with assms that show ?thesis by (cases "Suc b - length stack") (auto simp: bracketed_def)
  qed
  with assms show ?thesis by (auto simp: bracketed_def split: if_splits)
qed

lemma push_token_length: "length stack \<le> length (push_token stack cur)"
  by (simp add: push_token_def)

lemma bracketed_push:
  assumes "bracketed n stack brackets cur (c # cs)"
  shows "bracketed n (push_token stack cur) brackets [] cs"
proof -
  have "list_all (short n) (drop (Suc b) (push_token stack cur))" if "b \<in> set brackets" for b
  proof -
    from that have "brackets \<noteq> []" by auto
    with assms have "length cur < n" by (simp add: bracketed_def)
    with assms that show ?thesis by (auto simp: bracketed_def intro: push_short)
  qed
  moreover have "b < length (push_token stack cur)" if "b \<in> set brackets" for b
    using that assms push_token_length [of stack cur] by (fastforce simp: bracketed_def)
  ultimately show ?thesis using assms by (auto simp: bracketed_def split: if_splits)
qed

lemma bracketed_close:
  assumes "bracketed n stack (pos # brackets) [] cs" and "short n tok"
  shows "bracketed n (take pos stack @ [tok]) brackets [] cs"
proof -
  have "list_all (short n) (drop (Suc b) (take pos stack @ [tok]))" if b: "b \<in> set brackets" for b
  proof -
    have "b < pos" "pos < length stack" using assms(1) b by (auto simp: bracketed_def)
    then have "drop (Suc b) (take pos stack @ [tok]) = take (pos - Suc b) (drop (Suc b) stack) @ [tok]"
      by (simp add: drop_take)
    moreover have "list_all (short n) (drop (Suc b) stack)" using assms(1) b by (simp add: bracketed_def)
    ultimately show ?thesis using assms(2) by (auto simp: list_all_iff dest: in_set_takeD)
  qed
  with assms(1) show ?thesis by (fastforce simp: bracketed_def)
qed

lemma created_short: "create_composite_type val typ args = Inr tok \<Longrightarrow> short n tok"
  by (auto simp: create_composite_type_def rbind_eq_Inr short_def split: option.splits)

lemma loop_agree:
  assumes "agree n val val'"
  shows "bracketed n stack brackets cur cs \<Longrightarrow>
    parse_loop val stack brackets cur quoted cs = parse_loop val' stack brackets cur quoted cs"
proof (induction cs arbitrary: stack brackets cur quoted)
  case (Cons c cs)
  note IH = Cons.IH and next_char = Cons.IH [OF bracketed_next [OF Cons.prems]]
  consider (plain) "c = CHR ''`'' \<or> quoted" | (open_bracket) "c \<noteq> CHR ''`''" "\<not> quoted" "c = CHR ''<'' \<or> c = CHR ''(''"
    | (close_bracket) "c \<noteq> CHR ''`''" "\<not> quoted" "c = CHR ''>'' \<or> c = CHR '')''"
    | (rest) "c \<noteq> CHR ''`''" "\<not> quoted" "\<not> (c = CHR ''<'' \<or> c = CHR ''('')" "\<not> (c = CHR ''>'' \<or> c = CHR '')'')"
    by blast
  then show ?case
  proof cases
    case plain
    then show ?thesis using next_char by (cases "c = CHR ''`''") simp_all
  next
    case open_bracket
    then show ?thesis using Cons.IH [OF bracketed_open [OF Cons.prems]] by auto
  next
    case close_bracket
    let ?stack = "push_token stack cur"
    have pushed: "bracketed n ?stack brackets [] cs" by (rule bracketed_push [OF Cons.prems])
    have sides: "parse_loop v stack brackets cur quoted (c # cs) =
        (case brackets of
           [] \<Rightarrow> Inl IndexError
         | pos # brackets' \<Rightarrow>
             (case drop pos ?stack of
                TStr typ # args \<Rightarrow>
                  rbind (create_composite_type v typ args) (\<lambda>tok.
                    parse_loop v (take pos ?stack @ [tok]) brackets' [] False cs)
              | _ \<Rightarrow> Inl TypeError))" for v
      by (rule disjE [OF close_bracket(3)]) (use close_bracket(1,2) in \<open>simp_all add: Let_def\<close>)
    show ?thesis
    proof (cases brackets)
      case Nil
      then show ?thesis unfolding sides by simp
    next
      case (Cons pos brackets')
      show ?thesis
      proof (cases "\<exists>ty args. drop pos ?stack = TStr ty # args")
        case True
        then obtain ty args where d: "drop pos ?stack = TStr ty # args" by blast
        then have "args = drop (Suc pos) ?stack" by (metis drop_Suc list.sel(3) tl_drop)
        with pushed Cons have "list_all (short n) args" by (simp add: bracketed_def)
        from composite_agree [OF assms this]
        have "create_composite_type val ty args = create_composite_type val' ty args" .
        moreover have "parse_loop val (take pos ?stack @ [tok]) brackets' [] False cs =
            parse_loop val' (take pos ?stack @ [tok]) brackets' [] False cs" if "short n tok" for tok
          by (rule IH) (rule bracketed_close [OF pushed [unfolded Cons] that])
        ultimately show ?thesis
          unfolding Cons sides [unfolded Cons] using d created_short [of val' ty args _ n]
          by (cases "create_composite_type val' ty args") simp_all
      next
        case False
        then show ?thesis unfolding Cons sides [unfolded Cons] by (auto split: list.split token.split)
      qed
    qed
  next
    case rest
    then show ?thesis using next_char Cons.IH [OF bracketed_push [OF Cons.prems]] by simp
  qed
qed simp

lemma agree_loop_whole:
  assumes "agree n val val'" and "length s \<le> n"
  shows "parse_composite_types val s = parse_composite_types val' s"
proof -
  have "bracketed n [] [] [] (py_strip s)"
    using assms(2) py_strip_length [of s] by (simp add: bracketed_def)
  from loop_agree [OF assms(1) this, of False]
  have "parse_loop val [] [] [] False (py_strip s) = parse_loop val' [] [] [] False (py_strip s)" .
  moreover have "create_composite_type val (py_strip s) [] = create_composite_type val' (py_strip s) []"
    by (rule composite_agree [OF assms(1)]) simp
  ultimately show ?thesis by (simp add: parse_composite_types_def Let_def)
qed

lemma validate_fuel_step: "length s < n \<Longrightarrow> validate_fuel (Suc n) s = validate_fuel n s"
proof (induction n arbitrary: s)
  case (Suc n)
  have "agree n (validate_fuel (Suc n)) (validate_fuel n)" using Suc.IH by (simp add: agree_def)
  moreover have "length (py_lower (py_strip s)) \<le> n"
    using Suc.prems py_strip_length [of s] by (simp add: py_lower_def)
  ultimately have "parse_composite_types (validate_fuel (Suc n)) (py_lower (py_strip s)) =
      parse_composite_types (validate_fuel n) (py_lower (py_strip s))"
    by (rule agree_loop_whole)
  then show ?case by (simp only: validate_fuel.simps Let_def)
qed simp

lemma validate_fuel_enough: "length s < n \<Longrightarrow> validate_fuel n s = validate_data_type s"
proof (induction n)
  case (Suc n)
  show ?case
  proof (cases "length s < n")
    case True
    with Suc.IH validate_fuel_step [OF True] show ?thesis by simp
  next
    case False
    with Suc.prems have "n = length s" by simp
    then show ?thesis by (simp add: validate_data_type_def)
  qed
qed simp

section \<open>Reading a printed name\<close>

definition special :: "char \<Rightarrow> bool" where
  "special c \<longleftrightarrow> c \<in> {CHR ''`'', CHR ''<'', CHR ''('', CHR ''>'', CHR '')'', CHR '',''}"

definition plain :: "string \<Rightarrow> bool" where
  "plain s \<longleftrightarrow> s \<noteq> [] \<and> (\<forall>c \<in> set s. \<not> special c \<and> \<not> py_isspace c \<and> c \<noteq> CHR '':'')"

definition prefix_of :: "string option \<Rightarrow> string" where
  "prefix_of k = (case k of None \<Rightarrow> [] | Some n \<Rightarrow> backquote_string n @ '':'')"

lemma loop_plain:
  "\<forall>c \<in> set s. \<not> special c \<Longrightarrow>
   parse_loop val st br cur False (s @ rest) = parse_loop val st br (cur @ s) False rest"
  by (induction s arbitrary: cur) (auto simp: special_def)

lemma loop_inside_quotes:
  "parse_loop val st br cur True (double_backquotes k @ rest) =
   parse_loop val st br (cur @ double_backquotes k) True rest"
  by (induction k arbitrary: cur) (auto simp: double_backquotes_def)

lemma loop_quoted:
  "parse_loop val st br cur False (backquote_string k @ rest) =
   parse_loop val st br (cur @ backquote_string k) False rest"
  by (simp add: backquote_string_def loop_inside_quotes)

lemma loop_prefix:
  "parse_loop val st br [] False (prefix_of k @ rest) = parse_loop val st br (prefix_of k) False rest"
  by (cases k) (simp_all add: prefix_of_def loop_quoted)

lemma split_inside_quotes:
  "split_backquoted_loop sep left True cur (double_backquotes k @ rest) =
   split_backquoted_loop sep left True (cur @ double_backquotes k) rest"
  by (induction k arbitrary: cur) (auto simp: double_backquotes_def)

lemma split_quoted:
  "split_backquoted_loop sep left False cur (backquote_string k @ rest) =
   split_backquoted_loop sep left False (cur @ backquote_string k) rest"
  by (simp add: backquote_string_def split_inside_quotes)

lemma split_plain:
  "\<forall>c \<in> set s. c \<noteq> CHR ''`'' \<and> (c = sep \<longrightarrow> left = Some 0) \<Longrightarrow>
   split_backquoted_loop sep left False cur s = [cur @ s]"
  by (induction s arbitrary: cur) auto

lemma undouble_other: "c \<noteq> CHR ''`'' \<Longrightarrow> undouble_backquotes (c # s) = c # undouble_backquotes s"
  by (cases s) simp_all

lemma undouble_double: "undouble_backquotes (double_backquotes k) = k"
proof (induction k)
  case (Cons c k)
  have "double_backquotes (c # k) = (if c = CHR ''`'' then ''``'' else [c]) @ double_backquotes k"
    by (simp add: double_backquotes_def)
  with Cons show ?case by (cases "c = CHR ''`''") (simp_all add: undouble_other)
qed (simp add: double_backquotes_def)

lemma strip_backquote: "py_strip (backquote_string k) = backquote_string k"
  by (rule py_strip_id) (simp add: backquote_string_def py_isspace_def)

lemma strip_backquotes_backquote: "strip_backquotes (backquote_string k) = k"
  unfolding strip_backquotes_def strip_backquote Let_def
  by (simp add: backquote_string_def butlast_append undouble_double)

lemma strip_plain: "plain s \<Longrightarrow> py_strip s = s"
  by (rule py_strip_nospace) (simp add: plain_def)

lemma strip_prefix_plain: "plain s \<Longrightarrow> py_strip (prefix_of k @ s) = prefix_of k @ s"
proof (cases k)
  case None
  assume "plain s"
  with None show ?thesis by (simp add: prefix_of_def strip_plain)
next
  case (Some n)
  assume "plain s"
  then have "s \<noteq> []" "\<not> py_isspace (last s)" by (auto simp: plain_def)
  with Some show ?thesis
    by (intro py_strip_id) (simp add: prefix_of_def backquote_string_def py_isspace_def)
qed

lemma split_struct_kv_prefix: "plain s \<Longrightarrow> split_struct_kv (prefix_of k @ s) = Inr (k, s)"
proof (cases k)
  case None
  assume "plain s"
  then have "split_backquoted_loop CHR '':'' (Some 1) False [] s = [s]"
    using split_plain [of s "CHR '':''" "Some 1" "[]"] by (simp add: plain_def special_def)
  with None strip_plain [OF \<open>plain s\<close>] show ?thesis
    by (simp add: split_struct_kv_def split_backquoted_def prefix_of_def)
next
  case (Some n)
  assume "plain s"
  then have "split_backquoted_loop CHR '':'' (Some 0) False [] s = [s]"
    using split_plain [of s "CHR '':''" "Some 0" "[]"] by (simp add: plain_def special_def)
  then have "split_backquoted_loop CHR '':'' (Some 1) False [] (prefix_of k @ s) =
      [backquote_string n, s]"
    by (simp add: Some prefix_of_def split_quoted)
  with strip_plain [OF \<open>plain s\<close>] show ?thesis
    by (simp add: split_struct_kv_def split_backquoted_def strip_backquotes_backquote Some)
qed

subsection \<open>Printable types\<close>

text \<open>
  Types the constructors accept, with field names in lower case: parsing lower-cases the whole
  string, quoted names included.
\<close>

fun printable :: "odps_type \<Rightarrow> bool" where
  "printable (Prim p) = True"
| "printable (Varchar n) = (n \<le> 65535)"
| "printable (Char n) = (n \<le> 65535)"
| "printable (Decimal p s) = (mk_decimal p s = Inr (Decimal p s))"
| "printable (Array t) = printable t"
| "printable (Map k v) = (printable k \<and> printable v)"
| "printable (Struct fs) =
     (distinct (List.map fst fs) \<and>
      list_all (\<lambda>(k, v). py_lower k = k \<and> printable v) fs)"
| "printable (Vector t n) = (mk_vector t n = Inr (Vector t n))"

fun simple :: "odps_type \<Rightarrow> bool" where
  "simple (Prim p) = True"
| "simple (Decimal p s) = (p = None)"
| "simple _ = False"

definition val_ok :: "(string \<Rightarrow> token result) \<Rightarrow> bool" where
  "val_ok val \<longleftrightarrow> (\<forall>t. simple t \<and> printable t \<longrightarrow> val (type_name t) = Inr (TType t))"

lemma plain_prim: "plain (prim_name p)"
  by (cases p) (simp_all add: plain_def special_def py_isspace_def)

lemma plain_simple: "simple t \<Longrightarrow> printable t \<Longrightarrow> plain (type_name t)"
proof (cases t)
  case (Prim p)
  then show ?thesis by (simp add: plain_prim)
next
  case (Decimal p s)
  assume "simple t" "printable t"
  with Decimal show ?thesis by (simp add: plain_def special_def py_isspace_def)
qed simp_all

lemma plain_int: "plain (py_str_int n)"
proof -
  have "\<not> special (digit_char d) \<and> \<not> py_isspace (digit_char d) \<and> digit_char d \<noteq> CHR '':''"
    if "d < 10" for d
  proof -
    from that have "of_char (digit_char d) = 48 + d" by (simp add: digit_char_def)
    with that show ?thesis by (auto simp: special_def py_isspace_def Let_def)
  qed
  then have "plain (py_str_nat k)" for k
    using py_str_nat_digits [of _ k] py_str_nat_value [of k] unfolding plain_def by metis
  then show ?thesis
    by (auto simp: py_str_int_def plain_def special_def py_isspace_def)
qed

definition field_tok :: "string option \<Rightarrow> odps_type \<Rightarrow> token" where
  "field_tok k t = (case k of None \<Rightarrow> TType t | Some n \<Rightarrow> TField n t)"

definition arg_tok :: "string option \<Rightarrow> odps_type \<Rightarrow> token" where
  "arg_tok k t = (if simple t then TStr (prefix_of k @ type_name t) else field_tok k t)"

lemma push_plain: "plain s \<Longrightarrow> push_token st (prefix_of k @ s) = st @ [TStr (prefix_of k @ s)]"
  by (simp add: push_token_def strip_prefix_plain) (simp add: plain_def)

lemma push_blank [simp]: "push_token st [] = st"
  by (simp add: push_token_def)

text \<open>Opening and closing a bracket around the arguments \<open>args\<close>.\<close>

lemma loop_open:
  assumes "plain typ" and "b = CHR ''<'' \<or> b = CHR ''(''"
  shows "parse_loop val st br (prefix_of k) False (typ @ b # rest) =
    parse_loop val (st @ [TStr (prefix_of k @ typ)]) (length st # br) [] False rest"
proof -
  from assms(1) have "\<forall>c \<in> set typ. \<not> special c" by (simp add: plain_def)
  with assms show ?thesis by (auto simp: loop_plain strip_prefix_plain)
qed

lemma loop_close:
  assumes "plain typ" and "b = CHR ''>'' \<or> b = CHR '')''"
    and "push_token st' cur = st @ TStr (prefix_of k @ typ) # args"
    and "parse_composite val typ args = Inr t"
  shows "parse_loop val st' (length st # br) cur False (b # rest) =
    parse_loop val (st @ [field_tok k t]) br [] False rest"
  using assms
  by (cases k) (auto simp: Let_def create_composite_type_def split_struct_kv_prefix field_tok_def)

text \<open>After a printed type and the delimiter that ends it, its token is on the stack.\<close>

definition reads :: "(string \<Rightarrow> token result) \<Rightarrow> odps_type \<Rightarrow> bool" where
  "reads val t \<longleftrightarrow> (\<forall>st br k rest.
     parse_loop val st br (prefix_of k) False (type_name t @ rest) =
     parse_loop val (st @ [field_tok k t]) br [] False rest)"

lemma reads_arg:
  assumes "\<not> simple t \<Longrightarrow> reads val t" and "printable t"
  shows "\<exists>st' cur. parse_loop val st br [] False (prefix_of k @ type_name t @ rest) =
      parse_loop val st' br cur False rest \<and> push_token st' cur = st @ [arg_tok k t]"
proof (cases "simple t")
  case True
  then have pl: "plain (type_name t)" using assms(2) by (rule plain_simple)
  then have "\<forall>c \<in> set (type_name t). \<not> special c" by (simp add: plain_def)
  with True push_plain [OF pl] show ?thesis
    by (intro exI [of _ st] exI [of _ "prefix_of k @ type_name t"])
      (simp add: loop_prefix loop_plain arg_tok_def)
next
  case False
  with assms(1) show ?thesis
    by (intro exI [of _ "st @ [field_tok k t]"] exI [of _ "[]"])
      (simp add: loop_prefix reads_def arg_tok_def)
qed

lemma resolve_arg:
  "val_ok val \<Longrightarrow> printable t \<Longrightarrow> resolve val (arg_tok None t) = Inr t"
  by (auto simp: resolve_def arg_tok_def prefix_of_def field_tok_def val_ok_def)

lemma loop_comma: "parse_loop val st br cur False (CHR '','' # rest) =
    parse_loop val (push_token st cur) br [] False rest"
  by simp

subsection \<open>Every printable type\<close>

lemma reads_one:
  assumes "plain typ" and "(b, e) = (CHR ''<'', CHR ''>'') \<or> (b, e) = (CHR ''('', CHR '')'')"
    and arg: "\<And>st br rest. \<exists>st' cur. parse_loop val st br [] False (arg @ rest) =
      parse_loop val st' br cur False rest \<and> push_token st' cur = st @ [tok]"
    and parse: "parse_composite val typ [tok] = Inr t"
  shows "parse_loop val st br (prefix_of k) False (typ @ b # arg @ e # rest) =
    parse_loop val (st @ [field_tok k t]) br [] False rest"
proof -
  from arg obtain st' cur where a: "parse_loop val (st @ [TStr (prefix_of k @ typ)])
      (length st # br) [] False (arg @ e # rest) = parse_loop val st' (length st # br) cur False (e # rest)"
    and p: "push_token st' cur = st @ TStr (prefix_of k @ typ) # [tok]"
    by (metis append_Cons append_Nil append_assoc)
  have b: "b = CHR ''<'' \<or> b = CHR ''(''" and e: "e = CHR ''>'' \<or> e = CHR '')''"
    using assms(2) by auto
  show ?thesis
    unfolding loop_open [OF assms(1) b] a
    by (rule loop_close [OF assms(1) e p parse])
qed

lemma reads_two:
  assumes "plain typ" and "(b, e) = (CHR ''<'', CHR ''>'') \<or> (b, e) = (CHR ''('', CHR '')'')"
    and arg1: "\<And>st br rest. \<exists>st' cur. parse_loop val st br [] False (arg1 @ rest) =
      parse_loop val st' br cur False rest \<and> push_token st' cur = st @ [tok1]"
    and arg2: "\<And>st br rest. \<exists>st' cur. parse_loop val st br [] False (arg2 @ rest) =
      parse_loop val st' br cur False rest \<and> push_token st' cur = st @ [tok2]"
    and parse: "parse_composite val typ [tok1, tok2] = Inr t"
  shows "parse_loop val st br (prefix_of k) False (typ @ b # arg1 @ CHR '','' # arg2 @ e # rest) =
    parse_loop val (st @ [field_tok k t]) br [] False rest"
proof -
  let ?st = "st @ [TStr (prefix_of k @ typ)]" and ?br = "length st # br"
  from arg1 obtain st1 cur1 where a1: "parse_loop val ?st ?br [] False (arg1 @ CHR '','' # arg2 @ e # rest) =
      parse_loop val st1 ?br cur1 False (CHR '','' # arg2 @ e # rest)"
    and p1: "push_token st1 cur1 = ?st @ [tok1]" by metis
  from arg2 obtain st2 cur2 where a2: "parse_loop val (?st @ [tok1]) ?br [] False (arg2 @ e # rest) =
      parse_loop val st2 ?br cur2 False (e # rest)"
    and p2: "push_token st2 cur2 = st @ TStr (prefix_of k @ typ) # [tok1, tok2]"
    by (metis append_Cons append_Nil append_assoc)
  have b: "b = CHR ''<'' \<or> b = CHR ''(''" and e: "e = CHR ''>'' \<or> e = CHR '')''"
    using assms(2) by auto
  show ?thesis
    unfolding loop_open [OF assms(1) b] a1 loop_comma p1 a2
    by (rule loop_close [OF assms(1) e p2 parse])
qed

lemma int_arg_reads:
  "\<exists>st' cur. parse_loop val st br [] False (py_str_int n @ rest) =
      parse_loop val st' br cur False rest \<and> push_token st' cur = st @ [TStr (py_str_int n)]"
proof -
  have "\<forall>c \<in> set (py_str_int n). \<not> special c" using plain_int [of n] by (simp add: plain_def)
  then show ?thesis
    using push_plain [OF plain_int [of n], of st None]
    by (intro exI [of _ st] exI [of _ "py_str_int n"]) (simp add: loop_plain prefix_of_def)
qed

lemma plain_words [simp]:
  "plain ''varchar''" "plain ''char''" "plain ''decimal''" "plain ''array''" "plain ''map''"
  "plain ''struct''" "plain ''vector''"
  by (simp_all add: plain_def special_def py_isspace_def)

lemma reads_fields:
  assumes "\<forall>(k, v) \<in> set fs. printable v \<and> (\<not> simple v \<longrightarrow> reads val v)"
  shows "\<exists>st' cur. parse_loop val st br [] False
       (py_join '','' (List.map (\<lambda>(k, v). backquote_string k @ '':'' @ type_name v) fs) @ rest) =
      parse_loop val st' br cur False rest \<and>
    push_token st' cur = st @ List.map (\<lambda>(k, v). arg_tok (Some k) v) fs"
  using assms
proof (induction fs arbitrary: st)
  case (Cons kv fs)
  obtain k v where kv: "kv = (k, v)" by fastforce
  with Cons.prems have v: "\<not> simple v \<Longrightarrow> reads val v" "printable v" by auto
  note arg = reads_arg [OF v, of st br "Some k", unfolded prefix_of_def option.case append_assoc]
  show ?case
  proof (cases fs)
    case Nil
    with arg [of rest] kv show ?thesis by simp
  next
    case (Cons kv2 fs2)
    let ?j = "py_join '','' (List.map (\<lambda>(k, v). backquote_string k @ '':'' @ type_name v) fs)"
    have j: "py_join '','' (List.map (\<lambda>(k, v). backquote_string k @ '':'' @ type_name v) (kv # fs)) =
        (backquote_string k @ '':'' @ type_name v) @ '','' @ ?j"
      by (simp add: kv Cons)
    from arg [of "'','' @ ?j @ rest"] obtain st1 cur1
      where a1: "parse_loop val st br [] False (backquote_string k @ '':'' @ type_name v @ '','' @ ?j @ rest) =
          parse_loop val st1 br cur1 False ('','' @ ?j @ rest)"
        and p1: "push_token st1 cur1 = st @ [arg_tok (Some k) v]" by blast
    from Cons.IH [of "st @ [arg_tok (Some k) v]"] Cons.prems obtain st2 cur2
      where a2: "parse_loop val (st @ [arg_tok (Some k) v]) br [] False (?j @ rest) =
          parse_loop val st2 br cur2 False rest"
        and p2: "push_token st2 cur2 = (st @ [arg_tok (Some k) v]) @
          List.map (\<lambda>(k, v). arg_tok (Some k) v) fs" by auto
    have "parse_loop val st br [] False
        (((backquote_string k @ '':'' @ type_name v) @ '','' @ ?j) @ rest) =
      parse_loop val st2 br cur2 False rest"
      using a1 a2 p1 by (simp del: parse_loop.simps add: loop_comma)
    with p2 show ?thesis unfolding j by (auto simp: kv)
  qed
qed (simp, metis push_blank)

lemma fold_struct_fresh:
  "distinct (List.map fst (d @ fs)) \<Longrightarrow> fold (\<lambda>(k, v) d. AList.update k v d) fs d = d @ fs"
proof (induction fs arbitrary: d)
  case (Cons kv fs)
  obtain k v where kv: "kv = (k, v)" by fastforce
  have "AList.update k v d = d @ [(k, v)]"
    using Cons.prems kv by (induction d) auto
  with Cons kv show ?case by simp
qed simp

lemma parse_fields:
  assumes "val_ok val" and "\<forall>(k, v) \<in> set fs. printable v"
  shows "check_fields (List.map (\<lambda>(k, v). arg_tok (Some k) v) fs) = Inr ()"
    and "rmap (parse_field val) (List.map (\<lambda>(k, v). arg_tok (Some k) v) fs) = Inr fs"
proof -
  have one: "parse_field val (arg_tok (Some k) v) = Inr (k, v)" if "printable v" for k v
  proof (cases "simple v")
    case True
    with assms(1) that show ?thesis
      by (simp add: parse_field_def arg_tok_def split_struct_kv_prefix [OF plain_simple] resolve_def
          val_ok_def)
  qed (simp add: parse_field_def arg_tok_def field_tok_def)
  show "rmap (parse_field val) (List.map (\<lambda>(k, v). arg_tok (Some k) v) fs) = Inr fs"
    using assms(2) by (induction fs) (auto simp: one)
  show "check_fields (List.map (\<lambda>(k, v). arg_tok (Some k) v) fs) = Inr ()"
    using assms(2) by (induction fs) (auto simp: arg_tok_def field_tok_def prefix_of_def)
qed

lemma reads_all: "val_ok val \<Longrightarrow> printable t \<Longrightarrow> \<not> simple t \<Longrightarrow> reads val t"
proof (induction t)
  case (Varchar n)
  have "parse_composite val ''varchar'' [TStr (py_str_int n)] = Inr (Varchar n)"
    using Varchar by (simp add: parse_composite_def parse_sized_def int_arg_def py_int_str mk_sized_def)
  from reads_one [OF plain_words(1) _ int_arg_reads this, of "CHR ''(''" "CHR '')''"]
  show ?case by (simp add: reads_def)
next
  case (Char n)
  have "parse_composite val ''char'' [TStr (py_str_int n)] = Inr (Char n)"
    using Char by (simp add: parse_composite_def parse_sized_def int_arg_def py_int_str mk_sized_def)
  from reads_one [OF plain_words(2) _ int_arg_reads this, of "CHR ''(''" "CHR '')''"]
  show ?case by (simp add: reads_def)
next
  case (Decimal p s)
  then obtain p' where p: "p = Some p'" by auto
  show ?case
  proof (cases s)
    case None
    have "parse_composite val ''decimal'' [TStr (py_str_int p')] = Inr (Decimal p s)"
      using Decimal p None
      by (simp add: parse_composite_def parse_decimal_def int_arg_def py_int_str)
    from reads_one [OF plain_words(3) _ int_arg_reads this, of "CHR ''(''" "CHR '')''"]
    show ?thesis by (simp add: reads_def p None)
  next
    case (Some s')
    have "parse_composite val ''decimal'' [TStr (py_str_int p'), TStr (py_str_int s')] =
        Inr (Decimal p s)"
      using Decimal p Some
      by (simp add: parse_composite_def parse_decimal_def int_arg_def py_int_str)
    from reads_two [OF plain_words(3) _ int_arg_reads int_arg_reads this, of "CHR ''(''" "CHR '')''"]
    show ?thesis by (simp add: reads_def p Some)
  qed
next
  case (Array t)
  note arg = reads_arg [of t val _ _ None, unfolded prefix_of_def option.case append_Nil]
  have "parse_composite val ''array'' [arg_tok None t] = Inr (Array t)"
    using Array by (simp add: parse_composite_def parse_array_def resolve_arg)
  from reads_one [OF plain_words(4) _ arg this, of "CHR ''<''" "CHR ''>''"] Array
  show ?case by (simp add: reads_def)
next
  case (Map k v)
  note arg = reads_arg [of _ val _ _ None, unfolded prefix_of_def option.case append_Nil]
  have "parse_composite val ''map'' [arg_tok None k, arg_tok None v] = Inr (Map k v)"
    using Map by (simp add: parse_composite_def parse_map_def resolve_arg)
  from reads_two [OF plain_words(5) _ arg arg this, of "CHR ''<''" "CHR ''>''"] Map
  show ?case by (simp add: reads_def)
next
  case (Vector t n)
  then have t: "simple t" "printable t" by (auto simp: mk_vector_def split: if_splits)
  note arg = reads_arg [of t val _ _ None, unfolded prefix_of_def option.case append_Nil]
  have "parse_composite val ''vector'' [arg_tok None t, TStr (py_str_int n)] = Inr (Vector t n)"
    using Vector.prems t
    by (simp add: parse_composite_def parse_vector_def resolve_arg int_arg_def py_int_str)
  from reads_two [OF plain_words(7) _ arg int_arg_reads this, of "CHR ''(''" "CHR '')''"] t
  show ?case by (simp add: reads_def)
next
  case (Struct fs)
  have ok: "\<forall>(k, v) \<in> set fs. printable v \<and> (\<not> simple v \<longrightarrow> reads val v)"
    using Struct by (fastforce simp: list_all_iff)
  then have pr: "\<forall>(k, v) \<in> set fs. printable v" by auto
  have dist: "distinct (List.map fst fs)" using Struct.prems(2) by simp
  have parse: "parse_composite val ''struct'' (List.map (\<lambda>(k, v). arg_tok (Some k) v) fs) =
      Inr (Struct fs)"
    using parse_fields [OF Struct.prems(1) pr] fold_struct_fresh [of "[]" fs] dist
    by (simp add: parse_composite_def parse_struct_def mk_struct_def)
  show ?case
    unfolding reads_def
  proof (intro allI)
    fix st br k rest
    let ?j = "py_join '','' (List.map (\<lambda>(k, v). backquote_string k @ '':'' @ type_name v) fs)"
    from reads_fields [OF ok, of "st @ [TStr (prefix_of k @ ''struct'')]" "length st # br"
        "CHR ''>'' # rest"]
    obtain st' cur where a: "parse_loop val (st @ [TStr (prefix_of k @ ''struct'')]) (length st # br) []
          False (?j @ CHR ''>'' # rest) = parse_loop val st' (length st # br) cur False (CHR ''>'' # rest)"
      and p: "push_token st' cur = st @ TStr (prefix_of k @ ''struct'') #
          List.map (\<lambda>(k, v). arg_tok (Some k) v) fs" by auto
    have "parse_loop val st br (prefix_of k) False (''struct'' @ CHR ''<'' # ?j @ CHR ''>'' # rest) =
        parse_loop val (st @ [field_tok k (Struct fs)]) br [] False rest"
      unfolding loop_open [OF plain_words(6) disjI1 [OF refl]] a
      by (rule loop_close [OF plain_words(6) disjI1 [OF refl] p parse])
    then show "parse_loop val st br (prefix_of k) False (type_name (Struct fs) @ rest) =
        parse_loop val (st @ [field_tok k (Struct fs)]) br [] False rest"
      by simp
  qed
qed simp

subsection \<open>The whole string\<close>

lemma lower_append: "py_lower (s @ t) = py_lower s @ py_lower t"
  by (simp add: py_lower_def)

lemma lower_words [simp]:
  "py_lower ''varchar('' = ''varchar(''" "py_lower ''char('' = ''char(''"
  "py_lower ''decimal('' = ''decimal(''" "py_lower ''decimal'' = ''decimal''"
  "py_lower ''array<'' = ''array<''" "py_lower ''map<'' = ''map<''"
  "py_lower ''struct<'' = ''struct<''" "py_lower ''vector('' = ''vector(''"
  "py_lower '')'' = '')''" "py_lower ''>'' = ''>''" "py_lower '','' = '',''" "py_lower '':'' = '':''"
  "py_lower ''`'' = ''`''" "py_lower [] = []" "py_lower ''-'' = ''-''"
  by code_simp+

lemma lower_prim: "py_lower (prim_name p) = prim_name p"
  by (cases p; simp only: prim_name.simps; code_simp)

lemma lower_nat: "py_lower (py_str_nat n) = py_str_nat n"
proof -
  have "py_lower_char (digit_char d) = digit_char d" if "d < 10" for d
    using that by (simp add: py_lower_char_def digit_char_def Let_def)
  then have "\<forall>c \<in> set (py_str_nat n). py_lower_char c = c"
    using py_str_nat_digits [of _ n] by metis
  then show ?thesis by (simp add: py_lower_def map_idI)
qed

lemma lower_int: "py_lower (py_str_int n) = py_str_int n"
  using lower_append [of "''-''" "py_str_nat (nat (- n))"]
  by (simp add: py_str_int_def lower_nat)

lemma lower_backquote: "py_lower k = k \<Longrightarrow> py_lower (backquote_string k) = backquote_string k"
proof -
  assume "py_lower k = k"
  then have "\<forall>c \<in> set k. py_lower_char c = c"
    by (simp add: py_lower_def list_eq_iff_nth_eq) (metis in_set_conv_nth)
  then have "py_lower (double_backquotes k) = double_backquotes k"
    by (auto simp: py_lower_def double_backquotes_def map_concat intro!: arg_cong [of _ _ concat])
  then show ?thesis by (simp add: backquote_string_def lower_append del: append_Cons append_Nil)
qed

lemma lower_join: "\<forall>p \<in> set ps. py_lower p = p \<Longrightarrow> py_lower (py_join '','' ps) = py_join '','' ps"
  by (induction "'',''" ps rule: py_join.induct)
    (simp_all add: lower_append del: append_Cons append_Nil)

lemma lower_name: "printable t \<Longrightarrow> py_lower (type_name t) = type_name t"
proof (induction t)
  case (Struct fs)
  have "py_lower (backquote_string k @ '':'' @ type_name v) = backquote_string k @ '':'' @ type_name v"
    if "(k, v) \<in> set fs" for k v
  proof -
    have "py_lower k = k" "printable v" using Struct.prems that by (auto simp: list_all_iff)
    moreover have "py_lower (type_name v) = type_name v"
      using Struct.IH [OF that] that calculation(2) by auto
    ultimately show ?thesis by (simp only: lower_append lower_backquote lower_words)
  qed
  then have "\<forall>p \<in> set (List.map (\<lambda>(k, v). backquote_string k @ '':'' @ type_name v) fs). py_lower p = p"
    by auto
  from lower_join [OF this] show ?case by (simp only: type_name_eqs lower_append lower_words)
next
  case (Vector t n)
  then have "printable t" by (auto simp: mk_vector_def split: if_splits)
  with Vector show ?case by (simp only: type_name_eqs lower_append lower_words lower_int)
qed (simp_all only: type_name_eqs printable.simps lower_append lower_words lower_int lower_prim
    split: option.split, simp_all only: type_name_eqs lower_append lower_words lower_int simp_thms)

lemma composite_special: "\<not> simple t \<Longrightarrow> \<exists>c \<in> set (type_name t). special c"
  by (cases t) (auto simp: special_def split: option.split)

lemma not_primitive: "\<not> simple t \<Longrightarrow> map_of odps_primitive_data_types (type_name t) = None"
proof (cases "map_of odps_primitive_data_types (type_name t)")
  case (Some p)
  then have "(type_name t, p) \<in> set odps_primitive_data_types" by (rule map_of_SomeD)
  then have "type_name t = prim_name p" by (auto simp: odps_primitive_data_types_def)
  moreover assume "\<not> simple t"
  ultimately show ?thesis using composite_special [of t] plain_prim [of p] by (auto simp: plain_def)
qed

lemma primitive_lookup: "map_of odps_primitive_data_types (prim_name p) = Some p"
  by (cases p) (simp_all add: odps_primitive_data_types_def all_prims_def)

lemma strip_name: "printable t \<Longrightarrow> py_strip (type_name t) = type_name t"
proof (cases "simple t")
  case True
  assume "printable t"
  with True show ?thesis by (intro strip_plain plain_simple)
next
  case False
  have "py_isspace (last (s @ ''>'')) = False" "py_isspace (last (s @ '')'')) = False" for s
    by (simp_all add: py_isspace_def)
  with False show ?thesis
    by (cases t) (auto intro!: py_strip_id simp: py_isspace_def split: option.split)
qed

lemma loop_end:
  "reads val t \<Longrightarrow> parse_loop val [] [] [] False (type_name t) = Inr [TType t]"
proof -
  assume "reads val t"
  then have "parse_loop val [] [] (prefix_of None) False (type_name t @ []) =
      parse_loop val ([] @ [field_tok None t]) [] [] False []"
    unfolding reads_def by blast
  then show ?thesis by (simp add: prefix_of_def field_tok_def)
qed

lemma parse_decimal_alone: "parse_composite_types val ''decimal'' = Inr (TType (Decimal None None))"
proof -
  have pl: "plain ''decimal''" by simp
  then have "parse_loop val [] [] [] False (''decimal'' @ []) = parse_loop val [] [] ([] @ ''decimal'') False []"
    by (intro loop_plain) (simp add: plain_def)
  then have "parse_loop val [] [] [] False ''decimal'' = Inr []" by simp
  moreover have "split_struct_kv ''decimal'' = Inr (None, ''decimal'')"
    using split_struct_kv_prefix [OF pl, of None] by (simp add: prefix_of_def)
  ultimately show ?thesis
    by (simp add: parse_composite_types_def strip_plain [OF pl] create_composite_type_def
        parse_composite_def parse_decimal_def mk_decimal_def)
qed

lemma validate_fuel_ok: "val_ok (validate_fuel (Suc n))"
  unfolding val_ok_def
proof (intro allI impI)
  fix t assume t: "simple t \<and> printable t"
  then have strip: "py_lower (py_strip (type_name t)) = type_name t"
    by (simp add: strip_name lower_name)
  show "validate_fuel (Suc n) (type_name t) = Inr (TType t)"
  proof (cases t)
    case (Prim p)
    with strip show ?thesis by (simp add: primitive_lookup)
  next
    case (Decimal p s)
    with t have "p = None" "s = None" by (auto simp: mk_decimal_def split: if_splits)
    moreover have "map_of odps_primitive_data_types ''decimal'' = None"
      by (simp add: odps_primitive_data_types_def all_prims_def)
    ultimately show ?thesis using strip Decimal by (simp add: parse_decimal_alone)
  qed (use t in simp_all)
qed

section \<open>Field names in other cases\<close>

text \<open>
  Types the constructors accept, whose field names differ in lower case as well; and the type that is left
  when the field names at every depth are put in lower case.
\<close>

fun constructible :: "odps_type \<Rightarrow> bool" where
  "constructible (Prim p) = True"
| "constructible (Varchar n) = (n \<le> 65535)"
| "constructible (Char n) = (n \<le> 65535)"
| "constructible (Decimal p s) = (mk_decimal p s = Inr (Decimal p s))"
| "constructible (Array t) = constructible t"
| "constructible (Map k v) = (constructible k \<and> constructible v)"
| "constructible (Struct fs) =
     (distinct (List.map (py_lower \<circ> fst) fs) \<and> list_all (\<lambda>(k, v). constructible v) fs)"
| "constructible (Vector t n) = (mk_vector t n = Inr (Vector t n))"

fun lower_fields :: "odps_type \<Rightarrow> odps_type" where
  "lower_fields (Array t) = Array (lower_fields t)"
| "lower_fields (Map k v) = Map (lower_fields k) (lower_fields v)"
| "lower_fields (Struct fs) = Struct (List.map (\<lambda>(k, v). (py_lower k, lower_fields v)) fs)"
| "lower_fields t = t"

lemma lower_lower: "py_lower (py_lower k) = py_lower k"
proof -
  have "py_lower_char (py_lower_char c) = py_lower_char c" for c
    by (simp add: py_lower_char_def Let_def)
  then show ?thesis by (simp add: py_lower_def)
qed

lemma lower_fields_simple: "simple (lower_fields t) = simple t"
  by (cases t) simp_all

lemma printable_lower_fields: "constructible t \<Longrightarrow> printable (lower_fields t)"
proof (induction t)
  case (Struct fs)
  have "printable (lower_fields v)" if "(k, v) \<in> set fs" for k v
    using Struct.IH [OF that] Struct.prems that by (auto simp: list_all_iff)
  moreover have "fst \<circ> (\<lambda>(k, v). (py_lower k, lower_fields v)) = py_lower \<circ> fst"
    by (auto simp: fun_eq_iff)
  ultimately show ?case using Struct.prems by (auto simp: list_all_iff lower_lower)
qed simp_all

lemma backquote_lower: "py_lower (backquote_string k) = backquote_string (py_lower k)"
proof -
  have quote: "py_lower_char c = CHR ''`'' \<longleftrightarrow> c = CHR ''`''" for c
  proof -
    have "of_char (py_lower_char c) = (96 :: nat) \<longleftrightarrow> of_char c = (96 :: nat)"
      by (simp add: py_lower_char_def Let_def)
    then show ?thesis using of_char_eq_iff [of _ "CHR ''`''", where 'a = nat] by simp
  qed
  have "py_lower (double_backquotes k) = double_backquotes (py_lower k)"
    by (induction k) (simp_all add: double_backquotes_def py_lower_def quote)
  then show ?thesis by (simp add: backquote_string_def lower_append del: append_Cons append_Nil)
qed

lemma join_lower: "py_lower (py_join '','' ps) = py_join '','' (List.map py_lower ps)"
  by (induction "'',''" ps rule: py_join.induct)
    (simp_all add: lower_append del: append_Cons append_Nil)

lemma type_name_lower: "constructible t \<Longrightarrow> py_lower (type_name t) = type_name (lower_fields t)"
proof (induction t)
  case (Struct fs)
  have "py_lower (backquote_string k @ '':'' @ type_name v) =
      backquote_string (py_lower k) @ '':'' @ type_name (lower_fields v)" if "(k, v) \<in> set fs" for k v
  proof -
    have "py_lower (type_name v) = type_name (lower_fields v)"
      using Struct.IH [OF that] Struct.prems that by (auto simp: list_all_iff)
    then show ?thesis by (simp only: lower_append backquote_lower lower_words)
  qed
  then have "List.map (py_lower \<circ> (\<lambda>(k, v). backquote_string k @ '':'' @ type_name v)) fs =
      List.map (\<lambda>(k, v). backquote_string k @ '':'' @ type_name v)
        (List.map (\<lambda>(k, v). (py_lower k, lower_fields v)) fs)"
    by auto
  then show ?case
    by (simp only: type_name_eqs lower_fields.simps lower_append lower_words join_lower list.map_comp)
next
  case (Vector t n)
  then have t: "constructible t" "lower_fields t = t" by (auto simp: mk_vector_def split: if_splits)
  with Vector have "py_lower (type_name t) = type_name t" by simp
  then show ?case
    by (simp only: type_name_eqs lower_fields.simps lower_append lower_words lower_int)
qed (simp_all only: type_name_eqs lower_fields.simps constructible.simps lower_append lower_words lower_int
    lower_prim split: option.split, simp_all only: type_name_eqs lower_append lower_words lower_int simp_thms)

lemma printable_roundtrip:
  assumes "printable t"
  shows "validate_data_type (type_name t) = Inr (TType t)"
proof (cases "simple t")
  case True
  with assms show ?thesis
    using validate_fuel_ok [of "length (type_name t)"] by (simp add: val_ok_def validate_data_type_def)
next
  case False
  have "length (type_name t) \<noteq> 0" using composite_special [OF False] by auto
  then obtain n where n: "length (type_name t) = Suc n" by (cases "length (type_name t)") auto
  from reads_all [OF validate_fuel_ok [of n] assms False]
  have "parse_composite_types (validate_fuel (Suc n)) (type_name t) = Inr (TType t)"
    by (simp only: parse_composite_types_def Let_def strip_name [OF assms] loop_end rbind_simps) simp
  with not_primitive [OF False] show ?thesis
    by (simp only: validate_data_type_def n validate_fuel.simps(2) [of "Suc n"] Let_def
        strip_name [OF assms] lower_name [OF assms] option.case)
qed

lemma strip_any: "constructible t \<Longrightarrow> py_strip (type_name t) = type_name t"
proof (cases "simple t")
  case True
  assume "constructible t"
  with True have "printable t" by (cases t) simp_all
  then show ?thesis by (rule strip_name)
next
  case False
  have "py_isspace (last (s @ ''>'')) = False" "py_isspace (last (s @ '')'')) = False" for s
    by (simp_all add: py_isspace_def)
  with False show ?thesis
    by (cases t) (auto intro!: py_strip_id simp: py_isspace_def split: option.split)
qed

text \<open>The parser sees the string in lower case only.\<close>

lemma validate_lower:
  assumes "constructible t"
  shows "validate_data_type (type_name t) = validate_data_type (type_name (lower_fields t))"
proof -
  note low = type_name_lower [OF assms] and pr = printable_lower_fields [OF assms]
  have "length (type_name (lower_fields t)) = length (type_name t)"
    unfolding low [symmetric] by (simp add: py_lower_def)
  then show ?thesis
    unfolding validate_data_type_def validate_fuel.simps strip_any [OF assms] strip_name [OF pr]
      lower_name [OF pr] low by (simp only:)
qed

section \<open>Properties\<close>

text \<open>C16: the name of a type is parsed back to that type with its struct field names in lower case, for
  types nested to any depth and field names of any characters (separators, brackets, back quotes), as long
  as the names of a struct differ in lower case too; so a type comes back unchanged exactly when its field
  names are in lower case at every depth.\<close>

theorem type_name_roundtrip:
  assumes "constructible t"
  shows "validate_data_type (type_name t) = Inr (TType (lower_fields t)) \<and>
    (validate_data_type (type_name t) = Inr (TType t) \<longleftrightarrow> lower_fields t = t)"
proof -
  have "validate_data_type (type_name t) = validate_data_type (type_name (lower_fields t))"
    by (rule validate_lower) (rule assms)
  also have "\<dots> = Inr (TType (lower_fields t))"
    by (intro printable_roundtrip printable_lower_fields assms)
  finally show ?thesis by auto
qed

theorem type_name_roundtrip_witness:
  "validate_data_type (type_name (Struct [(''A:<`'', Map (Prim String) (Decimal (Some 10) (Some 2)))])) =
   Inr (TType (Struct [(''a:<`'', Map (Prim String) (Decimal (Some 10) (Some 2)))]))"
proof -
  have "py_lower ''A:<`'' = ''a:<`''" by code_simp
  moreover have "constructible (Struct [(''A:<`'', Map (Prim String) (Decimal (Some 10) (Some 2)))])"
    by (simp add: mk_decimal_def)
  ultimately show ?thesis using type_name_roundtrip by fastforce
qed

text \<open>Malformed strings are not always refused with \<^verbatim>\<open>ValueError\<close>: an unclosed bracket or a
  trailing comma makes \<^verbatim>\<open>validate_data_type\<close> return a plain string, and a closing bracket without
  an opening one raises \<^verbatim>\<open>IndexError\<close>.\<close>

theorem validate_data_type_malformed:
  "validate_data_type ''array<int'' = Inr (TStr ''array'') \<and>
   validate_data_type ''bigint,string'' = Inr (TStr ''bigint'') \<and>
   validate_data_type ''int>'' = Inl IndexError"
  by (intro conjI) code_simp+

end
