(* ===== verification/Validation.thy ===== *)
theory Validation
  imports Types
begin

text \<open>
  \<^verbatim>\<open>validate_value\<close> of \<^verbatim>\<open>odps/types.py\<close>: a value is cast to the type of its column, then checked.
  Conversions the standard library, pandas or the decimal module perform (\<^verbatim>\<open>int(x)\<close>, \<^verbatim>\<open>float(x)\<close>,
  \<^verbatim>\<open>strftime\<close>, \<^verbatim>\<open>pd.Timestamp(x)\<close>, \<^verbatim>\<open>json.loads\<close>, \<^verbatim>\<open>Decimal(x)\<close>, \<^verbatim>\<open>quantize\<close>) are parameters.
\<close>

record py_env =
  env_string_as_binary :: bool
  env_date_allow_int :: bool
  env_convert :: "py_value \<Rightarrow> odps_type \<Rightarrow> py_value result"
  env_decimal_fits :: "bytes \<Rightarrow> int option \<Rightarrow> int option \<Rightarrow> bool"

text \<open>An environment for concrete runs: default options, no conversion needed or available.\<close>

definition plain_env :: py_env where
  "plain_env =
     \<lparr>env_string_as_binary = False, env_date_allow_int = False,
      env_convert = (\<lambda>_ _. Inl ValueError), env_decimal_fits = (\<lambda>_ _ _. True)\<rparr>"

section \<open>Values\<close>

definition latin1_utf8 :: "string \<Rightarrow> bytes" where
  "latin1_utf8 s =
     concat (List.map (\<lambda>c. let n = of_char c :: nat
        in if n < 128 then [word_of_nat n]
           else [word_of_nat (0xC0 + n div 64), word_of_nat (0x80 + n mod 64)]) s)"

definition str_of :: "string \<Rightarrow> py_value" where
  "str_of s = PStr (latin1_utf8 s)"

text \<open>\<^verbatim>\<open>len(v)\<close>; numbers and dates have none.\<close>

fun py_len :: "py_value \<Rightarrow> nat result" where
  "py_len (PStr bs) = Inr (utf8_len bs)"
| "py_len (PBytes bs) = Inr (length bs)"
| "py_len (PList vs) = Inr (length vs)"
| "py_len (PDict kvs) = Inr (length kvs)"
| "py_len (PTuple vs) = Inr (length vs)"
| "py_len _ = Inl TypeError"

text \<open>\<^verbatim>\<open>isinstance(value, _odps_primitive_to_builtin_types[data_type])\<close>.\<close>

fun has_builtin_type :: "prim \<Rightarrow> py_value \<Rightarrow> bool" where
  "has_builtin_type p (PBool b) = (p \<in> {Bigint, Tinyint, Smallint, IntT, Boolean, Json})"
| "has_builtin_type p (PInt n) = (p \<in> {Bigint, Tinyint, Smallint, IntT, Json})"
| "has_builtin_type p (PFloat x) = (p \<in> {Double, Float, Json})"
| "has_builtin_type p (PStr s) = (p \<in> {String, Json})"
| "has_builtin_type p (PBytes s) = (p \<in> {String, Binary})"
| "has_builtin_type p (PDatetime t) = (p \<in> {Datetime, Date})"
| "has_builtin_type p (PDate t) = (p = Date)"
| "has_builtin_type p (PTimestamp t) = (p \<in> {Timestamp, TimestampNTZ, Datetime, Date})"
| "has_builtin_type p (PTimedelta t) = (p = IntervalDayTime)"
| "has_builtin_type p (PMonthdelta m) = (p = IntervalYearMonth)"
| "has_builtin_type p (PList vs) = (p = Json)"
| "has_builtin_type p (PDict kvs) = (p = Json)"
| "has_builtin_type p _ = False"

text \<open>\<^verbatim>\<open>infer_primitive_data_type\<close>: the first type of the table that admits the value.\<close>

definition builtin_type_table :: "prim list" where
  "builtin_type_table =
     [Bigint, Tinyint, Smallint, IntT, Double, Float, String, Binary, Datetime, Boolean,
      IntervalYearMonth, Date, Json, Variant, Timestamp, TimestampNTZ, IntervalDayTime]"

definition infer_primitive_data_type :: "py_value \<Rightarrow> prim option" where
  "infer_primitive_data_type v = find (\<lambda>p. has_builtin_type p v) builtin_type_table"

section \<open>Casting\<close>

text \<open>\<^verbatim>\<open>to_binary\<close> and \<^verbatim>\<open>to_text\<close>; \<^verbatim>\<open>str(x)\<close> of other values is a library conversion.\<close>

definition to_binary :: "py_env \<Rightarrow> py_value \<Rightarrow> py_value result" where
  "to_binary env v =
     (case v of
        PNone \<Rightarrow> Inr PNone
      | PStr s \<Rightarrow> Inr (PBytes s)
      | PBytes s \<Rightarrow> Inr (PBytes s)
      | _ \<Rightarrow> rbind (env_convert env v (Prim String)) (\<lambda>t.
               case t of PStr s \<Rightarrow> Inr (PBytes s) | _ \<Rightarrow> Inl TypeError))"

definition to_text :: "py_env \<Rightarrow> py_value \<Rightarrow> py_value result" where
  "to_text env v =
     (case v of
        PNone \<Rightarrow> Inr PNone
      | PBytes s \<Rightarrow> utf8_decode s
      | PStr s \<Rightarrow> Inr (PStr s)
      | _ \<Rightarrow> env_convert env v (Prim String))"

text \<open>\<^verbatim>\<open>self.cast_value(value, data_type)\<close> of the primitive types, past the test that the cast is allowed.\<close>

definition cast_or_throw :: "py_env \<Rightarrow> odps_type \<Rightarrow> odps_type \<Rightarrow> py_value result \<Rightarrow> py_value result" where
  "cast_or_throw env self data_type r =
     (if \<not> can_implicit_cast (env_date_allow_int env) self data_type then Inl ValueError else r)"

definition integer_cast :: "py_env \<Rightarrow> prim \<Rightarrow> py_value \<Rightarrow> odps_type \<Rightarrow> py_value result" where
  "integer_cast env self v data_type =
     cast_or_throw env (Prim self) data_type (env_convert env v (Prim self))"

definition float_cast :: "py_env \<Rightarrow> prim \<Rightarrow> py_value \<Rightarrow> odps_type \<Rightarrow> py_value result" where
  "float_cast env self v data_type =
     cast_or_throw env (Prim self) data_type (env_convert env v (Prim self))"

definition string_cast :: "py_env \<Rightarrow> odps_type \<Rightarrow> py_value \<Rightarrow> odps_type \<Rightarrow> py_value result" where
  "string_cast env self v data_type =
     cast_or_throw env self data_type
       (if data_type = Prim Datetime then env_convert env v (Prim String)
        else if env_string_as_binary env then to_binary env v
        else to_text env v)"

definition datetime_cast :: "py_env \<Rightarrow> py_value \<Rightarrow> odps_type \<Rightarrow> py_value result" where
  "datetime_cast env v data_type =
     cast_or_throw env (Prim Datetime) data_type
       (if is_string data_type \<or> data_type = Prim Date \<or> is_timestamp data_type \<or>
           (env_date_allow_int env \<and> data_type = Prim Bigint)
        then env_convert env v (Prim Datetime) else Inr v)"

definition date_cast :: "py_env \<Rightarrow> py_value \<Rightarrow> odps_type \<Rightarrow> py_value result" where
  "date_cast env v data_type =
     cast_or_throw env (Prim Date) data_type
       (if is_string data_type \<or> data_type = Prim Datetime \<or> is_timestamp data_type \<or>
           (env_date_allow_int env \<and> data_type = Prim Bigint)
        then env_convert env v (Prim Date) else Inr v)"

definition boolean_cast :: "py_env \<Rightarrow> py_value \<Rightarrow> odps_type \<Rightarrow> py_value result" where
  "boolean_cast env v data_type = cast_or_throw env (Prim Boolean) data_type (Inr v)"

definition binary_cast :: "py_env \<Rightarrow> py_value \<Rightarrow> odps_type \<Rightarrow> py_value result" where
  "binary_cast env v data_type =
     cast_or_throw env (Prim Binary) data_type
       (if data_type = Prim Datetime then env_convert env v (Prim String) else to_binary env v)"

definition timestamp_cast :: "py_env \<Rightarrow> prim \<Rightarrow> py_value \<Rightarrow> odps_type \<Rightarrow> py_value result" where
  "timestamp_cast env self v data_type =
     cast_or_throw env (Prim self) data_type
       (if is_string data_type \<or> data_type = Prim Datetime then env_convert env v (Prim self)
        else Inr v)"

definition interval_day_time_cast :: "py_env \<Rightarrow> py_value \<Rightarrow> odps_type \<Rightarrow> py_value result" where
  "interval_day_time_cast env v data_type =
     cast_or_throw env (Prim IntervalDayTime) data_type
       (case v of
          PFloat x \<Rightarrow> env_convert env v (Prim IntervalDayTime)
        | PTimedelta d \<Rightarrow> env_convert env v (Prim IntervalDayTime)
        | _ \<Rightarrow> Inr v)"

definition interval_year_month_cast :: "py_env \<Rightarrow> py_value \<Rightarrow> odps_type \<Rightarrow> py_value result" where
  "interval_year_month_cast env v data_type =
     cast_or_throw env (Prim IntervalYearMonth) data_type
       (case v of
          PInt n \<Rightarrow> env_convert env v (Prim IntervalYearMonth)
        | PBool b \<Rightarrow> env_convert env v (Prim IntervalYearMonth)
        | PStr s \<Rightarrow> env_convert env v (Prim IntervalYearMonth)
        | _ \<Rightarrow> Inr v)"

definition json_cast :: "py_env \<Rightarrow> py_value \<Rightarrow> odps_type \<Rightarrow> py_value result" where
  "json_cast env v data_type =
     cast_or_throw env (Prim Json) data_type
       (if is_string data_type then rbind (to_text env v) (\<lambda>s. env_convert env s (Prim Json))
        else Inr v)"

definition variant_cast :: "py_value result" where
  "variant_cast = Inl ValueError"

fun cast_value :: "py_env \<Rightarrow> prim \<Rightarrow> py_value \<Rightarrow> odps_type \<Rightarrow> py_value result" where
  "cast_value env Tinyint v data_type = integer_cast env Tinyint v data_type"
| "cast_value env Smallint v data_type = integer_cast env Smallint v data_type"
| "cast_value env IntT v data_type = integer_cast env IntT v data_type"
| "cast_value env Bigint v data_type = integer_cast env Bigint v data_type"
| "cast_value env Float v data_type = float_cast env Float v data_type"
| "cast_value env Double v data_type = float_cast env Double v data_type"
| "cast_value env String v data_type = string_cast env (Prim String) v data_type"
| "cast_value env Datetime v data_type = datetime_cast env v data_type"
| "cast_value env Date v data_type = date_cast env v data_type"
| "cast_value env Boolean v data_type = boolean_cast env v data_type"
| "cast_value env Binary v data_type = binary_cast env v data_type"
| "cast_value env Timestamp v data_type = timestamp_cast env Timestamp v data_type"
| "cast_value env TimestampNTZ v data_type = timestamp_cast env TimestampNTZ v data_type"
| "cast_value env IntervalDayTime v data_type = interval_day_time_cast env v data_type"
| "cast_value env IntervalYearMonth v data_type = interval_year_month_cast env v data_type"
| "cast_value env Json v data_type = json_cast env v data_type"
| "cast_value env Variant v data_type = variant_cast"
| "cast_value env Geography v data_type = Inl NotImplementedError"
| "cast_value env Blob v data_type = Inl NotImplementedError"

definition cast_primitive_value :: "py_env \<Rightarrow> prim \<Rightarrow> py_value \<Rightarrow> py_value result" where
  "cast_primitive_value env p v =
     (if v = PNone then Inr PNone
      else
        rbind (if env_string_as_binary env then
                 Inr (case v of PStr s \<Rightarrow> PBytes s | _ \<Rightarrow> v)
               else case v of PBytes s \<Rightarrow> utf8_decode s | _ \<Rightarrow> Inr v) (\<lambda>w.
        if has_builtin_type p w then Inr w
        else case infer_primitive_data_type w of
               None \<Rightarrow> Inl ValueError
             | Some q \<Rightarrow> cast_value env p w (Prim q)))"

section \<open>Checking\<close>

fun int_bounds :: "prim \<Rightarrow> int \<times> int" where
  "int_bounds Tinyint = (- 128, 127)"
| "int_bounds Smallint = (- 32768, 32767)"
| "int_bounds IntT = (- 2147483648, 2147483647)"
| "int_bounds _ = (- 9223372036854775808, 9223372036854775807)"

definition check_integer :: "prim \<Rightarrow> py_value \<Rightarrow> unit result" where
  "check_integer p v =
     (case v of
        PNone \<Rightarrow> Inr ()
      | PInt n \<Rightarrow> if fst (int_bounds p) \<le> n \<and> n \<le> snd (int_bounds p) then Inr () else Inl ValueError
      | PBool b \<Rightarrow> Inr ()
      | _ \<Rightarrow> Inl TypeError)"

definition MAX_STRING :: nat where "MAX_STRING = 8 * 1024 * 1024"

text \<open>\<^verbatim>\<open>_check_string_byte_size\<close>: a text is encoded only when four bytes each could be too many.\<close>

definition check_string_byte_size :: "py_value \<Rightarrow> nat \<Rightarrow> bool result" where
  "check_string_byte_size v max_size =
     (case v of
        PBytes s \<Rightarrow> Inr (length s \<le> max_size)
      | PStr s \<Rightarrow>
          (let byt_len = 4 * utf8_len s
           in if max_size < byt_len then Inr (length s \<le> max_size) else Inr (byt_len \<le> max_size))
      | _ \<Rightarrow> rbind (py_len v) (\<lambda>n. if max_size < 4 * n then Inl TypeError else Inr True))"

definition check_size :: "py_value \<Rightarrow> nat option \<Rightarrow> unit result" where
  "check_size v max_field_size =
     (if v = PNone then Inr ()
      else
        (let limit = (case max_field_size of None \<Rightarrow> MAX_STRING
                      | Some n \<Rightarrow> if n = 0 then MAX_STRING else n)
         in rbind (check_string_byte_size v limit) (\<lambda>valid.
              if valid then Inr () else Inl ValueError)))"

definition check_sized_string :: "int \<Rightarrow> py_value \<Rightarrow> unit result" where
  "check_sized_string size_limit v =
     (if v = PNone then Inr ()
      else rbind (py_len v) (\<lambda>n.
        if int n \<le> size_limit then Inr ()
        else case v of
          PBytes s \<Rightarrow>
            if \<not> valid_utf8 s then Inl UnicodeDecodeError
            else if int (utf8_len s) \<le> size_limit then Inr () else Inl ValueError
        | _ \<Rightarrow> Inl ValueError))"

definition check_decimal :: "py_env \<Rightarrow> int option \<Rightarrow> int option \<Rightarrow> py_value \<Rightarrow> unit result" where
  "check_decimal env precision scale v =
     (case v of
        PNone \<Rightarrow> Inr ()
      | PDecimal d \<Rightarrow> if env_decimal_fits env d precision scale then Inr () else Inl ValueError
      | _ \<Rightarrow> Inl TypeError)"

text \<open>The exponent field of a double is all ones: infinite or not a number.\<close>

definition nan_or_inf :: "64 word \<Rightarrow> bool" where
  "nan_or_inf x \<longleftrightarrow> unat x div 2 ^ 52 mod 2 ^ 11 = 2047"

fun check_vector_elements :: "py_value list \<Rightarrow> unit result" where
  "check_vector_elements [] = Inr ()"
| "check_vector_elements (v # vs) =
     (case v of
        PFloat x \<Rightarrow> if nan_or_inf x then Inl ValueError else check_vector_elements vs
      | PInt n \<Rightarrow> check_vector_elements vs
      | PBool b \<Rightarrow> check_vector_elements vs
      | _ \<Rightarrow> Inl ValueError)"

definition check_vector :: "int \<Rightarrow> py_value \<Rightarrow> unit result" where
  "check_vector dimension v =
     (case v of
        PNone \<Rightarrow> Inr ()
      | PList vs \<Rightarrow>
          if int (length vs) \<noteq> dimension then Inl ValueError else check_vector_elements vs
      | PTuple vs \<Rightarrow>
          if int (length vs) \<noteq> dimension then Inl ValueError else check_vector_elements vs
      | _ \<Rightarrow> Inl ValueError)"

definition check_json :: "py_value \<Rightarrow> nat option \<Rightarrow> unit result" where
  "check_json v max_field_size =
     (if v = PNone then Inr ()
      else rbind (py_len v) (\<lambda>n.
        if (case max_field_size of None \<Rightarrow> MAX_STRING
            | Some m \<Rightarrow> if m = 0 then MAX_STRING else m) < n then Inl ValueError
        else case v of
          PStr _ \<Rightarrow> Inr () | PList _ \<Rightarrow> Inr () | PDict _ \<Rightarrow> Inr () | PInt _ \<Rightarrow> Inr ()
        | PBool _ \<Rightarrow> Inr () | PFloat _ \<Rightarrow> Inr () | _ \<Rightarrow> Inl ValueError))"

text \<open>\<^verbatim>\<open>data_type.validate_value(val, max_field_size)\<close>.\<close>

fun check_value :: "py_env \<Rightarrow> odps_type \<Rightarrow> py_value \<Rightarrow> nat option \<Rightarrow> unit result" where
  "check_value env (Prim p) v max_field_size =
     (if p \<in> {Tinyint, Smallint, IntT, Bigint} then check_integer p v
      else if p = String \<or> p = Binary then check_size v max_field_size
      else if p = Json then check_json v max_field_size
      else Inr ())"
| "check_value env (Varchar n) v max_field_size = check_sized_string n v"
| "check_value env (Char n) v max_field_size = check_sized_string n v"
| "check_value env (Decimal p s) v max_field_size = check_decimal env p s v"
| "check_value env (Vector t n) v max_field_size = check_vector n v"
| "check_value env _ v max_field_size = Inr ()"

section \<open>Validation\<close>

text \<open>\<^verbatim>\<open>value.get(key)\<close> on a dictionary.\<close>

definition dict_get :: "(py_value \<times> py_value) list \<Rightarrow> py_value \<Rightarrow> py_value" where
  "dict_get kvs k = (case map_of kvs k of None \<Rightarrow> PNone | Some v \<Rightarrow> v)"

text \<open>
  \<^verbatim>\<open>cast_composite_values\<close> of the composite types; \<open>val\<close> is \<^verbatim>\<open>validate_value\<close> on the elements,
  which are validated without the field size limit.
\<close>

definition sized_composite :: "py_env \<Rightarrow> odps_type \<Rightarrow> int \<Rightarrow> py_value \<Rightarrow> py_value result" where
  "sized_composite env self size_limit v =
     rbind (check_sized_string size_limit v) (\<lambda>_. string_cast env self v self)"

definition decimal_composite ::
    "py_env \<Rightarrow> int option \<Rightarrow> int option \<Rightarrow> py_value \<Rightarrow> py_value result" where
  "decimal_composite env precision scale v =
     (case v of
        PNone \<Rightarrow> Inr PNone
      | PDecimal d \<Rightarrow> Inr v
      | _ \<Rightarrow>
          (case infer_primitive_data_type v of
             None \<Rightarrow> Inl ValueError
           | Some q \<Rightarrow>
               cast_or_throw env (Decimal precision scale) (Prim q)
                 (rbind (case v of PBytes s \<Rightarrow> utf8_decode s | _ \<Rightarrow> Inr v) (\<lambda>w.
                    env_convert env w (Decimal precision scale)))))"

definition array_composite :: "(py_value \<Rightarrow> py_value result) \<Rightarrow> py_value \<Rightarrow> py_value result" where
  "array_composite val v =
     (case v of
        PNone \<Rightarrow> Inr PNone
      | PList vs \<Rightarrow> rbind (rmap val vs) (\<lambda>ws. Inr (PList ws))
      | _ \<Rightarrow> Inl ValueError)"

definition map_composite ::
    "(py_value \<Rightarrow> py_value result) \<Rightarrow> (py_value \<Rightarrow> py_value result) \<Rightarrow> py_value \<Rightarrow> py_value result" where
  "map_composite val_key val_value v =
     (case v of
        PNone \<Rightarrow> Inr PNone
      | PDict kvs \<Rightarrow>
          rbind (rmap (\<lambda>(k, w). rbind (val_key k) (\<lambda>k'. rbind (val_value w) (\<lambda>w'. Inr (k', w')))) kvs)
            (\<lambda>kvs'. Inr (PDict (fold (\<lambda>(k, w) d. AList.update k w d) kvs' [])))
      | _ \<Rightarrow> Inl ValueError)"

text \<open>
  Too few values for a struct make the call of its named tuple raise \<^verbatim>\<open>TypeError\<close>; surplus values
  are dropped by \<^verbatim>\<open>zip\<close>.
\<close>

definition struct_composite ::
    "(py_value \<Rightarrow> odps_type \<Rightarrow> py_value result) \<Rightarrow> (string \<times> odps_type) list \<Rightarrow> py_value \<Rightarrow>
     py_value result" where
  "struct_composite val fs v =
     (case v of
        PNone \<Rightarrow> Inr PNone
      | PTuple vs \<Rightarrow>
          rbind (rmap (\<lambda>(w, f). val w (snd f)) (zip vs fs)) (\<lambda>ws.
            if length ws < length fs then Inl TypeError else Inr (PTuple ws))
      | PDict kvs \<Rightarrow>
          rbind (rmap (\<lambda>f. val (dict_get kvs (str_of (fst f))) (snd f)) fs) (\<lambda>ws. Inr (PTuple ws))
      | _ \<Rightarrow> Inl ValueError)"

definition vector_composite :: "(py_value \<Rightarrow> py_value result) \<Rightarrow> py_value \<Rightarrow> py_value result" where
  "vector_composite val v =
     (case v of
        PNone \<Rightarrow> Inr PNone
      | PList vs \<Rightarrow> rbind (rmap val vs) (\<lambda>ws. Inr (PList ws))
      | PTuple vs \<Rightarrow> rbind (rmap val vs) (\<lambda>ws. Inr (PList ws))
      | _ \<Rightarrow> Inl ValueError)"

lemma struct_composite_cong [fundef_cong]:
  assumes "fs = fs'" and "v = v'" and "\<And>w k t. (k, t) \<in> set fs' \<Longrightarrow> val w t = val' w t"
  shows "struct_composite val fs v = struct_composite val' fs' v'"
proof -
  have "val w (snd f) = val' w (snd f)" if "f \<in> set fs" for w f
    using assms(1) assms(3) [of "fst f" "snd f" w] that by simp
  then have "rmap (\<lambda>(w, f). val w (snd f)) (zip vs fs) = rmap (\<lambda>(w, f). val' w (snd f)) (zip vs fs)"
    and "rmap (\<lambda>f. val (dict_get kvs (str_of (fst f))) (snd f)) fs =
      rmap (\<lambda>f. val' (dict_get kvs (str_of (fst f))) (snd f)) fs" for vs kvs
    by (auto intro!: rmap_cong dest: set_zip_rightD)
  then show ?thesis by (simp add: struct_composite_def assms(1,2) split: py_value.split)
qed

function validate_value :: "py_env \<Rightarrow> py_value \<Rightarrow> odps_type \<Rightarrow> nat option \<Rightarrow> py_value result" where
  "validate_value env v data_type max_field_size =
     rbind
       (case data_type of
          Prim p \<Rightarrow> if p \<in> {Geography, Blob} then Inl ValueError else cast_primitive_value env p v
        | Varchar n \<Rightarrow> sized_composite env (Varchar n) n v
        | Char n \<Rightarrow> sized_composite env (Char n) n v
        | Decimal p s \<Rightarrow> decimal_composite env p s v
        | Array t \<Rightarrow> array_composite (\<lambda>e. validate_value env e t None) v
        | Map kt vt \<Rightarrow>
            map_composite (\<lambda>k. validate_value env k kt None) (\<lambda>e. validate_value env e vt None) v
        | Struct fs \<Rightarrow> struct_composite (\<lambda>e t. validate_value env e t None) fs v
        | Vector t n \<Rightarrow> vector_composite (\<lambda>e. validate_value env e t None) v)
       (\<lambda>res. rbind (check_value env data_type res max_field_size) (\<lambda>_. Inr res))"
  by pat_completeness auto
termination
  by (relation "measure (\<lambda>(_, _, t, _). size t)")
    (auto simp: less_Suc_eq_le elim!: size_list_estimation')

declare validate_value.simps [simp del]

section \<open>Implicit casts and the values of a type\<close>

lemma check_integer_ok:
  "check_integer p v = Inr () \<longleftrightarrow>
   v = PNone \<or> (\<exists>b. v = PBool b) \<or> (\<exists>n. v = PInt n \<and> fst (int_bounds p) \<le> n \<and> n \<le> snd (int_bounds p))"
  by (cases v) (auto simp: check_integer_def)

lemma integer_casts:
  assumes "is_integer (Prim p)" and "is_integer (Prim q)"
  shows "can_implicit_cast allow_int (Prim p) (Prim q) \<longleftrightarrow>
    (\<forall>v. check_integer q v = Inr () \<longrightarrow> check_integer p v = Inr ())" (is "?cast = ?keeps")
proof
  assume ?cast
  with assms show ?keeps by (cases p; cases q) (auto simp: check_integer_ok can_cast_defs)
next
  assume ?keeps
  then have "check_integer q (PInt (snd (int_bounds q))) = Inr () \<longrightarrow>
      check_integer p (PInt (snd (int_bounds q))) = Inr ()" by blast
  with assms show ?cast by (cases p; cases q) (auto simp: check_integer_ok can_cast_defs)
qed

lemma long_text: "py_len (PStr (replicate n 97)) = Inr n"
  by (simp add: utf8_len_def is_cont_def)

text \<open>C24: every type casts implicitly to itself. Between integer types the implicit cast is allowed exactly when
  every value that passes the check of the source type passes the check of the target type, so that integers
  widen and never narrow. A \<^verbatim>\<open>varchar\<close> accepts every other \<^verbatim>\<open>varchar\<close> implicitly, also one with values that its
  own check refuses: the comparison of the size limits is never reached, since the subclass test for strings
  comes first.\<close>

theorem implicit_casts:
  assumes "well_formed t" and "is_integer (Prim p)" and "is_integer (Prim q)" and "0 \<le> m" and "m < n"
  shows "can_implicit_cast allow_int t t \<and>
   (can_implicit_cast allow_int (Prim p) (Prim q) \<longleftrightarrow>
     (\<forall>v max. check_value env (Prim q) v max = Inr () \<longrightarrow> check_value env (Prim p) v max = Inr ())) \<and>
   can_implicit_cast allow_int (Varchar m) (Varchar n) \<and>
   (\<exists>v. \<forall>max. check_value env (Varchar n) v max = Inr () \<and> check_value env (Varchar m) v max = Inl ValueError)"
proof (intro conjI)
  show "can_implicit_cast allow_int t t"
  proof (cases t)
    case (Prim p)
    then show ?thesis by (cases p) (simp_all add: can_cast_defs)
  qed (use assms(1) type_eq_refl in \<open>simp_all add: can_cast_defs del: type_eq.simps(7)\<close>)
  have "check_value env (Prim r) v max = check_integer r v" if "is_integer (Prim r)" for r v max
    using that by (cases r) (simp_all add: can_cast_defs)
  with integer_casts [OF assms(2,3)] assms(2,3)
  show "can_implicit_cast allow_int (Prim p) (Prim q) \<longleftrightarrow>
      (\<forall>v max. check_value env (Prim q) v max = Inr () \<longrightarrow> check_value env (Prim p) v max = Inr ())"
    by simp
  show "\<exists>v. \<forall>max. check_value env (Varchar n) v max = Inr () \<and> check_value env (Varchar m) v max = Inl ValueError"
    using assms(4,5) by (intro exI [of _ "PStr (replicate (nat n) 97)"])
      (simp add: check_sized_string_def long_text del: py_len.simps)
qed (simp add: can_cast_defs)

theorem implicit_casts_witness:
  "\<not> can_implicit_cast False (Prim IntT) (Prim Bigint) \<and>
   (\<exists>v. check_value plain_env (Varchar 2) v None = Inr () \<and> check_value plain_env (Varchar 1) v None = Inl ValueError)"
proof -
  have "check_value plain_env (Prim Bigint) (PInt (2 ^ 31)) None = Inr ()"
    "check_value plain_env (Prim IntT) (PInt (2 ^ 31)) None \<noteq> Inr ()"
    by (simp_all add: check_integer_def)
  with implicit_casts [of "Prim IntT" IntT Bigint 1 2 False plain_env] show ?thesis by fastforce
qed

end
