(* ===== verification/Partition_Spec.thy ===== *)
theory Partition_Spec
  imports Py_String "HOL-Library.AList"
begin

text \<open>
  \<^verbatim>\<open>PartitionSpec\<close> of \<^verbatim>\<open>odps/types.py\<close>: an ordered dictionary from partition keys to values,
  parsed from \<^verbatim>\<open>"pt=20230101,region=us"\<close> and printed as \<^verbatim>\<open>"pt='20230101',region='us'"\<close>.
\<close>

type_synonym partition_spec = "(string \<times> string) list"

datatype spec_arg =
    SpecNone
  | SpecObj partition_spec
  | SpecDict "(string \<times> string) list"
  | SpecStr string
  | SpecList "string list"

definition spec_quotes :: string where "spec_quotes = [CHR 0x27, CHR 0x22]"

text \<open>One \<^verbatim>\<open>key=value\<close> part, and the loop over them.\<close>

definition parse_part :: "partition_spec \<Rightarrow> string \<Rightarrow> partition_spec result" where
  "parse_part kvs sp =
     (case py_split CHR ''='' sp of
        [a, b] \<Rightarrow>
          (let k = py_strip a; v = py_strip_chars spec_quotes (py_strip b)
           in if length k = 0 \<or> length v = 0 then Inl ValueError
              else if k \<in> fst ` set kvs then Inl ValueError
              else Inr (AList.update k v kvs))
      | _ \<Rightarrow> Inl ValueError)"

fun parse_parts :: "partition_spec \<Rightarrow> string list \<Rightarrow> partition_spec result" where
  "parse_parts kvs [] = Inr kvs"
| "parse_parts kvs (sp # sps) = rbind (parse_part kvs sp) (\<lambda>kvs'. parse_parts kvs' sps)"

fun spec_new :: "spec_arg \<Rightarrow> partition_spec result" where
  "spec_new SpecNone = Inr []"
| "spec_new (SpecObj kvs) = Inr kvs"
| "spec_new (SpecDict kvs) = Inr kvs"
| "spec_new (SpecStr s) = parse_parts [] (py_split CHR '','' s)"
| "spec_new (SpecList sps) = parse_parts [] sps"

definition spec_setitem :: "string \<Rightarrow> string \<Rightarrow> partition_spec \<Rightarrow> partition_spec" where
  "spec_setitem k v kvs = AList.update k v kvs"

definition spec_getitem :: "partition_spec \<Rightarrow> string \<Rightarrow> string result" where
  "spec_getitem kvs k = (case map_of kvs k of None \<Rightarrow> Inl KeyError | Some v \<Rightarrow> Inr v)"

definition spec_len :: "partition_spec \<Rightarrow> nat" where
  "spec_len kvs = length kvs"

definition spec_is_empty :: "partition_spec \<Rightarrow> bool" where
  "spec_is_empty kvs \<longleftrightarrow> spec_len kvs = 0"

definition spec_keys :: "partition_spec \<Rightarrow> string list" where
  "spec_keys kvs = List.map fst kvs"

definition spec_values :: "partition_spec \<Rightarrow> string list" where
  "spec_values kvs = List.map snd kvs"

definition spec_contains :: "partition_spec \<Rightarrow> string \<Rightarrow> bool" where
  "spec_contains kvs k \<longleftrightarrow> k \<in> fst ` set kvs"

definition spec_str :: "partition_spec \<Rightarrow> string" where
  "spec_str kvs =
     py_join '','' (List.map (\<lambda>(k, v). k @ ''='' @ [CHR 0x27] @ v @ [CHR 0x27]) kvs)"

text \<open>\<^verbatim>\<open>__eq__\<close> converts its argument first, which may raise.\<close>

definition spec_eq :: "partition_spec \<Rightarrow> spec_arg \<Rightarrow> bool result" where
  "spec_eq kvs other = rbind (spec_new other) (\<lambda>o'. Inr (spec_str kvs = spec_str o'))"

section \<open>Round trip\<close>

text \<open>
  Keys and values that survive: no separators, no blanks at the ends, no quotes at the ends of a
  value.
\<close>

definition plain_key :: "string \<Rightarrow> bool" where
  "plain_key k \<longleftrightarrow> k \<noteq> [] \<and> \<not> py_isspace (hd k) \<and> \<not> py_isspace (last k) \<and>
     CHR '','' \<notin> set k \<and> CHR ''='' \<notin> set k"

definition plain_value :: "string \<Rightarrow> bool" where
  "plain_value v \<longleftrightarrow> v \<noteq> [] \<and> hd v \<notin> set spec_quotes \<and> last v \<notin> set spec_quotes \<and>
     CHR '','' \<notin> set v \<and> CHR ''='' \<notin> set v"

definition plain_spec :: "partition_spec \<Rightarrow> bool" where
  "plain_spec kvs \<longleftrightarrow> kvs \<noteq> [] \<and> distinct (List.map fst kvs) \<and>
     list_all (\<lambda>(k, v). plain_key k \<and> plain_value v) kvs"

lemma quoted_value:
  assumes "plain_value v"
  shows "py_strip ([CHR 0x27] @ v @ [CHR 0x27]) = [CHR 0x27] @ v @ [CHR 0x27]"
    "py_strip_chars spec_quotes ([CHR 0x27] @ v @ [CHR 0x27]) = v"
proof -
  show "py_strip ([CHR 0x27] @ v @ [CHR 0x27]) = [CHR 0x27] @ v @ [CHR 0x27]"
    by (rule py_strip_id) (simp add: py_isspace_def)
  from assms obtain c w where v: "v = c # w" by (auto simp: plain_value_def neq_Nil_conv)
  have "dropWhile (\<lambda>c. c \<in> set spec_quotes) ([CHR 0x27] @ v @ [CHR 0x27]) = v @ [CHR 0x27]"
    using assms by (simp add: v plain_value_def spec_quotes_def)
  moreover have "dropWhile (\<lambda>c. c \<in> set spec_quotes) (rev (v @ [CHR 0x27])) = rev v"
  proof -
    have "dropWhile (\<lambda>c. c \<in> set spec_quotes) (rev v) = rev v"
      using assms by (intro dropWhile_id) (simp add: plain_value_def hd_rev)
    then show ?thesis by (simp add: spec_quotes_def)
  qed
  ultimately show "py_strip_chars spec_quotes ([CHR 0x27] @ v @ [CHR 0x27]) = v"
    by (simp only: py_strip_chars_def rev_rev_ident)
qed

lemma parse_part_printed:
  assumes "plain_key k" and "plain_value v" and "k \<notin> fst ` set kvs"
  shows "parse_part kvs (k @ ''='' @ [CHR 0x27] @ v @ [CHR 0x27]) = Inr (kvs @ [(k, v)])"
proof -
  have "CHR ''='' \<notin> set k" "CHR ''='' \<notin> set ([CHR 0x27] @ v @ [CHR 0x27])"
    using assms by (auto simp: plain_key_def plain_value_def)
  then have "py_split CHR ''='' (k @ ''='' @ [CHR 0x27] @ v @ [CHR 0x27]) =
      [k, [CHR 0x27] @ v @ [CHR 0x27]]"
    by (simp add: py_split_append py_split_free)
  moreover have "py_strip k = k" using assms(1) by (intro py_strip_id) (simp add: plain_key_def)
  moreover have "AList.update k v kvs = kvs @ [(k, v)]"
    using assms(3) by (induction kvs) auto
  ultimately show ?thesis
    using quoted_value [OF assms(2)] assms
    by (auto simp: parse_part_def Let_def plain_key_def plain_value_def)
qed

lemma parse_parts_printed:
  "list_all (\<lambda>(k, v). plain_key k \<and> plain_value v) kvs \<Longrightarrow>
   distinct (List.map fst (acc @ kvs)) \<Longrightarrow>
   parse_parts acc (List.map (\<lambda>(k, v). k @ ''='' @ [CHR 0x27] @ v @ [CHR 0x27]) kvs) = Inr (acc @ kvs)"
proof (induction kvs arbitrary: acc)
  case (Cons kv kvs)
  obtain k v where kv: "kv = (k, v)" by fastforce
  with Cons.prems have "parse_part acc (k @ ''='' @ [CHR 0x27] @ v @ [CHR 0x27]) = Inr (acc @ [(k, v)])"
    by (intro parse_part_printed) auto
  with Cons.IH [of "acc @ [(k, v)]"] Cons.prems show ?case by (simp add: kv)
qed simp

lemma spec_str_parse: "plain_spec kvs \<Longrightarrow> spec_new (SpecStr (spec_str kvs)) = Inr kvs"
proof -
  assume p: "plain_spec kvs"
  then have "py_split CHR '','' (spec_str kvs) =
      List.map (\<lambda>(k, v). k @ ''='' @ [CHR 0x27] @ v @ [CHR 0x27]) kvs"
    unfolding spec_str_def
    by (intro py_split_join) (auto simp: plain_spec_def list_all_iff plain_key_def plain_value_def)
  with p show ?thesis
    using parse_parts_printed [of kvs "[]"] by (simp add: plain_spec_def)
qed

text \<open>What the parser accepts: the keys it returns are distinct and nonempty, as are the values.\<close>

lemma parse_parts_sound:
  "parse_parts kvs sps = Inr kvs' \<Longrightarrow> distinct (List.map fst kvs) \<Longrightarrow>
   \<forall>(k, v) \<in> set kvs. k \<noteq> [] \<and> v \<noteq> [] \<Longrightarrow>
   distinct (List.map fst kvs') \<and> (\<forall>(k, v) \<in> set kvs'. k \<noteq> [] \<and> v \<noteq> []) \<and>
   length kvs' = length kvs + length sps"
proof (induction sps arbitrary: kvs)
  case (Cons sp sps)
  then obtain kvs1 where step: "parse_part kvs sp = Inr kvs1" and rest: "parse_parts kvs1 sps = Inr kvs'"
    by (auto simp: rbind_eq_Inr)
  from step obtain k v where kv: "kvs1 = AList.update k v kvs" "k \<notin> fst ` set kvs" "k \<noteq> []" "v \<noteq> []"
    by (auto simp: parse_part_def Let_def split: list.splits if_splits)
  have "AList.update k v kvs = kvs @ [(k, v)]" using kv(2) by (induction kvs) auto
  with kv Cons.prems have "distinct (List.map fst kvs1)" "\<forall>(k, v) \<in> set kvs1. k \<noteq> [] \<and> v \<noteq> []"
    "length kvs1 = Suc (length kvs)" by auto
  with Cons.IH [OF rest] show ?case by simp
qed simp

section \<open>What does not survive\<close>

text \<open>A stripped string has none of the stripped characters at its ends.\<close>

lemma stripped_ends:
  assumes "w = rev (dropWhile P (rev (dropWhile P s)))" and "w \<noteq> []"
  shows "\<not> P (hd w)" and "\<not> P (last w)"
proof -
  let ?u = "dropWhile P s"
  have "dropWhile P (rev ?u) \<noteq> []" using assms by auto
  from hd_dropWhile [OF this] show "\<not> P (last w)" unfolding assms(1) last_rev .
  have "w @ rev (takeWhile P (rev ?u)) = ?u"
    unfolding assms(1) rev_append [symmetric] takeWhile_dropWhile_id by (rule rev_rev_ident)
  then have "hd ?u = hd w" using assms(2) hd_append2 by metis
  moreover have "?u \<noteq> []" using \<open>dropWhile P (rev ?u) \<noteq> []\<close>
    by (metis dropWhile.simps(1) rev.simps(1))
  ultimately show "\<not> P (hd w)" using hd_dropWhile [of P s] by metis
qed

lemma strip_ends: "py_strip s = s \<Longrightarrow> s \<noteq> [] \<Longrightarrow> \<not> py_isspace (hd s) \<and> \<not> py_isspace (last s)"
  using stripped_ends [of s py_isspace s] by (simp add: py_strip_def py_lstrip_def py_rstrip_def)

lemma strip_chars_ends: "py_strip_chars cs s = w \<Longrightarrow> w \<noteq> [] \<Longrightarrow> hd w \<notin> set cs \<and> last w \<notin> set cs"
  using stripped_ends [of w "\<lambda>c. c \<in> set cs" s] by (simp add: py_strip_chars_def)

lemma py_split_count: "length (py_split c s) = Suc (count_list s c)"
  by (induction s) (auto split: list.split)

lemma count_list_zero: "count_list s c = 0 \<longleftrightarrow> c \<notin> set s"
  by (simp add: count_list_0_iff)

lemma py_join_count:
  "ps \<noteq> [] \<Longrightarrow> Suc (count_list (py_join [c] ps) c) = length ps + sum_list (List.map (\<lambda>p. count_list p c) ps)"
  by (induction "[c]" ps rule: py_join.induct) auto

text \<open>\<^verbatim>\<open>k='v'\<close>, as an entry is printed.\<close>

abbreviation printed :: "string \<times> string \<Rightarrow> string" where
  "printed \<equiv> \<lambda>(k, v). k @ ''='' @ [CHR 0x27] @ v @ [CHR 0x27]"

lemma parse_part_any:
  assumes "parse_part kvs (printed (k, v)) = Inr kvs'"
  shows "CHR ''='' \<notin> set k \<and> CHR ''='' \<notin> set v \<and> py_strip k \<noteq> [] \<and>
    kvs' = kvs @ [(py_strip k, py_strip_chars spec_quotes ([CHR 0x27] @ v @ [CHR 0x27]))]"
proof -
  let ?q = "[CHR 0x27] @ v @ [CHR 0x27]"
  from assms obtain a b where two: "py_split CHR ''='' (printed (k, v)) = [a, b]"
    by (auto simp: parse_part_def split: list.splits)
  then have "length (py_split CHR ''='' (printed (k, v))) = 2" by simp
  then have "count_list k CHR ''='' = 0" "count_list v CHR ''='' = 0"
    unfolding py_split_count by simp_all
  then have free: "CHR ''='' \<notin> set k" "CHR ''='' \<notin> set v" by (simp_all add: count_list_0_iff)
  then have "py_split CHR ''='' (printed (k, v)) = [k, ?q]"
    by (simp add: py_split_append py_split_free)
  moreover have "py_strip ?q = ?q" by (rule py_strip_id) (simp add: py_isspace_def)
  ultimately have "py_strip k \<noteq> [] \<and> py_strip k \<notin> fst ` set kvs \<and>
      kvs' = AList.update (py_strip k) (py_strip_chars spec_quotes ?q) kvs"
    using assms by (auto simp: parse_part_def Let_def split: if_splits)
  moreover have "AList.update j w kvs = kvs @ [(j, w)]" if "j \<notin> fst ` set kvs" for j w
    using that by (induction kvs) auto
  ultimately show ?thesis using free by simp
qed

lemma parse_parts_any:
  "parse_parts acc (List.map printed kvs) = Inr r \<Longrightarrow>
   r = acc @ List.map (\<lambda>(k, v). (py_strip k, py_strip_chars spec_quotes ([CHR 0x27] @ v @ [CHR 0x27]))) kvs \<and>
   (\<forall>(k, v) \<in> set kvs. CHR ''='' \<notin> set k \<and> CHR ''='' \<notin> set v \<and> py_strip k \<noteq> [])"
proof (induction kvs arbitrary: acc)
  case (Cons kv kvs)
  obtain k v where kv: "kv = (k, v)" by fastforce
  from Cons.prems kv obtain acc' where
    step: "parse_part acc (printed (k, v)) = Inr acc'" and rest: "parse_parts acc' (List.map printed kvs) = Inr r"
    by (auto simp: rbind_eq_Inr)
  from parse_part_any [OF step] Cons.IH [OF rest] show ?case by (auto simp: kv)
qed simp

lemma spec_parse_plain:
  assumes "spec_new (SpecStr (spec_str kvs)) = Inr kvs"
  shows "plain_spec kvs"
proof (cases "kvs = []")
  case True
  with assms show ?thesis by (simp add: spec_str_def parse_part_def)
next
  case False
  let ?ps = "List.map printed kvs" and ?s = "spec_str kvs"
  have parse: "parse_parts [] (py_split CHR '','' ?s) = Inr kvs" using assms by simp
  from parse_parts_sound [OF this] have sound: "distinct (List.map fst kvs)"
    "\<forall>(k, v) \<in> set kvs. k \<noteq> [] \<and> v \<noteq> []" "length kvs = length (py_split CHR '','' ?s)" by auto
  then have "length kvs = length kvs + sum_list (List.map (\<lambda>p. count_list p CHR '','') ?ps)"
    using py_join_count [of ?ps "CHR '',''"] False by (simp add: py_split_count spec_str_def)
  then have comma: "\<forall>p \<in> set ?ps. CHR '','' \<notin> set p" by (auto simp: count_list_0_iff)
  then have "py_split CHR '','' ?s = ?ps"
    unfolding spec_str_def using False by (intro py_split_join) simp_all
  with parse parse_parts_any [of "[]" kvs kvs] have
    same: "List.map (\<lambda>(k, v). (py_strip k, py_strip_chars spec_quotes ([CHR 0x27] @ v @ [CHR 0x27]))) kvs = kvs"
    and free: "\<forall>(k, v) \<in> set kvs. CHR ''='' \<notin> set k \<and> CHR ''='' \<notin> set v" by auto
  have "plain_key k \<and> plain_value v" if kv: "(k, v) \<in> set kvs" for k v
  proof -
    from same kv have "py_strip k = k" "py_strip_chars spec_quotes ([CHR 0x27] @ v @ [CHR 0x27]) = v"
      by (auto dest!: map_idI [THEN sym] simp: map_eq_conv [of _ kvs id, unfolded list.map_id])
    with kv sound free comma strip_ends [of k]
      strip_chars_ends [of spec_quotes "[CHR 0x27] @ v @ [CHR 0x27]" v]
    show ?thesis by (auto simp: plain_key_def plain_value_def)
  qed
  with False sound(1) show ?thesis by (auto simp: plain_spec_def list_all_iff)
qed

section \<open>Properties\<close>

text \<open>C23: a partition specification is printed to a string that parses back to it, in order, exactly
  when it has an entry, its keys are distinct, nonempty and without blanks at their ends, its values are
  nonempty and without quotes at their ends, and none of them contains a comma or an equals sign; so
  neither the empty specification nor one with the value \<^verbatim>\<open>a=b\<close> comes back.\<close>

theorem partition_spec_roundtrip:
  "(spec_new (SpecStr (spec_str kvs)) = Inr kvs \<longleftrightarrow> plain_spec kvs) \<and>
   (plain_spec kvs \<longrightarrow> spec_eq kvs (SpecStr (spec_str kvs)) = Inr True)"
  using spec_str_parse [of kvs] spec_parse_plain [of kvs] by (auto simp: spec_eq_def)

theorem partition_spec_roundtrip_witness:
  "spec_new (SpecStr (spec_str [(''pt'', ''20230101''), (''region'', ''us west'')])) =
     Inr [(''pt'', ''20230101''), (''region'', ''us west'')] \<and>
   spec_eq [(''pt'', ''20230101''), (''region'', ''us west'')]
     (SpecStr (spec_str [(''pt'', ''20230101''), (''region'', ''us west'')])) = Inr True \<and>
   spec_new (SpecStr (spec_str [(''pt'', ''a=b'')])) \<noteq> Inr [(''pt'', ''a=b'')]"
proof -
  have "plain_spec [(''pt'', ''20230101''), (''region'', ''us west'')]"
    by (simp add: plain_spec_def plain_key_def plain_value_def spec_quotes_def py_isspace_def)
  moreover have "\<not> plain_spec [(''pt'', ''a=b'')]" by (simp add: plain_spec_def plain_value_def)
  ultimately show ?thesis using partition_spec_roundtrip by blast
qed

text \<open>Whatever string is parsed, either \<^verbatim>\<open>ValueError\<close> is raised or every comma-separated part
  became one entry, keys are distinct, and no key or value is empty.\<close>

theorem partition_spec_parse_sound:
  "case spec_new (SpecStr s) of
     Inl e \<Rightarrow> e = ValueError
   | Inr kvs \<Rightarrow> distinct (spec_keys kvs) \<and> spec_len kvs = length (py_split CHR '','' s) \<and>
       list_all (\<lambda>(k, v). k \<noteq> [] \<and> v \<noteq> []) kvs"
proof (cases "spec_new (SpecStr s)")
  case (Inl e)
  have "parse_parts kvs sps = Inl e' \<Longrightarrow> e' = ValueError" for kvs sps e'
    by (induction kvs sps rule: parse_parts.induct)
      (auto simp: rbind_def parse_part_def Let_def split: sum.splits list.splits if_splits)
  with Inl show ?thesis by simp
next
  case (Inr kvs)
  then show ?thesis
    using parse_parts_sound [of "[]" "py_split CHR '','' s" kvs]
    by (simp add: spec_keys_def spec_len_def list_all_iff)
qed

end
