(* ===== verification/Schema.thy ===== *)
theory Schema
  imports Validation
begin

text \<open>
  Columns, schemas and records of \<^verbatim>\<open>odps/types.py\<close>. A record keeps one validated value per
  column, partition columns included, and finds columns by case-insensitive name.
\<close>

section \<open>Columns\<close>

record column =
  col_name :: string
  col_type :: odps_type
  col_comment :: "string option"
  col_label :: "string option"
  col_nullable :: bool
  col_expr :: "string option"
  col_partition :: bool

definition mk_column :: "string \<Rightarrow> odps_type \<Rightarrow> column" where
  "mk_column name typo =
     \<lparr>col_name = name, col_type = typo, col_comment = None, col_label = None,
      col_nullable = True, col_expr = None, col_partition = False\<rparr>"

definition mk_partition :: "string \<Rightarrow> odps_type \<Rightarrow> column" where
  "mk_partition name typo = (mk_column name typo)\<lparr>col_partition := True\<rparr>"

text \<open>Python's \<^verbatim>\<open>a or b\<close> on optional strings: the empty string is false, too.\<close>

definition str_or :: "string option \<Rightarrow> string option \<Rightarrow> string option" where
  "str_or a b = (case a of None \<Rightarrow> b | Some s \<Rightarrow> if s = [] then b else a)"

definition column_replace ::
    "column \<Rightarrow> string option \<Rightarrow> odps_type option \<Rightarrow> string option \<Rightarrow> string option \<Rightarrow>
     bool option \<Rightarrow> string option \<Rightarrow> column" where
  "column_replace c name typ comment label nullable expr =
     \<lparr>col_name = (case str_or name (Some (col_name c)) of None \<Rightarrow> [] | Some n \<Rightarrow> n),
      col_type = (case typ of None \<Rightarrow> col_type c | Some t \<Rightarrow> t),
      col_comment = str_or comment (col_comment c),
      col_label = str_or label (col_label c),
      col_nullable = (if nullable = Some True then True else col_nullable c),
      col_expr = str_or expr (col_expr c),
      col_partition = False\<rparr>"

definition column_eq :: "column \<Rightarrow> column \<Rightarrow> bool" where
  "column_eq a b \<longleftrightarrow>
     col_name a = col_name b \<and> type_eq (col_type a) (col_type b) \<and>
     col_comment a = col_comment b \<and> col_label a = col_label b \<and>
     col_nullable a = col_nullable b \<and> col_expr a = col_expr b"

section \<open>Schema\<close>

record schema =
  sc_names :: "string list"
  sc_types :: "odps_type list"

text \<open>\<^verbatim>\<open>_name_indexes\<close>: a dictionary comprehension over the lower-case names.\<close>

definition name_indexes :: "string list \<Rightarrow> (string \<times> nat) list" where
  "name_indexes names =
     fold (\<lambda>(i, n) d. AList.update (py_lower n) i d) (enumerate 0 names) []"

definition schema_init :: "string list \<Rightarrow> odps_type list \<Rightarrow> schema result" where
  "schema_init names typs =
     (if length (name_indexes names) < length names then Inl ValueError
      else Inr \<lparr>sc_names = names, sc_types = typs\<rparr>)"

definition index_of :: "string list \<Rightarrow> string \<Rightarrow> nat option" where
  "index_of names n = map_of (name_indexes names) (py_lower n)"

definition schema_contains :: "schema \<Rightarrow> string \<Rightarrow> bool" where
  "schema_contains s n \<longleftrightarrow> index_of (sc_names s) n \<noteq> None"

definition schema_eq :: "schema \<Rightarrow> schema \<Rightarrow> bool" where
  "schema_eq a b \<longleftrightarrow> sc_names a = sc_names b \<and> list_all2 type_eq (sc_types a) (sc_types b)"

definition list_get :: "'a list \<Rightarrow> nat \<Rightarrow> 'a result" where
  "list_get xs i = (if i < length xs then Inr (xs ! i) else Inl IndexError)"

definition schema_get_type :: "schema \<Rightarrow> string \<Rightarrow> odps_type result" where
  "schema_get_type s n =
     (case index_of (sc_names s) n of None \<Rightarrow> Inl KeyError | Some i \<Rightarrow> list_get (sc_types s) i)"

definition schema_append :: "schema \<Rightarrow> string \<Rightarrow> odps_type \<Rightarrow> schema result" where
  "schema_append s name typo = schema_init (sc_names s @ [name]) (sc_types s @ [typo])"

definition schema_extend :: "schema \<Rightarrow> schema \<Rightarrow> schema result" where
  "schema_extend s t = schema_init (sc_names s @ sc_names t) (sc_types s @ sc_types t)"

section \<open>OdpsSchema\<close>

record odps_schema =
  os_columns :: "column list"
  os_partitions :: "column list option"
  os_schema :: schema
  os_pschema :: schema

definition schema_of :: "column list \<Rightarrow> schema result" where
  "schema_of cols = schema_init (List.map col_name cols) (List.map col_type cols)"

definition partition_list :: "column list option \<Rightarrow> column list" where
  "partition_list ps = (case ps of None \<Rightarrow> [] | Some cs \<Rightarrow> cs)"

definition odps_schema_new :: "column list \<Rightarrow> column list option \<Rightarrow> odps_schema result" where
  "odps_schema_new cols parts =
     rbind (schema_of cols) (\<lambda>s.
     rbind (schema_of (partition_list parts)) (\<lambda>p.
       Inr \<lparr>os_columns = cols, os_partitions = parts, os_schema = s, os_pschema = p\<rparr>))"

definition os_len :: "odps_schema \<Rightarrow> nat" where
  "os_len s = length (sc_names (os_schema s)) + length (sc_names (os_pschema s))"

definition all_columns :: "odps_schema \<Rightarrow> column list" where
  "all_columns s = os_columns s @ partition_list (os_partitions s)"

definition os_contains :: "odps_schema \<Rightarrow> string \<Rightarrow> bool" where
  "os_contains s n \<longleftrightarrow> schema_contains (os_schema s) n \<or> schema_contains (os_pschema s) n"

definition os_eq :: "odps_schema \<Rightarrow> odps_schema \<Rightarrow> bool" where
  "os_eq a b \<longleftrightarrow> schema_eq (os_schema a) (os_schema b) \<and> schema_eq (os_pschema a) (os_pschema b)"

text \<open>\<^verbatim>\<open>xs[i]\<close> with a Python index, negative ones counting from the end.\<close>

definition py_index :: "'a list \<Rightarrow> int \<Rightarrow> 'a result" where
  "py_index xs i =
     (if 0 \<le> i \<and> i < int (length xs) then Inr (xs ! nat i)
      else if - int (length xs) \<le> i \<and> i < 0 then Inr (xs ! nat (int (length xs) + i))
      else Inl IndexError)"

definition os_get_index :: "odps_schema \<Rightarrow> int \<Rightarrow> column result" where
  "os_get_index s item =
     (let n_columns = int (length (name_indexes (sc_names (os_schema s))))
      in if item < n_columns then py_index (os_columns s) item
         else if item < int (os_len s) then
           (case os_partitions s of None \<Rightarrow> Inl TypeError | Some ps \<Rightarrow> py_index ps (item - n_columns))
         else Inl IndexError)"

definition os_get_name :: "odps_schema \<Rightarrow> string \<Rightarrow> column result" where
  "os_get_name s item =
     (case index_of (sc_names (os_schema s)) item of
        Some idx \<Rightarrow> os_get_index s (int idx)
      | None \<Rightarrow>
          (if schema_contains (os_pschema s) item then
             (case index_of (sc_names (os_pschema s)) item of
                None \<Rightarrow> Inl KeyError
              | Some idx \<Rightarrow>
                  os_get_index s (int (length (name_indexes (sc_names (os_schema s)))) + int idx))
           else Inl ValueError))"

definition get_column :: "odps_schema \<Rightarrow> string \<Rightarrow> column result" where
  "get_column s name =
     (case index_of (sc_names (os_schema s)) name of
        None \<Rightarrow> Inl ValueError | Some i \<Rightarrow> list_get (os_columns s) i)"

definition get_partition :: "odps_schema \<Rightarrow> string \<Rightarrow> column result" where
  "get_partition s name =
     (case index_of (sc_names (os_pschema s)) name of
        None \<Rightarrow> Inl ValueError | Some i \<Rightarrow> list_get (partition_list (os_partitions s)) i)"

definition is_partition :: "odps_schema \<Rightarrow> string \<Rightarrow> bool" where
  "is_partition s name \<longleftrightarrow> index_of (sc_names (os_pschema s)) name \<noteq> None"

definition os_get_type :: "odps_schema \<Rightarrow> string \<Rightarrow> odps_type result" where
  "os_get_type s name =
     (if index_of (sc_names (os_schema s)) name \<noteq> None then schema_get_type (os_schema s) name
      else if schema_contains (os_pschema s) (py_lower name) then
        schema_get_type (os_pschema s) name
      else Inl ValueError)"

text \<open>
  \<^verbatim>\<open>update\<close> assigns the fields one after the other; \<^verbatim>\<open>__setattr__\<close> already builds the partition
  schema when \<^verbatim>\<open>_partitions\<close> is assigned, and the column schema when there was none. \<^verbatim>\<open>_init\<close>
  has assigned the names before it raises on a clash.
\<close>

definition raw_schema :: "column list \<Rightarrow> schema" where
  "raw_schema cols = \<lparr>sc_names = List.map col_name cols, sc_types = List.map col_type cols\<rparr>"

definition os_update :: "column list \<Rightarrow> column list option \<Rightarrow> (odps_schema, unit) sm" where
  "os_update cols parts s =
     (let clash = (schema_of cols = Inl ValueError)
      in if cols \<noteq> [] \<and> sc_names (os_schema s) = [] \<and> sc_types (os_schema s) = [] \<and> clash then
           (Inl ValueError, s\<lparr>os_schema := raw_schema cols\<rparr>)
         else
           (let s1 = (if cols \<noteq> [] \<and> sc_names (os_schema s) = [] \<and> sc_types (os_schema s) = []
                      then s\<lparr>os_schema := raw_schema cols\<rparr> else s)\<lparr>os_columns := cols\<rparr>
            in case schema_of (partition_list parts) of
                 Inl e \<Rightarrow> (Inl e, s1)
               | Inr p \<Rightarrow>
                   (let s2 = s1\<lparr>os_partitions := parts,
                              os_pschema := (if partition_list parts = [] then os_pschema s else p),
                              os_schema := raw_schema cols\<rparr>
                    in if clash then (Inl ValueError, s2)
                       else (Inr (), s2\<lparr>os_pschema := p\<rparr>))))"

text \<open>
  \<^verbatim>\<open>extend\<close>: its argument always is a \<^verbatim>\<open>Schema\<close> (an \<^verbatim>\<open>OdpsSchema\<close> is one as well), so fresh columns
  are made of the names and types, and partitions of the argument are left out.
\<close>

definition os_extend :: "odps_schema \<Rightarrow> schema \<Rightarrow> odps_schema result" where
  "os_extend s t =
     (case os_partitions s of
        None \<Rightarrow> Inl TypeError
      | Some ps \<Rightarrow>
          odps_schema_new
            (os_columns s @ List.map (\<lambda>(n, tp). mk_column n tp) (zip (sc_names t) (sc_types t)))
            (Some ps))"

definition lower_column :: "column \<Rightarrow> column" where
  "lower_column c =
     \<lparr>col_name = py_lower (col_name c), col_type = col_type c, col_comment = col_comment c,
      col_label = col_label c, col_nullable = True, col_expr = None,
      col_partition = col_partition c\<rparr>"

definition to_ignorecase_schema :: "odps_schema \<Rightarrow> odps_schema result" where
  "to_ignorecase_schema s =
     odps_schema_new (List.map (\<lambda>c. (lower_column c)\<lparr>col_partition := False\<rparr>) (os_columns s))
       (case os_partitions s of
          None \<Rightarrow> None
        | Some ps \<Rightarrow>
            if ps = [] then None
            else Some (List.map (\<lambda>c. (lower_column c)\<lparr>col_partition := True\<rparr>) ps))"

definition from_lists ::
    "string list \<Rightarrow> odps_type list \<Rightarrow> string list option \<Rightarrow> odps_type list option \<Rightarrow>
     odps_schema result" where
  "from_lists names typs pnames ptypes =
     odps_schema_new (List.map (\<lambda>(n, t). mk_column n t) (zip names typs))
       (case (pnames, ptypes) of
          (Some ns, Some ts) \<Rightarrow> Some (List.map (\<lambda>(n, t). mk_partition n t) (zip ns ts))
        | _ \<Rightarrow> None)"

definition from_dict ::
    "(string \<times> odps_type) list \<Rightarrow> (string \<times> odps_type) list option \<Rightarrow> odps_schema result" where
  "from_dict fs parts =
     from_lists (List.map fst fs) (List.map snd fs)
       (map_option (List.map fst) parts) (map_option (List.map snd) parts)"

section \<open>Records\<close>

record rec =
  rec_columns :: "column list"
  rec_indexes :: "(string \<times> nat) list"
  rec_max :: "nat option"
  rec_values :: "py_value list"

definition rec_set :: "py_env \<Rightarrow> nat \<Rightarrow> py_value \<Rightarrow> (rec, unit) sm" where
  "rec_set env i value r =
     (if \<not> i < length (rec_columns r) then (Inl IndexError, r)
      else case validate_value env value (col_type (rec_columns r ! i)) (rec_max r) of
             Inl e \<Rightarrow> (Inl e, r)
           | Inr v \<Rightarrow>
               if i < length (rec_values r) then (Inr (), r\<lparr>rec_values := (rec_values r)[i := v]\<rparr>)
               else (Inl IndexError, r))"

definition exclude_partition_columns :: "rec \<Rightarrow> column list" where
  "exclude_partition_columns r = List.filter (\<lambda>c. \<not> col_partition c) (rec_columns r)"

fun rec_set_from :: "py_env \<Rightarrow> nat \<Rightarrow> py_value list \<Rightarrow> (rec, unit) sm" where
  "rec_set_from env i [] = sret ()"
| "rec_set_from env i (v # vs) = sthen (rec_set env i v) (rec_set_from env (Suc i) vs)"

definition rec_sets :: "py_env \<Rightarrow> py_value list \<Rightarrow> (rec, unit) sm" where
  "rec_sets env vals r =
     (if length vals \<noteq> length (rec_columns r) \<and>
         length vals \<noteq> length (exclude_partition_columns r) then (Inl ValueError, r)
      else rec_set_from env 0 vals r)"

text \<open>\<^verbatim>\<open>Record(columns=...)\<close> and \<^verbatim>\<open>Record(schema=...)\<close>: only the latter skips partitions in its index.\<close>

definition rec_blank :: "column list \<Rightarrow> (string \<times> nat) list \<Rightarrow> nat option \<Rightarrow> rec" where
  "rec_blank cols idx mx =
     \<lparr>rec_columns = cols, rec_indexes = idx, rec_max = mx,
      rec_values = replicate (length cols) PNone\<rparr>"

definition rec_new ::
    "py_env \<Rightarrow> column list + odps_schema \<Rightarrow> py_value list option \<Rightarrow> nat option \<Rightarrow> rec result" where
  "rec_new env src vals mx =
     (let r = (case src of
                 Inl cols \<Rightarrow> rec_blank cols (name_indexes (List.map col_name cols)) mx
               | Inr s \<Rightarrow> rec_blank (all_columns s) (name_indexes (sc_names (os_schema s))) mx)
      in case vals of
           None \<Rightarrow> Inr r
         | Some vs \<Rightarrow> (case rec_sets env vs r of (Inl e, _) \<Rightarrow> Inl e | (Inr _, r') \<Rightarrow> Inr r'))"

definition rec_get :: "rec \<Rightarrow> int \<Rightarrow> py_value result" where
  "rec_get r i = py_index (rec_values r) i"

definition get_by_name :: "rec \<Rightarrow> string \<Rightarrow> py_value result" where
  "get_by_name r name =
     (case map_of (rec_indexes r) (py_lower name) of
        None \<Rightarrow> Inl KeyError | Some i \<Rightarrow> list_get (rec_values r) i)"

definition set_by_name :: "py_env \<Rightarrow> string \<Rightarrow> py_value \<Rightarrow> (rec, unit) sm" where
  "set_by_name env name value r =
     (case map_of (rec_indexes r) (py_lower name) of
        None \<Rightarrow> (Inl KeyError, r) | Some i \<Rightarrow> rec_set env i value r)"

definition rec_contains :: "rec \<Rightarrow> string \<Rightarrow> bool" where
  "rec_contains r name \<longleftrightarrow> map_of (rec_indexes r) (py_lower name) \<noteq> None"

definition rec_iter :: "rec \<Rightarrow> (string \<times> py_value) list" where
  "rec_iter r = zip (List.map col_name (rec_columns r)) (rec_values r)"

definition n_columns :: "rec \<Rightarrow> nat" where
  "n_columns r = length (rec_columns r)"

section \<open>Name lookup\<close>

lemma fold_update_fresh:
  "distinct (List.map fst d @ List.map (py_lower \<circ> snd) xs) \<Longrightarrow>
   fold (\<lambda>(i, n) d. AList.update (py_lower n) i d) xs d = d @ List.map (\<lambda>(i, n). (py_lower n, i)) xs"
proof (induction xs arbitrary: d)
  case (Cons x xs)
  obtain i n where x: "x = (i, n)" by fastforce
  have "AList.update (py_lower n) i d = d @ [(py_lower n, i)]"
    using Cons.prems x by (induction d) auto
  with Cons x show ?case by simp
qed simp

lemma length_update_le: "length (AList.update k v d) \<le> Suc (length d)"
  by (induction d) auto

lemma fold_update_keys:
  "fst ` set (fold (\<lambda>(i, n) d. AList.update (py_lower n) i d) xs d) =
   fst ` set d \<union> (py_lower \<circ> snd) ` set xs"
  by (induction xs arbitrary: d) (auto simp: update_conv' dom_update simp flip: dom_map_of_conv_image_fst)

lemma fold_update_distinct:
  "distinct (List.map fst d) \<Longrightarrow>
   distinct (List.map fst (fold (\<lambda>(i, n) d. AList.update (py_lower n) i d) xs d))"
  by (induction xs arbitrary: d) (auto simp: distinct_update)

lemma length_name_indexes: "length (name_indexes names) = card (set (List.map py_lower names))"
proof -
  have "length (name_indexes names) = card (set (List.map fst (name_indexes names)))"
    unfolding name_indexes_def
    by (subst distinct_card) (simp_all add: fold_update_distinct)
  also have "set (List.map fst (name_indexes names)) = py_lower ` snd ` set (enumerate 0 names)"
    unfolding name_indexes_def using fold_update_keys [of "enumerate 0 names" "[]"]
    by (simp add: image_comp)
  also have "snd ` set (enumerate 0 names) = set names"
    using map_snd_enumerate [of 0 names] by (metis list.set_map)
  finally show ?thesis by simp
qed

text \<open>The constructor refuses exactly the names that clash after lower-casing.\<close>

lemma schema_init_iff:
  "schema_init names typs =
     (if distinct (List.map py_lower names) then Inr \<lparr>sc_names = names, sc_types = typs\<rparr>
      else Inl ValueError)"
proof -
  have "length (name_indexes names) < length names \<longleftrightarrow> \<not> distinct (List.map py_lower names)"
    using card_length [of "List.map py_lower names"] card_distinct [of "List.map py_lower names"]
      distinct_card [of "List.map py_lower names"]
    by (auto simp: length_name_indexes intro: le_neq_implies_less)
  then show ?thesis by (simp add: schema_init_def)
qed

lemma name_indexes_distinct:
  "distinct (List.map py_lower names) \<Longrightarrow>
   name_indexes names = List.map (\<lambda>(i, n). (py_lower n, i)) (enumerate 0 names)"
  unfolding name_indexes_def by (subst fold_update_fresh) (simp_all flip: map_map)

lemma index_of_iff:
  assumes "distinct (List.map py_lower names)"
  shows "index_of names n = Some i \<longleftrightarrow> i < length names \<and> py_lower (names ! i) = py_lower n"
proof -
  have "distinct (List.map fst (List.map (\<lambda>(i, n). (py_lower n, i)) (enumerate 0 names)))"
    using assms by (simp add: comp_def split_beta flip: map_map [of py_lower snd, unfolded comp_def])
  then have "index_of names n = Some i \<longleftrightarrow>
      (py_lower n, i) \<in> (\<lambda>(i, n). (py_lower n, i)) ` set (enumerate 0 names)"
    by (simp add: index_of_def name_indexes_distinct assms)
  also have "\<dots> \<longleftrightarrow> i < length names \<and> py_lower (names ! i) = py_lower n"
    by (auto simp: in_set_enumerate_eq image_iff intro!: bexI [of _ "(i, names ! i)"])
  finally show ?thesis .
qed

lemma index_of_None:
  assumes "distinct (List.map py_lower names)"
  shows "index_of names n = None \<longleftrightarrow> py_lower n \<notin> py_lower ` set names"
proof
  assume none: "index_of names n = None"
  show "py_lower n \<notin> py_lower ` set names"
  proof
    assume "py_lower n \<in> py_lower ` set names"
    then obtain i where "i < length names" "py_lower (names ! i) = py_lower n"
      by (metis imageE in_set_conv_nth)
    with index_of_iff [OF assms, of n i] none show False by simp
  qed
next
  assume n: "py_lower n \<notin> py_lower ` set names"
  show "index_of names n = None"
  proof (cases "index_of names n")
    case (Some i)
    with index_of_iff [OF assms, of n i] n show ?thesis by (metis imageI nth_mem)
  qed
qed

lemma odps_schema_newD:
  assumes "odps_schema_new cols parts = Inr s"
  shows "os_columns s = cols" "os_partitions s = parts"
    "os_schema s = raw_schema cols" "os_pschema s = raw_schema (partition_list parts)"
    "distinct (List.map py_lower (List.map col_name cols))"
    "distinct (List.map py_lower (List.map col_name (partition_list parts)))"
  using assms
  by (auto simp: odps_schema_new_def rbind_eq_Inr schema_of_def schema_init_iff raw_schema_def
      split: if_splits)

lemma os_get_index_column:
  assumes "odps_schema_new cols parts = Inr s" and "i < length cols"
  shows "os_get_index s (int i) = Inr (cols ! i)"
  using odps_schema_newD [OF assms(1)] assms(2)
    distinct_card [of "List.map py_lower (List.map col_name cols)"]
  by (simp add: os_get_index_def length_name_indexes raw_schema_def py_index_def)

lemma os_get_index_partition:
  assumes "odps_schema_new cols (Some ps) = Inr s" and "i < length ps"
  shows "os_get_index s (int (length cols + i)) = Inr (ps ! i)"
  using odps_schema_newD [OF assms(1)] assms(2)
    distinct_card [of "List.map py_lower (List.map col_name cols)"]
  by (simp add: os_get_index_def length_name_indexes raw_schema_def py_index_def os_len_def
      partition_list_def)

section \<open>Records keep validated values\<close>

definition rec_ok :: "py_env \<Rightarrow> rec \<Rightarrow> bool" where
  "rec_ok env r \<longleftrightarrow> length (rec_values r) = length (rec_columns r) \<and>
     (\<forall>i < length (rec_values r). rec_values r ! i = PNone \<or>
        (\<exists>v. validate_value env v (col_type (rec_columns r ! i)) (rec_max r) = Inr (rec_values r ! i)))"

lemma rec_blank_ok: "rec_ok env (rec_blank cols idx mx)"
  by (simp add: rec_ok_def rec_blank_def)

lemma rec_set_cases:
  assumes "rec_ok env r"
  shows "rec_set env i v r =
    (if \<not> i < length (rec_columns r) then (Inl IndexError, r)
     else case validate_value env v (col_type (rec_columns r ! i)) (rec_max r) of
            Inl e \<Rightarrow> (Inl e, r)
          | Inr w \<Rightarrow> (Inr (), r\<lparr>rec_values := (rec_values r)[i := w]\<rparr>))"
  using assms by (auto simp: rec_set_def rec_ok_def split: sum.split)

lemma rec_set_ok: "rec_ok env r \<Longrightarrow> rec_ok env (snd (rec_set env i v r))"
  by (auto simp: rec_set_def rec_ok_def nth_list_update split: sum.split)

lemma rec_set_columns [simp]: "rec_columns (snd (rec_set env i v r)) = rec_columns r"
  by (auto simp: rec_set_def split: sum.split)

lemma rec_set_from_ok: "rec_ok env r \<Longrightarrow> rec_ok env (snd (rec_set_from env i vs r))"
proof (induction vs arbitrary: i r)
  case (Cons v vs)
  obtain res r' where s: "rec_set env i v r = (res, r')" by fastforce
  with rec_set_ok [OF Cons.prems, of i v] have "rec_ok env r'" by simp
  with Cons.IH [OF this, of "Suc i"] s show ?case by (cases res) (simp_all add: sbind_apply)
qed (simp add: sret_apply)

lemma rec_sets_ok: "rec_ok env r \<Longrightarrow> rec_ok env (snd (rec_sets env vs r))"
  by (simp add: rec_sets_def rec_set_from_ok)

lemma rec_new_ok: "rec_new env src vals mx = Inr r \<Longrightarrow> rec_ok env r"
  using rec_sets_ok [OF rec_blank_ok]
  by (auto simp: rec_new_def Let_def rec_blank_ok split: option.splits sum.splits prod.splits)
    (metis snd_conv)+

lemma set_by_name_ok: "rec_ok env r \<Longrightarrow> rec_ok env (snd (set_by_name env n v r))"
  by (auto simp: set_by_name_def rec_set_ok split: option.split)

inductive rec_reach :: "py_env \<Rightarrow> rec \<Rightarrow> bool" for env where
  new: "rec_new env src vals mx = Inr r \<Longrightarrow> rec_reach env r"
| set: "rec_reach env r \<Longrightarrow> rec_reach env (snd (rec_set env i v r))"
| sets: "rec_reach env r \<Longrightarrow> rec_reach env (snd (rec_sets env vs r))"
| by_name: "rec_reach env r \<Longrightarrow> rec_reach env (snd (set_by_name env n v r))"

section \<open>Properties\<close>

text \<open>C22: in a schema that the constructor accepts, every column and every partition column is
  found by its position and, whatever the letter case, by its name, and a name that is neither is
  refused with \<^verbatim>\<open>ValueError\<close>.\<close>

theorem schema_lookup:
  assumes "odps_schema_new cols (Some ps) = Inr s"
  shows "(\<forall>i < length cols. \<forall>n. py_lower n = py_lower (col_name (cols ! i)) \<longrightarrow>
        os_get_index s (int i) = Inr (cols ! i) \<and> os_get_name s n = Inr (cols ! i) \<and>
        get_column s n = Inr (cols ! i)) \<and>
    (\<forall>i < length ps. \<forall>n. py_lower n = py_lower (col_name (ps ! i)) \<longrightarrow>
        os_get_index s (int (length cols + i)) = Inr (ps ! i) \<and>
        get_partition s n = Inr (ps ! i) \<and> is_partition s n \<and>
        (py_lower n \<notin> (\<lambda>c. py_lower (col_name c)) ` set cols \<longrightarrow> os_get_name s n = Inr (ps ! i))) \<and>
    (\<forall>n. py_lower n \<notin> (\<lambda>c. py_lower (col_name c)) ` set (cols @ ps) \<longrightarrow>
        os_get_name s n = Inl ValueError \<and> get_column s n = Inl ValueError)"
proof -
  note s = odps_schema_newD [OF assms]
  have len: "length (name_indexes (List.map col_name cols)) = length cols"
    using s(5) distinct_card [of "List.map py_lower (List.map col_name cols)"]
    by (simp add: length_name_indexes)
  have cols: "index_of (List.map col_name cols) n = Some i"
    if "i < length cols" "py_lower n = py_lower (col_name (cols ! i))" for i n
    using that index_of_iff [OF s(5), of n i] by simp
  have parts: "index_of (List.map col_name ps) n = Some i"
    if "i < length ps" "py_lower n = py_lower (col_name (ps ! i))" for i n
    using that index_of_iff [OF s(6), of n i] by (simp add: partition_list_def)
  have none: "index_of (List.map col_name cols) n = None"
    if "py_lower n \<notin> (\<lambda>c. py_lower (col_name c)) ` set cols" for n
    using that index_of_None [OF s(5), of n] by (simp add: image_image)
  have pnone: "index_of (List.map col_name ps) n = None"
    if "py_lower n \<notin> (\<lambda>c. py_lower (col_name c)) ` set ps" for n
    using that index_of_None [OF s(6), of n] by (simp add: image_image partition_list_def)
  note defs = os_get_name_def get_column_def get_partition_def is_partition_def s(1-4)
    raw_schema_def partition_list_def schema_contains_def list_get_def len
  have neither: "os_get_name s n = Inl ValueError \<and> get_column s n = Inl ValueError"
    if "py_lower n \<notin> (\<lambda>c. py_lower (col_name c)) ` set (cols @ ps)" for n
  proof -
    from that have "py_lower n \<notin> (\<lambda>c. py_lower (col_name c)) ` set cols"
      "py_lower n \<notin> (\<lambda>c. py_lower (col_name c)) ` set ps" by auto
    then show ?thesis by (simp add: defs none pnone)
  qed
  show ?thesis
    using os_get_index_column [OF assms] os_get_index_partition [OF assms] neither
    by (intro conjI) (auto simp: defs cols parts none)
qed

theorem schema_lookup_witness:
  "\<exists>s. odps_schema_new [mk_column ''Id'' (Prim Bigint)] (Some [mk_partition ''pt'' (Prim String)]) =
     Inr s \<and> get_column s ''ID'' = Inr (mk_column ''Id'' (Prim Bigint)) \<and>
     get_partition s ''Pt'' = Inr (mk_partition ''pt'' (Prim String))"
proof -
  let ?c = "mk_column ''Id'' (Prim Bigint)" and ?p = "mk_partition ''pt'' (Prim String)"
  have "\<exists>s. odps_schema_new [?c] (Some [?p]) = Inr s"
    by (simp add: odps_schema_new_def schema_of_def schema_init_iff partition_list_def)
  then obtain s where s: "odps_schema_new [?c] (Some [?p]) = Inr s" ..
  have "py_lower ''ID'' = py_lower (col_name ?c)" "py_lower ''Pt'' = py_lower (col_name ?p)"
    by code_simp+
  with schema_lookup [OF s] s show ?thesis by fastforce
qed

text \<open>C21: a record stores only values its column's type has validated, through any sequence of
  construction and assignments; an assignment that raises changes nothing, one that succeeds is
  read back and leaves the other cells alone.\<close>

theorem record_cells:
  assumes "rec_reach env r"
  shows "rec_ok env r \<and>
    (case rec_set env i v r of
       (Inl e, r') \<Rightarrow> r' = r
     | (Inr _, r') \<Rightarrow> i < n_columns r \<and>
         (\<exists>w. validate_value env v (col_type (rec_columns r ! i)) (rec_max r) = Inr w \<and>
              rec_get r' (int i) = Inr w) \<and>
         (\<forall>j < n_columns r. j \<noteq> i \<longrightarrow> rec_get r' (int j) = rec_get r (int j)))"
proof -
  from assms have r: "rec_ok env r"
    by induction (auto intro: rec_new_ok rec_sets_ok rec_set_ok set_by_name_ok)
  then show ?thesis
    by (auto simp: rec_set_cases [OF r] n_columns_def rec_get_def py_index_def rec_ok_def
        split: sum.split)
qed

theorem record_cells_witness:
  "\<exists>r. rec_new plain_env (Inl [mk_column ''a'' (Prim Bigint)]) None None = Inr r \<and> rec_ok plain_env r"
proof -
  obtain r where r: "rec_new plain_env (Inl [mk_column ''a'' (Prim Bigint)]) None None = Inr r"
    by (simp add: rec_new_def)
  from rec_reach.new [OF this] have "rec_reach plain_env r" .
  from record_cells [OF this] r show ?thesis by blast
qed

end
