(* ===== verification/Record_Writer.thy ===== *)
theory Record_Writer
  imports Schema Checksum Pb_Codec
begin

text \<open>
  \<^verbatim>\<open>odps/tunnel/io/writer.py\<close>: \<^verbatim>\<open>ProtobufWriter\<close>, which buffers encoded fields and hands them to its
  output, and \<^verbatim>\<open>BaseRecordWriter\<close>, which writes records cell by cell with a checksum per record and
  a footer with the number of records and the checksum of the checksums. The wall-clock metrics
  are left out. Conversions made by the datetime, json, decimal and pandas libraries are
  parameters, collected in a record that extends the environment of the validation.
\<close>

section \<open>The checksum as an integer\<close>

definition long_to_int :: "int \<Rightarrow> int" where
  "long_to_int value =
     (if value AND 0x80000000 \<noteq> 0 then - ((value XOR 0xFFFFFFFF) + 1) else value)"

definition int_to_uint :: "int \<Rightarrow> int" where
  "int_to_uint v = (if v < 0 then v + 2 ^ 32 else v)"

definition long_to_uint :: "int \<Rightarrow> int" where
  "long_to_uint value = int_to_uint (long_to_int value)"

text \<open>\<^verbatim>\<open>getvalue\<close> of a \<^verbatim>\<open>Crc32\<close> that was never fed is \<^verbatim>\<open>None\<close>, no operand of \<^verbatim>\<open>&\<close>.\<close>

definition crc_value :: "checksum \<Rightarrow> int result" where
  "crc_value c = (case checksum_getvalue c of None \<Rightarrow> Inl TypeError | Some w \<Rightarrow> Inr (uint w))"

section \<open>ProtobufWriter\<close>

record protobuf_writer =
  pw_encoder :: bytes
  pw_output :: "bytes list"
  pw_buffer_size :: nat
  pw_n_total :: nat

definition DEFAULT_BUFFER_SIZE :: nat where "DEFAULT_BUFFER_SIZE = 4096"

definition pw_new :: "nat option \<Rightarrow> protobuf_writer" where
  "pw_new buffer_size =
     \<lparr>pw_encoder = [], pw_output = [],
      pw_buffer_size = (case buffer_size of
          None \<Rightarrow> DEFAULT_BUFFER_SIZE | Some n \<Rightarrow> if n = 0 then DEFAULT_BUFFER_SIZE else n),
      pw_n_total = 0\<rparr>"

definition pw_re_init :: "('a protobuf_writer_scheme, unit) sm" where
  "pw_re_init = smod (\<lambda>s. s\<lparr>pw_encoder := [], pw_output := [], pw_n_total := 0\<rparr>)"

definition pw_flush :: "('a protobuf_writer_scheme, unit) sm" where
  "pw_flush = smod (\<lambda>s.
     if 0 < length (pw_encoder s) then
       s\<lparr>pw_output := pw_output s @ [pw_encoder s],
         pw_n_total := pw_n_total s + length (pw_encoder s),
         pw_encoder := []\<rparr>
     else s)"

definition refresh_buffer :: "('a protobuf_writer_scheme, unit) sm" where
  "refresh_buffer = (\<lambda>s.
     if pw_buffer_size s < length (pw_encoder s) then pw_flush s else (Inr (), s))"

definition n_bytes :: "'a protobuf_writer_scheme \<Rightarrow> nat" where
  "n_bytes s = pw_n_total s + length (pw_encoder s)"

text \<open>Flushing the output object, too, leaves the bytes it was given as they are.\<close>

definition flush_all :: "('a protobuf_writer_scheme, unit) sm" where
  "flush_all = pw_flush"

definition pw_close :: "('a protobuf_writer_scheme, unit) sm" where
  "pw_close = flush_all"

text \<open>The shape of every \<^verbatim>\<open>_write_*\<close>: a method of the encoder, then \<^verbatim>\<open>_refresh_buffer\<close>.\<close>

definition encoding :: "(bytes, unit) sm \<Rightarrow> ('a protobuf_writer_scheme, unit) sm" where
  "encoding m =
     sthen (\<lambda>s. case m (pw_encoder s) of (r, buf) \<Rightarrow> (r, s\<lparr>pw_encoder := buf\<rparr>)) refresh_buffer"

definition write_tag :: "int \<Rightarrow> int \<Rightarrow> ('a protobuf_writer_scheme, unit) sm" where
  "write_tag field_num wire_type = encoding (append_tag field_num wire_type)"

definition write_raw_long :: "int \<Rightarrow> ('a protobuf_writer_scheme, unit) sm" where
  "write_raw_long val = encoding (append_sint64 val)"

definition write_raw_int :: "int \<Rightarrow> ('a protobuf_writer_scheme, unit) sm" where
  "write_raw_int val = encoding (append_sint32 val)"

definition write_raw_uint :: "int \<Rightarrow> ('a protobuf_writer_scheme, unit) sm" where
  "write_raw_uint val = encoding (append_uint32 val)"

definition write_raw_bool :: "bool \<Rightarrow> ('a protobuf_writer_scheme, unit) sm" where
  "write_raw_bool val = encoding (append_bool val)"

definition write_raw_float :: "32 word \<Rightarrow> ('a protobuf_writer_scheme, unit) sm" where
  "write_raw_float val = encoding (append_float val)"

definition write_raw_double :: "64 word \<Rightarrow> ('a protobuf_writer_scheme, unit) sm" where
  "write_raw_double val = encoding (append_double val)"

definition write_raw_string :: "bytes \<Rightarrow> ('a protobuf_writer_scheme, unit) sm" where
  "write_raw_string val = encoding (append_string val)"

section \<open>BaseRecordWriter\<close>

text \<open>
  \<open>to_mills ntz\<close> is \<^verbatim>\<open>MillisecondsConverter().to_milliseconds\<close> (of UTC when \<open>ntz\<close>) on a datetime in
  microseconds, \<open>from_mills\<close> its inverse; \<open>pd_timestamp\<close> is \<^verbatim>\<open>pd.Timestamp(datetime) +
  pd.Timedelta(nanoseconds=n)\<close>, \<open>pd_timedelta\<close> is \<^verbatim>\<open>pd.Timedelta(seconds=s, nanoseconds=n)\<close>.
\<close>

record codec_env = py_env +
  to_mills :: "bool \<Rightarrow> int \<Rightarrow> int result"
  from_mills :: "bool \<Rightarrow> int \<Rightarrow> int result"
  pd_timestamp :: "int \<Rightarrow> int \<Rightarrow> int result"
  pd_timedelta :: "int \<Rightarrow> int \<Rightarrow> int result"
  json_dumps :: "py_value \<Rightarrow> bytes result"
  json_loads :: "bytes \<Rightarrow> py_value result"

definition base_env :: "codec_env \<Rightarrow> py_env" where
  "base_env env = py_env.truncate env"

text \<open>An environment for concrete runs: times in UTC, no further conversion.\<close>

definition plain_codec :: codec_env where
  "plain_codec =
     py_env.extend plain_env
       \<lparr>to_mills = (\<lambda>_ t. Inr (t div 1000)), from_mills = (\<lambda>_ m. Inr (m * 1000)),
        pd_timestamp = (\<lambda>t n. Inr (t * 1000 + n)), pd_timedelta = (\<lambda>s n. Inr (s * 10 ^ 9 + n)),
        json_dumps = (\<lambda>_. Inl TypeError), json_loads = (\<lambda>_. Inl ValueError)\<rparr>"

record record_writer = protobuf_writer +
  bw_schema :: odps_schema
  bw_crc :: checksum
  bw_crccrc :: checksum
  bw_cursor :: nat

definition bw_new :: "odps_schema \<Rightarrow> nat option \<Rightarrow> record_writer" where
  "bw_new schema buffer_size =
     protobuf_writer.extend (pw_new buffer_size)
       \<lparr>bw_schema = schema, bw_crc = checksum_new ''crc32c'', bw_crccrc = checksum_new ''crc32c'',
        bw_cursor = 0\<rparr>"

text \<open>A method of \<^verbatim>\<open>self._crc\<close> or of \<^verbatim>\<open>self._crccrc\<close>.\<close>

definition on_crc :: "(checksum, 'a) sm \<Rightarrow> (record_writer, 'a) sm" where
  "on_crc m = (\<lambda>s. case m (bw_crc s) of (r, c) \<Rightarrow> (r, s\<lparr>bw_crc := c\<rparr>))"

definition on_crccrc :: "(checksum, 'a) sm \<Rightarrow> (record_writer, 'a) sm" where
  "on_crccrc m = (\<lambda>s. case m (bw_crccrc s) of (r, c) \<Rightarrow> (r, s\<lparr>bw_crccrc := c\<rparr>))"

text \<open>The operands of the primitive writers, with the exception another class of value meets.\<close>

definition as_bool :: "py_value \<Rightarrow> bool result" where
  "as_bool v = (case v of PBool b \<Rightarrow> Inr b | _ \<Rightarrow> Inl AssertionError)"

definition as_int :: "py_value \<Rightarrow> int result" where
  "as_int v = (case v of PInt n \<Rightarrow> Inr n | PBool b \<Rightarrow> Inr (of_bool b) | _ \<Rightarrow> Inl StructError)"

definition as_float :: "py_value \<Rightarrow> 64 word result" where
  "as_float v = (case v of PFloat x \<Rightarrow> Inr x | _ \<Rightarrow> Inl StructError)"

definition as_bytes :: "py_value \<Rightarrow> bytes result" where
  "as_bytes v = (case v of PStr s \<Rightarrow> Inr s | PBytes s \<Rightarrow> Inr s | _ \<Rightarrow> Inl TypeError)"

definition as_list :: "py_value \<Rightarrow> py_value list result" where
  "as_list v = (case v of PList vs \<Rightarrow> Inr vs | PTuple vs \<Rightarrow> Inr vs | _ \<Rightarrow> Inl TypeError)"

definition as_dict :: "py_value \<Rightarrow> (py_value \<times> py_value) list result" where
  "as_dict v = (case v of PDict kvs \<Rightarrow> Inr kvs | _ \<Rightarrow> Inl TypeError)"

definition write_bool :: "py_value \<Rightarrow> (record_writer, unit) sm" where
  "write_bool data =
     sbind (slift (as_bool data)) (\<lambda>b. sthen (on_crc (update_bool b)) (write_raw_bool b))"

definition write_long :: "int \<Rightarrow> (record_writer, unit) sm" where
  "write_long data = sthen (on_crc (update_long data)) (write_raw_long data)"

text \<open>\<^verbatim>\<open>struct.pack("<f", data)\<close> rounds to single precision, in the checksum and in the encoder.\<close>

definition write_float :: "py_value \<Rightarrow> (record_writer, unit) sm" where
  "write_float data =
     sbind (slift (as_float data)) (\<lambda>x. sbind (slift (float_narrow x)) (\<lambda>y.
       sthen (on_crc (update_float y)) (write_raw_float y)))"

definition write_double :: "py_value \<Rightarrow> (record_writer, unit) sm" where
  "write_double data =
     sbind (slift (as_float data)) (\<lambda>x. sthen (on_crc (update_double x)) (write_raw_double x))"

definition write_string :: "py_value \<Rightarrow> (record_writer, unit) sm" where
  "write_string data =
     sbind (slift (as_bytes data)) (\<lambda>bs.
       sthen (on_crc (checksum_update bs)) (write_raw_string bs))"

text \<open>
  \<^verbatim>\<open>int(to_mills(...) / 1000)\<close> truncates toward zero; \<^verbatim>\<open>data.microsecond\<close> and \<^verbatim>\<open>data.nanosecond\<close> are
  the digits of the fraction of the second.
\<close>

definition timestamp_parts :: "codec_env \<Rightarrow> int \<Rightarrow> bool \<Rightarrow> (int \<times> int) result" where
  "timestamp_parts env ns ntz =
     rbind (to_mills env ntz (ns div 1000)) (\<lambda>ms.
       Inr (sgn ms * (\<bar>ms\<bar> div 1000), ns div 1000 mod 1000000 * 1000 + ns mod 1000))"

definition write_seconds :: "int \<times> int \<Rightarrow> (record_writer, unit) sm" where
  "write_seconds p =
     (case p of (t_val, nano_val) \<Rightarrow>
        sthen (on_crc (update_long t_val)) (sthen (write_raw_long t_val)
          (sthen (on_crc (update_int nano_val)) (write_raw_int nano_val))))"

definition write_timestamp :: "codec_env \<Rightarrow> py_value \<Rightarrow> bool \<Rightarrow> (record_writer, unit) sm" where
  "write_timestamp env data ntz =
     (case data of
        PTimestamp ns \<Rightarrow> sbind (slift (timestamp_parts env ns ntz)) write_seconds
      | _ \<Rightarrow> sraise AttributeError)"

text \<open>\<^verbatim>\<open>days\<close>, \<^verbatim>\<open>seconds\<close>, \<^verbatim>\<open>microseconds\<close> and \<^verbatim>\<open>nanoseconds\<close> of a \<^verbatim>\<open>pd.Timedelta\<close>.\<close>

definition write_interval_day_time :: "py_value \<Rightarrow> (record_writer, unit) sm" where
  "write_interval_day_time data =
     (case data of
        PTimedelta ns \<Rightarrow>
          (let days = ns div (86400 * 10 ^ 9); seconds = ns div 10 ^ 9 mod 86400;
               microseconds = ns div 1000 mod 1000000; nanoseconds = ns mod 1000
           in write_seconds (days * 3600 * 24 + seconds, microseconds * 1000 + nanoseconds))
      | _ \<Rightarrow> sraise AttributeError)"

fun write_array :: "(py_value \<Rightarrow> (record_writer, unit) sm) \<Rightarrow> py_value list \<Rightarrow> (record_writer, unit) sm" where
  "write_array wv [] = sret ()"
| "write_array wv (v # vs) =
     sthen (if v = PNone then write_raw_bool True else sthen (write_raw_bool False) (wv v))
       (write_array wv vs)"

fun write_elements :: "(py_value \<Rightarrow> (record_writer, unit) sm) \<Rightarrow> py_value list \<Rightarrow> (record_writer, unit) sm" where
  "write_elements wv [] = sret ()"
| "write_elements wv (v # vs) = sthen (wv v) (write_elements wv vs)"

definition write_vector :: "(py_value \<Rightarrow> (record_writer, unit) sm) \<Rightarrow> py_value \<Rightarrow> (record_writer, unit) sm" where
  "write_vector wv val =
     (if val = PNone then sret ()
      else sbind (slift (as_list val)) (\<lambda>vs.
        sthen (write_raw_uint (int (length vs))) (write_elements wv vs)))"

text \<open>
  The values of a struct given as a dictionary: \<^verbatim>\<open>data[key]\<close> for each field, stored into a list as long
  as the dictionary.
\<close>

definition struct_values :: "(string \<times> odps_type) list \<Rightarrow> py_value \<Rightarrow> py_value list result" where
  "struct_values fs data =
     (case data of
        PDict kvs \<Rightarrow>
          rmap (\<lambda>(idx, f). case map_of kvs (str_of (fst f)) of
              None \<Rightarrow> Inl KeyError
            | Some v \<Rightarrow> if idx < length kvs then Inr v else Inl IndexError)
            (enumerate 0 fs)
      | _ \<Rightarrow> as_list data)"

fun write_fields ::
    "(odps_type \<Rightarrow> py_value \<Rightarrow> (record_writer, unit) sm) \<Rightarrow> (string \<times> odps_type) list \<Rightarrow>
     py_value list \<Rightarrow> (record_writer, unit) sm" where
  "write_fields wv (f # fs) (v # vs) =
     sthen (if v = PNone then write_raw_bool True else sthen (write_raw_bool False) (wv (snd f) v))
       (write_fields wv fs vs)"
| "write_fields wv _ _ = sret ()"

lemma write_fields_cong [fundef_cong]:
  assumes "fs = fs'" and "\<And>k t v. (k, t) \<in> set fs' \<Longrightarrow> wv t v = wv' t v"
  shows "write_fields wv fs = write_fields wv' fs'"
proof
  fix vs
  have "(\<And>k t v. (k, t) \<in> set fs \<Longrightarrow> wv t v = wv' t v) \<Longrightarrow>
      write_fields wv fs vs = write_fields wv' fs vs"
  proof (induction wv fs vs rule: write_fields.induct)
    case (1 wv f fs v vs)
    have "wv (snd f) v = wv' (snd f) v" by (rule "1.prems" [of "fst f"]) simp
    moreover have "write_fields wv fs vs = write_fields wv' fs vs"
      by (rule "1.IH", rule "1.prems") auto
    ultimately show ?case by simp
  qed auto
  with assms show "write_fields wv fs vs = write_fields wv' fs' vs" by blast
qed

definition as_datetime :: "py_value \<Rightarrow> int result" where
  "as_datetime v =
     (case v of PDatetime t \<Rightarrow> Inr t | PTimestamp ns \<Rightarrow> Inr (ns div 1000) | _ \<Rightarrow> Inl AttributeError)"

definition to_days :: "py_value \<Rightarrow> int result" where
  "to_days v = (case v of PDate d \<Rightarrow> Inr d | _ \<Rightarrow> Inl TypeError)"

definition total_months :: "py_value \<Rightarrow> int result" where
  "total_months v = (case v of PMonthdelta m \<Rightarrow> Inr m | _ \<Rightarrow> Inl AttributeError)"

definition decimal_str :: "codec_env \<Rightarrow> py_value \<Rightarrow> py_value result" where
  "decimal_str env v =
     (case v of PDecimal d \<Rightarrow> Inr (PStr d) | PStr s \<Rightarrow> Inr v | _ \<Rightarrow> env_convert env v (Prim String))"

function write_field :: "codec_env \<Rightarrow> odps_type \<Rightarrow> py_value \<Rightarrow> (record_writer, unit) sm" where
  "write_field env (Prim p) val =
     (case p of
        Boolean \<Rightarrow> write_bool val
      | Datetime \<Rightarrow>
          sbind (slift (rbind (as_datetime val) (to_mills env False))) write_long
      | Date \<Rightarrow> sbind (slift (to_days val)) write_long
      | Float \<Rightarrow> write_float val
      | Double \<Rightarrow> write_double val
      | Tinyint \<Rightarrow> sbind (slift (as_int val)) write_long
      | Smallint \<Rightarrow> sbind (slift (as_int val)) write_long
      | IntT \<Rightarrow> sbind (slift (as_int val)) write_long
      | Bigint \<Rightarrow> sbind (slift (as_int val)) write_long
      | String \<Rightarrow> write_string val
      | Binary \<Rightarrow> write_string val
      | Timestamp \<Rightarrow> write_timestamp env val False
      | TimestampNTZ \<Rightarrow> write_timestamp env val True
      | IntervalDayTime \<Rightarrow> write_interval_day_time val
      | IntervalYearMonth \<Rightarrow> sbind (slift (total_months val)) write_long
      | Json \<Rightarrow> sbind (slift (json_dumps env val)) (\<lambda>s. write_string (PStr s))
      | _ \<Rightarrow> sraise OSError)"
| "write_field env (Varchar n) val = write_string val"
| "write_field env (Char n) val = write_string val"
| "write_field env (Decimal p s) val = sbind (slift (decimal_str env val)) write_string"
| "write_field env (Array t) val =
     sbind (slift (as_list val)) (\<lambda>vs.
       sthen (write_raw_uint (int (length vs))) (write_array (write_field env t) vs))"
| "write_field env (Map kt vt) val =
     sbind (slift (as_dict val)) (\<lambda>kvs.
       sthen (write_raw_uint (int (length kvs)))
         (sthen (write_array (write_field env kt) (List.map fst kvs))
           (sthen (write_raw_uint (int (length kvs)))
             (write_array (write_field env vt) (List.map snd kvs)))))"
| "write_field env (Struct fs) val =
     sbind (slift (struct_values fs val)) (write_fields (\<lambda>t v. write_field env t v) fs)"
| "write_field env (Vector t n) val = write_vector (write_field env t) val"
  by pat_completeness auto
termination
  by (relation "measure (\<lambda>(_, t, _). size t)")
    (auto simp: less_Suc_eq_le elim!: size_list_estimation')

definition varint_tag_types :: "prim list" where
  "varint_tag_types =
     [Tinyint, Smallint, IntT, Bigint, Boolean, Datetime, Date, IntervalYearMonth]"

definition length_delim_tag_types :: "prim list" where
  "length_delim_tag_types = [String, Binary, Timestamp, TimestampNTZ, IntervalDayTime, Json]"

definition tag_wire_type :: "odps_type \<Rightarrow> int result" where
  "tag_wire_type data_type =
     (case data_type of
        Prim p \<Rightarrow>
          if p \<in> set varint_tag_types then Inr WIRETYPE_VARINT
          else if p = Float then Inr WIRETYPE_FIXED32
          else if p = Double then Inr WIRETYPE_FIXED64
          else if p \<in> set length_delim_tag_types then Inr WIRETYPE_LENGTH_DELIMITED
          else Inl OSError
      | _ \<Rightarrow> Inr WIRETYPE_LENGTH_DELIMITED)"

definition bw_columns :: "record_writer \<Rightarrow> column list" where
  "bw_columns s = all_columns (bw_schema s)"

text \<open>The body of the loop of \<^verbatim>\<open>write\<close>, for column \<open>i\<close>.\<close>

definition write_cell :: "codec_env \<Rightarrow> column \<Rightarrow> nat \<Rightarrow> py_value \<Rightarrow> (record_writer, unit) sm" where
  "write_cell env col i val = (\<lambda>s.
     if is_partition (bw_schema s) (col_name col) then (Inr (), s)
     else if val = PNone then (Inr (), s)
     else
       (let pb_index = int i + 1
        in sthen (on_crc (update_int pb_index))
             (sbind (slift (tag_wire_type (col_type col))) (\<lambda>wt.
               sthen (write_tag pb_index wt) (write_field env (col_type col) val))) s))"

fun write_cells :: "codec_env \<Rightarrow> nat \<Rightarrow> column list \<Rightarrow> py_value list \<Rightarrow> (record_writer, unit) sm" where
  "write_cells env i (col # cols) (val # vals) =
     sthen (write_cell env col i val) (write_cells env (Suc i) cols vals)"
| "write_cells env i _ _ = sret ()"

definition end_record :: "(record_writer, unit) sm" where
  "end_record =
     sbind (sget bw_crc) (\<lambda>c. sbind (slift (crc_value c)) (\<lambda>v.
       let checksum = long_to_int v
       in sthen (write_tag TUNNEL_END_RECORD WIRETYPE_VARINT)
            (sthen (write_raw_uint (long_to_uint checksum))
              (sthen (smod (\<lambda>s. s\<lparr>bw_crc := checksum_reset (bw_crc s)\<rparr>))
                (sthen (on_crccrc (update_int checksum))
                  (smod (\<lambda>s. s\<lparr>bw_cursor := bw_cursor s + 1\<rparr>)))))))"

definition write_record :: "codec_env \<Rightarrow> rec \<Rightarrow> (record_writer, unit) sm" where
  "write_record env record = (\<lambda>s.
     if length (bw_columns s) < length (rec_columns record) then (Inl OSError, s)
     else sthen (write_cells env 0 (bw_columns s) (rec_values record)) end_record s)"

definition write_finish_tags :: "(record_writer, unit) sm" where
  "write_finish_tags =
     sthen (write_tag TUNNEL_META_COUNT WIRETYPE_VARINT)
       (sbind (sget bw_cursor) (\<lambda>n. sthen (write_raw_long (int n))
         (sthen (write_tag TUNNEL_META_CHECKSUM WIRETYPE_VARINT)
           (sbind (sget bw_crccrc) (\<lambda>c. sbind (slift (crc_value c)) (\<lambda>v.
             write_raw_uint (long_to_uint v)))))))"

definition bw_close :: "(record_writer, unit) sm" where
  "bw_close =
     sthen write_finish_tags (sthen pw_close (smod (\<lambda>s. s\<lparr>bw_cursor := 0\<rparr>)))"

text \<open>Writing a list of records and closing the writer, as \<^verbatim>\<open>with open_record_writer() as w\<close> does.\<close>

fun write_records :: "codec_env \<Rightarrow> rec list \<Rightarrow> (record_writer, unit) sm" where
  "write_records env [] = sret ()"
| "write_records env (r # rs) = sthen (write_record env r) (write_records env rs)"

definition written :: "'a protobuf_writer_scheme \<Rightarrow> bytes" where
  "written s = concat (pw_output s) @ pw_encoder s"

end
