(* ===== verification/Retry_Call.thy ===== *)
theory Retry_Call
  imports Prelude
begin

text \<open>
  \<^verbatim>\<open>call_with_retry\<close> of \<^verbatim>\<open>odps/utils.py\<close>. The function called and the reset function are operations
  on a state; the loop also keeps the log of the pauses it makes. Times are integers in the unit of
  the clock, whose readings after each failure are a parameter.
\<close>

section \<open>Options\<close>

text \<open>
  \<^verbatim>\<open>exc_type\<close> may be a class, a tuple of classes or a predicate; a class or a tuple is given by the
  exceptions it catches. \<open>rt_on_exception\<close> is the truth value \<^verbatim>\<open>on_exception_func\<close> returns.
\<close>

datatype exc_spec = ExcClass "py_error \<Rightarrow> bool" | ExcTuple "py_error \<Rightarrow> bool" | ExcFunc "py_error \<Rightarrow> bool"

record retry_options =
  rt_times :: "nat option"
  rt_timeout :: "int option"
  rt_delay :: int
  rt_backoff_factor :: "int option"
  rt_backoff_max :: "int option"
  rt_on_exception :: "(py_error \<Rightarrow> bool) option"
  rt_exc_type :: exc_spec
  rt_no_raise :: bool
  rt_start :: int
  rt_clock :: "nat \<Rightarrow> int"

text \<open>
  A class is callable, so the test \<^verbatim>\<open>not isinstance(exc_type, Exception) and callable(exc_type)\<close> takes
  it for a predicate; calling it builds an exception, which counts as true. All of \<^verbatim>\<open>Exception\<close> is
  then caught. Only a tuple stays what the \<^verbatim>\<open>except\<close> clause catches.
\<close>

fun exc_caught :: "exc_spec \<Rightarrow> py_error \<Rightarrow> bool" where
  "exc_caught (ExcTuple c) e = c e"
| "exc_caught _ e = True"

fun exc_retried :: "exc_spec \<Rightarrow> py_error \<Rightarrow> bool" where
  "exc_retried (ExcFunc f) e = f e"
| "exc_retried _ e = True"

definition cur_delay :: "retry_options \<Rightarrow> nat \<Rightarrow> int" where
  "cur_delay opts retry_num =
     (case (rt_backoff_factor opts, rt_backoff_max opts) of
        (Some f, Some m) \<Rightarrow>
          if f \<noteq> 0 \<and> m \<noteq> 0 then min (f * 2 ^ (retry_num - 1)) m else rt_delay opts
      | _ \<Rightarrow> rt_delay opts)"

definition retries_over :: "retry_options \<Rightarrow> nat \<Rightarrow> bool" where
  "retries_over opts retry_num \<longleftrightarrow>
     (case rt_times opts of None \<Rightarrow> False | Some n \<Rightarrow> n < retry_num) \<or>
     (case rt_timeout opts of None \<Rightarrow> False
      | Some t \<Rightarrow> t < rt_clock opts retry_num - rt_start opts)"

definition on_exception :: "retry_options \<Rightarrow> py_error \<Rightarrow> bool" where
  "on_exception opts e = (case rt_on_exception opts of None \<Rightarrow> True | Some f \<Rightarrow> f e)"

section \<open>The loop\<close>

text \<open>
  The outcome \<open>Inr (Inl x)\<close> returns \<open>x\<close>, \<open>Inr (Inr e)\<close> returns \<^verbatim>\<open>sys.exc_info()\<close> of \<open>e\<close>. The loop may
  run forever (\<^verbatim>\<open>retry_times=None\<close>, or an \<^verbatim>\<open>on_exception_func\<close> that answers false), so it has fuel.
\<close>

fun retry_loop ::
    "retry_options \<Rightarrow> ('s, 'a) sm \<Rightarrow> ('s, unit) sm option \<Rightarrow> nat \<Rightarrow> nat \<Rightarrow>
     ('s \<times> int list, 'a + py_error) sm" where
  "retry_loop opts func reset 0 retry_num sl = (Inl FuelExhausted, sl)"
| "retry_loop opts func reset (Suc fuel) retry_num (s, log) =
     (case func s of
        (Inr x, s') \<Rightarrow> (Inr (Inl x), (s', log))
      | (Inl ex, s') \<Rightarrow>
          if \<not> exc_caught (rt_exc_type opts) ex \<or> \<not> exc_retried (rt_exc_type opts) ex then
            ((if on_exception opts ex then Inl ex else Inr (Inr ex)), (s', log))
          else
            (let n = retry_num + 1; log' = log @ [cur_delay opts n]
             in if retries_over opts n \<and> on_exception opts ex then
                  ((if rt_no_raise opts then Inr (Inr ex) else Inl ex), (s', log'))
                else
                  (case (case reset of None \<Rightarrow> (Inr (), s') | Some m \<Rightarrow> m s') of
                     (Inl e, t) \<Rightarrow> (Inl e, (t, log'))
                   | (Inr _, t) \<Rightarrow> retry_loop opts func reset fuel n (t, log'))))"

definition call_with_retry ::
    "retry_options \<Rightarrow> ('s, 'a) sm \<Rightarrow> ('s, unit) sm option \<Rightarrow> nat \<Rightarrow> ('s, ('a + py_error)) sm" where
  "call_with_retry opts func reset fuel s =
     (case retry_loop opts func reset fuel 0 (s, []) of (r, (s', _)) \<Rightarrow> (r, s'))"

text \<open>The options by default: \<^verbatim>\<open>exc_type=Exception\<close>, no timeout, no backoff.\<close>

definition retry_defaults :: "nat option \<Rightarrow> int \<Rightarrow> retry_options" where
  "retry_defaults n delay =
     \<lparr>rt_times = n, rt_timeout = None, rt_delay = delay, rt_backoff_factor = None,
      rt_backoff_max = Some 120, rt_on_exception = None, rt_exc_type = ExcClass (\<lambda>_. True),
      rt_no_raise = False, rt_start = 0, rt_clock = (\<lambda>_. 0)\<rparr>"

section \<open>What the loop does\<close>

text \<open>The state from which the \<open>n\<close>-th attempt starts, when all before it failed and were reset.\<close>

definition reset_of :: "('s, unit) sm option \<Rightarrow> ('s, unit) sm" where
  "reset_of reset = (case reset of None \<Rightarrow> sret () | Some m \<Rightarrow> m)"

fun attempt_state :: "('s, 'a) sm \<Rightarrow> ('s, unit) sm option \<Rightarrow> nat \<Rightarrow> 's \<Rightarrow> 's" where
  "attempt_state func reset 0 s = s"
| "attempt_state func reset (Suc n) s =
     attempt_state func reset n (snd (reset_of reset (snd (func s))))"

definition fails :: "retry_options \<Rightarrow> ('s, 'a) sm \<Rightarrow> ('s, unit) sm option \<Rightarrow> 's \<Rightarrow> bool" where
  "fails opts func reset s \<longleftrightarrow>
     (\<exists>e. fst (func s) = Inl e \<and> exc_caught (rt_exc_type opts) e \<and> exc_retried (rt_exc_type opts) e) \<and>
     (\<exists>u. fst (reset_of reset (snd (func s))) = Inr u)"

lemma retry_loop_fail:
  assumes "fails opts func reset s" and "\<not> retries_over opts (Suc k)"
  shows "retry_loop opts func reset (Suc fuel) k (s, log) =
    retry_loop opts func reset fuel (Suc k)
      (snd (reset_of reset (snd (func s))), log @ [cur_delay opts (Suc k)])"
proof -
  obtain e s' where f: "func s = (Inl e, s')" "exc_caught (rt_exc_type opts) e"
      "exc_retried (rt_exc_type opts) e"
    using assms(1) by (cases "func s") (auto simp: fails_def)
  moreover obtain t where "reset_of reset s' = (Inr (), t)"
    using assms(1) f by (cases "reset_of reset s'") (auto simp: fails_def)
  then have "(case reset of None \<Rightarrow> (Inr (), s') | Some m \<Rightarrow> m s') = (Inr (), t)"
    by (cases reset) (auto simp: reset_of_def sret_apply)
  ultimately show ?thesis
    using assms(2) \<open>reset_of reset s' = (Inr (), t)\<close> by simp
qed

lemma retry_loop_success:
  assumes "fst (func s) = Inr x"
  shows "retry_loop opts func reset (Suc fuel) k (s, log) = (Inr (Inl x), (snd (func s), log))"
  using assms by (cases "func s") simp

lemma call_with_retry_success:
  "fst (func s) = Inr x \<Longrightarrow>
   call_with_retry opts func reset (Suc fuel) s = (Inr (Inl x), snd (func s))"
  by (cases "func s") (simp add: call_with_retry_def)

text \<open>Simulating the function and the reset simulates the loop.\<close>

lemma ssim_call_with_retry [sim_intros]:
  assumes f: "ssim R func func'" and r: "ssim R reset reset'"
  shows "ssim R (call_with_retry opts func (Some reset) fuel) (call_with_retry opts func' (Some reset') fuel)"
proof -
  have "fst (retry_loop opts func (Some reset) fuel k (s, log)) =
      fst (retry_loop opts func' (Some reset') fuel k (t, log)) \<and>
    R (fst (snd (retry_loop opts func (Some reset) fuel k (s, log))))
      (fst (snd (retry_loop opts func' (Some reset') fuel k (t, log))))" if "R s t" for k s t log
    using that
  proof (induction fuel arbitrary: k s t log)
    case (Suc fuel)
    from ssimE [OF f Suc.prems] obtain a s1 t1 where a: "func s = (a, s1)" "func' t = (a, t1)" "R s1 t1" .
    from ssimE [OF r a(3)] obtain b s2 t2 where b: "reset s1 = (b, s2)" "reset' t1 = (b, t2)" "R s2 t2" .
    show ?case
      using a b Suc.IH [OF b(3)] by (cases a; cases b) (simp_all add: Let_def)
  qed simp
  then show ?thesis
    by (auto simp: ssim_def call_with_retry_def split: prod.split) (metis fst_conv snd_conv)+
qed

text \<open>After \<open>n\<close> failures within the limits the loop is at its \<open>n\<close>-th attempt.\<close>

lemma retry_loop_attempts:
  assumes "\<forall>i < n. fails opts func reset (attempt_state func reset i s)"
    and "\<forall>i < n. \<not> retries_over opts (k + Suc i)"
  shows "retry_loop opts func reset (n + fuel) k (s, log) =
    retry_loop opts func reset fuel (k + n)
      (attempt_state func reset n s, log @ List.map (cur_delay opts) [Suc k ..< Suc (k + n)])"
  using assms
proof (induction n arbitrary: k s log)
  case (Suc n)
  let ?s = "snd (reset_of reset (snd (func s)))"
  have "retry_loop opts func reset (Suc (n + fuel)) k (s, log) =
      retry_loop opts func reset (n + fuel) (Suc k) (?s, log @ [cur_delay opts (Suc k)])"
    using Suc.prems by (intro retry_loop_fail) auto
  also have "\<dots> = retry_loop opts func reset fuel (Suc k + n)
      (attempt_state func reset n ?s,
       (log @ [cur_delay opts (Suc k)]) @ List.map (cur_delay opts) [Suc (Suc k) ..< Suc (Suc k + n)])"
    using Suc.prems by (intro Suc.IH) (auto dest: spec [of _ "Suc _"])
  also have "(log @ [cur_delay opts (Suc k)]) @
        List.map (cur_delay opts) [Suc (Suc k) ..< Suc (Suc k + n)] =
      log @ List.map (cur_delay opts) [Suc k ..< Suc (k + Suc n)]"
    by (subst upt_conv_Cons [of "Suc k"]) simp_all
  finally show ?case
    by (simp only: attempt_state.simps add_Suc add_Suc_right)
qed simp

text \<open>The attempt that ends the loop.\<close>

definition attempt_result :: "retry_options \<Rightarrow> 'a result \<Rightarrow> ('a + py_error) result" where
  "attempt_result opts r =
     (case r of
        Inr x \<Rightarrow> Inr (Inl x)
      | Inl e \<Rightarrow>
          if exc_caught (rt_exc_type opts) e \<and> exc_retried (rt_exc_type opts) e \<and> rt_no_raise opts
          then Inr (Inr e) else Inl e)"

lemma retry_loop_last:
  assumes "rt_on_exception opts = None" and "\<And>t. fst (reset_of reset t) = Inr ()"
    and "\<not> fails opts func reset s \<or> retries_over opts (Suc k)"
  shows "\<exists>log'. retry_loop opts func reset (Suc fuel) k (s, log) =
    (attempt_result opts (fst (func s)), snd (func s), log')"
  using assms
  by (cases "func s") (auto simp: attempt_result_def on_exception_def fails_def split: sum.split)

text \<open>C28: with a limit \<open>k\<close> on the retries, \<^verbatim>\<open>call_with_retry\<close> ends after at most \<open>k + 1\<close> attempts, each
  from the state the reset function made of the failure before; it gives the result of the first
  attempt that succeeds or whose exception is not retried, or of the one at which the limit or the
  timeout is exceeded.\<close>

theorem retry_call_correct:
  assumes "rt_times opts = Some k" and "rt_on_exception opts = None"
    and "\<And>t. fst (reset_of reset t) = Inr ()" and "k < fuel"
  shows "\<exists>n \<le> k. (\<forall>i < n. fails opts func reset (attempt_state func reset i s) \<and>
        \<not> retries_over opts (Suc i)) \<and>
    (fails opts func reset (attempt_state func reset n s) \<longrightarrow> retries_over opts (Suc n)) \<and>
    call_with_retry opts func reset fuel s =
      (attempt_result opts (fst (func (attempt_state func reset n s))),
       snd (func (attempt_state func reset n s)))"
proof -
  define P where "P i \<longleftrightarrow> \<not> fails opts func reset (attempt_state func reset i s) \<or>
    retries_over opts (Suc i)" for i
  define n where "n = (LEAST i. P i)"
  have "P k" using assms(1) by (simp add: P_def retries_over_def)
  then have n: "P n" "n \<le> k" by (simp_all add: n_def LeastI Least_le)
  have before: "\<forall>i < n. \<not> P i" using not_less_Least by (auto simp: n_def)
  from n assms(4) obtain f where f: "fuel = n + Suc f" by (metis less_imp_Suc_add le_less_trans add_Suc_right)
  have "retry_loop opts func reset fuel 0 (s, []) =
      retry_loop opts func reset (Suc f) n
        (attempt_state func reset n s, [] @ List.map (cur_delay opts) [Suc 0 ..< Suc n])"
    using retry_loop_attempts [of n opts func reset s 0 "Suc f" "[]"] before f by (simp add: P_def)
  moreover obtain log where "retry_loop opts func reset (Suc f) n
        (attempt_state func reset n s, [] @ List.map (cur_delay opts) [Suc 0 ..< Suc n]) =
      (attempt_result opts (fst (func (attempt_state func reset n s))),
       snd (func (attempt_state func reset n s)), log)"
    using retry_loop_last [OF assms(2,3), of func "attempt_state func reset n s" n] n(1)
    unfolding P_def by blast
  ultimately show ?thesis
    using n before by (intro exI [of _ n]) (auto simp: call_with_retry_def P_def)
qed

theorem retry_call_correct_witness:
  "call_with_retry (retry_defaults (Some 3) 1)
     (\<lambda>n::nat. if n < 2 then (Inl OSError, n + 1) else (Inr (n + 40), n)) None 9 0 = (Inr (Inl 42), 2)"
proof -
  let ?f = "\<lambda>n::nat. (if n < 2 then (Inl OSError, n + 1) else (Inr (n + 40), n)) :: nat result \<times> nat"
  let ?o = "retry_defaults (Some 3) 1"
  have st: "attempt_state ?f None 0 0 = 0" "attempt_state ?f None 1 0 = 1"
      "attempt_state ?f None 2 0 = 2"
    by (simp_all add: reset_of_def sret_apply numeral_eq_Suc)
  obtain n where n: "n \<le> 3" "\<forall>i < n. fails ?o ?f None (attempt_state ?f None i 0)"
      "fails ?o ?f None (attempt_state ?f None n 0) \<longrightarrow> retries_over ?o (Suc n)"
      "call_with_retry ?o ?f None 9 0 =
        (attempt_result ?o (fst (?f (attempt_state ?f None n 0))), snd (?f (attempt_state ?f None n 0)))"
    using retry_call_correct [of ?o 3 None 9 ?f 0]
    by (auto simp: retry_defaults_def reset_of_def sret_apply)
  have f0: "fails ?o ?f None s \<longleftrightarrow> s < 2" for s
    by (auto simp: fails_def retry_defaults_def reset_of_def sret_apply)
  have over: "retries_over ?o (Suc m) \<longleftrightarrow> 3 \<le> m" for m
    by (auto simp: retries_over_def retry_defaults_def)
  have "n = 2"
  proof -
    have "n \<noteq> 0"
    proof
      assume "n = 0"
      with n(3) f0 [of 0] over [of 0] show False by simp
    qed
    moreover have "n \<noteq> 1"
    proof
      assume n1: "n = 1"
      with n(3) st(2) f0 [of 1] have "retries_over ?o (Suc n)" by (simp only: n1)
      with over [of n] n1 show False by simp
    qed
    moreover have "\<not> 2 < n"
    proof
      assume "2 < n"
      with n(2) have "fails ?o ?f None (attempt_state ?f None 2 0)" by blast
      then show False by (simp only: st(3) f0 less_irrefl)
    qed
    ultimately show ?thesis by simp
  qed
  with n(4) st(3) show ?thesis by (simp add: attempt_result_def)
qed

text \<open>The class given as \<^verbatim>\<open>exc_type\<close> plays no part: whatever the class, every exception is retried.\<close>

theorem exc_type_class_ignored:
  "call_with_retry (opts\<lparr>rt_exc_type := ExcClass c\<rparr>) func reset fuel s =
   call_with_retry (opts\<lparr>rt_exc_type := ExcClass (\<lambda>_. True)\<rparr>) func reset fuel s"
proof -
  have "retry_loop (opts\<lparr>rt_exc_type := ExcClass c\<rparr>) func reset fuel k sl =
      retry_loop (opts\<lparr>rt_exc_type := ExcClass (\<lambda>_. True)\<rparr>) func reset fuel k sl" for k sl
  proof (induction fuel arbitrary: k sl)
    case (Suc fuel)
    have "cur_delay (opts\<lparr>rt_exc_type := e\<rparr>) = cur_delay opts"
      "retries_over (opts\<lparr>rt_exc_type := e\<rparr>) = retries_over opts"
      "on_exception (opts\<lparr>rt_exc_type := e\<rparr>) = on_exception opts" for e
      by (simp_all add: cur_delay_def retries_over_def on_exception_def fun_eq_iff split: option.split)
    then show ?case
      by (cases sl) (simp add: Suc.IH Let_def split: sum.split prod.split)
  qed simp
  then show ?thesis by (simp add: call_with_retry_def)
qed

text \<open>C29: when \<^verbatim>\<open>on_exception_func\<close> answers false, the limit on the retries is not observed: a function that
  always fails is called again without end, whatever \<^verbatim>\<open>retry_times\<close> and \<^verbatim>\<open>retry_timeout\<close> say.\<close>

theorem retry_limit_bypassed:
  assumes "\<And>e. on_exception opts e = False"
    and "\<And>t. fst (func t) = Inl OSError" and "\<And>t. fst (reset_of reset t) = Inr ()"
    and "rt_exc_type opts = ExcClass c"
  shows "fst (call_with_retry opts func reset fuel s) = Inl FuelExhausted"
proof -
  have "fst (retry_loop opts func reset fuel k (t, log)) = Inl FuelExhausted" for k t log
  proof (induction fuel arbitrary: k t log)
    case (Suc fuel)
    obtain t' where "func t = (Inl OSError, t')" using assms(2) [of t] by (cases "func t") auto
    moreover obtain u where "reset_of reset t' = (Inr (), u)"
      using assms(3) [of t'] by (cases "reset_of reset t'") auto
    then have "(case reset of None \<Rightarrow> (Inr (), t') | Some m \<Rightarrow> m t') = (Inr (), u)"
      by (cases reset) (auto simp: reset_of_def sret_apply)
    ultimately show ?case using assms(1,4) Suc.IH by (simp add: Let_def)
  qed simp
  then show ?thesis by (simp add: call_with_retry_def split: prod.split) (metis fst_conv)
qed

theorem retry_limit_bypassed_witness:
  "fst (call_with_retry ((retry_defaults (Some 0) 1)\<lparr>rt_on_exception := Some (\<lambda>_. False)\<rparr>)
     (\<lambda>n::nat. (Inl OSError :: nat result, n)) None 100 0) = Inl FuelExhausted"
  by (rule retry_limit_bypassed [where c = "\<lambda>_. True"])
    (simp_all add: on_exception_def retry_defaults_def reset_of_def sret_apply)

end
