(* ===== verification/Record_Reader.thy ===== *)
theory Record_Reader
  imports Record_Writer Partition_Spec Retry_Call
begin

text \<open>
  \<^verbatim>\<open>odps/tunnel/io/reader.py\<close>: \<^verbatim>\<open>BaseTunnelRecordReader\<close>, which decodes records field by field,
  verifies the checksum of each record and the footer, and reopens its stream at the current record
  after a failure. The decoder's input is read through an operation \<open>rd\<close>, as in \<open>Pb_Stream\<close>. A
  stream may be endless, so the loop over the fields of a record is bounded by fuel; a run on \<open>n\<close>
  bytes needs no more than \<open>n + 1\<close> rounds. Numpy is not installed; wall-clock metrics are left out.
\<close>

section \<open>State\<close>

record reader_options =
  ro_read_limit :: "nat option"
  ro_require_footer :: bool
  ro_struct_as_dict :: bool
  ro_overflow_as_none :: bool
  ro_append_partitions :: bool

text \<open>
  \<open>rr_opens\<close> is what successive calls of the stream creator answer, each for the record number it is
  given: a stream, \<^verbatim>\<open>None\<close>, or an exception.
\<close>

record 's record_reader =
  rr_columns :: "column list"
  rr_partition_spec :: "partition_spec option"
  rr_reader :: "'s in_stream option"
  rr_crc :: checksum
  rr_crccrc :: checksum
  rr_cursor :: nat
  rr_attempt_rows :: nat
  rr_last_n_bytes :: nat
  rr_footer_seen :: bool
  rr_injected :: "(nat \<times> py_error) option"
  rr_metrics :: "bytes option"
  rr_opens :: "(nat \<Rightarrow> 's option result) list"

definition reader_columns ::
    "odps_schema \<Rightarrow> string list option \<Rightarrow> reader_options \<Rightarrow> column list result" where
  "reader_columns schema columns opts =
     (case columns of
        None \<Rightarrow> Inr (if ro_append_partitions opts then all_columns schema
                     else os_columns schema)
      | Some names \<Rightarrow> rmap (os_get_name schema) names)"

fun spec_truthy :: "spec_arg \<Rightarrow> bool" where
  "spec_truthy SpecNone = False"
| "spec_truthy (SpecObj kvs) = (kvs \<noteq> [])"
| "spec_truthy (SpecDict kvs) = (kvs \<noteq> [])"
| "spec_truthy (SpecStr s) = (s \<noteq> [])"
| "spec_truthy (SpecList sps) = (sps \<noteq> [])"

definition reader_new ::
    "odps_schema \<Rightarrow> string list option \<Rightarrow> spec_arg \<Rightarrow> reader_options \<Rightarrow>
     (nat \<Rightarrow> 's option result) list \<Rightarrow> 's record_reader result" where
  "reader_new schema columns spec opts opens =
     rbind (reader_columns schema columns opts) (\<lambda>cols.
       rbind (if spec_truthy spec then rbind (spec_new spec) (\<lambda>kv. Inr (Some kv)) else Inr None)
         (\<lambda>ps. Inr
           \<lparr>rr_columns = cols, rr_partition_spec = ps, rr_reader = None,
            rr_crc = checksum_new ''crc32c'', rr_crccrc = checksum_new ''crc32c'', rr_cursor = 0,
            rr_attempt_rows = 0, rr_last_n_bytes = 0, rr_footer_seen = False, rr_injected = None,
            rr_metrics = None, rr_opens = opens\<rparr>))"

text \<open>A method of \<^verbatim>\<open>self._reader\<close>, of \<^verbatim>\<open>self._crc\<close>, of \<^verbatim>\<open>self._crccrc\<close>.\<close>

definition decoding :: "('s in_stream, 'a) sm \<Rightarrow> ('s record_reader, 'a) sm" where
  "decoding m = (\<lambda>s. case rr_reader s of
     None \<Rightarrow> (Inl AttributeError, s)
   | Some d \<Rightarrow> (case m d of (r, d') \<Rightarrow> (r, s\<lparr>rr_reader := Some d'\<rparr>)))"

definition on_rcrc :: "(checksum, 'a) sm \<Rightarrow> ('s record_reader, 'a) sm" where
  "on_rcrc m = (\<lambda>s. case m (rr_crc s) of (r, c) \<Rightarrow> (r, s\<lparr>rr_crc := c\<rparr>))"

definition on_rcrccrc :: "(checksum, 'a) sm \<Rightarrow> ('s record_reader, 'a) sm" where
  "on_rcrccrc m = (\<lambda>s. case m (rr_crccrc s) of (r, c) \<Rightarrow> (r, s\<lparr>rr_crccrc := c\<rparr>))"

definition inject_error :: "nat \<Rightarrow> py_error \<Rightarrow> ('s record_reader, unit) sm" where
  "inject_error cursor exc = smod (\<lambda>s. s\<lparr>rr_injected := Some (cursor, exc)\<rparr>)"

definition get_attempt_bytes :: "'s record_reader \<Rightarrow> nat" where
  "get_attempt_bytes s = (case rr_reader s of None \<Rightarrow> 0 | Some d \<Rightarrow> is_pos d)"

definition reader_n_bytes :: "'s record_reader \<Rightarrow> nat" where
  "reader_n_bytes s =
     (case rr_reader s of None \<Rightarrow> rr_last_n_bytes s | Some d \<Rightarrow> rr_last_n_bytes s + is_pos d)"

text \<open>Opening and closing the stream; an exhausted list of answers is a dead connection.\<close>

definition open_stream :: "('s record_reader, 's option) sm" where
  "open_stream = (\<lambda>s. case rr_opens s of
     [] \<Rightarrow> (Inl OSError, s)
   | answer # rest \<Rightarrow> (answer (rr_cursor s), s\<lparr>rr_opens := rest\<rparr>))"

definition reopen_reader :: "('s record_reader, unit) sm" where
  "reopen_reader =
     sthen (smod (\<lambda>s. s\<lparr>rr_last_n_bytes := if rr_cursor s \<noteq> 0 then get_attempt_bytes s else 0,
         rr_crc := checksum_new ''crc32c'', rr_crccrc := checksum_new ''crc32c'',
         rr_attempt_rows := 0, rr_footer_seen := False\<rparr>))
       (sbind open_stream (\<lambda>stream.
         smod (\<lambda>s. s\<lparr>rr_reader := map_option (\<lambda>i. \<lparr>is_input = i, is_pos = 0\<rparr>) stream\<rparr>)))"

section \<open>Fields\<close>

text \<open>Values that can be keys of a dictionary.\<close>

fun hashable :: "py_value \<Rightarrow> bool" where
  "hashable (PList vs) = False"
| "hashable (PDict kvs) = False"
| "hashable (PTuple vs) = list_all hashable vs"
| "hashable v = True"

definition py_dict :: "py_value list \<Rightarrow> py_value list \<Rightarrow> py_value result" where
  "py_dict keys vals =
     (if list_all (\<lambda>(k, _). hashable k) (zip keys vals)
      then Inr (PDict (fold (\<lambda>(k, v) d. AList.update k v d) (zip keys vals) []))
      else Inl TypeError)"

text \<open>\<^verbatim>\<open>date(1970, 1, 1) + timedelta(delta_day)\<close>: the years 1 to 9999.\<close>

definition to_date :: "int \<Rightarrow> py_value result" where
  "to_date delta_day =
     (if - 719162 \<le> delta_day \<and> delta_day \<le> 2932896 then Inr (PDate delta_day)
      else Inl OverflowError)"

definition overflow_none :: "reader_options \<Rightarrow> py_value result \<Rightarrow> py_value result" where
  "overflow_none opts r =
     (if r = Inl DatetimeOverflowError \<and> ro_overflow_as_none opts then Inr PNone else r)"

definition rapply :: "('a \<Rightarrow> 'b) \<Rightarrow> 'a result \<Rightarrow> 'b result" where
  "rapply f r = rbind r (\<lambda>x. Inr (f x))"

definition read_long_value :: "'s reading \<Rightarrow> ('s record_reader, int) sm" where
  "read_long_value rd =
     sbind (decoding (read_sint64 rd)) (\<lambda>v. sthen (on_rcrc (update_long v)) (sret v))"

definition read_int_value :: "'s reading \<Rightarrow> ('s record_reader, int) sm" where
  "read_int_value rd =
     sbind (decoding (read_sint32 rd)) (\<lambda>v. sthen (on_rcrc (update_int v)) (sret v))"

definition read_bytes_value :: "'s reading \<Rightarrow> ('s record_reader, py_value) sm" where
  "read_bytes_value rd =
     sbind (decoding (read_string rd)) (\<lambda>b. sthen (on_rcrc (checksum_update b)) (sret (PBytes b)))"

definition read_float_value :: "'s reading \<Rightarrow> ('s record_reader, py_value) sm" where
  "read_float_value rd =
     sbind (decoding (read_float rd)) (\<lambda>w. let x = float_widen w in
       sbind (slift (float_narrow x)) (\<lambda>y. sthen (on_rcrc (update_float y)) (sret (PFloat x))))"

definition read_double_value :: "'s reading \<Rightarrow> ('s record_reader, py_value) sm" where
  "read_double_value rd =
     sbind (decoding (read_double rd)) (\<lambda>x. sthen (on_rcrc (update_double x)) (sret (PFloat x)))"

definition read_bool_value :: "'s reading \<Rightarrow> ('s record_reader, py_value) sm" where
  "read_bool_value rd =
     sbind (decoding (read_bool rd)) (\<lambda>b. sthen (on_rcrc (update_bool b)) (sret (PBool b)))"

definition read_timestamp ::
    "'s reading \<Rightarrow> codec_env \<Rightarrow> reader_options \<Rightarrow> bool \<Rightarrow> ('s record_reader, py_value) sm" where
  "read_timestamp rd env opts ntz =
     sbind (read_long_value rd) (\<lambda>l_val. sbind (read_int_value rd) (\<lambda>nano_secs.
       slift (overflow_none opts
         (rbind (from_mills env ntz (l_val * 1000)) (\<lambda>t.
           rapply PTimestamp (pd_timestamp env t nano_secs))))))"

definition read_interval_day_time ::
    "'s reading \<Rightarrow> codec_env \<Rightarrow> ('s record_reader, py_value) sm" where
  "read_interval_day_time rd env =
     sbind (read_long_value rd) (\<lambda>l_val. sbind (read_int_value rd) (\<lambda>nano_secs.
       slift (rapply PTimedelta (pd_timedelta env l_val nano_secs))))"

definition read_json :: "'s reading \<Rightarrow> codec_env \<Rightarrow> ('s record_reader, py_value) sm" where
  "read_json rd env =
     sbind (decoding (read_string rd)) (\<lambda>sval. sbind (slift (json_loads env sval)) (\<lambda>val.
       sthen (on_rcrc (checksum_update sval)) (sret val)))"

definition read_prim ::
    "'s reading \<Rightarrow> codec_env \<Rightarrow> reader_options \<Rightarrow> prim \<Rightarrow> ('s record_reader, py_value) sm" where
  "read_prim rd env opts p =
     (case p of
        Float \<Rightarrow> read_float_value rd
      | Double \<Rightarrow> read_double_value rd
      | Boolean \<Rightarrow> read_bool_value rd
      | Tinyint \<Rightarrow> sbind (read_long_value rd) (\<lambda>v. sret (PInt v))
      | Smallint \<Rightarrow> sbind (read_long_value rd) (\<lambda>v. sret (PInt v))
      | IntT \<Rightarrow> sbind (read_long_value rd) (\<lambda>v. sret (PInt v))
      | Bigint \<Rightarrow> sbind (read_long_value rd) (\<lambda>v. sret (PInt v))
      | String \<Rightarrow> read_bytes_value rd
      | Binary \<Rightarrow> read_bytes_value rd
      | Datetime \<Rightarrow>
          sbind (read_long_value rd) (\<lambda>v.
            slift (overflow_none opts (rapply PDatetime (from_mills env False v))))
      | Date \<Rightarrow> sbind (read_long_value rd) (\<lambda>v. slift (to_date v))
      | Timestamp \<Rightarrow> read_timestamp rd env opts False
      | TimestampNTZ \<Rightarrow> read_timestamp rd env opts True
      | IntervalDayTime \<Rightarrow> read_interval_day_time rd env
      | IntervalYearMonth \<Rightarrow> sbind (read_long_value rd) (\<lambda>v. sret (PMonthdelta v))
      | Json \<Rightarrow> read_json rd env
      | _ \<Rightarrow> sraise OSError)"

fun read_items ::
    "'s reading \<Rightarrow> ('s record_reader, py_value) sm \<Rightarrow> nat \<Rightarrow> ('s record_reader, py_value list) sm" where
  "read_items rd rf 0 = sret []"
| "read_items rd rf (Suc n) =
     sbind (decoding (read_bool rd)) (\<lambda>null. sbind (if null then sret PNone else rf) (\<lambda>v.
       sbind (read_items rd rf n) (\<lambda>vs. sret (v # vs))))"

definition read_array ::
    "'s reading \<Rightarrow> ('s record_reader, py_value) sm \<Rightarrow> ('s record_reader, py_value list) sm" where
  "read_array rd rf = sbind (decoding (read_uint32 rd)) (\<lambda>size. read_items rd rf (nat size))"

fun read_struct_fields ::
    "'s reading \<Rightarrow> (odps_type \<Rightarrow> ('s record_reader, py_value) sm) \<Rightarrow> (string \<times> odps_type) list \<Rightarrow>
     ('s record_reader, py_value list) sm" where
  "read_struct_fields rd rf [] = sret []"
| "read_struct_fields rd rf (f # fs) =
     sbind (decoding (read_bool rd)) (\<lambda>null. sbind (if null then sret PNone else rf (snd f)) (\<lambda>v.
       sbind (read_struct_fields rd rf fs) (\<lambda>vs. sret (v # vs))))"

lemma read_struct_fields_cong [fundef_cong]:
  assumes "fs = fs'" and "\<And>k t. (k, t) \<in> set fs' \<Longrightarrow> rf t = rf' t"
  shows "read_struct_fields rd rf fs = read_struct_fields rd rf' fs'"
proof -
  have "(\<And>k t. (k, t) \<in> set fs \<Longrightarrow> rf t = rf' t) \<Longrightarrow>
      read_struct_fields rd rf fs = read_struct_fields rd rf' fs"
  proof (induction fs)
    case (Cons f fs)
    have f: "rf (snd f) = rf' (snd f)" by (rule Cons.prems [of "fst f"]) simp
    have "read_struct_fields rd rf fs = read_struct_fields rd rf' fs"
      by (rule Cons.IH, rule Cons.prems) auto
    with f show ?case by (simp only: read_struct_fields.simps)
  qed simp
  with assms show ?thesis by blast
qed

fun read_elements ::
    "('s record_reader, py_value) sm \<Rightarrow> nat \<Rightarrow> ('s record_reader, py_value list) sm" where
  "read_elements rf 0 = sret []"
| "read_elements rf (Suc n) = sbind rf (\<lambda>v. sbind (read_elements rf n) (\<lambda>vs. sret (v # vs)))"

definition read_vector ::
    "'s reading \<Rightarrow> ('s record_reader, py_value) sm \<Rightarrow> int \<Rightarrow> ('s record_reader, py_value) sm" where
  "read_vector rd rf dimension =
     sbind (decoding (read_uint32 rd)) (\<lambda>dim.
       if dim \<noteq> dimension then sraise ValueError
       else sbind (read_elements rf (nat dim)) (\<lambda>vs. sret (PList vs)))"

definition struct_result ::
    "reader_options \<Rightarrow> (string \<times> odps_type) list \<Rightarrow> py_value list \<Rightarrow> py_value" where
  "struct_result opts fs vs =
     (if ro_struct_as_dict opts
      then PDict (fold (\<lambda>(k, v) d. AList.update (str_of k) v d) (zip (List.map fst fs) vs) [])
      else PTuple vs)"

function read_field ::
    "'s reading \<Rightarrow> codec_env \<Rightarrow> reader_options \<Rightarrow> odps_type \<Rightarrow> ('s record_reader, py_value) sm" where
  "read_field rd env opts (Prim p) = read_prim rd env opts p"
| "read_field rd env opts (Varchar n) = read_bytes_value rd"
| "read_field rd env opts (Char n) = read_bytes_value rd"
| "read_field rd env opts (Decimal p s) = read_bytes_value rd"
| "read_field rd env opts (Array t) =
     sbind (read_array rd (read_field rd env opts t)) (\<lambda>vs. sret (PList vs))"
| "read_field rd env opts (Map kt vt) =
     sbind (read_array rd (read_field rd env opts kt)) (\<lambda>keys.
       sbind (read_array rd (read_field rd env opts vt)) (\<lambda>vals. slift (py_dict keys vals)))"
| "read_field rd env opts (Struct fs) =
     sbind (read_struct_fields rd (\<lambda>t. read_field rd env opts t) fs) (\<lambda>vs.
       sret (struct_result opts fs vs))"
| "read_field rd env opts (Vector t n) = read_vector rd (read_field rd env opts t) n"
  by pat_completeness auto
termination
  by (relation "measure (\<lambda>(_, _, _, t). size t)")
    (auto simp: less_Suc_eq_le elim!: size_list_estimation')

section \<open>Records\<close>

text \<open>\<^verbatim>\<open>record[i] = self._read_field(...)\<close> for the field number \<open>index\<close>.\<close>

definition read_cell ::
    "'s reading \<Rightarrow> codec_env \<Rightarrow> reader_options \<Rightarrow> nat \<Rightarrow> rec \<Rightarrow> ('s record_reader, rec) sm" where
  "read_cell rd env opts index record =
     sthen (on_rcrc (update_int (int index)))
       (sbind (sget rr_columns) (\<lambda>cols.
         sbind (read_field rd env opts (col_type (cols ! (index - 1)))) (\<lambda>v.
           case rec_set (base_env env) (index - 1) v record of
             (Inl e, _) \<Rightarrow> sraise e
           | (Inr _, record') \<Rightarrow> sret record')))"

definition check_record :: "'s reading \<Rightarrow> ('s record_reader, unit) sm" where
  "check_record rd =
     sbind (sget rr_crc) (\<lambda>c. sbind (slift (crc_value c)) (\<lambda>v. let checksum = long_to_int v in
       sbind (decoding (read_uint32 rd)) (\<lambda>stored.
         if stored \<noteq> int_to_uint checksum then sraise ChecksumError
         else sthen (smod (\<lambda>s. s\<lparr>rr_crc := checksum_reset (rr_crc s)\<rparr>))
                (on_rcrccrc (update_int checksum)))))"

text \<open>The metrics the server may send between the record count and the checksum.\<close>

definition read_metrics :: "'s reading \<Rightarrow> int \<times> int \<Rightarrow> ('s record_reader, int) sm" where
  "read_metrics rd tag =
     (case tag of (idx_of_checksum, wire_type) \<Rightarrow>
        if wire_type \<noteq> WIRETYPE_LENGTH_DELIMITED then sraise OSError
        else
          sthen (on_rcrc (update_int idx_of_checksum))
            (sbind (decoding (read_string rd)) (\<lambda>metrics.
              sthen (smod (\<lambda>s. s\<lparr>rr_metrics := Some metrics\<rparr>))
                (sthen (on_rcrc (checksum_update metrics))
                  (sbind (decoding (read_field_number_and_wire_type rd)) (\<lambda>(idx, _).
                    if idx \<noteq> TUNNEL_END_METRICS then sraise OSError
                    else
                      sbind (sget rr_crc) (\<lambda>c. sbind (slift (crc_value c)) (\<lambda>v.
                        let checksum = long_to_int v in
                        sthen (smod (\<lambda>s. s\<lparr>rr_crc := checksum_reset (rr_crc s)\<rparr>))
                          (sbind (decoding (read_uint32 rd)) (\<lambda>stored.
                            if int_to_uint checksum \<noteq> stored then sraise ChecksumError
                            else sbind (decoding (read_field_number_and_wire_type rd))
                                   (\<lambda>(idx', _). sret idx')))))))))))"

definition read_footer :: "'s reading \<Rightarrow> ('s record_reader, unit) sm" where
  "read_footer rd =
     sbind (decoding (read_sint64 rd)) (\<lambda>count. sbind (sget rr_attempt_rows) (\<lambda>n.
       if int n \<noteq> count then sraise OSError
       else
         sbind (decoding (read_field_number_and_wire_type rd)) (\<lambda>tag.
           sbind (if fst tag \<noteq> TUNNEL_META_CHECKSUM then read_metrics rd tag else sret (fst tag))
             (\<lambda>idx_of_checksum.
               if idx_of_checksum \<noteq> TUNNEL_META_CHECKSUM then sraise OSError
               else
                 sbind (sget rr_crccrc) (\<lambda>c. sbind (slift (crc_value c)) (\<lambda>v.
                   sbind (decoding (read_uint32 rd)) (\<lambda>stored.
                     if v \<noteq> stored then sraise ChecksumError
                     else smod (\<lambda>s. s\<lparr>rr_footer_seen := True\<rparr>))))))))"

fun append_partition_values ::
    "py_env \<Rightarrow> partition_spec \<Rightarrow> rec \<Rightarrow> rec result" where
  "append_partition_values env [] record = Inr record"
| "append_partition_values env ((k, v) # kvs) record =
     (case set_by_name env k (str_of v) record of
        (Inl e, record') \<Rightarrow>
          if e = KeyError then append_partition_values env kvs record else Inl e
      | (Inr _, record') \<Rightarrow> append_partition_values env kvs record')"

definition with_partitions ::
    "codec_env \<Rightarrow> reader_options \<Rightarrow> partition_spec option \<Rightarrow> rec \<Rightarrow> rec result" where
  "with_partitions env opts spec record =
     (case spec of
        Some kvs \<Rightarrow>
          if ro_append_partitions opts then append_partition_values (base_env env) kvs record
          else Inr record
      | None \<Rightarrow> Inr record)"

definition finish_record ::
    "codec_env \<Rightarrow> reader_options \<Rightarrow> rec \<Rightarrow> ('s record_reader, rec option) sm" where
  "finish_record env opts record = (\<lambda>s.
     case with_partitions env opts (rr_partition_spec s) record of
       Inl e \<Rightarrow> (Inl e, s)
     | Inr record' \<Rightarrow>
         (Inr (Some record'),
          s\<lparr>rr_cursor := rr_cursor s + 1, rr_attempt_rows := rr_attempt_rows s + 1\<rparr>))"

text \<open>The stream ended where a tag should be: with the footer required, an error.\<close>

definition end_of_stream :: "reader_options \<Rightarrow> ('s record_reader, rec option) sm" where
  "end_of_stream opts = (\<lambda>s.
     if ro_require_footer opts \<and> \<not> rr_footer_seen s then (Inl (StreamTruncated (rr_cursor s)), s)
     else (Inr None, s))"

fun record_loop ::
    "'s reading \<Rightarrow> codec_env \<Rightarrow> reader_options \<Rightarrow> nat \<Rightarrow> rec \<Rightarrow>
     ('s record_reader, rec option) sm" where
  "record_loop rd env opts 0 record s = (Inl FuelExhausted, s)"
| "record_loop rd env opts (Suc fuel) record s =
     (case decoding (read_field_number_and_wire_type rd) s of
        (Inl e, s') \<Rightarrow> if e = DecodeError then end_of_stream opts s' else (Inl e, s')
      | (Inr (index, _), s') \<Rightarrow>
          if index = 0 then record_loop rd env opts fuel record s'
          else if index = TUNNEL_END_RECORD then
            sthen (check_record rd) (finish_record env opts record) s'
          else if index = TUNNEL_META_COUNT then sthen (read_footer rd) (sret None) s'
          else if int (length (rr_columns s')) < index then (Inl OSError, s')
          else sbind (read_cell rd env opts (nat index) record)
                 (\<lambda>record'. record_loop rd env opts fuel record') s')"

definition MAX_FIELD_SIZE :: nat where "MAX_FIELD_SIZE = 2 ^ 63 - 1"

definition blank_record :: "column list \<Rightarrow> rec" where
  "blank_record cols =
     rec_blank cols (name_indexes (List.map col_name cols)) (Some MAX_FIELD_SIZE)"

text \<open>
  \<^verbatim>\<open>self._injected_error = None\<close> comes before \<^verbatim>\<open>raise self._injected_error[1]\<close>, so that what is raised
  is the \<^verbatim>\<open>TypeError\<close> of subscripting \<^verbatim>\<open>None\<close>.
\<close>

definition read_single_record ::
    "'s reading \<Rightarrow> codec_env \<Rightarrow> reader_options \<Rightarrow> nat \<Rightarrow> ('s record_reader, rec option) sm" where
  "read_single_record rd env opts fuel = (\<lambda>s.
     if map_option fst (rr_injected s) = Some (rr_cursor s) then
       (Inl TypeError, s\<lparr>rr_injected := None\<rparr>)
     else if rr_reader s = None then (Inr None, s)
     else if (case ro_read_limit opts of None \<Rightarrow> False | Some n \<Rightarrow> n \<le> rr_cursor s) then (Inr None, s)
     else record_loop rd env opts fuel (blank_record (rr_columns s)) s)"

section \<open>Reading with retries\<close>

definition should_retry_exc :: "py_error \<Rightarrow> bool" where
  "should_retry_exc ex = (case ex of StreamTruncated n \<Rightarrow> False | _ \<Rightarrow> True)"

definition read_options :: "nat option \<Rightarrow> int \<Rightarrow> (py_error \<Rightarrow> bool) option \<Rightarrow> retry_options" where
  "read_options times' delay on_exc =
     (retry_defaults times' delay)\<lparr>rt_exc_type := ExcFunc should_retry_exc, rt_on_exception := on_exc\<rparr>"

definition read_record ::
    "'s reading \<Rightarrow> codec_env \<Rightarrow> reader_options \<Rightarrow> retry_options \<Rightarrow> nat \<Rightarrow> nat \<Rightarrow>
     ('s record_reader, rec option + py_error) sm" where
  "read_record rd env opts retry fuel attempts =
     sbind (sget rr_reader) (\<lambda>reader.
       sthen (if reader = None then reopen_reader else sret ())
         (call_with_retry retry (read_single_record rd env opts fuel) (Some reopen_reader) attempts))"

text \<open>
  \<^verbatim>\<open>for record in reader\<close>, fewer than \<open>n\<close> records: stops at \<^verbatim>\<open>None\<close>. An exception that an
  \<^verbatim>\<open>on_exception\<close> callback turned into \<^verbatim>\<open>sys.exc_info()\<close> ends the run as well.
\<close>

fun read_all ::
    "'s reading \<Rightarrow> codec_env \<Rightarrow> reader_options \<Rightarrow> retry_options \<Rightarrow> nat \<Rightarrow> nat \<Rightarrow> nat \<Rightarrow>
     ('s record_reader, rec list) sm" where
  "read_all rd env opts retry fuel attempts 0 = sraise FuelExhausted"
| "read_all rd env opts retry fuel attempts (Suc n) =
     sbind (read_record rd env opts retry fuel attempts) (\<lambda>r.
       case r of
         Inl (Some record) \<Rightarrow>
           sbind (read_all rd env opts retry fuel attempts n) (\<lambda>rs. sret (record # rs))
       | Inl None \<Rightarrow> sret []
       | Inr e \<Rightarrow> sraise e)"

end
