(* ===== verification/Record_Transfer.thy ===== *)
theory Record_Transfer
  imports Record_Reader
begin

text \<open>
  What the writer sends is what the reader receives. \<open>transfers w r x\<close> says of an operation of the
  writer and one of the reader that they fit: \<open>w\<close> appends some bytes and feeds some bytes to its
  checksum, \<open>r\<close> consumes those bytes, feeds the same to its own and returns \<open>x\<close>. The relation composes,
  so fields, records and whole files are put together from the codecs of \<open>Pb_Codec\<close>. The reader
  is first run on the list of bytes, then on any byte source.
\<close>

section \<open>Checksums\<close>

abbreviation fresh_crc :: checksum where "fresh_crc \<equiv> C32c CRC_INIT"

lemma checksum_new_crc32c [simp]: "checksum_new ''crc32c'' = fresh_crc"
proof -
  have "py_lower ''crc32c'' = ''crc32c''" by code_simp
  then show ?thesis by (simp add: checksum_new_def)
qed

definition is_c32c :: "checksum \<Rightarrow> bool" where
  "is_c32c c \<longleftrightarrow> (\<exists>w. c = C32c w)"

lemma is_c32c_simps [simp]: "is_c32c (C32c w)" "is_c32c c \<Longrightarrow> is_c32c (checksum_raw b c)"
  by (auto simp: is_c32c_def)

lemma raw_append: "is_c32c c \<Longrightarrow> checksum_raw ys (checksum_raw xs c) = checksum_raw (xs @ ys) c"
  by (auto simp: is_c32c_def crc32c_update_fold)

lemma raw_Nil: "is_c32c c \<Longrightarrow> checksum_raw [] c = c"
  by (auto simp: is_c32c_def crc32c_update_fold)

lemma reset_fresh: "is_c32c c \<Longrightarrow> checksum_reset c = fresh_crc"
  by (auto simp: is_c32c_def)

definition crc_word :: "checksum \<Rightarrow> 32 word" where
  "crc_word c = (case checksum_getvalue c of None \<Rightarrow> 0 | Some w \<Rightarrow> w)"

lemma crc_value_word: "is_c32c c \<Longrightarrow> crc_value c = Inr (uint (crc_word c))"
  by (auto simp: is_c32c_def crc_value_def crc_word_def)

lemma xor_mask32: "uint (w :: 32 word) XOR 4294967295 = 4294967295 - uint w"
proof -
  have b: "0 \<le> uint w" "uint w < 2 ^ 32" using uint_lt2p [of w] by simp_all
  have "uint w XOR 4294967295 = uint (w XOR 4294967295)"
    by (simp add: uint_xor)
  also have "w XOR 4294967295 = NOT w"
    by (simp add: ones_32 xor_ones)
  also have "uint (NOT w) = 4294967295 - uint w"
  proof -
    have "NOT w = word_of_int (2 ^ 32 - 1 - uint w)"
      by (simp add: not_eq_complement)
    then have "uint (NOT w) = (2 ^ 32 - 1 - uint w) mod 2 ^ 32"
      by (simp only: uint_word_of_int) simp
    also have "\<dots> = 2 ^ 32 - 1 - uint w"
      using b by (intro mod_pos_pos_trivial) linarith+
    finally show ?thesis by simp
  qed
  finally show ?thesis .
qed

lemma bit31_iff:
  assumes "- (2 ^ 31) \<le> v" and "v < 2 ^ 32"
  shows "v AND 2147483648 \<noteq> 0 \<longleftrightarrow> v < 0 \<or> 2 ^ 31 \<le> (v::int)"
proof -
  have "v AND 2147483648 \<noteq> 0 \<longleftrightarrow> odd (v div 2 ^ 31)"
    using and_exp_eq_0_iff_not_bit [of v 31] by (simp add: bit_iff_odd)
  also have "\<dots> \<longleftrightarrow> v < 0 \<or> 2 ^ 31 \<le> v"
  proof -
    consider "v < 0" | "0 \<le> v" "v < 2 ^ 31" | "2 ^ 31 \<le> v" by linarith
    then show ?thesis
    proof cases
      case 1
      then have "v div 2 ^ 31 = - 1"
        using assms by (intro int_div_pos_eq [where r = "v + 2 ^ 31"]) simp_all
      with 1 show ?thesis by simp
    next
      case 2
      then have "v div 2 ^ 31 = 0" by (intro div_pos_pos_trivial) simp_all
      with 2 show ?thesis by simp
    next
      case 3
      then have "v div 2 ^ 31 = 1"
        using assms by (intro int_div_pos_eq [where r = "v - 2 ^ 31"]) simp_all
      with 3 show ?thesis by simp
    qed
  qed
  finally show ?thesis .
qed

lemma long_to_int_uint:
  fixes w :: "32 word"
  shows "long_to_int (uint w) = (if 2 ^ 31 \<le> uint w then uint w - 2 ^ 32 else uint w)"
proof -
  have "- (2 ^ 31) \<le> uint w" by (rule order_trans [OF _ uint_ge_0]) simp
  moreover have "uint w < 2 ^ 32" using uint_lt2p [of w] by simp
  ultimately have "uint w AND 2147483648 \<noteq> 0 \<longleftrightarrow> 2 ^ 31 \<le> uint w"
    using bit31_iff [of "uint w"] uint_ge_0 [of w] by simp
  then show ?thesis by (simp add: long_to_int_def xor_mask32)
qed

lemma long_to_int_negative:
  assumes "- (2 ^ 31) \<le> v" and "v < 0"
  shows "long_to_int v = v + 2 ^ 32"
proof -
  define u where "u = (word_of_int (- v - 1) :: 32 word)"
  have u: "uint u = - v - 1"
  proof -
    have "uint u = (- v - 1) mod 2 ^ 32" unfolding u_def by (simp only: uint_word_of_int) simp
    with assms show ?thesis by (simp add: mod_pos_pos_trivial)
  qed
  have "uint u = NOT v" by (simp add: u not_eq_complement)
  moreover have "v XOR m = NOT (NOT v XOR m)" for m
    by (rule bit_eqI) (auto simp: bit_simps)
  ultimately have "v XOR 4294967295 = NOT (uint u XOR 4294967295)" by simp
  also have "\<dots> = - v - 1 - 2 ^ 32"
    unfolding xor_mask32 by (simp add: u not_eq_complement)
  finally show ?thesis
    using bit31_iff [of v] assms by (simp add: long_to_int_def)
qed

lemma crc_roundtrip:
  fixes w :: "32 word"
  shows "long_to_uint (uint w) = uint w" "int_to_uint (long_to_int (uint w)) = uint w"
    "- (2 ^ 31) \<le> long_to_int (uint w)" "long_to_int (uint w) < 2 ^ 31"
    "long_to_uint (long_to_int (uint w)) = uint w"
proof -
  have b: "0 \<le> uint w" "uint w < 2 ^ 32" using uint_lt2p [of w] by simp_all
  moreover define x where "x = uint w"
  ultimately have x: "0 \<le> x" "x < 2 ^ 32" "long_to_int (uint w) = (if 2 ^ 31 \<le> x then x - 2 ^ 32 else x)"
    by (simp_all add: long_to_int_uint)
  then show u: "int_to_uint (long_to_int (uint w)) = uint w"
    and "- (2 ^ 31) \<le> long_to_int (uint w)" "long_to_int (uint w) < 2 ^ 31"
    by (auto simp: int_to_uint_def x_def [symmetric])
  from u show "long_to_uint (uint w) = uint w" by (simp add: long_to_uint_def)
  show "long_to_uint (long_to_int (uint w)) = uint w"
  proof (cases "2 ^ 31 \<le> x")
    case True
    with x have "long_to_int (long_to_int (uint w)) = x"
      by (simp add: long_to_int_negative)
    with x(1) show ?thesis by (simp add: long_to_uint_def int_to_uint_def x_def)
  next
    case False
    with x u show ?thesis by (simp add: long_to_uint_def x_def)
  qed
qed

section \<open>Operations of the writer\<close>

text \<open>\<open>emits m img fed\<close>: \<open>m\<close> succeeds, writes \<open>img\<close> and feeds \<open>fed\<close> to the record's checksum.\<close>

definition counted :: "record_writer \<Rightarrow> bool" where
  "counted s \<longleftrightarrow> pw_n_total s = length (concat (pw_output s))"

lemma counted_n_bytes: "counted s \<Longrightarrow> n_bytes s = length (written s)"
  by (simp add: counted_def n_bytes_def written_def)

definition same_writer :: "record_writer \<Rightarrow> record_writer \<Rightarrow> bool" where
  "same_writer s t \<longleftrightarrow>
     bw_schema t = bw_schema s \<and> bw_crccrc t = bw_crccrc s \<and> bw_cursor t = bw_cursor s \<and>
     pw_buffer_size t = pw_buffer_size s \<and> (counted s \<longrightarrow> counted t)"

definition emits_for :: "odps_schema \<Rightarrow> (record_writer, unit) sm \<Rightarrow> bytes \<Rightarrow> bytes \<Rightarrow> bool" where
  "emits_for schema m img fed \<longleftrightarrow>
     (\<forall>s. is_c32c (bw_crc s) \<and> bw_schema s = schema \<longrightarrow>
       (\<exists>s'. m s = (Inr (), s') \<and> same_writer s s' \<and> written s' = written s @ img \<and>
          bw_crc s' = checksum_raw fed (bw_crc s)))"

definition emits :: "(record_writer, unit) sm \<Rightarrow> bytes \<Rightarrow> bytes \<Rightarrow> bool" where
  "emits m img fed \<longleftrightarrow> (\<forall>schema. emits_for schema m img fed)"

lemma emits_forE:
  assumes "emits_for schema m img fed" and "is_c32c (bw_crc s)" and "bw_schema s = schema"
  obtains s' where "m s = (Inr (), s')" "same_writer s s'" "written s' = written s @ img"
    "bw_crc s' = checksum_raw fed (bw_crc s)" "is_c32c (bw_crc s')" "bw_schema s' = schema"
  using assms unfolding emits_for_def same_writer_def by (metis is_c32c_simps(2))

lemma emits_sret: "emits (sret ()) [] []"
  by (simp add: emits_def emits_for_def sret_apply same_writer_def raw_Nil)

lemma emits_for_sthen:
  assumes "emits_for schema m a b" and "emits_for schema n a' b'"
  shows "emits_for schema (sthen m n) (a @ a') (b @ b')"
  unfolding emits_for_def
proof (intro allI impI)
  fix s :: record_writer assume c: "is_c32c (bw_crc s) \<and> bw_schema s = schema"
  from emits_forE [OF assms(1)] c obtain t where t: "m s = (Inr (), t)" "same_writer s t"
      "written t = written s @ a" "bw_crc t = checksum_raw b (bw_crc s)" "is_c32c (bw_crc t)"
      "bw_schema t = schema" by metis
  from emits_forE [OF assms(2) t(5,6)] obtain u where "n t = (Inr (), u)" "same_writer t u"
      "written u = written t @ a'" "bw_crc u = checksum_raw b' (bw_crc t)" .
  with t c show "\<exists>s'. sthen m n s = (Inr (), s') \<and> same_writer s s' \<and>
      written s' = written s @ (a @ a') \<and> bw_crc s' = checksum_raw (b @ b') (bw_crc s)"
    by (auto simp: sbind_Inr same_writer_def raw_append)
qed

lemma emits_sthen: "emits m a b \<Longrightarrow> emits n a' b' \<Longrightarrow> emits (sthen m n) (a @ a') (b @ b')"
  by (simp add: emits_def emits_for_sthen)

lemma written_flush: "\<exists>s'. pw_flush s = (Inr (), s') \<and> written s' = written s \<and>
    same_writer s s' \<and> bw_crc s' = bw_crc s"
  by (auto simp: pw_flush_def smod_apply written_def same_writer_def counted_def)

lemma emits_encoding:
  assumes "\<And>buf. m buf = (Inr (), buf @ img)"
  shows "emits (encoding m) img []"
  unfolding emits_def emits_for_def
proof (intro allI impI)
  fix schema and s :: record_writer assume c: "is_c32c (bw_crc s) \<and> bw_schema s = schema"
  define t where "t = s\<lparr>pw_encoder := pw_encoder s @ img\<rparr>"
  have t: "written t = written s @ img" "same_writer s t" "bw_crc t = bw_crc s"
    by (simp_all add: t_def written_def same_writer_def counted_def)
  obtain u where u: "refresh_buffer t = (Inr (), u)" "written u = written t" "same_writer t u"
      "bw_crc u = bw_crc t"
    using written_flush [of t] by (cases "pw_buffer_size t < length (pw_encoder t)")
      (auto simp: refresh_buffer_def same_writer_def)
  have "encoding m s = (Inr (), u)"
    using u(1) assms [of "pw_encoder s"] by (simp add: encoding_def sbind_apply t_def)
  with t u c show "\<exists>s'. encoding m s = (Inr (), s') \<and> same_writer s s' \<and>
      written s' = written s @ img \<and> bw_crc s' = checksum_raw [] (bw_crc s)"
    by (auto simp: same_writer_def raw_Nil)
qed

lemma emits_on_crc:
  assumes "\<And>c. m c = (Inr (), checksum_raw fed c)"
  shows "emits (on_crc m) [] fed"
  unfolding emits_def emits_for_def
  by (auto simp: on_crc_def assms written_def same_writer_def counted_def)

section \<open>Operations of the reader\<close>

text \<open>\<open>consumes m img fed x\<close>: on a stream that starts with \<open>img\<close>, \<open>m\<close> returns \<open>x\<close>, past \<open>img\<close>.\<close>

type_synonym list_reader = "bytes record_reader"

definition at :: "list_reader \<Rightarrow> bytes \<Rightarrow> bool" where
  "at s bs \<longleftrightarrow> (\<exists>p. rr_reader s = Some \<lparr>is_input = bs, is_pos = p\<rparr>) \<and> is_c32c (rr_crc s)"

text \<open>\<open>moved s n fed s'\<close>: \<open>s'\<close> is \<open>s\<close> after reading \<open>n\<close> bytes and feeding \<open>fed\<close>.\<close>

definition move :: "nat \<Rightarrow> bytes \<Rightarrow> list_reader \<Rightarrow> list_reader" where
  "move n fed s = s
     \<lparr>rr_reader := map_option (\<lambda>d. \<lparr>is_input = drop n (is_input d), is_pos = is_pos d + n\<rparr>) (rr_reader s),
      rr_crc := checksum_raw fed (rr_crc s)\<rparr>"

definition consumes :: "(list_reader, 'a) sm \<Rightarrow> bytes \<Rightarrow> bytes \<Rightarrow> 'a \<Rightarrow> bool" where
  "consumes m img fed x \<longleftrightarrow>
     (\<forall>s rest. at s (img @ rest) \<longrightarrow> m s = (Inr x, move (length img) fed s))"

lemma at_move: "at s (img @ rest) \<Longrightarrow> at (move (length img) fed s) rest"
  by (auto simp: at_def move_def)

lemma move_move:
  "is_c32c (rr_crc s) \<Longrightarrow> move n b (move m a s) = move (m + n) (a @ b) s"
  by (cases "rr_reader s") (simp_all add: move_def raw_append add.commute add.left_commute)

lemma move_0: "at s bs \<Longrightarrow> move 0 [] s = s"
  by (auto simp: at_def move_def raw_Nil)

lemma consumes_sret: "consumes (sret x) [] [] x"
  by (simp add: consumes_def sret_apply move_0)

lemma consumes_sbind:
  assumes "consumes m a b x" and "consumes (f x) a' b' y"
  shows "consumes (sbind m f) (a @ a') (b @ b') y"
  unfolding consumes_def
proof (intro allI impI)
  fix s rest assume s: "at s ((a @ a') @ rest)"
  then have "m s = (Inr x, move (length a) b s)"
    using assms(1) unfolding consumes_def append_assoc by blast
  moreover have "at (move (length a) b s) (a' @ rest)"
    using s at_move [of s a "a' @ rest"] by simp
  then have "f x (move (length a) b s) = (Inr y, move (length a') b' (move (length a) b s))"
    using assms(2) unfolding consumes_def by blast
  ultimately show "sbind m f s = (Inr y, move (length (a @ a')) (b @ b') s)"
    using s by (simp add: sbind_Inr move_move at_def)
qed

lemma consumes_decoding:
  assumes "\<And>rest p. m \<lparr>is_input = img @ rest, is_pos = p\<rparr> =
    (Inr x, \<lparr>is_input = rest, is_pos = p + length img\<rparr>)"
  shows "consumes (decoding m) img [] x"
  unfolding consumes_def by (auto simp: at_def decoding_def assms move_def raw_Nil)

lemma consumes_on_rcrc:
  assumes "\<And>c. m c = (Inr x, checksum_raw fed c)"
  shows "consumes (on_rcrc m) [] fed x"
  unfolding consumes_def by (auto simp: at_def on_rcrc_def assms move_def)

section \<open>Transfers\<close>

definition transfers ::
    "(record_writer, unit) sm \<Rightarrow> (list_reader, 'a) sm \<Rightarrow> 'a \<Rightarrow> bool" where
  "transfers w r x \<longleftrightarrow> (\<exists>img fed. emits w img fed \<and> consumes r img fed x)"

lemma transfersI: "emits w img fed \<Longrightarrow> consumes r img fed x \<Longrightarrow> transfers w r x"
  by (auto simp: transfers_def)

lemma transfers_sret: "transfers (sret ()) (sret x) x"
  by (rule transfersI [OF emits_sret consumes_sret])

lemma transfers_sbind:
  assumes "transfers w r x" and "transfers w' (f x) y"
  shows "transfers (sthen w w') (sbind r f) y"
proof -
  from assms obtain a b a' b' where "emits w a b" "consumes r a b x" "emits w' a' b'"
      "consumes (f x) a' b' y"
    unfolding transfers_def by blast
  then have "emits (sthen w w') (a @ a') (b @ b')" "consumes (sbind r f) (a @ a') (b @ b') y"
    by (blast intro: emits_sthen consumes_sbind)+
  then show ?thesis by (rule transfersI)
qed

lemma transfers_ret:
  assumes "transfers w r x" and "f x = sret y"
  shows "transfers w (sbind r f) y"
proof -
  from assms(1) obtain a b where w: "emits w a b" and r: "consumes r a b x"
    unfolding transfers_def by blast
  have "consumes (f x) [] [] y" by (simp add: assms(2) consumes_sret)
  with r have "consumes (sbind r f) (a @ []) (b @ []) y" by (rule consumes_sbind)
  with w show ?thesis unfolding transfers_def by auto
qed

lemma slift_Inr [simp]: "slift (Inr x) = sret x"
  by (simp add: slift_def sret_def)

text \<open>A codec of \<open>Pb_Codec\<close> with the checksum fed before writing and after reading.\<close>

lemma transfers_raw:
  assumes "\<And>buf. m buf = (Inr (), buf @ img)"
    and "\<And>rest p. r \<lparr>is_input = img @ rest, is_pos = p\<rparr> =
      (Inr x, \<lparr>is_input = rest, is_pos = p + length img\<rparr>)"
  shows "transfers (encoding m) (decoding r) x"
  by (rule transfersI [OF emits_encoding consumes_decoding]) (rule assms)+

lemma transfers_fed:
  assumes m: "\<And>buf. m buf = (Inr (), buf @ img)"
    and r: "\<And>rest p. r \<lparr>is_input = img @ rest, is_pos = p\<rparr> =
      (Inr x, \<lparr>is_input = rest, is_pos = p + length img\<rparr>)"
    and c: "\<And>c. upd c = (Inr (), checksum_raw fed c)"
    and f: "f x = sthen (on_rcrc upd) (sret y)"
  shows "transfers (sthen (on_crc upd) (encoding m)) (sbind (decoding r) f) y"
proof -
  have w: "emits (sthen (on_crc upd) (encoding m)) ([] @ img) (fed @ [])"
    by (intro emits_sthen emits_on_crc emits_encoding m c)
  have "consumes (sthen (on_rcrc upd) (sret y)) ([] @ []) (fed @ []) y"
    by (rule consumes_sbind [OF consumes_on_rcrc consumes_sret]) (rule c)
  then have "consumes (f x) [] fed y" by (simp add: f)
  with consumes_decoding [of r img, OF r]
  have "consumes (sbind (decoding r) f) (img @ []) ([] @ fed) y" by (rule consumes_sbind)
  with w show ?thesis by (intro transfersI) simp_all
qed

abbreviation long_ok :: "int \<Rightarrow> bool" where "long_ok v \<equiv> - (2 ^ 63) \<le> v \<and> v < 2 ^ 63"
abbreviation int_ok :: "int \<Rightarrow> bool" where "int_ok v \<equiv> - (2 ^ 31) \<le> v \<and> v < 2 ^ 31"
abbreviation size_ok :: "nat \<Rightarrow> bool" where "size_ok n \<equiv> n < 2 ^ 32"

lemma update_long_ok: "long_ok v \<Longrightarrow> update_long v c = (Inr (), checksum_raw (le_bytes 8 v) c)"
  by (simp add: update_long_def pack_i64_def checksum_update_def monad_simps)

lemma update_int_ok: "int_ok v \<Longrightarrow> update_int v c = (Inr (), checksum_raw (le_bytes 4 v) c)"
  by (simp add: update_int_def pack_i32_def checksum_update_def monad_simps)

lemma transfers_long: "long_ok v \<Longrightarrow> transfers (write_long v) (read_long_value list_read) v"
  unfolding write_long_def write_raw_long_def read_long_value_def
  by (rule transfers_fed [where x = v])
    (rule sint64_codec.enc_img sint64_codec.dec_img update_long_ok refl; simp)+

lemma transfers_nanos:
  "int_ok v \<Longrightarrow> transfers (sthen (on_crc (update_int v)) (write_raw_int v)) (read_int_value list_read) v"
  unfolding write_raw_int_def read_int_value_def
  by (rule transfers_fed [where x = v])
    (rule sint32_codec.enc_img sint32_codec.dec_img update_int_ok refl; simp)+

lemma write_string_eq:
  "write_string (PBytes b) = sthen (on_crc (checksum_update b)) (encoding (append_string b))"
  by (simp add: write_string_def as_bytes_def write_raw_string_def)

lemma transfers_bytes:
  assumes "size_ok (length b)"
  shows "transfers (write_string (PBytes b)) (read_bytes_value list_read) (PBytes b)"
  unfolding write_string_eq read_bytes_value_def
  by (rule transfers_fed [where x = b], rule string_codec.enc_img [OF assms],
      rule string_codec.dec_img [OF assms])
    (simp_all add: checksum_update_def smod_apply)

lemma write_string_PStr: "write_string (PStr b) = write_string (PBytes b)"
  by (simp add: write_string_def as_bytes_def)

lemma transfers_bool: "transfers (write_bool (PBool b)) (read_bool_value list_read) (PBool b)"
  unfolding write_bool_def write_raw_bool_def read_bool_value_def
  by (simp add: as_bool_def,
      rule transfers_fed [where x = b], rule bool_codec.enc_img [OF TrueI],
      rule bool_codec.dec_img [OF TrueI])
    (simp_all add: update_bool_def smod_apply)

lemma transfers_float:
  assumes "float_narrow x = Inr y" and "\<not> single_nan y"
  shows "transfers (write_float (PFloat x)) (read_float_value list_read) (PFloat (float_widen y))"
  unfolding write_float_def write_raw_float_def read_float_value_def
  by (simp add: as_float_def assms(1),
      rule transfers_fed [where x = y], rule float_codec.enc_img [OF TrueI],
      rule float_codec.dec_img [OF TrueI])
    (simp_all add: update_float_def checksum_update_def smod_apply Let_def
      float_narrow_widen [OF assms(2)])

lemma transfers_double: "transfers (write_double (PFloat x)) (read_double_value list_read) (PFloat x)"
  unfolding write_double_def write_raw_double_def read_double_value_def
  by (simp add: as_float_def,
      rule transfers_fed [where x = x], rule double_codec.enc_img [OF TrueI],
      rule double_codec.dec_img [OF TrueI])
    (simp_all add: update_double_def checksum_update_def smod_apply)

lemma transfers_seconds:
  assumes "long_ok a" and "int_ok b" and "f a b = sret x"
  shows "transfers (write_seconds (a, b))
    (sbind (read_long_value list_read) (\<lambda>a. sbind (read_int_value list_read) (f a))) x"
proof -
  have "transfers (sthen (write_long a) (sthen (on_crc (update_int b)) (write_raw_int b)))
      (sbind (read_long_value list_read) (\<lambda>a. sbind (read_int_value list_read) (f a))) x"
    by (intro transfers_sbind [OF transfers_long] transfers_ret [OF transfers_nanos] assms)
  then show ?thesis by (simp add: write_seconds_def write_long_def sbind_assoc)
qed

lemma transfers_size:
  "size_ok n \<Longrightarrow> transfers (write_raw_uint (int n)) (decoding (read_uint32 list_read)) (int n)"
  unfolding write_raw_uint_def
  by (rule transfers_raw, rule uint32_codec.enc_img, simp) (rule uint32_codec.dec_img, simp)

lemma transfers_flag: "transfers (write_raw_bool b) (decoding (read_bool list_read)) b"
  unfolding write_raw_bool_def
  by (rule transfers_raw, rule bool_codec.enc_img [OF TrueI]) (rule bool_codec.dec_img [OF TrueI])

section \<open>What arrives\<close>

text \<open>
  \<open>wire\<close> is the specification of a field's journey without the bytes: the value the reader has for a
  value the writer was given, or an error where the journey is refused. NaNs are left out of single
  precision, where their payload is not kept.
\<close>

definition wire_long :: "int \<Rightarrow> int result" where
  "wire_long n = (if long_ok n then Inr n else Inl StructError)"

definition wire_bytes :: "py_value \<Rightarrow> py_value result" where
  "wire_bytes v =
     rbind (as_bytes v) (\<lambda>b. if size_ok (length b) then Inr (PBytes b) else Inl EncodeError)"

definition wire_seconds :: "int \<times> int \<Rightarrow> (int \<Rightarrow> int \<Rightarrow> py_value result) \<Rightarrow> py_value result" where
  "wire_seconds p f =
     (case p of (a, b) \<Rightarrow> if long_ok a \<and> int_ok b then f a b else Inl StructError)"

definition wire_timestamp ::
    "codec_env \<Rightarrow> reader_options \<Rightarrow> bool \<Rightarrow> py_value \<Rightarrow> py_value result" where
  "wire_timestamp env opts ntz v =
     (case v of
        PTimestamp ns \<Rightarrow> rbind (timestamp_parts env ns ntz) (\<lambda>p. wire_seconds p (\<lambda>a b.
          overflow_none opts (rbind (from_mills env ntz (a * 1000)) (\<lambda>t.
            rapply PTimestamp (pd_timestamp env t b)))))
      | _ \<Rightarrow> Inl AttributeError)"

definition wire_interval :: "codec_env \<Rightarrow> py_value \<Rightarrow> py_value result" where
  "wire_interval env v =
     (case v of
        PTimedelta ns \<Rightarrow>
          wire_seconds (ns div 10 ^ 9, ns mod 10 ^ 9) (\<lambda>a b. rapply PTimedelta (pd_timedelta env a b))
      | _ \<Rightarrow> Inl AttributeError)"

definition wire_prim :: "codec_env \<Rightarrow> reader_options \<Rightarrow> prim \<Rightarrow> py_value \<Rightarrow> py_value result" where
  "wire_prim env opts p v =
     (case p of
        Boolean \<Rightarrow> rapply PBool (as_bool v)
      | Tinyint \<Rightarrow> rapply PInt (rbind (as_int v) wire_long)
      | Smallint \<Rightarrow> rapply PInt (rbind (as_int v) wire_long)
      | IntT \<Rightarrow> rapply PInt (rbind (as_int v) wire_long)
      | Bigint \<Rightarrow> rapply PInt (rbind (as_int v) wire_long)
      | Float \<Rightarrow> rbind (as_float v) (\<lambda>x. rbind (float_narrow x) (\<lambda>y.
          if single_nan y then Inl ValueError else Inr (PFloat (float_widen y))))
      | Double \<Rightarrow> rapply PFloat (as_float v)
      | String \<Rightarrow> wire_bytes v
      | Binary \<Rightarrow> wire_bytes v
      | Datetime \<Rightarrow> rbind (rbind (as_datetime v) (to_mills env False)) (\<lambda>m. rbind (wire_long m) (\<lambda>n.
          overflow_none opts (rapply PDatetime (from_mills env False n))))
      | Date \<Rightarrow> rbind (rbind (to_days v) wire_long) to_date
      | Timestamp \<Rightarrow> wire_timestamp env opts False v
      | TimestampNTZ \<Rightarrow> wire_timestamp env opts True v
      | IntervalDayTime \<Rightarrow> wire_interval env v
      | IntervalYearMonth \<Rightarrow> rapply PMonthdelta (rbind (total_months v) wire_long)
      | Json \<Rightarrow> rbind (json_dumps env v) (\<lambda>s.
          if size_ok (length s) then json_loads env s else Inl EncodeError)
      | _ \<Rightarrow> Inl OSError)"

definition wire_null :: "(py_value \<Rightarrow> py_value result) \<Rightarrow> py_value \<Rightarrow> py_value result" where
  "wire_null f v = (if v = PNone then Inr PNone else f v)"

definition sized :: "'a list \<Rightarrow> 'a list result" where
  "sized xs = (if size_ok (length xs) then Inr xs else Inl EncodeError)"

function wire :: "codec_env \<Rightarrow> reader_options \<Rightarrow> odps_type \<Rightarrow> py_value \<Rightarrow> py_value result" where
  "wire env opts (Prim p) v = wire_prim env opts p v"
| "wire env opts (Varchar n) v = wire_bytes v"
| "wire env opts (Char n) v = wire_bytes v"
| "wire env opts (Decimal p s) v = rbind (decimal_str env v) wire_bytes"
| "wire env opts (Array t) v =
     rbind (rbind (as_list v) sized) (\<lambda>vs.
       rapply PList (rmap (\<lambda>x. wire_null (\<lambda>x. wire env opts t x) x) vs))"
| "wire env opts (Map kt vt) v =
     rbind (rbind (as_dict v) sized) (\<lambda>kvs.
       rbind (rmap (\<lambda>x. wire_null (\<lambda>x. wire env opts kt x) x) (List.map fst kvs)) (\<lambda>ks.
         rbind (rmap (\<lambda>x. wire_null (\<lambda>x. wire env opts vt x) x) (List.map snd kvs)) (py_dict ks)))"
| "wire env opts (Struct fs) v =
     rbind (struct_values fs v) (\<lambda>vs.
       if length vs \<noteq> length fs then Inl ValueError
       else rapply (struct_result opts fs)
              (rmap (\<lambda>(f, x). wire_null (\<lambda>x. wire env opts (snd f) x) x) (zip fs vs)))"
| "wire env opts (Vector t n) v =
     rbind (rbind (as_list v) sized) (\<lambda>vs.
       if int (length vs) \<noteq> n then Inl ValueError
       else rapply PList (rmap (\<lambda>x. wire env opts t x) vs))"
  by pat_completeness auto
termination
proof (relation "measure (\<lambda>(_, _, t, _). size t)", goal_cases)
  case (5 env opts fs v vs x f y z)
  then show ?case by (cases f) (auto dest!: set_zip_leftD simp: less_Suc_eq_le elim!: size_list_estimation')
qed auto

section \<open>Every field arrives\<close>

lemma rapply_eq_Inr: "rapply f m = Inr y \<longleftrightarrow> (\<exists>x. m = Inr x \<and> y = f x)"
  by (auto simp: rapply_def rbind_eq_Inr)

lemma wire_long_eq_Inr: "wire_long n = Inr m \<longleftrightarrow> long_ok n \<and> m = n"
  by (auto simp: wire_long_def)

lemma wire_bytes_eq_Inr:
  "wire_bytes v = Inr w \<longleftrightarrow> (\<exists>b. as_bytes v = Inr b \<and> size_ok (length b) \<and> w = PBytes b)"
  by (auto simp: wire_bytes_def rbind_eq_Inr)

lemmas wire_simps = rapply_eq_Inr wire_long_eq_Inr wire_bytes_eq_Inr rbind_eq_Inr

lemma transfers_wire_bytes:
  assumes "wire_bytes v = Inr w"
  shows "transfers (write_string v) (read_bytes_value list_read) w"
proof -
  from assms obtain b where b: "as_bytes v = Inr b" "size_ok (length b)" "w = PBytes b"
    by (auto simp: wire_bytes_eq_Inr)
  then have "write_string v = write_string (PBytes b)"
    by (auto simp: as_bytes_def write_string_def split: py_value.splits)
  with b transfers_bytes show ?thesis by simp
qed

lemma transfers_long_ret:
  "long_ok n \<Longrightarrow> f n = sret y \<Longrightarrow> transfers (write_long n) (sbind (read_long_value list_read) f) y"
  by (rule transfers_ret [OF transfers_long]) simp_all

lemma wire_seconds_transfers:
  assumes "wire_seconds p g = Inr w" and "\<And>a b. f a b = slift (g a b)"
  shows "transfers (write_seconds p)
    (sbind (read_long_value list_read) (\<lambda>a. sbind (read_int_value list_read) (f a))) w"
  using assms transfers_seconds [of "fst p" "snd p" f w]
  by (auto simp: wire_seconds_def split: prod.splits if_splits)

lemma transfers_wire_timestamp:
  assumes "wire_timestamp env opts ntz v = Inr w"
  shows "transfers (write_timestamp env v ntz) (read_timestamp list_read env opts ntz) w"
proof -
  from assms obtain ns p where v: "v = PTimestamp ns" "timestamp_parts env ns ntz = Inr p"
    and w: "wire_seconds p (\<lambda>a b. overflow_none opts (rbind (from_mills env ntz (a * 1000)) (\<lambda>t.
      rapply PTimestamp (pd_timestamp env t b)))) = Inr w"
    by (auto simp: wire_timestamp_def rbind_eq_Inr split: py_value.splits)
  from wire_seconds_transfers [OF w refl] v show ?thesis
    by (simp add: write_timestamp_def read_timestamp_def)
qed

lemma timedelta_parts:
  fixes ns :: int
  shows "ns div (86400 * 10 ^ 9) * 3600 * 24 + ns div 10 ^ 9 mod 86400 = ns div 10 ^ 9"
    and "ns div 1000 mod 1000000 * 1000 + ns mod 1000 = ns mod 10 ^ 9"
proof -
  have "ns div (86400 * 10 ^ 9) = ns div 10 ^ 9 div 86400"
    by (simp add: zdiv_zmult2_eq [symmetric] mult.commute)
  then show "ns div (86400 * 10 ^ 9) * 3600 * 24 + ns div 10 ^ 9 mod 86400 = ns div 10 ^ 9"
    using div_mult_mod_eq [of "ns div 10 ^ 9" 86400] by simp
  have "ns mod (1000 * 1000000) = 1000 * (ns div 1000 mod 1000000) + ns mod 1000"
    by (rule zmod_zmult2_eq) simp
  then show "ns div 1000 mod 1000000 * 1000 + ns mod 1000 = ns mod 10 ^ 9" by simp
qed

lemma transfers_wire_interval:
  assumes "wire_interval env v = Inr w"
  shows "transfers (write_interval_day_time v) (read_interval_day_time list_read env) w"
proof -
  from assms obtain ns where v: "v = PTimedelta ns"
    and w: "wire_seconds (ns div 10 ^ 9, ns mod 10 ^ 9)
      (\<lambda>a b. rapply PTimedelta (pd_timedelta env a b)) = Inr w"
    by (auto simp: wire_interval_def split: py_value.splits)
  have "write_interval_day_time v = write_seconds (ns div 10 ^ 9, ns mod 10 ^ 9)"
    unfolding v write_interval_day_time_def Let_def py_value.case timedelta_parts ..
  with wire_seconds_transfers [OF w refl] show ?thesis
    by (simp add: read_interval_day_time_def)
qed

lemma transfers_wire_json:
  assumes "json_dumps env v = Inr s" and "size_ok (length s)" and "json_loads env s = Inr w"
  shows "transfers (sbind (slift (json_dumps env v)) (\<lambda>s. write_string (PStr s))) (read_json list_read env) w"
  unfolding assms(1) slift_Inr sbind_sret write_string_PStr write_string_eq read_json_def
  by (rule transfers_fed [where x = s], rule string_codec.enc_img [OF assms(2)],
      rule string_codec.dec_img [OF assms(2)])
    (simp_all add: checksum_update_def smod_apply assms(3))

lemma transfers_wire_prim:
  assumes "wire_prim env opts p v = Inr w"
  shows "transfers (write_field env (Prim p) v) (read_field list_read env opts (Prim p)) w"
proof -
  have int: "transfers (sbind (slift (as_int v)) write_long)
      (sbind (read_long_value list_read) (\<lambda>v. sret (PInt v))) w"
    if "rapply PInt (rbind (as_int v) wire_long) = Inr w"
    using that by (auto simp: wire_simps intro!: transfers_long_ret)
  show ?thesis
  proof (cases p)
    case Boolean
    with assms transfers_bool show ?thesis
      by (auto simp: wire_prim_def read_prim_def rapply_eq_Inr as_bool_def split: py_value.splits)
  next
    case Float
    with assms transfers_float show ?thesis
      by (auto simp: wire_prim_def read_prim_def rbind_eq_Inr as_float_def
          split: py_value.splits if_splits)
  next
    case Double
    with assms transfers_double show ?thesis
      by (auto simp: wire_prim_def read_prim_def rapply_eq_Inr as_float_def split: py_value.splits)
  next
    case Date
    with assms show ?thesis
      by (auto simp: wire_prim_def read_prim_def wire_simps intro!: transfers_long_ret)
  next
    case Datetime
    with assms show ?thesis
      by (auto simp: wire_prim_def read_prim_def rbind_eq_Inr wire_long_eq_Inr
          intro!: transfers_long_ret)
  next
    case IntervalYearMonth
    with assms show ?thesis
      by (auto simp: wire_prim_def read_prim_def wire_simps intro!: transfers_long_ret)
  next
    case Json
    with assms transfers_wire_json show ?thesis
      by (auto simp: wire_prim_def read_prim_def rbind_eq_Inr split: if_splits)
  qed (use assms int transfers_wire_bytes transfers_wire_timestamp transfers_wire_interval in
      \<open>simp_all add: wire_prim_def read_prim_def\<close>)
qed

lemma transfers_null:
  assumes "wire_null f v = Inr w" and "\<And>w. f v = Inr w \<Longrightarrow> transfers (wv v) rf w"
  shows "transfers (if v = PNone then write_raw_bool True else sthen (write_raw_bool False) (wv v))
    (sbind (decoding (read_bool list_read)) (\<lambda>null. if null then sret PNone else rf)) w"
proof (cases "v = PNone")
  case True
  with assms(1) have "w = PNone" by (simp add: wire_null_def)
  with True transfers_ret [OF transfers_flag [of True], of "\<lambda>null. if null then sret PNone else rf"]
  show ?thesis by simp
next
  case False
  with assms have "transfers (wv v) rf w" by (simp add: wire_null_def)
  with False transfers_sbind [OF transfers_flag [of False], of "wv v" "\<lambda>null. if null then sret PNone else rf"]
  show ?thesis by simp
qed

lemma transfers_cons:
  assumes "transfers w r x" and "transfers w' r' xs"
  shows "transfers (sthen w w') (sbind r (\<lambda>x. sbind r' (\<lambda>xs. sret (x # xs)))) (x # xs)"
  by (rule transfers_sbind [OF assms(1)]) (rule transfers_ret [OF assms(2) refl])

lemma transfers_items:
  assumes "rmap (wire_null f) vs = Inr ws"
    and "\<And>v w. v \<in> set vs \<Longrightarrow> f v = Inr w \<Longrightarrow> transfers (wv v) rf w"
  shows "transfers (write_array wv vs) (read_items list_read rf (length vs)) ws"
  using assms
proof (induction vs arbitrary: ws)
  case (Cons v vs)
  from Cons.prems(1) obtain w us where w: "wire_null f v = Inr w"
    and us: "rmap (wire_null f) vs = Inr us" "ws = w # us"
    by (auto simp: rbind_eq_Inr)
  have later: "transfers (write_array wv vs) (read_items list_read rf (length vs)) us"
    using Cons us(1) by simp
  have "transfers (if v = PNone then write_raw_bool True
        else sthen (write_raw_bool False) (wv v))
      (sbind (decoding (read_bool list_read)) (\<lambda>null. if null then sret PNone else rf)) w"
    by (rule transfers_null [OF w], rule Cons.prems(2)) simp_all
  from transfers_cons [OF this later] show ?case
    by (simp only: write_array.simps read_items.simps length_Cons sbind_assoc us(2))
qed (simp add: transfers_sret)

lemma transfers_array:
  assumes "rmap (wire_null f) vs = Inr ws" and "size_ok (length vs)"
    and "\<And>v w. v \<in> set vs \<Longrightarrow> f v = Inr w \<Longrightarrow> transfers (wv v) rf w"
  shows "transfers (sthen (write_raw_uint (int (length vs))) (write_array wv vs))
    (read_array list_read rf) ws"
  unfolding read_array_def
  by (rule transfers_sbind [OF transfers_size [OF assms(2)]])
    (simp add: transfers_items [OF assms(1,3)])

lemma transfers_struct_fields:
  assumes "rmap (\<lambda>(f, x). wire_null (g (snd f)) x) (zip fs vs) = Inr ws" and "length vs = length fs"
    and "\<And>f v w. (f, v) \<in> set (zip fs vs) \<Longrightarrow> g (snd f) v = Inr w \<Longrightarrow>
      transfers (wv (snd f) v) (rf (snd f)) w"
  shows "transfers (write_fields wv fs vs) (read_struct_fields list_read rf fs) ws"
  using assms
proof (induction fs arbitrary: vs ws)
  case (Cons f fs)
  then obtain v us where vs: "vs = v # us" "length us = length fs" by (cases vs) auto
  with Cons.prems(1) obtain w ys where w: "wire_null (g (snd f)) v = Inr w"
    and ys: "rmap (\<lambda>(f, x). wire_null (g (snd f)) x) (zip fs us) = Inr ys" "ws = w # ys"
    by (auto simp: rbind_eq_Inr)
  have later: "transfers (write_fields wv fs us) (read_struct_fields list_read rf fs) ys"
    by (rule Cons.IH [OF ys(1) vs(2)], rule Cons.prems(3)) (simp_all add: vs(1))
  have "transfers (if v = PNone then write_raw_bool True
        else sthen (write_raw_bool False) (wv (snd f) v))
      (sbind (decoding (read_bool list_read)) (\<lambda>null. if null then sret PNone else rf (snd f))) w"
    by (rule transfers_null [OF w], rule Cons.prems(3)) (simp_all add: vs(1))
  from transfers_cons [OF this later] show ?case
    by (simp only: write_fields.simps read_struct_fields.simps sbind_assoc ys(2) vs(1))
qed (simp add: transfers_sret)

lemma transfers_elements:
  assumes "rmap f vs = Inr ws" and "\<And>v w. v \<in> set vs \<Longrightarrow> f v = Inr w \<Longrightarrow> transfers (wv v) rf w"
  shows "transfers (write_elements wv vs) (read_elements rf (length vs)) ws"
  using assms
proof (induction vs arbitrary: ws)
  case (Cons v vs)
  from Cons.prems(1) obtain w us where w: "f v = Inr w" and us: "rmap f vs = Inr us" "ws = w # us"
    by (auto simp: rbind_eq_Inr)
  have "transfers (write_elements wv vs) (read_elements rf (length vs)) us"
    using Cons us(1) by simp
  from transfers_cons [OF Cons.prems(2) [OF _ w] this] us(2) show ?case by simp
qed (simp add: transfers_sret)

lemma sized_eq_Inr: "sized xs = Inr ys \<longleftrightarrow> size_ok (length xs) \<and> ys = xs"
  by (auto simp: sized_def)

lemma transfers_wire:
  assumes "wire env opts t v = Inr w"
  shows "transfers (write_field env t v) (read_field list_read env opts t) w"
  using assms
proof (induction env opts t v arbitrary: w rule: wire.induct)
  case (1 env opts p v)
  then show ?case by (intro transfers_wire_prim) simp
next
  case (4 env opts p s v)
  then show ?case by (auto simp: rbind_eq_Inr intro: transfers_wire_bytes)
next
  case (5 env opts t v)
  then obtain vs ws where vs: "as_list v = Inr vs" "size_ok (length vs)"
    and ws: "rmap (wire_null (wire env opts t)) vs = Inr ws" "w = PList ws"
    by (auto simp: rbind_eq_Inr sized_eq_Inr rapply_eq_Inr)
  have "transfers (sthen (write_raw_uint (int (length vs))) (write_array (write_field env t) vs))
      (read_array list_read (read_field list_read env opts t)) ws"
    by (rule transfers_array [OF ws(1) vs(2)], rule "5.IH")
      (simp_all add: vs(1) vs(2) [simplified] sized_def)
  from transfers_ret [OF this, of "\<lambda>vs. sret (PList vs)"] vs(1) ws(2) show ?case by simp
next
  case (6 env opts kt vt v)
  then obtain kvs ks us where kvs: "as_dict v = Inr kvs" "size_ok (length kvs)"
    and ks: "rmap (wire_null (wire env opts kt)) (List.map fst kvs) = Inr ks"
    and us: "rmap (wire_null (wire env opts vt)) (List.map snd kvs) = Inr us"
    and w: "py_dict ks us = Inr w"
    by (auto simp: rbind_eq_Inr sized_eq_Inr)
  have k: "transfers (sthen (write_raw_uint (int (length kvs)))
        (write_array (write_field env kt) (List.map fst kvs)))
      (read_array list_read (read_field list_read env opts kt)) ks"
    using transfers_array [OF ks, of "write_field env kt"] kvs "6.IH"(1) by (simp add: sized_def)
  have u: "transfers (sthen (write_raw_uint (int (length kvs)))
        (write_array (write_field env vt) (List.map snd kvs)))
      (read_array list_read (read_field list_read env opts vt)) us"
    using transfers_array [OF us, of "write_field env vt"] kvs ks "6.IH"(2) by (simp add: sized_def)
  have "transfers (sthen (write_raw_uint (int (length kvs)))
        (write_array (write_field env vt) (List.map snd kvs)))
      (sbind (read_array list_read (read_field list_read env opts vt))
        (\<lambda>vals. slift (py_dict ks vals))) w"
    by (rule transfers_ret [OF u]) (simp add: w)
  with k have "transfers
      (sthen (sthen (write_raw_uint (int (length kvs)))
          (write_array (write_field env kt) (List.map fst kvs)))
        (sthen (write_raw_uint (int (length kvs)))
          (write_array (write_field env vt) (List.map snd kvs))))
      (sbind (read_array list_read (read_field list_read env opts kt)) (\<lambda>keys.
        sbind (read_array list_read (read_field list_read env opts vt)) (\<lambda>vals.
          slift (py_dict keys vals)))) w"
    by (rule transfers_sbind)
  with kvs(1) show ?case by (simp add: sbind_assoc)
next
  case (7 env opts fs v)
  then obtain vs ws where vs: "struct_values fs v = Inr vs" "length vs = length fs"
    and ws: "rmap (\<lambda>(f, x). wire_null (wire env opts (snd f)) x) (zip fs vs) = Inr ws"
      "w = struct_result opts fs ws"
    by (auto simp: rbind_eq_Inr rapply_eq_Inr split: if_splits)
  have "transfers (write_fields (write_field env) fs vs)
      (read_struct_fields list_read (read_field list_read env opts) fs) ws"
  proof (rule transfers_struct_fields [OF ws(1) vs(2)])
    fix f u y assume f: "(f, u) \<in> set (zip fs vs)" and y: "wire env opts (snd f) u = Inr y"
    show "transfers (write_field env (snd f) u) (read_field list_read env opts (snd f)) y"
      using "7.IH" [OF vs(1) _ f refl y] vs(2) by simp
  qed
  from transfers_ret [OF this, of "\<lambda>vs. sret (struct_result opts fs vs)"] vs(1) ws(2)
  show ?case by simp
next
  case (8 env opts t n v)
  then obtain vs ws where vs: "as_list v = Inr vs" "size_ok (length vs)" "int (length vs) = n"
    and ws: "rmap (wire env opts t) vs = Inr ws" "w = PList ws"
    by (auto simp: rbind_eq_Inr sized_eq_Inr rapply_eq_Inr split: if_splits)
  have "transfers (write_elements (write_field env t) vs)
      (read_elements (read_field list_read env opts t) (length vs)) ws"
    by (rule transfers_elements [OF ws(1)], rule "8.IH")
      (simp_all add: vs(1,3) vs(2) [simplified] sized_def)
  from transfers_ret [OF this, of "\<lambda>vs. sret (PList vs)"]
  have "transfers (write_elements (write_field env t) vs)
      (sbind (read_elements (read_field list_read env opts t) (length vs)) (\<lambda>vs. sret (PList vs))) w"
    using ws(2) by simp
  from transfers_sbind [OF transfers_size [OF vs(2)], of _
      "\<lambda>dim. if dim \<noteq> n then sraise ValueError
        else sbind (read_elements (read_field list_read env opts t) (nat dim)) (\<lambda>vs. sret (PList vs))"]
    this vs
  show ?case by (auto simp: write_vector_def read_vector_def as_list_def split: py_value.splits)
qed (auto intro: transfers_wire_bytes)

end
