(* ===== verification/Record_File.thy ===== *)
theory Record_File
  imports Record_Transfer Input_Source
begin

text \<open>
  Whole files: the records a writer was given and closed on are the records a reader gets, the
  footer verified, whatever follows the footer.
\<close>

declare checksum_raw.simps [simp del]

section \<open>Cells\<close>

text \<open>
  \<open>deliver\<close> is what happens to the cells of a record without the bytes: each one that is sent goes
  through \<open>wire\<close> and is stored, validated, into the reader's record.
\<close>

fun deliver ::
    "codec_env \<Rightarrow> reader_options \<Rightarrow> odps_schema \<Rightarrow> nat \<Rightarrow> column list \<Rightarrow> py_value list \<Rightarrow> rec \<Rightarrow>
     rec result" where
  "deliver env opts schema i (col # cols) (v # vs) r =
     (if is_partition schema (col_name col) \<or> v = PNone
      then deliver env opts schema (Suc i) cols vs r
      else rbind (wire env opts (col_type col) v) (\<lambda>w.
        case rec_set (base_env env) i w r of
          (Inl e, _) \<Rightarrow> Inl e
        | (Inr _, r') \<Rightarrow> deliver env opts schema (Suc i) cols vs r'))"
| "deliver env opts schema i _ _ r = Inr r"

lemma wire_tag:
  assumes "wire env opts t v = Inr w"
  obtains wt where "tag_wire_type t = Inr wt" "0 \<le> wt" "wt \<le> 5"
proof (cases t)
  case (Prim p)
  with assms have "\<exists>wt. tag_wire_type t = Inr wt \<and> 0 \<le> wt \<and> wt \<le> 5"
    by (cases p) (simp_all add: tag_wire_type_def varint_tag_types_def length_delim_tag_types_def
        WIRETYPE_VARINT_def WIRETYPE_FIXED32_def WIRETYPE_FIXED64_def
        WIRETYPE_LENGTH_DELIMITED_def wire_prim_def)
  then show ?thesis using that by blast
qed (use that in \<open>simp_all add: tag_wire_type_def WIRETYPE_LENGTH_DELIMITED_def\<close>)

lemma emits_tag:
  "0 \<le> w \<Longrightarrow> w \<le> 5 \<Longrightarrow> 0 \<le> f \<Longrightarrow> f < 2 ^ 29 \<Longrightarrow> emits (write_tag f w) (tag_img f w) []"
  unfolding write_tag_def by (rule emits_encoding) (rule append_tag_img)

lemma consumes_tag:
  "0 \<le> w \<Longrightarrow> w \<le> 5 \<Longrightarrow> 0 \<le> f \<Longrightarrow> f < 2 ^ 29 \<Longrightarrow>
   consumes (decoding (read_field_number_and_wire_type list_read)) (tag_img f w) [] (f, w)"
  by (rule consumes_decoding) (rule read_tag_img)

lemma transfers_tag:
  "0 \<le> w \<Longrightarrow> w \<le> 5 \<Longrightarrow> 0 \<le> f \<Longrightarrow> f < 2 ^ 29 \<Longrightarrow>
   transfers (write_tag f w) (decoding (read_field_number_and_wire_type list_read)) (f, w)"
  by (rule transfersI [OF emits_tag consumes_tag])

text \<open>\<open>proceeds\<close>: the reader's loop gets past \<open>img\<close> in \<open>k\<close> rounds, turning the record \<open>r\<close> into \<open>r'\<close>.\<close>

definition proceeds ::
    "codec_env \<Rightarrow> reader_options \<Rightarrow> column list \<Rightarrow> nat \<Rightarrow> bytes \<Rightarrow> bytes \<Rightarrow> rec \<Rightarrow> rec \<Rightarrow> bool" where
  "proceeds env opts cols k img fed r r' \<longleftrightarrow>
     (\<forall>s rest fuel. at s (img @ rest) \<and> rr_columns s = cols \<longrightarrow>
        record_loop list_read env opts (k + fuel) r s =
        record_loop list_read env opts fuel r' (move (length img) fed s))"

lemma move_columns [simp]: "rr_columns (move n fed s) = rr_columns s"
  by (simp add: move_def)

lemma move_others [simp]:
  "rr_crccrc (move n fed s) = rr_crccrc s" "rr_cursor (move n fed s) = rr_cursor s"
  "rr_attempt_rows (move n fed s) = rr_attempt_rows s" "rr_crc (move n fed s) = checksum_raw fed (rr_crc s)"
  "rr_partition_spec (move n fed s) = rr_partition_spec s" "rr_injected (move n fed s) = rr_injected s"
  "rr_footer_seen (move n fed s) = rr_footer_seen s" "rr_opens (move n fed s) = rr_opens s"
  "rr_last_n_bytes (move n fed s) = rr_last_n_bytes s"
  by (simp_all add: move_def)

lemma proceeds_refl: "proceeds env opts cols 0 [] [] r r"
  by (auto simp: proceeds_def move_0)

lemma proceeds_trans:
  assumes "proceeds env opts cols k a b r r'" and "proceeds env opts cols k' a' b' r' r''"
  shows "proceeds env opts cols (k + k') (a @ a') (b @ b') r r''"
  unfolding proceeds_def
proof (intro allI impI)
  fix s rest fuel assume s: "at s ((a @ a') @ rest) \<and> rr_columns s = cols"
  then have at: "at s (a @ (a' @ rest))" by simp
  have "record_loop list_read env opts (k + (k' + fuel)) r s =
      record_loop list_read env opts (k' + fuel) r' (move (length a) b s)"
    using assms(1) at s unfolding proceeds_def by blast
  also have "\<dots> = record_loop list_read env opts fuel r'' (move (length a') b' (move (length a) b s))"
  proof -
    have "rr_columns (move (length a) b s) = cols" using s by simp
    with assms(2) at_move [OF at, of b] show ?thesis unfolding proceeds_def by blast
  qed
  finally show "record_loop list_read env opts (k + k' + fuel) r s =
      record_loop list_read env opts fuel r'' (move (length (a @ a')) (b @ b') s)"
    using at by (simp add: move_move at_def add.assoc)
qed

lemma TUNNEL_tags:
  "TUNNEL_END_RECORD = 33553408" "TUNNEL_META_COUNT = 33554430" "TUNNEL_META_CHECKSUM = 33554431"
  by (simp_all add: TUNNEL_END_RECORD_def TUNNEL_META_COUNT_def TUNNEL_META_CHECKSUM_def)

lemma cell_transfer:
  assumes w: "wire env opts (col_type (cols ! i)) v = Inr w"
    and set: "rec_set (base_env env) i w r = (Inr (), r')"
    and i: "i < length cols" "length cols < 33553408" and v: "v \<noteq> PNone"
    and p: "\<not> is_partition schema (col_name (cols ! i))"
  obtains img fed where "emits_for schema (write_cell env (cols ! i) i v) img fed"
    and "proceeds env opts cols 1 img fed r r'"
proof -
  let ?t = "col_type (cols ! i)"
  define x where "x = int i + 1"
  then have x: "0 \<le> x" "x < 2 ^ 29" "int_ok x" "x \<noteq> 0" "nat x = Suc i" "int (Suc i) = x"
    using i by auto
  from wire_tag [OF w] obtain wt where wt: "tag_wire_type ?t = Inr wt" "0 \<le> wt" "wt \<le> 5" .
  from transfers_wire [OF w] obtain img fed where em: "emits (write_field env ?t v) img fed"
    and con: "consumes (read_field list_read env opts ?t) img fed w"
    unfolding transfers_def by blast
  let ?fed = "le_bytes 4 x" and ?tag = "tag_img x wt"
  have "emits (sthen (on_crc (update_int x)) (sthen (write_tag x wt) (write_field env ?t v)))
      ([] @ ?tag @ img) (?fed @ [] @ fed)"
    by (intro emits_sthen emits_on_crc emits_tag em update_int_ok x wt)
  then have "emits_for schema (write_cell env (cols ! i) i v) (?tag @ img) (?fed @ fed)"
    using p v wt(1) by (auto simp: emits_def emits_for_def write_cell_def x_def)
  moreover have "proceeds env opts cols 1 (?tag @ img) (?fed @ fed) r r'"
    unfolding proceeds_def
  proof (intro allI impI)
    fix s rest fuel assume s: "at s ((?tag @ img) @ rest) \<and> rr_columns s = cols"
    define s1 where "s1 = move (length ?tag) [] s"
    define s2 where "s2 = move 0 ?fed s1"
    have at1: "at s1 (img @ rest)" using s at_move [of s ?tag "img @ rest"] by (simp add: s1_def)
    then have at2: "at s2 (img @ rest)" using at_move [of s1 "[]"] by (simp add: s2_def)
    have tag: "decoding (read_field_number_and_wire_type list_read) s = (Inr (x, wt), s1)"
      using consumes_tag [OF wt(2,3) x(1,2)] s unfolding consumes_def s1_def append_assoc by blast
    have cr: "on_rcrc (update_int x) s1 = (Inr (), s2)"
      using consumes_on_rcrc [OF update_int_ok [OF x(3)]] at1 unfolding consumes_def s2_def
      by (metis append_Nil list.size(3))
    have fld: "read_field list_read env opts ?t s2 = (Inr w, move (length img) fed s2)"
      using con at2 unfolding consumes_def by blast
    have cols: "rr_columns s1 = cols" "rr_columns s2 = cols" using s by (simp_all add: s1_def s2_def)
    have "read_cell list_read env opts (nat x) r s1 = (Inr r', move (length img) fed s2)"
      unfolding read_cell_def x(5,6) diff_Suc_1
      using cr fld cols set by (simp add: sbind_apply sget_apply sret_apply)
    moreover have "move (length img) fed s2 = move (length (?tag @ img)) (?fed @ fed) s"
      using s at1 by (simp add: s2_def s1_def move_move at_def)
    ultimately show "record_loop list_read env opts (1 + fuel) r s =
        record_loop list_read env opts fuel r' (move (length (?tag @ img)) (?fed @ fed) s)"
      using tag i x(4) cols(1) by (simp add: TUNNEL_tags sbind_Inr x_def)
  qed
  ultimately show ?thesis by (rule that)
qed

text \<open>The columns of the reader are those of the schema, up to the partitions.\<close>

definition aligned :: "odps_schema \<Rightarrow> column list \<Rightarrow> bool" where
  "aligned schema cols \<longleftrightarrow> length cols < 33553408 \<and>
     (\<forall>i < length (all_columns schema). is_partition schema (col_name (all_columns schema ! i)) \<or>
        i < length cols \<and> cols ! i = all_columns schema ! i)"

lemma deliver_cell:
  assumes "\<not> (is_partition schema (col_name col) \<or> v = PNone)"
    and "deliver env opts schema i (col # cols) (v # vs) r = Inr r'"
  obtains w r1 where "wire env opts (col_type col) v = Inr w"
    "rec_set (base_env env) i w r = (Inr (), r1)"
    "deliver env opts schema (Suc i) cols vs r1 = Inr r'"
proof -
  from assms obtain w where w: "wire env opts (col_type col) v = Inr w"
    and d: "(case rec_set (base_env env) i w r of
      (Inl e, _) \<Rightarrow> Inl e | (Inr _, r') \<Rightarrow> deliver env opts schema (Suc i) cols vs r') = Inr r'"
    by (auto simp: rbind_eq_Inr)
  show ?thesis
  proof (cases "rec_set (base_env env) i w r")
    case (Pair res r1)
    with d w that show ?thesis by (cases res) auto
  qed
qed

lemma emits_skip:
  assumes "is_partition schema (col_name col) \<or> v = PNone"
  shows "emits_for schema (write_cell env col i v) [] []"
  using assms by (auto simp: emits_for_def write_cell_def same_writer_def raw_Nil)

lemma cells_transfer:
  assumes "aligned schema cols" and "drop i (all_columns schema) = cs"
    and "deliver env opts schema i cs vs r = Inr r'"
  shows "\<exists>img fed k. emits_for schema (write_cells env i cs vs) img fed \<and>
    proceeds env opts cols k img fed r r' \<and> k \<le> length cs"
  using assms(2,3)
proof (induction cs arbitrary: i vs r)
  case Nil
  then show ?case
    using emits_sret proceeds_refl by (intro exI [of _ "[]"] exI [of _ 0]) (auto simp: emits_def)
next
  case (Cons col cs)
  from Cons.prems(1) have i: "all_columns schema ! i = col" "drop (Suc i) (all_columns schema) = cs"
    by (simp_all add: nth_via_drop drop_Suc tl_drop [symmetric])
  have len: "i < length (all_columns schema)"
    using Cons.prems(1) by (metis drop_eq_Nil linorder_not_less list.distinct(1))
  show ?case
  proof (cases vs)
    case Nil
    with Cons.prems show ?thesis
      using emits_sret proceeds_refl by (intro exI [of _ "[]"] exI [of _ 0]) (auto simp: emits_def)
  next
    case (Cons v us)
    note vs = this
    show ?thesis
    proof (cases "is_partition schema (col_name col) \<or> v = PNone")
      case True
      with Cons.prems(2) vs have "deliver env opts schema (Suc i) cs us r = Inr r'" by simp
      from Cons.IH [OF i(2) this] obtain img fed k where
        "emits_for schema (write_cells env (Suc i) cs us) img fed"
        "proceeds env opts cols k img fed r r'" "k \<le> length cs" by blast
      with emits_for_sthen [OF emits_skip [OF True, of env i]] vs show ?thesis
        by (intro exI [of _ img] exI [of _ fed] exI [of _ k]) fastforce
    next
      case False
      from deliver_cell [OF False] Cons.prems(2) vs obtain w r1
        where w: "wire env opts (col_type col) v = Inr w"
        and r1: "rec_set (base_env env) i w r = (Inr (), r1)"
        and d: "deliver env opts schema (Suc i) cs us r1 = Inr r'" by blast
      from assms(1) i(1) len False have c: "i < length cols" "length cols < 33553408" "cols ! i = col"
        unfolding aligned_def by auto
      obtain a b where ab: "emits_for schema (write_cell env col i v) a b"
          "proceeds env opts cols 1 a b r r1"
        using cell_transfer [of env opts cols i v w r r1 schema] w r1 c False by auto
      from Cons.IH [OF i(2) d] obtain img fed k where
        "emits_for schema (write_cells env (Suc i) cs us) img fed"
        "proceeds env opts cols k img fed r1 r'" "k \<le> length cs" by blast
      with emits_for_sthen [OF ab(1)] proceeds_trans [OF ab(2)] vs show ?thesis
        by (intro exI [of _ "a @ img"] exI [of _ "b @ fed"] exI [of _ "1 + k"]) simp
    qed
  qed
qed

section \<open>Records\<close>

text \<open>What the reader makes of a record, its own partition values included.\<close>

definition received ::
    "codec_env \<Rightarrow> reader_options \<Rightarrow> odps_schema \<Rightarrow> column list \<Rightarrow> partition_spec option \<Rightarrow> rec \<Rightarrow>
     rec result" where
  "received env opts schema cols spec r =
     (if length (all_columns schema) < length (rec_columns r) then Inl OSError
      else rbind (deliver env opts schema 0 (all_columns schema) (rec_values r) (blank_record cols))
             (with_partitions env opts spec))"

definition checksum_int :: "checksum \<Rightarrow> int" where
  "checksum_int c = long_to_int (uint (crc_word c))"

lemma checksum_int_ok: "int_ok (checksum_int c)"
  unfolding checksum_int_def using crc_roundtrip(3,4) by blast

definition record_end :: "checksum \<Rightarrow> bytes" where
  "record_end c = tag_img TUNNEL_END_RECORD WIRETYPE_VARINT @ uint_img (uint (crc_word c))"

definition idle :: "odps_schema \<Rightarrow> checksum \<Rightarrow> nat \<Rightarrow> record_writer \<Rightarrow> bool" where
  "idle schema cc n s \<longleftrightarrow>
     bw_crc s = fresh_crc \<and> bw_crccrc s = cc \<and> is_c32c cc \<and> bw_schema s = schema \<and> bw_cursor s = n \<and>
     counted s"

lemma uint_word_ok: "0 \<le> uint (w :: 32 word) \<and> uint w < 2 ^ 32"
  using uint_lt2p [of w] by simp

lemma emits_uint: "emits (write_raw_uint (uint (w :: 32 word))) (uint_img (uint w)) []"
  unfolding write_raw_uint_def
  by (rule emits_encoding, rule uint32_codec.enc_img) (rule uint_word_ok)

lemma emits_end_tag: "emits (write_tag TUNNEL_END_RECORD WIRETYPE_VARINT)
    (tag_img TUNNEL_END_RECORD WIRETYPE_VARINT) []"
  by (rule emits_tag) (simp_all add: TUNNEL_tags WIRETYPE_VARINT_def)

lemma end_record_effect:
  assumes "bw_crc s = c" "is_c32c c" "bw_crccrc s = cc" "is_c32c cc" "bw_schema s = schema"
    "bw_cursor s = n" "counted s"
  shows "\<exists>s'. end_record s = (Inr (), s') \<and> written s' = written s @ record_end c \<and>
    idle schema (checksum_raw (le_bytes 4 (checksum_int c)) cc) (n + 1) s' \<and>
    pw_buffer_size s' = pw_buffer_size s"
proof -
  let ?u = "uint (crc_word c)"
  have "emits (sthen (write_tag TUNNEL_END_RECORD WIRETYPE_VARINT) (write_raw_uint ?u))
      (record_end c) []"
    using emits_sthen [OF emits_end_tag emits_uint] by (simp add: record_end_def)
  then obtain s1 where s1: "sthen (write_tag TUNNEL_END_RECORD WIRETYPE_VARINT) (write_raw_uint ?u) s =
      (Inr (), s1)" "same_writer s s1" "written s1 = written s @ record_end c"
      "bw_crc s1 = checksum_raw [] (bw_crc s)"
    using assms(1,2) by (auto simp: emits_def elim: emits_forE)
  from s1(1) obtain s0 where s0: "write_tag TUNNEL_END_RECORD WIRETYPE_VARINT s = (Inr (), s0)"
      "write_raw_uint ?u s0 = (Inr (), s1)"
    by (auto simp: sbind_eq_Inr)
  define s2 where "s2 = s1\<lparr>bw_crc := fresh_crc,
    bw_crccrc := checksum_raw (le_bytes 4 (checksum_int c)) cc, bw_cursor := n + 1\<rparr>"
  have "checksum_reset (bw_crc s1) = fresh_crc"
    using s1(4) assms(1,2) by (simp add: raw_Nil reset_fresh)
  then have "end_record s = (Inr (), s2)"
    using s0 s1(2) assms update_int_ok [OF checksum_int_ok [of c], of cc]
    by (simp add: end_record_def crc_value_word crc_roundtrip(5) Let_def sbind_apply sget_apply sret_apply
        smod_apply on_crccrc_def same_writer_def s2_def checksum_int_def)
  moreover have "written s2 = written s1" "pw_buffer_size s2 = pw_buffer_size s"
    using s1(2) by (simp_all add: s2_def written_def same_writer_def)
  moreover have "idle schema (checksum_raw (le_bytes 4 (checksum_int c)) cc) (n + 1) s2"
    using s1(2) assms by (simp add: idle_def s2_def same_writer_def counted_def)
  ultimately show ?thesis using s1(3) by auto
qed

lemma write_record_effect:
  assumes "emits_for schema (write_cells env 0 (all_columns schema) (rec_values r)) img fed"
    and "length (rec_columns r) \<le> length (all_columns schema)" and "idle schema cc n s"
  defines "c \<equiv> checksum_raw fed fresh_crc"
  shows "\<exists>s'. write_record env r s = (Inr (), s') \<and> written s' = written s @ img @ record_end c \<and>
    idle schema (checksum_raw (le_bytes 4 (checksum_int c)) cc) (n + 1) s'"
proof -
  have s: "is_c32c (bw_crc s)" "bw_schema s = schema" using assms(3) by (simp_all add: idle_def)
  from emits_forE [OF assms(1) s] obtain s1 where s1:
    "write_cells env 0 (all_columns schema) (rec_values r) s = (Inr (), s1)" "same_writer s s1"
    "written s1 = written s @ img" "bw_crc s1 = checksum_raw fed (bw_crc s)" "is_c32c (bw_crc s1)"
    "bw_schema s1 = schema" .
  then have "bw_crc s1 = c" "is_c32c c" "bw_crccrc s1 = cc" "is_c32c cc" "bw_cursor s1 = n" "counted s1"
    using assms(3) by (simp_all add: idle_def same_writer_def c_def)
  from end_record_effect [OF this(1-4) s1(6) this(5,6)] obtain s2 where
    "end_record s1 = (Inr (), s2)" "written s2 = written s1 @ record_end c"
    "idle schema (checksum_raw (le_bytes 4 (checksum_int c)) cc) (n + 1) s2" by blast
  with s1 assms(2) s(2) show ?thesis
    by (simp add: write_record_def bw_columns_def sbind_Inr)
qed

text \<open>A reader that has \<open>bs\<close> before it, between two records.\<close>

definition ready ::
    "column list \<Rightarrow> partition_spec option \<Rightarrow> bytes \<Rightarrow> checksum \<Rightarrow> nat \<Rightarrow> nat \<Rightarrow> list_reader \<Rightarrow> bool" where
  "ready cols spec bs cc n c t \<longleftrightarrow>
     at t bs \<and> rr_crc t = fresh_crc \<and> rr_crccrc t = cc \<and> is_c32c cc \<and> rr_columns t = cols \<and>
     rr_partition_spec t = spec \<and> rr_attempt_rows t = n \<and> rr_cursor t = c \<and> rr_injected t = None"

lemma decoding_at:
  assumes "at s (img @ rest)" and "consumes (decoding m) img [] x"
  shows "decoding m s = (Inr x, move (length img) [] s)" "at (move (length img) [] s) rest"
  using assms at_move unfolding consumes_def by blast+

lemma consumes_uint:
  "consumes (decoding (read_uint32 list_read)) (uint_img (uint (w :: 32 word))) [] (uint w)"
  by (rule consumes_decoding, rule uint32_codec.dec_img) (rule uint_word_ok)

lemma check_record_effect:
  assumes "at t (uint_img (uint (crc_word (rr_crc t))) @ rest)" and "is_c32c (rr_crccrc t)"
  shows "check_record list_read t =
    (Inr (), (move (length (uint_img (uint (crc_word (rr_crc t))))) [] t)
       \<lparr>rr_crc := fresh_crc,
        rr_crccrc := checksum_raw (le_bytes 4 (checksum_int (rr_crc t))) (rr_crccrc t)\<rparr>)"
proof -
  have c: "is_c32c (rr_crc t)" using assms(1) by (simp add: at_def)
  show ?thesis
    using decoding_at(1) [OF assms(1) consumes_uint] c
      update_int_ok [OF checksum_int_ok [of "rr_crc t"], of "rr_crccrc t"]
    by (simp add: check_record_def crc_value_word crc_roundtrip(2) Let_def sbind_apply sget_apply sret_apply
        smod_apply on_rcrccrc_def raw_Nil reset_fresh checksum_int_def)
qed

definition within_limit :: "reader_options \<Rightarrow> nat \<Rightarrow> bool" where
  "within_limit opts n \<longleftrightarrow> (case ro_read_limit opts of None \<Rightarrow> True | Some m \<Rightarrow> n < m)"

lemma move_at: "at s bs \<Longrightarrow> at (move 0 fed s) bs"
  using at_move [of s "[]" bs fed] by simp

lemma consumes_end_tag:
  "consumes (decoding (read_field_number_and_wire_type list_read))
    (tag_img TUNNEL_END_RECORD WIRETYPE_VARINT) [] (TUNNEL_END_RECORD, WIRETYPE_VARINT)"
  by (rule consumes_tag) (simp_all add: TUNNEL_tags WIRETYPE_VARINT_def)

text \<open>A record's bytes, from the reader's side.\<close>

lemma read_record_effect:
  assumes pr: "proceeds env opts cols k img fed (blank_record cols) r1"
    and r': "with_partitions env opts spec r1 = Inr r'"
    and t: "ready cols spec (img @ record_end (checksum_raw fed fresh_crc) @ rest) cc n c t"
    and lim: "within_limit opts c" and fuel: "k < fuel"
  defines "cc' \<equiv> checksum_raw (le_bytes 4 (checksum_int (checksum_raw fed fresh_crc))) cc"
  shows "\<exists>t'. read_single_record list_read env opts fuel t = (Inr (Some r'), t') \<and>
    ready cols spec rest cc' (n + 1) (c + 1) t' \<and> rr_footer_seen t' = rr_footer_seen t"
proof -
  let ?c = "checksum_raw fed fresh_crc"
  let ?tag = "tag_img TUNNEL_END_RECORD WIRETYPE_VARINT" and ?u = "uint_img (uint (crc_word ?c))"
  from fuel obtain f where f: "fuel = k + Suc f" by (metis less_imp_Suc_add add_Suc_right)
  define t1 where "t1 = move (length img) fed t"
  have at0: "at t (img @ (?tag @ ?u @ rest))"
    using t by (simp add: ready_def record_end_def)
  then have at1: "at t1 (?tag @ ?u @ rest)" unfolding t1_def by (rule at_move)
  define t2 where "t2 = move (length ?tag) [] t1"
  have t2: "decoding (read_field_number_and_wire_type list_read) t1 =
      (Inr (TUNNEL_END_RECORD, WIRETYPE_VARINT), t2)" "at t2 (?u @ rest)"
    using decoding_at [OF at1 consumes_end_tag] by (simp_all add: t2_def)
  have crc1: "rr_crc t1 = ?c" using t by (simp add: t1_def ready_def)
  have crc2: "rr_crc t2 = ?c" "rr_crccrc t2 = cc" "is_c32c cc"
    using t crc1 by (simp_all add: t2_def t1_def ready_def raw_Nil del: checksum_raw.simps)
  define t3 where "t3 = (move (length ?u) [] t2)\<lparr>rr_crc := fresh_crc, rr_crccrc := cc'\<rparr>"
  have "check_record list_read t2 = (Inr (), t3)"
    using check_record_effect [of t2 rest] t2(2) crc2 by (simp add: t3_def cc'_def)
  moreover define t4 where "t4 = t3\<lparr>rr_cursor := c + 1, rr_attempt_rows := n + 1\<rparr>"
  have others: "rr_partition_spec t3 = spec" "rr_cursor t3 = c" "rr_attempt_rows t3 = n"
    using t by (simp_all add: t3_def t2_def t1_def ready_def)
  have "finish_record env opts r1 t3 = (Inr (Some r'), t4)"
    by (simp add: finish_record_def others r' t4_def)
  ultimately have "record_loop list_read env opts (Suc f) r1 t1 = (Inr (Some r'), t4)"
    using t2(1) by (simp add: TUNNEL_tags sbind_Inr)
  moreover have "record_loop list_read env opts fuel (blank_record cols) t =
      record_loop list_read env opts (Suc f) r1 t1"
    using pr at0 t unfolding proceeds_def f t1_def ready_def by blast
  moreover have "read_single_record list_read env opts fuel t =
      record_loop list_read env opts fuel (blank_record cols) t"
    using t lim by (auto simp: read_single_record_def ready_def at_def within_limit_def split: option.splits)
  moreover have "ready cols spec rest cc' (n + 1) (c + 1) t4"
  proof -
    have "at (move (length ?u) [] t2) rest" using t2(2) by (rule at_move)
    then have "at t4 rest" by (simp add: t4_def t3_def at_def)
    then show ?thesis
      using t crc2(3) by (simp add: ready_def t4_def t3_def t2_def t1_def cc'_def)
  qed
  moreover have "rr_footer_seen t4 = rr_footer_seen t" by (simp add: t4_def t3_def t2_def t1_def)
  ultimately show ?thesis by auto
qed

section \<open>Files\<close>

text \<open>
  \<open>sends rs rs' img cc cc'\<close>: the writer writes the records \<open>rs\<close> as \<open>img\<close>, from which the reader reads
  \<open>rs'\<close>; both take the checksum of the checksums from \<open>cc\<close> to \<open>cc'\<close>.
\<close>

definition sends ::
    "codec_env \<Rightarrow> reader_options \<Rightarrow> odps_schema \<Rightarrow> column list \<Rightarrow> partition_spec option \<Rightarrow> nat \<Rightarrow>
     rec \<Rightarrow> rec \<Rightarrow> bytes \<Rightarrow> checksum \<Rightarrow> checksum \<Rightarrow> bool" where
  "sends env opts schema cols spec fuel r r' img cc cc' \<longleftrightarrow>
     is_c32c cc' \<and> img \<noteq> [] \<and>
     (\<forall>s n. idle schema cc n s \<longrightarrow> (\<exists>s'. write_record env r s = (Inr (), s') \<and>
        written s' = written s @ img \<and> idle schema cc' (n + 1) s')) \<and>
     (\<forall>t rest n c. ready cols spec (img @ rest) cc n c t \<and> within_limit opts c \<longrightarrow>
        (\<exists>t'. read_single_record list_read env opts fuel t = (Inr (Some r'), t') \<and>
          ready cols spec rest cc' (n + 1) (c + 1) t' \<and> rr_footer_seen t' = rr_footer_seen t))"

lemma record_sends:
  assumes "received env opts schema cols spec r = Inr r'" and "aligned schema cols"
    and "is_c32c cc" and "length (all_columns schema) < fuel"
  shows "\<exists>img cc'. sends env opts schema cols spec fuel r r' img cc cc'"
proof -
  from assms(1) obtain r1 where len: "length (rec_columns r) \<le> length (all_columns schema)"
    and d: "deliver env opts schema 0 (all_columns schema) (rec_values r) (blank_record cols) = Inr r1"
    and r': "with_partitions env opts spec r1 = Inr r'"
    by (auto simp: received_def rbind_eq_Inr split: if_splits)
  from cells_transfer [OF assms(2) _ d] obtain img fed k where
    w: "emits_for schema (write_cells env 0 (all_columns schema) (rec_values r)) img fed"
    and p: "proceeds env opts cols k img fed (blank_record cols) r1"
    and k: "k \<le> length (all_columns schema)" by auto
  define c where "c = checksum_raw fed fresh_crc"
  define cc' where "cc' = checksum_raw (le_bytes 4 (checksum_int c)) cc"
  have "sends env opts schema cols spec fuel r r' (img @ record_end c) cc cc'"
    unfolding sends_def
  proof (intro conjI allI impI)
    show "is_c32c cc'" using assms(3) by (simp add: cc'_def)
    show "img @ record_end c \<noteq> []" by (simp add: record_end_def uint_img_def)
    fix s n assume "idle schema cc n s"
    from write_record_effect [OF w len this]
    show "\<exists>s'. write_record env r s = (Inr (), s') \<and>
        written s' = written s @ img @ record_end c \<and> idle schema cc' (n + 1) s'"
      by (simp add: c_def cc'_def)
  next
    fix t rest n m
    assume "ready cols spec ((img @ record_end c) @ rest) cc n m t \<and> within_limit opts m"
    then show "\<exists>t'. read_single_record list_read env opts fuel t = (Inr (Some r'), t') \<and>
        ready cols spec rest cc' (n + 1) (m + 1) t' \<and> rr_footer_seen t' = rr_footer_seen t"
      using read_record_effect [OF p r', of rest cc n m t fuel] k assms(4)
      by (simp add: c_def cc'_def)
  qed
  then show ?thesis by blast
qed

text \<open>The footer, and the end of a run.\<close>

definition footer :: "nat \<Rightarrow> checksum \<Rightarrow> bytes" where
  "footer n cc =
     tag_img TUNNEL_META_COUNT WIRETYPE_VARINT @ sint_img (int n) @
     tag_img TUNNEL_META_CHECKSUM WIRETYPE_VARINT @ uint_img (uint (crc_word cc))"

lemma transfers_meta_tags:
  "emits (write_tag TUNNEL_META_COUNT WIRETYPE_VARINT) (tag_img TUNNEL_META_COUNT WIRETYPE_VARINT) []"
  "emits (write_tag TUNNEL_META_CHECKSUM WIRETYPE_VARINT)
     (tag_img TUNNEL_META_CHECKSUM WIRETYPE_VARINT) []"
  "consumes (decoding (read_field_number_and_wire_type list_read))
     (tag_img TUNNEL_META_COUNT WIRETYPE_VARINT) [] (TUNNEL_META_COUNT, WIRETYPE_VARINT)"
  "consumes (decoding (read_field_number_and_wire_type list_read))
     (tag_img TUNNEL_META_CHECKSUM WIRETYPE_VARINT) [] (TUNNEL_META_CHECKSUM, WIRETYPE_VARINT)"
  by (rule emits_tag consumes_tag; simp add: TUNNEL_tags WIRETYPE_VARINT_def)+

lemma emits_count: "n < 2 ^ 63 \<Longrightarrow> emits (write_raw_long (int n)) (sint_img (int n)) []"
  unfolding write_raw_long_def by (rule emits_encoding, rule sint64_codec.enc_img) simp

lemma consumes_count:
  "n < 2 ^ 63 \<Longrightarrow> consumes (decoding (read_sint64 list_read)) (sint_img (int n)) [] (int n)"
  by (rule consumes_decoding, rule sint64_codec.dec_img) simp

lemma emitsE:
  assumes "emits m img fed" and "idle schema cc n s" and "fed = []"
  obtains s' where "m s = (Inr (), s')" "written s' = written s @ img" "idle schema cc n s'"
proof -
  from assms(2) have "is_c32c (bw_crc s)" "bw_schema s = schema" by (simp_all add: idle_def)
  with assms obtain s' where "m s = (Inr (), s')" "same_writer s s'" "written s' = written s @ img"
      "bw_crc s' = checksum_raw [] (bw_crc s)"
    by (auto simp: emits_def elim: emits_forE)
  with assms(2) that show ?thesis by (auto simp: idle_def same_writer_def raw_Nil)
qed

lemma finish_tags_effect:
  assumes "idle schema cc n s" and "n < 2 ^ 63"
  shows "\<exists>s'. write_finish_tags s = (Inr (), s') \<and> written s' = written s @ footer n cc \<and>
    idle schema cc n s'"
proof -
  obtain s1 where s1: "write_tag TUNNEL_META_COUNT WIRETYPE_VARINT s = (Inr (), s1)"
      "written s1 = written s @ tag_img TUNNEL_META_COUNT WIRETYPE_VARINT" "idle schema cc n s1"
    using emitsE [OF transfers_meta_tags(1) assms(1) refl] .
  obtain s2 where s2: "write_raw_long (int n) s1 = (Inr (), s2)"
      "written s2 = written s1 @ sint_img (int n)" "idle schema cc n s2"
    using emitsE [OF emits_count [OF assms(2)] s1(3) refl] .
  obtain s3 where s3: "write_tag TUNNEL_META_CHECKSUM WIRETYPE_VARINT s2 = (Inr (), s3)"
      "written s3 = written s2 @ tag_img TUNNEL_META_CHECKSUM WIRETYPE_VARINT" "idle schema cc n s3"
    using emitsE [OF transfers_meta_tags(2) s2(3) refl] .
  obtain s4 where s4: "write_raw_uint (uint (crc_word cc)) s3 = (Inr (), s4)"
      "written s4 = written s3 @ uint_img (uint (crc_word cc))" "idle schema cc n s4"
    using emitsE [OF emits_uint s3(3) refl] .
  have tags: "write_finish_tags s = (Inr (), s4)"
    using s1 s2 s3 s4
    by (simp add: write_finish_tags_def sbind_apply sget_apply idle_def crc_value_word
        crc_roundtrip(1) sret_apply)
  with s1 s2 s3 s4 show ?thesis by (simp add: footer_def)
qed

lemma close_effect:
  assumes "idle schema cc n s" and "n < 2 ^ 63"
  shows "\<exists>s'. bw_close s = (Inr (), s') \<and> concat (pw_output s') = written s @ footer n cc \<and>
    pw_encoder s' = []"
proof -
  from finish_tags_effect [OF assms] obtain s4 where s4: "write_finish_tags s = (Inr (), s4)"
      "written s4 = written s @ footer n cc" by blast
  obtain s5 where s5: "pw_close s4 = (Inr (), s5)" "written s5 = written s4" "pw_encoder s5 = []"
    by (auto simp: pw_close_def flush_all_def pw_flush_def smod_apply written_def)
  have "bw_close s = (Inr (), s5\<lparr>bw_cursor := 0\<rparr>)"
    using s4(1) s5(1) by (simp add: bw_close_def sbind_apply smod_apply)
  with s4 s5 show ?thesis by (simp add: written_def)
qed

lemma read_footer_effect:
  assumes t: "ready cols spec (footer n cc @ rest) cc n c t" and lim: "within_limit opts c"
    and n: "n < 2 ^ 63"
  shows "\<exists>t'. read_single_record list_read env opts (Suc fuel) t = (Inr None, t') \<and>
    rr_footer_seen t' \<and> rr_cursor t' = c"
proof -
  let ?a = "tag_img TUNNEL_META_COUNT WIRETYPE_VARINT"
    and ?b = "tag_img TUNNEL_META_CHECKSUM WIRETYPE_VARINT" and ?u = "uint_img (uint (crc_word cc))"
  have at0: "at t (?a @ (sint_img (int n) @ ?b @ ?u @ rest))"
    using t by (simp add: ready_def footer_def)
  define t1 where "t1 = move (length ?a) [] t"
  have t1: "decoding (read_field_number_and_wire_type list_read) t =
      (Inr (TUNNEL_META_COUNT, WIRETYPE_VARINT), t1)" "at t1 (sint_img (int n) @ ?b @ ?u @ rest)"
    using decoding_at [OF at0 transfers_meta_tags(3)] by (simp_all add: t1_def)
  define t2 where "t2 = move (length (sint_img (int n))) [] t1"
  have t2: "decoding (read_sint64 list_read) t1 = (Inr (int n), t2)" "at t2 (?b @ ?u @ rest)"
    using decoding_at [OF t1(2) consumes_count [OF n]] by (simp_all add: t2_def)
  define t3 where "t3 = move (length ?b) [] t2"
  have t3: "decoding (read_field_number_and_wire_type list_read) t2 =
      (Inr (TUNNEL_META_CHECKSUM, WIRETYPE_VARINT), t3)" "at t3 (?u @ rest)"
    using decoding_at [OF t2(2) transfers_meta_tags(4)] by (simp_all add: t3_def)
  define t4 where "t4 = move (length ?u) [] t3"
  have t4: "decoding (read_uint32 list_read) t3 = (Inr (uint (crc_word cc)), t4)"
    using decoding_at [OF t3(2) consumes_uint] by (simp add: t4_def)
  have fields: "rr_attempt_rows t2 = n" "rr_crccrc t3 = cc" "is_c32c cc" "rr_cursor t4 = c"
    using t by (simp_all add: ready_def t4_def t3_def t2_def t1_def)
  have foot: "read_footer list_read t1 = (Inr (), t4\<lparr>rr_footer_seen := True\<rparr>)"
    using t2(1) t3(1) t4 fields
    by (simp add: read_footer_def sbind_apply sget_apply sret_apply smod_apply crc_value_word)
  have "read_single_record list_read env opts (Suc fuel) t =
      record_loop list_read env opts (Suc fuel) (blank_record cols) t"
    using t lim by (auto simp: read_single_record_def ready_def at_def within_limit_def split: option.splits)
  also have "\<dots> = (Inr None, t4\<lparr>rr_footer_seen := True\<rparr>)"
    using t1(1) foot by (simp add: TUNNEL_tags sbind_Inr sret_apply)
  finally show ?thesis using fields(4) by simp
qed

section \<open>Any source of bytes\<close>

text \<open>Two readers in the same state, one over a source, the other over the bytes the source holds.\<close>

context byte_source
begin

definition same_stream :: "'s in_stream option \<Rightarrow> bytes in_stream option \<Rightarrow> bool" where
  "same_stream a b = rel_option holds a b"

definition same_answer :: "(nat \<Rightarrow> 's option result) \<Rightarrow> (nat \<Rightarrow> bytes option result) \<Rightarrow> bool" where
  "same_answer f g \<longleftrightarrow>
     (\<forall>n. rel_sum (=) (rel_option (\<lambda>s bs. valid s \<and> content s = bs)) (f n) (g n))"

definition same_reader :: "'s record_reader \<Rightarrow> bytes record_reader \<Rightarrow> bool" where
  "same_reader s t \<longleftrightarrow>
     same_stream (rr_reader s) (rr_reader t) \<and> list_all2 same_answer (rr_opens s) (rr_opens t) \<and>
     rr_columns t = rr_columns s \<and> rr_partition_spec t = rr_partition_spec s \<and>
     rr_crc t = rr_crc s \<and> rr_crccrc t = rr_crccrc s \<and> rr_cursor t = rr_cursor s \<and>
     rr_attempt_rows t = rr_attempt_rows s \<and> rr_last_n_bytes t = rr_last_n_bytes s \<and>
     rr_footer_seen t = rr_footer_seen s \<and> rr_injected t = rr_injected s \<and>
     rr_metrics t = rr_metrics s"

lemma sim_decoding [sim_intros]:
  assumes "ssim holds m m'"
  shows "ssim same_reader (decoding m) (decoding m')"
  unfolding ssim_def
proof (intro allI impI)
  fix s t assume st: "same_reader s t"
  show "fst (decoding m s) = fst (decoding m' t) \<and> same_reader (snd (decoding m s)) (snd (decoding m' t))"
  proof (cases "rr_reader s")
    case None
    with st show ?thesis by (auto simp: same_reader_def same_stream_def decoding_def)
  next
    case (Some a)
    with st obtain b where b: "rr_reader t = Some b" "holds a b"
      by (auto simp: same_reader_def same_stream_def option_rel_Some1)
    from ssimE [OF assms b(2)] obtain r a' b' where "m a = (r, a')" "m' b = (r, b')" "holds a' b'" .
    with Some b(1) st show ?thesis
      by (simp add: same_reader_def same_stream_def decoding_def)
  qed
qed

lemma sim_crc [sim_intros]:
  "ssim same_reader (on_rcrc c) (on_rcrc c)" "ssim same_reader (on_rcrccrc c) (on_rcrccrc c)"
  by (auto simp: ssim_def same_reader_def on_rcrc_def on_rcrccrc_def split: prod.split)

lemma sim_values [sim_intros]:
  "ssim same_reader (read_long_value rd) (read_long_value list_read)"
  "ssim same_reader (read_int_value rd) (read_int_value list_read)"
  "ssim same_reader (read_bytes_value rd) (read_bytes_value list_read)"
  "ssim same_reader (read_float_value rd) (read_float_value list_read)"
  "ssim same_reader (read_double_value rd) (read_double_value list_read)"
  "ssim same_reader (read_bool_value rd) (read_bool_value list_read)"
  "ssim same_reader (read_timestamp rd env opts ntz) (read_timestamp list_read env opts ntz)"
  "ssim same_reader (read_interval_day_time rd env) (read_interval_day_time list_read env)"
  "ssim same_reader (read_json rd env) (read_json list_read env)"
  unfolding read_long_value_def read_int_value_def read_bytes_value_def read_float_value_def
    read_double_value_def read_bool_value_def read_timestamp_def read_interval_day_time_def
    read_json_def Let_def
  by (intro sim_intros)+

lemma sim_read_prim [sim_intros]:
  "ssim same_reader (read_prim rd env opts p) (read_prim list_read env opts p)"
  by (cases p) (auto simp: read_prim_def intro!: sim_intros)

lemma sim_read_items [sim_intros]:
  assumes "ssim same_reader rf rf'"
  shows "ssim same_reader (read_items rd rf n) (read_items list_read rf' n)"
  using assms by (induction n) (auto intro!: sim_intros)

lemma sim_read_array [sim_intros]:
  assumes "ssim same_reader rf rf'"
  shows "ssim same_reader (read_array rd rf) (read_array list_read rf')"
  unfolding read_array_def by (intro sim_intros assms)

lemma sim_read_struct_fields [sim_intros]:
  assumes "\<And>k t. (k, t) \<in> set fs \<Longrightarrow> ssim same_reader (rf t) (rf' t)"
  shows "ssim same_reader (read_struct_fields rd rf fs) (read_struct_fields list_read rf' fs)"
  using assms
proof (induction fs)
  case (Cons f fs)
  then have "ssim same_reader (rf (snd f)) (rf' (snd f))" by (cases f) auto
  with Cons show ?case by (auto intro!: sim_intros)
qed (auto intro!: sim_intros)

lemma sim_read_elements [sim_intros]:
  assumes "ssim same_reader rf rf'"
  shows "ssim same_reader (read_elements rf n) (read_elements rf' n)"
  using assms by (induction n) (auto intro!: sim_intros)

lemma sim_read_field [sim_intros]:
  "ssim same_reader (read_field rd env opts t) (read_field list_read env opts t)"
proof (induction t)
  case (Struct fs)
  have "ssim same_reader (read_field rd env opts t) (read_field list_read env opts t)"
    if "(k, t) \<in> set fs" for k t
    using Struct.IH [OF that] by simp
  then show ?case by (auto intro!: sim_intros)
qed (auto simp: read_vector_def intro!: sim_intros)

lemma sim_fields [sim_intros]:
  "ssim same_reader (sget rr_columns) (sget rr_columns)" "ssim same_reader (sget rr_crc) (sget rr_crc)"
  "ssim same_reader (sget rr_crccrc) (sget rr_crccrc)"
  "ssim same_reader (sget rr_attempt_rows) (sget rr_attempt_rows)"
  by (intro sim_intros; simp add: same_reader_def)+

lemma sim_updates [sim_intros]:
  "ssim same_reader (smod (\<lambda>s. s\<lparr>rr_crc := checksum_reset (rr_crc s)\<rparr>))
     (smod (\<lambda>s. s\<lparr>rr_crc := checksum_reset (rr_crc s)\<rparr>))"
  "ssim same_reader (smod (\<lambda>s. s\<lparr>rr_metrics := m\<rparr>)) (smod (\<lambda>s. s\<lparr>rr_metrics := m\<rparr>))"
  "ssim same_reader (smod (\<lambda>s. s\<lparr>rr_footer_seen := b\<rparr>)) (smod (\<lambda>s. s\<lparr>rr_footer_seen := b\<rparr>))"
  by (intro ssim_smod; simp add: same_reader_def)+

lemma sim_read_cell [sim_intros]:
  "ssim same_reader (read_cell rd env opts n r) (read_cell list_read env opts n r)"
  unfolding read_cell_def
  by (intro sim_intros) (auto split: prod.split sum.split intro: sim_intros)

lemma sim_check_record [sim_intros]: "ssim same_reader (check_record rd) (check_record list_read)"
  unfolding check_record_def Let_def by (intro sim_intros)

lemma sim_read_metrics [sim_intros]:
  "ssim same_reader (read_metrics rd tag) (read_metrics list_read tag)"
  unfolding read_metrics_def Let_def by (auto split: prod.split intro!: sim_intros)

lemma sim_read_footer [sim_intros]: "ssim same_reader (read_footer rd) (read_footer list_read)"
  unfolding read_footer_def by (intro sim_intros)

lemma sim_ends [sim_intros]:
  "ssim same_reader (finish_record env opts r) (finish_record env opts r)"
  "ssim same_reader (end_of_stream opts) (end_of_stream opts)"
  by (auto simp: ssim_def finish_record_def end_of_stream_def same_reader_def split: sum.split)

lemma sim_record_loop [sim_intros]:
  "ssim same_reader (record_loop rd env opts fuel r) (record_loop list_read env opts fuel r)"
  unfolding ssim_def
proof (induction fuel arbitrary: r)
  case (Suc fuel)
  show ?case
  proof (intro allI impI)
    fix s t assume st: "same_reader s t"
    obtain a s1 t1 where tag: "decoding (read_field_number_and_wire_type rd) s = (a, s1)"
        "decoding (read_field_number_and_wire_type list_read) t = (a, t1)" and st1: "same_reader s1 t1"
      by (rule ssimE [OF sim_decoding [OF sim_decoder(1)] st])
    have sub: "ssim same_reader (record_loop rd env opts fuel r) (record_loop list_read env opts fuel r)" for r
      unfolding ssim_def using Suc by blast
    have cell: "ssim same_reader
        (sbind (read_cell rd env opts n r) (\<lambda>r'. record_loop rd env opts fuel r'))
        (sbind (read_cell list_read env opts n r) (\<lambda>r'. record_loop list_read env opts fuel r'))" for n
      by (intro sim_intros sub)
    have rec: "ssim same_reader (sthen (check_record rd) (finish_record env opts r))
        (sthen (check_record list_read) (finish_record env opts r))"
      and foot: "ssim same_reader (sthen (read_footer rd) (sret (None :: rec option)))
        (sthen (read_footer list_read) (sret None))"
      by (intro sim_intros)+
    have cols: "rr_columns t1 = rr_columns s1" using st1 by (simp add: same_reader_def)
    show "fst (record_loop rd env opts (Suc fuel) r s) = fst (record_loop list_read env opts (Suc fuel) r t) \<and>
      same_reader (snd (record_loop rd env opts (Suc fuel) r s))
        (snd (record_loop list_read env opts (Suc fuel) r t))"
    proof (cases a)
      case (Inl e)
      with tag st1 ssimD [OF sim_ends(2) st1] show ?thesis by simp
    next
      case (Inr iw)
      with tag cols ssimD [OF sub st1] ssimD [OF cell st1] ssimD [OF rec st1] ssimD [OF foot st1] st1
      show ?thesis by (cases iw) simp
    qed
  qed
qed simp

lemma sim_read_single_record [sim_intros]:
  "ssim same_reader (read_single_record rd env opts fuel) (read_single_record list_read env opts fuel)"
  unfolding ssim_def
proof (intro allI impI)
  fix s t assume st: "same_reader s t"
  then have "rr_injected t = rr_injected s" "rr_cursor t = rr_cursor s" "rr_columns t = rr_columns s"
      "rr_reader t = None \<longleftrightarrow> rr_reader s = None"
      "same_reader (s\<lparr>rr_injected := None\<rparr>) (t\<lparr>rr_injected := None\<rparr>)"
    by (auto simp: same_reader_def same_stream_def)
  with st ssimD [OF sim_record_loop st, of env opts fuel "blank_record (rr_columns s)"]
  show "fst (read_single_record rd env opts fuel s) = fst (read_single_record list_read env opts fuel t) \<and>
      same_reader (snd (read_single_record rd env opts fuel s))
        (snd (read_single_record list_read env opts fuel t))"
    by (simp add: read_single_record_def split: option.split)
qed

lemma sim_open_stream:
  assumes "same_reader s t"
  shows "case (open_stream s, open_stream t) of
    ((a, s'), (b, t')) \<Rightarrow> same_reader s' t' \<and>
      rel_sum (=) (rel_option (\<lambda>s bs. valid s \<and> content s = bs)) a b"
proof (cases "rr_opens s")
  case Nil
  with assms show ?thesis by (simp add: open_stream_def same_reader_def)
next
  case (Cons f fs)
  with assms obtain g gs where "rr_opens t = g # gs" "same_answer f g" "list_all2 same_answer fs gs"
    by (auto simp: same_reader_def list_all2_Cons1)
  with Cons assms show ?thesis by (simp add: open_stream_def same_reader_def same_answer_def)
qed

lemma sim_reopen_reader [sim_intros]: "ssim same_reader reopen_reader reopen_reader"
  unfolding reopen_reader_def
proof (rule ssim_sbind)
  show "ssim same_reader
      (smod (\<lambda>s. s\<lparr>rr_last_n_bytes := if rr_cursor s \<noteq> 0 then get_attempt_bytes s else 0,
         rr_crc := checksum_new ''crc32c'', rr_crccrc := checksum_new ''crc32c'',
         rr_attempt_rows := 0, rr_footer_seen := False\<rparr>))
      (smod (\<lambda>s. s\<lparr>rr_last_n_bytes := if rr_cursor s \<noteq> 0 then get_attempt_bytes s else 0,
         rr_crc := checksum_new ''crc32c'', rr_crccrc := checksum_new ''crc32c'',
         rr_attempt_rows := 0, rr_footer_seen := False\<rparr>))"
    by (intro ssim_smod)
      (auto simp: same_reader_def same_stream_def get_attempt_bytes_def holds_def split: option.splits)
next
  show "ssim same_reader
      (sbind open_stream (\<lambda>stream.
         smod (\<lambda>s. s\<lparr>rr_reader := map_option (\<lambda>i. \<lparr>is_input = i, is_pos = 0\<rparr>) stream\<rparr>)))
      (sbind open_stream (\<lambda>stream.
         smod (\<lambda>s. s\<lparr>rr_reader := map_option (\<lambda>i. \<lparr>is_input = i, is_pos = 0\<rparr>) stream\<rparr>)))"
    unfolding ssim_def
  proof (intro allI impI)
    fix s t assume "same_reader s t"
    from sim_open_stream [OF this] obtain a s' b t' where o: "open_stream s = (a, s')"
        "open_stream t = (b, t')" "same_reader s' t'"
        "rel_sum (=) (rel_option (\<lambda>s bs. valid s \<and> content s = bs)) a b"
      by (auto split: prod.splits)
    then show "fst (sbind open_stream (\<lambda>stream.
         smod (\<lambda>s. s\<lparr>rr_reader := map_option (\<lambda>i. \<lparr>is_input = i, is_pos = 0\<rparr>) stream\<rparr>)) s) =
       fst (sbind open_stream (\<lambda>stream.
         smod (\<lambda>s. s\<lparr>rr_reader := map_option (\<lambda>i. \<lparr>is_input = i, is_pos = 0\<rparr>) stream\<rparr>)) t) \<and>
       same_reader (snd (sbind open_stream (\<lambda>stream.
         smod (\<lambda>s. s\<lparr>rr_reader := map_option (\<lambda>i. \<lparr>is_input = i, is_pos = 0\<rparr>) stream\<rparr>)) s))
       (snd (sbind open_stream (\<lambda>stream.
         smod (\<lambda>s. s\<lparr>rr_reader := map_option (\<lambda>i. \<lparr>is_input = i, is_pos = 0\<rparr>) stream\<rparr>)) t))"
      by (cases a; cases b)
        (auto simp: sbind_apply smod_apply same_reader_def same_stream_def option.rel_map holds_def
          elim!: option.rel_mono_strong)
  qed
qed

lemma sim_read_record [sim_intros]:
  "ssim same_reader (read_record rd env opts retry fuel attempts)
     (read_record list_read env opts retry fuel attempts)"
  unfolding ssim_def
proof (intro allI impI)
  fix s t assume st: "same_reader s t"
  then have n: "rr_reader t = None \<longleftrightarrow> rr_reader s = None"
    by (auto simp: same_reader_def same_stream_def)
  have "ssim same_reader
      (sthen (if rr_reader s = None then reopen_reader else sret ())
        (call_with_retry retry (read_single_record rd env opts fuel) (Some reopen_reader) attempts))
      (sthen (if rr_reader s = None then reopen_reader else sret ())
        (call_with_retry retry (read_single_record list_read env opts fuel) (Some reopen_reader) attempts))"
    by (intro sim_intros)
  from ssimD [OF this st] n
  show "fst (read_record rd env opts retry fuel attempts s) =
        fst (read_record list_read env opts retry fuel attempts t) \<and>
      same_reader (snd (read_record rd env opts retry fuel attempts s))
        (snd (read_record list_read env opts retry fuel attempts t))"
    by (simp add: read_record_def sbind_apply sget_apply)
qed

lemma sim_read_all [sim_intros]:
  "ssim same_reader (read_all rd env opts retry fuel attempts n)
     (read_all list_read env opts retry fuel attempts n)"
proof (induction n)
  case (Suc n)
  then show ?case
    by (auto intro!: sim_intros split: sum.split option.split)
qed (auto intro!: sim_intros)

end

section \<open>What is written is read\<close>

lemma read_all_step:
  assumes "read_single_record rd env opts fuel t = (Inr (Some r), t')" and "rr_reader t \<noteq> None"
    and "read_all rd env opts retry fuel (Suc attempts) n t' = (Inr rs, u)"
  shows "read_all rd env opts retry fuel (Suc attempts) (Suc n) t = (Inr (r # rs), u)"
  using assms
  by (cases "rr_reader t") (simp_all add: sbind_apply sget_apply read_record_def
      call_with_retry_success sret_apply)

lemma read_all_end:
  assumes "read_single_record rd env opts fuel t = (Inr None, t')" and "rr_reader t \<noteq> None"
  shows "read_all rd env opts retry fuel (Suc attempts) (Suc n) t = (Inr [], t')"
  using assms
  by (cases "rr_reader t") (simp_all add: sbind_apply sget_apply read_record_def
      call_with_retry_success sret_apply)

lemma ready_reader: "ready cols spec bs cc n c t \<Longrightarrow> rr_reader t \<noteq> None"
  by (auto simp: ready_def at_def)

text \<open>\<open>transmits\<close> extends \<open>sends\<close> to a list of records.\<close>

definition transmits ::
    "codec_env \<Rightarrow> reader_options \<Rightarrow> odps_schema \<Rightarrow> column list \<Rightarrow> partition_spec option \<Rightarrow> nat \<Rightarrow>
     rec list \<Rightarrow> rec list \<Rightarrow> bytes \<Rightarrow> checksum \<Rightarrow> checksum \<Rightarrow> bool" where
  "transmits env opts schema cols spec fuel rs rs' img cc cc' \<longleftrightarrow>
     is_c32c cc' \<and> (img = [] \<longleftrightarrow> rs = []) \<and>
     (\<forall>s n. idle schema cc n s \<longrightarrow> (\<exists>s'. write_records env rs s = (Inr (), s') \<and>
        written s' = written s @ img \<and> idle schema cc' (n + length rs) s')) \<and>
     (\<forall>t rest n c. ready cols spec (img @ rest) cc n c t \<and>
        (\<forall>i < length rs. within_limit opts (c + i)) \<longrightarrow>
        (\<exists>t'. ready cols spec rest cc' (n + length rs) (c + length rs) t' \<and>
          (\<forall>retry attempts k xs u.
             read_all list_read env opts retry fuel (Suc attempts) k t' = (Inr xs, u) \<longrightarrow>
             read_all list_read env opts retry fuel (Suc attempts) (length rs + k) t =
               (Inr (rs' @ xs), u))))"

lemma transmits_Cons:
  assumes r: "sends env opts schema cols spec fuel r r' a cc cm"
    and rs: "transmits env opts schema cols spec fuel rs rs' b cm cc'"
  shows "transmits env opts schema cols spec fuel (r # rs) (r' # rs') (a @ b) cc cc'"
  unfolding transmits_def
proof (intro conjI allI impI)
  show "is_c32c cc'" using rs by (simp add: transmits_def)
  show "a @ b = [] \<longleftrightarrow> r # rs = []" using r by (simp add: sends_def)
next
  fix s n assume "idle schema cc n s"
  with r obtain s1 where s1: "write_record env r s = (Inr (), s1)" "written s1 = written s @ a"
      "idle schema cm (n + 1) s1"
    unfolding sends_def by blast
  with rs obtain s2 where "write_records env rs s1 = (Inr (), s2)" "written s2 = written s1 @ b"
      "idle schema cc' (n + 1 + length rs) s2"
    unfolding transmits_def by blast
  with s1 show "\<exists>s'. write_records env (r # rs) s = (Inr (), s') \<and>
      written s' = written s @ (a @ b) \<and> idle schema cc' (n + length (r # rs)) s'"
    by (simp add: sbind_Inr)
next
  fix t rest n c
  assume t: "ready cols spec ((a @ b) @ rest) cc n c t \<and>
    (\<forall>i < length (r # rs). within_limit opts (c + i))"
  then have "ready cols spec (a @ (b @ rest)) cc n c t \<and> within_limit opts c" by auto
  with r obtain t1 where t1: "read_single_record list_read env opts fuel t = (Inr (Some r'), t1)"
      "ready cols spec (b @ rest) cm (n + 1) (c + 1) t1"
    unfolding sends_def by blast
  have "\<forall>i < length rs. within_limit opts (c + 1 + i)"
    using t by (metis Suc_less_eq add.assoc length_Cons plus_1_eq_Suc)
  with t1(2) rs obtain t' where t': "ready cols spec rest cc' (n + 1 + length rs) (c + 1 + length rs) t'"
    and all: "\<And>retry attempts k xs u.
      read_all list_read env opts retry fuel (Suc attempts) k t' = (Inr xs, u) \<Longrightarrow>
      read_all list_read env opts retry fuel (Suc attempts) (length rs + k) t1 = (Inr (rs' @ xs), u)"
    unfolding transmits_def by blast
  have "read_all list_read env opts retry fuel (Suc attempts) (length (r # rs) + k) t =
      (Inr ((r' # rs') @ xs), u)"
    if "read_all list_read env opts retry fuel (Suc attempts) k t' = (Inr xs, u)" for retry attempts k xs u
  proof -
    have "rr_reader t \<noteq> None" using t ready_reader by blast
    from read_all_step [OF t1(1) this all [OF that]] show ?thesis
      by (simp only: length_Cons add_Suc append_Cons)
  qed
  with t' show "\<exists>t'. ready cols spec rest cc' (n + length (r # rs)) (c + length (r # rs)) t' \<and>
      (\<forall>retry attempts k xs u.
         read_all list_read env opts retry fuel (Suc attempts) k t' = (Inr xs, u) \<longrightarrow>
         read_all list_read env opts retry fuel (Suc attempts) (length (r # rs) + k) t =
           (Inr ((r' # rs') @ xs), u))"
    by (intro exI [of _ t']) simp
qed

lemma records_transmitted:
  assumes "rmap (received env opts schema cols spec) rs = Inr rs'" and "aligned schema cols"
    and "is_c32c cc" and "length (all_columns schema) < fuel"
  shows "\<exists>img cc'. transmits env opts schema cols spec fuel rs rs' img cc cc'"
  using assms(1,3)
proof (induction rs arbitrary: rs' cc)
  case Nil
  then have "transmits env opts schema cols spec fuel [] rs' [] cc cc"
    by (auto simp: transmits_def sret_apply)
  then show ?case by blast
next
  case (Cons r rs)
  then obtain r' us where r: "received env opts schema cols spec r = Inr r'"
    and us: "rmap (received env opts schema cols spec) rs = Inr us" "rs' = r' # us"
    by (auto simp: rbind_eq_Inr)
  from record_sends [OF r assms(2) Cons.prems(2) assms(4)] obtain a cm where
    s: "sends env opts schema cols spec fuel r r' a cc cm" by blast
  then have "is_c32c cm" by (simp add: sends_def)
  from Cons.IH [OF us(1) this] obtain b cc' where
    "transmits env opts schema cols spec fuel rs us b cm cc'" by blast
  from transmits_Cons [OF s this] us(2) show ?case by blast
qed

text \<open>The first read opens the stream.\<close>

lemma read_all_open:
  assumes "rr_reader t = None" and "reopen_reader t = (Inr (), t1)" and "rr_reader t1 \<noteq> None"
  shows "read_all rd env opts retry fuel attempts (Suc n) t =
    read_all rd env opts retry fuel attempts (Suc n) t1"
proof -
  have "read_record rd env opts retry fuel attempts t = read_record rd env opts retry fuel attempts t1"
    using assms by (cases "rr_reader t1") (simp_all add: read_record_def sbind_apply sget_apply sret_apply)
  then show ?thesis by (simp add: sbind_apply)
qed

lemma file_read:
  assumes tr: "transmits env opts schema cols spec fuel rs rs' img fresh_crc cc"
    and t: "rr_reader t = None" "rr_cursor t = 0" "rr_injected t = None" "rr_columns t = cols"
      "rr_partition_spec t = spec" "rr_opens t = [\<lambda>_. Inr (Some (img @ footer (length rs) cc @ rest))]"
    and lim: "\<forall>i \<le> length rs. within_limit opts i" and n: "length rs < 2 ^ 63" and f: "0 < fuel"
  shows "\<exists>u. read_all list_read env opts retry fuel (Suc attempts) (length rs + Suc k) t = (Inr rs', u) \<and>
    rr_footer_seen u \<and> rr_cursor u = length rs"
proof -
  define t1 where "t1 = t\<lparr>rr_last_n_bytes := 0, rr_crc := fresh_crc, rr_crccrc := fresh_crc,
    rr_attempt_rows := 0, rr_footer_seen := False, rr_opens := [],
    rr_reader := Some \<lparr>is_input = img @ footer (length rs) cc @ rest, is_pos = 0\<rparr>\<rparr>"
  have open_t: "reopen_reader t = (Inr (), t1)"
    using t by (simp add: reopen_reader_def open_stream_def sbind_apply smod_apply t1_def)
  have "ready cols spec (img @ footer (length rs) cc @ rest) fresh_crc 0 0 t1"
    using t by (simp add: ready_def at_def t1_def)
  moreover have "\<forall>i < length rs. within_limit opts (0 + i)" using lim by simp
  ultimately obtain t2 where t2: "ready cols spec (footer (length rs) cc @ rest) cc (length rs) (length rs) t2"
    and all: "\<And>k xs u. read_all list_read env opts retry fuel (Suc attempts) k t2 = (Inr xs, u) \<Longrightarrow>
      read_all list_read env opts retry fuel (Suc attempts) (length rs + k) t1 = (Inr (rs' @ xs), u)"
    using tr unfolding transmits_def by (metis add_0)
  obtain u where u: "read_single_record list_read env opts fuel t2 = (Inr None, u)" "rr_footer_seen u"
      "rr_cursor u = length rs"
    using read_footer_effect [of cols spec "length rs" cc rest "length rs" t2 opts env "fuel - 1"]
      t2 lim n f by auto
  have "rr_reader t2 \<noteq> None" using t2 by (rule ready_reader)
  from all [OF read_all_end [OF u(1) this]] u(2,3)
  show ?thesis
    using read_all_open [OF t(1) open_t] by (simp add: t1_def)
qed

lemma aligned_reader:
  assumes "odps_schema_new cols parts = Inr schema" and "reader_new schema None sp opts opens = Inr t"
    and "length (all_columns schema) < 33553408"
  shows "aligned schema (rr_columns t)"
proof -
  from assms(2) have c: "rr_columns t =
      (if ro_append_partitions opts then all_columns schema else os_columns schema)"
    by (auto simp: reader_new_def reader_columns_def rbind_eq_Inr)
  have all: "all_columns schema = os_columns schema @ partition_list (os_partitions schema)"
    by (simp add: all_columns_def)
  show ?thesis
  proof (cases "ro_append_partitions opts")
    case True
    with c assms(3) show ?thesis by (simp add: aligned_def)
  next
    case False
    have "is_partition schema (col_name (all_columns schema ! i))"
      if "i < length (all_columns schema)" "\<not> i < length (os_columns schema)" for i
    proof -
      define j where "j = i - length (os_columns schema)"
      have "j < length (partition_list parts)" "all_columns schema ! i = partition_list parts ! j"
        using that all odps_schema_newD [OF assms(1)] by (simp_all add: j_def nth_append)
      then show ?thesis
        using index_of_iff [of "List.map col_name (partition_list parts)" "col_name (partition_list parts ! j)" j]
          odps_schema_newD [OF assms(1)]
        by (simp add: is_partition_def raw_schema_def)
    qed
    with c False assms(3) all show ?thesis
      by (auto simp: aligned_def nth_append)
  qed
qed

text \<open>
  A file of records: what \<^verbatim>\<open>BaseRecordWriter\<close> leaves behind, and that the reader recovers from it,
  cut into blocks in any way, what \<open>received\<close> says of each record.
\<close>

definition write_file ::
    "codec_env \<Rightarrow> odps_schema \<Rightarrow> nat option \<Rightarrow> rec list \<Rightarrow> unit result \<times> record_writer" where
  "write_file env schema buffer_size rs = sthen (write_records env rs) bw_close (bw_new schema buffer_size)"

lemma transmitted_read:
  assumes reader: "reader_new schema None sp opts [\<lambda>_. Inr (Some (si_open chunks))] = Inr t"
    and tr: "transmits env opts schema (rr_columns t) (rr_partition_spec t) fuel rs rs' img fresh_crc cc"
    and lim: "length rs < 2 ^ 63"
      "case ro_read_limit opts of None \<Rightarrow> True | Some m \<Rightarrow> length rs < m"
    and fuel: "0 < fuel"
    and chunks: "concat chunks = img @ footer (length rs) cc @ rest"
  shows "\<exists>u. read_all si_read_limit env opts retry fuel (Suc attempts) (length rs + Suc k) t = (Inr rs', u) \<and>
      rr_footer_seen u \<and> rr_cursor u = length rs"
proof -
  define t' :: list_reader where "t' =
    \<lparr>rr_columns = rr_columns t, rr_partition_spec = rr_partition_spec t, rr_reader = None,
     rr_crc = rr_crc t, rr_crccrc = rr_crccrc t, rr_cursor = 0, rr_attempt_rows = 0,
     rr_last_n_bytes = 0, rr_footer_seen = False, rr_injected = None, rr_metrics = None,
     rr_opens = [\<lambda>_. Inr (Some (concat chunks))]\<rparr>"
  have same: "simple_source.same_reader t t'"
    using reader by (auto simp: reader_new_def rbind_eq_Inr simple_source.same_reader_def
        simple_source.same_stream_def simple_source.same_answer_def t'_def)
  have "\<forall>i \<le> length rs. within_limit opts i"
    using lim(2) by (auto simp: within_limit_def split: option.splits)
  from file_read [OF tr _ _ _ _ _ _ this lim(1) fuel, of t' rest retry attempts k] chunks
  obtain u where u: "read_all list_read env opts retry fuel (Suc attempts) (length rs + Suc k) t' =
      (Inr rs', u)" "rr_footer_seen u" "rr_cursor u = length rs"
    by (auto simp: t'_def)
  let ?run = "read_all si_read_limit env opts retry fuel (Suc attempts) (length rs + Suc k) t"
  have "fst ?run = Inr rs' \<and> simple_source.same_reader (snd ?run) u"
    using ssimD [OF simple_source.sim_read_all same, of env opts retry fuel "Suc attempts"
        "length rs + Suc k"] u(1) by simp
  with u(2,3) show "\<exists>u. ?run = (Inr rs', u) \<and> rr_footer_seen u \<and> rr_cursor u = length rs"
    by (intro exI [of _ "snd ?run"]) (simp add: simple_source.same_reader_def prod_eq_iff)
qed

lemma record_file_transfer:
  assumes schema: "odps_schema_new cols parts = Inr schema" "length (all_columns schema) < 33553408"
    and reader: "reader_new schema None sp opts [\<lambda>_. Inr (Some (si_open chunks))] = Inr t"
    and recs: "rmap (received env opts schema (rr_columns t) (rr_partition_spec t)) rs = Inr rs'"
    and lim: "length rs < 2 ^ 63"
      "case ro_read_limit opts of None \<Rightarrow> True | Some m \<Rightarrow> length rs < m"
    and fuel: "length (all_columns schema) < fuel"
    and chunks: "concat chunks = concat (pw_output (snd (write_file env schema buffer_size rs)))"
  shows "fst (write_file env schema buffer_size rs) = Inr ()"
    and "\<exists>u. read_all si_read_limit env opts retry fuel (Suc attempts) (length rs + Suc k) t = (Inr rs', u) \<and>
      rr_footer_seen u \<and> rr_cursor u = length rs"
proof -
  from records_transmitted [OF recs aligned_reader [OF schema(1) reader schema(2)] _ fuel, of fresh_crc]
  obtain img cc where tr: "transmits env opts schema (rr_columns t) (rr_partition_spec t) fuel rs rs'
      img fresh_crc cc" by auto
  have "idle schema fresh_crc 0 (bw_new schema buffer_size)"
    by (simp add: idle_def bw_new_def pw_new_def protobuf_writer.defs counted_def)
  with tr obtain s1 where s1: "write_records env rs (bw_new schema buffer_size) = (Inr (), s1)"
      "written s1 = written (bw_new schema buffer_size) @ img" "idle schema cc (length rs) s1"
    unfolding transmits_def by fastforce
  from close_effect [OF s1(3) lim(1)] obtain s2 where s2: "bw_close s1 = (Inr (), s2)"
      "concat (pw_output s2) = written s1 @ footer (length rs) cc" by blast
  have "written (bw_new schema buffer_size) = []"
    by (simp add: written_def bw_new_def pw_new_def protobuf_writer.defs)
  with s1(2) s2(2) have out: "concat (pw_output s2) = img @ footer (length rs) cc" by simp
  have w: "write_file env schema buffer_size rs = (Inr (), s2)"
    using s1(1) s2(1) by (simp add: write_file_def sbind_Inr)
  then show "fst (write_file env schema buffer_size rs) = Inr ()" by simp
  have "concat chunks = img @ footer (length rs) cc @ []" using chunks w out by simp
  from transmitted_read [OF reader tr lim _ this] fuel
  show "\<exists>u. read_all si_read_limit env opts retry fuel (Suc attempts) (length rs + Suc k) t = (Inr rs', u) \<and>
      rr_footer_seen u \<and> rr_cursor u = length rs" by simp
qed

end
