(* ===== verification/Record_Values.thy ===== *)
theory Record_Values
  imports Record_File
begin

text \<open>
  Which cells come back unchanged: \<open>storable\<close> describes, type by type, the values that survive the
  journey through the encoder, the decoder and the validation of the reader's record.
\<close>

section \<open>Values that come back\<close>

definition size_limit :: "nat option \<Rightarrow> nat" where
  "size_limit mx = (case mx of None \<Rightarrow> MAX_STRING | Some n \<Rightarrow> if n = 0 then MAX_STRING else n)"

text \<open>The class a string column has: \<^verbatim>\<open>bytes\<close> with \<^verbatim>\<open>string_as_binary\<close>, else \<^verbatim>\<open>str\<close>.\<close>

fun text_of :: "bool \<Rightarrow> py_value \<Rightarrow> bytes option" where
  "text_of True (PBytes b) = Some b"
| "text_of False (PStr b) = (if valid_utf8 b then Some b else None)"
| "text_of _ _ = None"

definition storable_prim :: "codec_env \<Rightarrow> reader_options \<Rightarrow> nat option \<Rightarrow> prim \<Rightarrow> py_value \<Rightarrow> bool" where
  "storable_prim env opts mx p v =
     (if p \<in> {Tinyint, Smallint, IntT, Bigint} then
        (case v of PInt n \<Rightarrow> fst (int_bounds p) \<le> n \<and> n \<le> snd (int_bounds p) | _ \<Rightarrow> False)
      else if p = Boolean then (case v of PBool b \<Rightarrow> True | _ \<Rightarrow> False)
      else if p = Double then (case v of PFloat x \<Rightarrow> True | _ \<Rightarrow> False)
      else if p = Float then
        (case v of
           PFloat x \<Rightarrow> (case float_narrow x of
             Inl _ \<Rightarrow> False | Inr y \<Rightarrow> \<not> single_nan y \<and> float_widen y = x)
         | _ \<Rightarrow> False)
      else if p = String then
        (case text_of (env_string_as_binary env) v of
           None \<Rightarrow> False | Some b \<Rightarrow> size_ok (length b) \<and> length b \<le> size_limit mx)
      else if p = Binary then
        (case v of
           PBytes b \<Rightarrow> size_ok (length b) \<and> length b \<le> size_limit mx \<and>
             (env_string_as_binary env \<or> valid_utf8 b)
         | _ \<Rightarrow> False)
      else if p = Datetime then
        (case v of
           PDatetime t \<Rightarrow> (case to_mills env False t of
             Inl _ \<Rightarrow> False | Inr m \<Rightarrow> long_ok m \<and> from_mills env False m = Inr t)
         | _ \<Rightarrow> False)
      else if p = Date then (case v of PDate d \<Rightarrow> - 719162 \<le> d \<and> d \<le> 2932896 | _ \<Rightarrow> False)
      else if p = Timestamp then wire_timestamp env opts False v = Inr v \<and> v \<noteq> PNone
      else if p = TimestampNTZ then wire_timestamp env opts True v = Inr v \<and> v \<noteq> PNone
      else if p = IntervalDayTime then wire_interval env v = Inr v
      else if p = IntervalYearMonth then (case v of PMonthdelta m \<Rightarrow> long_ok m | _ \<Rightarrow> False)
      else False)"

text \<open>Types whose values make keys that Python compares as the model does.\<close>

fun key_type :: "odps_type \<Rightarrow> bool" where
  "key_type (Prim p) =
     (p \<in> {Tinyint, Smallint, IntT, Bigint, Boolean, String, Binary, Datetime, Date, Timestamp,
        TimestampNTZ, IntervalYearMonth, IntervalDayTime})"
| "key_type (Varchar n) = True"
| "key_type (Char n) = True"
| "key_type _ = False"

text \<open>A missing element is no value at all in the types that cannot be validated.\<close>

definition storable_null :: "(py_value \<Rightarrow> bool) \<Rightarrow> odps_type \<Rightarrow> py_value \<Rightarrow> bool" where
  "storable_null P t v = (if v = PNone then t \<noteq> Prim Geography \<and> t \<noteq> Prim Blob else P v)"

function storable :: "codec_env \<Rightarrow> reader_options \<Rightarrow> nat option \<Rightarrow> odps_type \<Rightarrow> py_value \<Rightarrow> bool" where
  "storable env opts mx (Prim p) v = storable_prim env opts mx p v"
| "storable env opts mx (Varchar n) v =
     (case text_of (env_string_as_binary env) v of
        None \<Rightarrow> False
      | Some b \<Rightarrow> size_ok (length b) \<and> valid_utf8 b \<and> int (utf8_len b) \<le> n)"
| "storable env opts mx (Char n) v =
     (case text_of (env_string_as_binary env) v of
        None \<Rightarrow> False
      | Some b \<Rightarrow> size_ok (length b) \<and> valid_utf8 b \<and> int (utf8_len b) \<le> n)"
| "storable env opts mx (Decimal p s) v =
     (case v of
        PDecimal d \<Rightarrow> size_ok (length d) \<and> valid_utf8 d \<and>
          env_convert env (PStr d) (Decimal p s) = Inr v \<and> env_decimal_fits env d p s
      | _ \<Rightarrow> False)"
| "storable env opts mx (Array t) v =
     (case v of
        PList vs \<Rightarrow> size_ok (length vs) \<and>
          (\<forall>x \<in> set vs. storable_null (\<lambda>x. storable env opts None t x) t x)
      | _ \<Rightarrow> False)"
| "storable env opts mx (Map kt vt) v =
     (case v of
        PDict kvs \<Rightarrow> size_ok (length kvs) \<and> key_type kt \<and> distinct (List.map fst kvs) \<and>
          (\<forall>x \<in> set (List.map fst kvs). storable env opts None kt x) \<and>
          (\<forall>x \<in> set (List.map snd kvs). storable_null (\<lambda>x. storable env opts None vt x) vt x)
      | _ \<Rightarrow> False)"
| "storable env opts mx (Struct fs) v =
     (case v of
        PTuple vs \<Rightarrow> length vs = length fs \<and> distinct (List.map (\<lambda>f. str_of (fst f)) fs) \<and>
          (\<forall>(f, x) \<in> set (zip fs vs). storable_null (\<lambda>x. storable env opts None (snd f) x) (snd f) x)
      | _ \<Rightarrow> False)"
| "storable env opts mx (Vector t n) v =
     (case v of
        PList vs \<Rightarrow> size_ok (length vs) \<and> int (length vs) = n \<and> check_vector_elements vs = Inr () \<and>
          (\<forall>x \<in> set vs. storable env opts None t x)
      | _ \<Rightarrow> False)"
  by pat_completeness auto
termination
proof (relation "measure (\<lambda>(_, _, _, t, _). size t)", goal_cases)
  case (5 env opts mx fs v vs z f x y)
  then show ?case by (cases f) (auto dest!: set_zip_leftD simp: less_Suc_eq_le elim!: size_list_estimation')
qed auto

section \<open>Validation of what was decoded\<close>

lemma base_env_simps [simp]:
  "env_string_as_binary (base_env env) = env_string_as_binary env"
  "env_date_allow_int (base_env env) = env_date_allow_int env"
  "env_convert (base_env env) = env_convert env"
  "env_decimal_fits (base_env env) = env_decimal_fits env"
  by (simp_all add: base_env_def py_env.defs)

lemma validate_None:
  assumes "t \<noteq> Prim Geography" and "t \<noteq> Prim Blob"
  shows "validate_value env PNone t mx = Inr PNone"
  using assms
  by (cases t) (auto simp: validate_value.simps [of env PNone] cast_primitive_value_def
      sized_composite_def check_sized_string_def decimal_composite_def array_composite_def
      map_composite_def struct_composite_def vector_composite_def check_integer_def check_size_def
      check_json_def check_decimal_def check_vector_def string_cast_def cast_or_throw_def
      to_binary_def to_text_def can_cast_defs)

text \<open>\<open>returns env opts mx t v\<close>: written as a cell of type \<open>t\<close>, \<open>v\<close> is what the reader stores.\<close>

definition returns :: "codec_env \<Rightarrow> reader_options \<Rightarrow> nat option \<Rightarrow> odps_type \<Rightarrow> py_value \<Rightarrow> bool" where
  "returns env opts mx t v \<longleftrightarrow>
     (\<exists>w. wire env opts t v = Inr w \<and> validate_value (base_env env) w t mx = Inr v \<and>
        (key_type t \<longrightarrow> hashable w))"

lemma validate_builtin:
  assumes "has_builtin_type p v" and "p \<notin> {Geography, Blob}"
    and "case v of PStr s \<Rightarrow> False | PBytes s \<Rightarrow> False | _ \<Rightarrow> True"
    and "v \<noteq> PNone" and "check_value env (Prim p) v mx = Inr ()"
  shows "validate_value env v (Prim p) mx = Inr v"
proof -
  have "cast_primitive_value env p v = Inr v"
    using assms by (cases v) (simp_all add: cast_primitive_value_def)
  with assms show ?thesis by (simp add: validate_value.simps)
qed

lemma check_size_bytes:
  "length b \<le> size_limit mx \<Longrightarrow> check_size (PStr b) mx = Inr ()"
  "length b \<le> size_limit mx \<Longrightarrow> check_size (PBytes b) mx = Inr ()"
  by (simp_all add: check_size_def check_string_byte_size_def size_limit_def Let_def
      split: option.splits)

lemma returns_int:
  assumes "p \<in> {Tinyint, Smallint, IntT, Bigint}" and "fst (int_bounds p) \<le> n" "n \<le> snd (int_bounds p)"
  shows "returns env opts mx (Prim p) (PInt n)"
proof -
  have "long_ok n" using assms by auto
  then have "wire env opts (Prim p) (PInt n) = Inr (PInt n)"
    using assms(1) by (auto simp: wire_prim_def as_int_def wire_long_def rapply_def)
  moreover have "validate_value (base_env env) (PInt n) (Prim p) mx = Inr (PInt n)"
    using assms by (intro validate_builtin) (auto simp: check_integer_def)
  ultimately show ?thesis by (simp add: returns_def)
qed

lemma returns_string:
  assumes "text_of (env_string_as_binary env) v = Some b" and "size_ok (length b)"
    and "length b \<le> size_limit mx"
  shows "returns env opts mx (Prim String) v"
proof (cases "env_string_as_binary env")
  case True
  with assms(1) have v: "v = PBytes b" by (cases v) auto
  then have "wire env opts (Prim String) v = Inr (PBytes b)"
    using assms(2) by (simp add: wire_prim_def wire_bytes_def as_bytes_def)
  with v True assms(3) show ?thesis
    by (simp add: returns_def validate_value.simps cast_primitive_value_def check_size_bytes)
next
  case False
  with assms(1) have v: "v = PStr b" "valid_utf8 b" by (cases v; auto split: if_splits)+
  then have "wire env opts (Prim String) v = Inr (PBytes b)"
    using assms(2) by (simp add: wire_prim_def wire_bytes_def as_bytes_def)
  with v False assms(3) show ?thesis
    by (simp add: returns_def validate_value.simps cast_primitive_value_def utf8_decode_def
        check_size_bytes)
qed

lemma returns_binary:
  assumes "size_ok (length b)" and "length b \<le> size_limit mx"
    and "env_string_as_binary env \<or> valid_utf8 b"
  shows "returns env opts mx (Prim Binary) (PBytes b)"
proof -
  have "wire env opts (Prim Binary) (PBytes b) = Inr (PBytes b)"
    using assms(1) by (simp add: wire_prim_def wire_bytes_def as_bytes_def)
  moreover have "validate_value (base_env env) (PBytes b) (Prim Binary) mx = Inr (PBytes b)"
    using assms(2,3)
    by (cases "env_string_as_binary env")
      (simp_all add: validate_value.simps cast_primitive_value_def utf8_decode_def
        infer_primitive_data_type_def builtin_type_table_def binary_cast_def cast_or_throw_def
        can_cast_defs to_binary_def check_size_bytes)
  ultimately show ?thesis by (simp add: returns_def)
qed

lemma overflow_none_Inr [simp]: "overflow_none opts (Inr x) = Inr x"
  by (simp add: overflow_none_def)

lemma returns_prim:
  assumes "storable_prim env opts mx p v"
  shows "returns env opts mx (Prim p) v"
proof (cases p)
  case Datetime
  with assms obtain t m where v: "v = PDatetime t" "to_mills env False t = Inr m" "long_ok m"
      "from_mills env False m = Inr t"
    by (auto simp: storable_prim_def split: py_value.splits sum.splits)
  then have "wire env opts (Prim p) v = Inr v"
    using Datetime by (simp add: wire_prim_def as_datetime_def wire_long_def rapply_def)
  then show ?thesis using Datetime v validate_builtin [of p v] by (simp add: returns_def)
next
  case Float
  with assms obtain x y where v: "v = PFloat x" "float_narrow x = Inr y" "\<not> single_nan y" "float_widen y = x"
    by (auto simp: storable_prim_def split: py_value.splits sum.splits)
  then have "wire env opts (Prim p) v = Inr v"
    using Float by (simp add: wire_prim_def as_float_def)
  then show ?thesis using Float v(1) validate_builtin [of p v] by (simp add: returns_def)
next
  case Double
  with assms obtain x where v: "v = PFloat x" by (auto simp: storable_prim_def split: py_value.splits)
  then have "wire env opts (Prim p) v = Inr v"
    using Double by (simp add: wire_prim_def as_float_def rapply_def)
  then show ?thesis using Double v validate_builtin [of p v] by (simp add: returns_def)
next
  case Boolean
  with assms obtain x where v: "v = PBool x" by (auto simp: storable_prim_def split: py_value.splits)
  then have "wire env opts (Prim p) v = Inr v"
    using Boolean by (simp add: wire_prim_def as_bool_def rapply_def)
  then show ?thesis using Boolean v validate_builtin [of p v] by (simp add: returns_def)
next
  case Date
  with assms obtain d where v: "v = PDate d" "- 719162 \<le> d" "d \<le> 2932896"
    by (auto simp: storable_prim_def split: py_value.splits)
  then have "wire env opts (Prim p) v = Inr v"
    using Date by (simp add: wire_prim_def to_days_def wire_long_def to_date_def)
  then show ?thesis using Date v validate_builtin [of p v] by (simp add: returns_def)
next
  case IntervalYearMonth
  with assms obtain m where v: "v = PMonthdelta m" "long_ok m"
    by (auto simp: storable_prim_def split: py_value.splits)
  then have "wire env opts (Prim p) v = Inr v"
    using IntervalYearMonth by (simp add: wire_prim_def total_months_def wire_long_def rapply_def)
  then show ?thesis using IntervalYearMonth v validate_builtin [of p v] by (simp add: returns_def)
next
  case Timestamp
  with assms have v: "wire_timestamp env opts False v = Inr v" by (simp add: storable_prim_def)
  then obtain ns where "v = PTimestamp ns" by (auto simp: wire_timestamp_def split: py_value.splits)
  with v Timestamp show ?thesis
    using validate_builtin [of p v] by (simp add: returns_def wire_prim_def)
next
  case TimestampNTZ
  with assms have v: "wire_timestamp env opts True v = Inr v" by (simp add: storable_prim_def)
  then obtain ns where "v = PTimestamp ns" by (auto simp: wire_timestamp_def split: py_value.splits)
  with v TimestampNTZ show ?thesis
    using validate_builtin [of p v] by (simp add: returns_def wire_prim_def)
next
  case IntervalDayTime
  with assms have v: "wire_interval env v = Inr v" by (simp add: storable_prim_def)
  then obtain ns where "v = PTimedelta ns" by (auto simp: wire_interval_def split: py_value.splits)
  with v IntervalDayTime show ?thesis
    using validate_builtin [of p v] by (simp add: returns_def wire_prim_def)
qed (use assms in \<open>auto simp: storable_prim_def split: py_value.splits option.splits
      intro: returns_int returns_string returns_binary\<close>)

section \<open>Composite values\<close>

lemma rmap_back:
  assumes "\<And>x. x \<in> set xs \<Longrightarrow> \<exists>y. f x = Inr y \<and> g y = Inr x \<and> P y"
  shows "\<exists>ys. rmap f xs = Inr ys \<and> rmap g ys = Inr xs \<and> list_all P ys"
  using assms
proof (induction xs)
  case (Cons x xs)
  then obtain ys where ys: "rmap f xs = Inr ys" "rmap g ys = Inr xs" "list_all P ys"
    by (metis list.set_intros(2))
  from Cons.prems [of x] obtain y where "f x = Inr y" "g y = Inr x" "P y" by auto
  with ys show ?case by (intro exI [of _ "y # ys"]) simp
qed simp

lemma rmap_Inr_length: "rmap f xs = Inr ys \<Longrightarrow> length ys = length xs"
  by (induction xs arbitrary: ys) (auto simp: rbind_eq_Inr)

lemma rmap_Inr_nth: "rmap f xs = Inr ys \<Longrightarrow> i < length xs \<Longrightarrow> f (xs ! i) = Inr (ys ! i)"
proof (induction xs arbitrary: ys i)
  case (Cons x xs)
  then show ?case by (cases i) (auto simp: rbind_eq_Inr)
qed simp

lemma rmap_distinct:
  assumes "rmap g ys = Inr xs" and "distinct xs"
  shows "distinct ys"
  unfolding distinct_conv_nth
proof (intro allI impI notI)
  fix i j assume i: "i < length ys" "j < length ys" "i \<noteq> j" and e: "ys ! i = ys ! j"
  from e rmap_Inr_nth [OF assms(1) i(1)] rmap_Inr_nth [OF assms(1) i(2)] have "xs ! i = xs ! j" by simp
  with i assms(2) rmap_Inr_length [OF assms(1)] show False by (simp add: nth_eq_iff_index_eq)
qed

lemma rmap_eqI:
  assumes "length xs = length ys" and "\<And>i. i < length xs \<Longrightarrow> f (xs ! i) = g (ys ! i)"
  shows "rmap f xs = rmap g ys"
  using assms
proof (induction xs ys rule: list_induct2)
  case (Cons x xs y ys)
  have "f x = g y" using Cons.prems [of 0] by simp
  moreover have "rmap f xs = rmap g ys"
    by (rule Cons.IH) (use Cons.prems [of "Suc _"] in simp)
  ultimately show ?case by simp
qed simp

lemma update_new: "k \<notin> fst ` set d \<Longrightarrow> AList.update k v d = d @ [(k, v)]"
  by (induction d) auto

lemma fold_update_all:
  assumes "distinct (List.map fst d @ List.map fst kvs)"
  shows "fold (\<lambda>(k, v) d. AList.update k v d) kvs d = d @ kvs"
  using assms by (induction kvs arbitrary: d) (auto simp: update_new)

lemma py_dict_distinct:
  assumes "length ks = length vs" and "distinct ks" and "list_all hashable ks"
  shows "py_dict ks vs = Inr (PDict (zip ks vs))"
proof -
  have "list_all (\<lambda>(k, _). hashable k) (zip ks vs)"
    using assms(3) by (auto simp: list_all_iff dest: set_zip_leftD)
  with fold_update_all [of "[]" "zip ks vs"] assms(1,2) show ?thesis by (simp add: py_dict_def)
qed

lemma returns_null:
  assumes "storable_null P t x" and "P x \<Longrightarrow> returns env opts None t x" and "x = PNone \<Longrightarrow> \<not> P x"
  shows "\<exists>y. wire_null (wire env opts t) x = Inr y \<and> validate_value (base_env env) y t None = Inr x"
proof (cases "x = PNone")
  case True
  with assms(1) validate_None [of t "base_env env"] show ?thesis
    by (auto simp: storable_null_def wire_null_def)
next
  case False
  with assms(1,2) show ?thesis by (auto simp: storable_null_def wire_null_def returns_def)
qed

lemma not_storable_None: "\<not> storable env opts mx t PNone"
  by (cases t; cases "env_string_as_binary env")
    (auto simp: storable_prim_def wire_interval_def split: option.splits)

lemma returns_text:
  assumes "text_of (env_string_as_binary env) v = Some b" "size_ok (length b)" "valid_utf8 b"
    "int (utf8_len b) \<le> n"
  shows "returns env opts mx (Varchar n) v" "returns env opts mx (Char n) v"
proof -
  have v: "v = (if env_string_as_binary env then PBytes b else PStr b)"
    using assms(1) by (cases "env_string_as_binary env"; cases v) (auto split: if_splits)
  have w: "wire_bytes v = Inr (PBytes b)"
    using v assms(2) by (simp add: wire_bytes_def as_bytes_def)
  have c: "check_sized_string n (PBytes b) = Inr ()" "check_sized_string n (PStr b) = Inr ()"
    using assms(3,4) by (simp_all add: check_sized_string_def)
  show "returns env opts mx (Varchar n) v" "returns env opts mx (Char n) v"
    using v w c assms(3) by (simp_all add: returns_def validate_value.simps sized_composite_def
        string_cast_def cast_or_throw_def can_cast_defs to_binary_def to_text_def utf8_decode_def)
qed

lemma returns_decimal:
  assumes "size_ok (length d)" "valid_utf8 d" "env_decimal_fits env d p s"
    "env_convert env (PStr d) (Decimal p s) = Inr (PDecimal d)"
  shows "returns env opts mx (Decimal p s) (PDecimal d)"
  using assms
  by (simp add: returns_def decimal_str_def wire_bytes_def as_bytes_def validate_value.simps
      decimal_composite_def infer_primitive_data_type_def builtin_type_table_def cast_or_throw_def
      can_cast_defs utf8_decode_def check_decimal_def)

lemma returns_array:
  assumes "size_ok (length vs)"
    and "\<And>x. x \<in> set vs \<Longrightarrow> \<exists>y. wire_null (wire env opts t) x = Inr y \<and>
      validate_value (base_env env) y t None = Inr x"
  shows "returns env opts mx (Array t) (PList vs)"
proof -
  from rmap_back [of vs "wire_null (wire env opts t)" "\<lambda>y. validate_value (base_env env) y t None" "\<lambda>_. True"]
    assms(2)
  obtain ws where "rmap (wire_null (wire env opts t)) vs = Inr ws"
      "rmap (\<lambda>y. validate_value (base_env env) y t None) ws = Inr vs" by auto
  with assms(1) show ?thesis
    by (simp add: returns_def as_list_def sized_def rapply_def validate_value.simps array_composite_def)
qed

lemma returns_vector:
  assumes "size_ok (length vs)" "int (length vs) = n" "check_vector_elements vs = Inr ()"
    and "\<And>x. x \<in> set vs \<Longrightarrow> returns env opts None t x"
  shows "returns env opts mx (Vector t n) (PList vs)"
proof -
  from rmap_back [of vs "wire env opts t" "\<lambda>y. validate_value (base_env env) y t None" "\<lambda>_. True"]
    assms(4) [unfolded returns_def]
  obtain ws where "rmap (wire env opts t) vs = Inr ws"
      "rmap (\<lambda>y. validate_value (base_env env) y t None) ws = Inr vs" by blast
  with assms(1-3) show ?thesis
    by (simp add: returns_def as_list_def sized_def rapply_def validate_value.simps
        vector_composite_def check_vector_def)
qed

lemma rmap_pairs:
  assumes "rmap f xs = Inr us" and "rmap g ys = Inr vs" and "length xs = length ys"
  shows "rmap (\<lambda>(x, y). rbind (f x) (\<lambda>u. rbind (g y) (\<lambda>v. Inr (u, v)))) (zip xs ys) =
    Inr (zip us vs)"
  using assms(3,1,2)
proof (induction xs ys arbitrary: us vs rule: list_induct2)
  case (Cons x xs y ys)
  then show ?case by (fastforce simp: rbind_eq_Inr)
qed simp

lemma returns_map:
  assumes "size_ok (length kvs)" and "key_type kt" and "distinct (List.map fst kvs)"
    and ks: "\<And>x. x \<in> set (List.map fst kvs) \<Longrightarrow> x \<noteq> PNone \<and> returns env opts None kt x"
    and vs: "\<And>x. x \<in> set (List.map snd kvs) \<Longrightarrow> \<exists>y. wire_null (wire env opts vt) x = Inr y \<and>
      validate_value (base_env env) y vt None = Inr x"
  shows "returns env opts mx (Map kt vt) (PDict kvs)"
proof -
  let ?key = "\<lambda>y. validate_value (base_env env) y kt None"
  let ?val = "\<lambda>y. validate_value (base_env env) y vt None"
  have "\<exists>y. wire_null (wire env opts kt) x = Inr y \<and> ?key y = Inr x \<and> hashable y"
    if "x \<in> set (List.map fst kvs)" for x
    using ks [OF that] assms(2) by (auto simp: wire_null_def returns_def)
  from rmap_back [OF this] obtain kw where kw: "rmap (wire_null (wire env opts kt)) (List.map fst kvs) = Inr kw"
    "rmap ?key kw = Inr (List.map fst kvs)" "list_all hashable kw" by blast
  have "\<exists>y. wire_null (wire env opts vt) x = Inr y \<and> ?val y = Inr x \<and> True"
    if "x \<in> set (List.map snd kvs)" for x using vs [OF that] by simp
  from rmap_back [OF this] obtain vw where vw: "rmap (wire_null (wire env opts vt)) (List.map snd kvs) = Inr vw"
    "rmap ?val vw = Inr (List.map snd kvs)" by blast
  have len: "length kw = length vw" using rmap_Inr_length [OF kw(1)] rmap_Inr_length [OF vw(1)] by simp
  have d: "py_dict kw vw = Inr (PDict (zip kw vw))"
    by (rule py_dict_distinct [OF len rmap_distinct [OF kw(2) assms(3)] kw(3)])
  have z: "zip (List.map fst kvs) (List.map snd kvs) = kvs" by (rule zip_map_fst_snd)
  have "map_composite ?key ?val (PDict (zip kw vw)) = Inr (PDict kvs)"
    using rmap_pairs [OF kw(2) vw(2) len] fold_update_all [of "[]" kvs] assms(3)
    by (simp add: map_composite_def z)
  then have "validate_value (base_env env) (PDict (zip kw vw)) (Map kt vt) mx = Inr (PDict kvs)"
    by (simp add: validate_value.simps)
  moreover have "wire env opts (Map kt vt) (PDict kvs) = Inr (PDict (zip kw vw))"
    using assms(1) kw(1) vw(1) d by (simp add: as_dict_def sized_def)
  ultimately show ?thesis by (simp add: returns_def)
qed

lemma struct_back:
  assumes d: "distinct (List.map (\<lambda>f. str_of (fst f)) fs)" and "length ws = length fs"
    and v: "rmap (\<lambda>(w, f). val w (snd f)) (zip ws fs) = Inr vs" and l: "length vs = length fs"
  shows "struct_composite val fs (struct_result opts fs ws) = Inr (PTuple vs)"
proof (cases "ro_struct_as_dict opts")
  case True
  let ?kvs = "zip (List.map (\<lambda>f. str_of (fst f)) fs) ws"
  have e: "zip (List.map fst fs) ws = List.map (\<lambda>(f, w). (fst f, w)) (zip fs ws)"
    by (simp add: zip_map1)
  have "fold (\<lambda>(k, v) d. AList.update (str_of k) v d) (zip (List.map fst fs) ws) [] =
      fold (\<lambda>(k, v) d. AList.update k v d) ?kvs []"
    by (simp add: zip_map1 fold_map comp_def case_prod_unfold)
  also have "\<dots> = ?kvs" using fold_update_all [of "[]" ?kvs] d assms(2) by simp
  finally have r: "struct_result opts fs ws = PDict ?kvs" using True by (simp add: struct_result_def)
  have "rmap (\<lambda>f. val (dict_get ?kvs (str_of (fst f))) (snd f)) fs =
      rmap (\<lambda>(w, f). val w (snd f)) (zip ws fs)"
  proof (rule rmap_eqI)
    fix i assume i: "i < length fs"
    have "map_of ?kvs (List.map (\<lambda>f. str_of (fst f)) fs ! i) = Some (ws ! i)"
      by (rule map_of_zip_nth) (use d i assms(2) in auto)
    with i assms(2) show "val (dict_get ?kvs (str_of (fst (fs ! i)))) (snd (fs ! i)) =
        (case zip ws fs ! i of (w, f) \<Rightarrow> val w (snd f))"
      by (simp add: dict_get_def)
  qed (simp add: assms(2))
  with r v show ?thesis by (simp add: struct_composite_def)
next
  case False
  with v l show ?thesis by (simp add: struct_result_def struct_composite_def)
qed

lemma returns_struct:
  assumes "length vs = length fs" and d: "distinct (List.map (\<lambda>f. str_of (fst f)) fs)"
    and vs: "\<And>f x. (f, x) \<in> set (zip fs vs) \<Longrightarrow> \<exists>y. wire_null (wire env opts (snd f)) x = Inr y \<and>
      validate_value (base_env env) y (snd f) None = Inr x"
  shows "returns env opts mx (Struct fs) (PTuple vs)"
proof -
  let ?w = "\<lambda>(f, x). wire_null (\<lambda>x. wire env opts (snd f) x) x"
  let ?v = "\<lambda>(w, f). validate_value (base_env env) w (snd f) None"
  have "\<exists>ws. length ws = length fs \<and> rmap ?w (zip fs vs) = Inr ws \<and> rmap ?v (zip ws fs) = Inr vs"
    using assms(1) [symmetric] vs
  proof (induction fs vs rule: list_induct2)
    case (Cons f fs x xs)
    then obtain ws where "length ws = length fs" "rmap ?w (zip fs xs) = Inr ws"
      "rmap ?v (zip ws fs) = Inr xs" by auto
    moreover from Cons.prems [of f x] obtain y where "wire_null (wire env opts (snd f)) x = Inr y"
      "validate_value (base_env env) y (snd f) None = Inr x" by auto
    ultimately show ?case by (intro exI [of _ "y # ws"]) simp
  qed simp
  then obtain ws where ws: "length ws = length fs" "rmap ?w (zip fs vs) = Inr ws"
    "rmap ?v (zip ws fs) = Inr vs" by blast
  have "wire env opts (Struct fs) (PTuple vs) = Inr (struct_result opts fs ws)"
    using assms(1) ws(2) by (simp add: struct_values_def as_list_def rapply_def)
  moreover have "validate_value (base_env env) (struct_result opts fs ws) (Struct fs) mx = Inr (PTuple vs)"
    using struct_back [OF d ws(1) ws(3) assms(1)] by (simp add: validate_value.simps)
  ultimately show ?thesis by (simp add: returns_def)
qed

theorem storable_returns: "storable env opts mx t v \<Longrightarrow> returns env opts mx t v"
proof (induction env opts mx t v rule: storable.induct)
  case (2 env opts mx n v)
  then show ?case by (auto split: option.splits intro: returns_text)
next
  case (3 env opts mx n v)
  then show ?case by (auto split: option.splits intro: returns_text)
next
  case (4 env opts mx p s v)
  then show ?case by (auto split: py_value.splits intro: returns_decimal)
next
  case (5 env opts mx t v)
  then obtain vs where v: "v = PList vs" "size_ok (length vs)"
    "\<forall>x \<in> set vs. storable_null (storable env opts None t) t x" by (auto split: py_value.splits)
  with returns_array [OF v(2), of env opts t mx] returns_null 5 show ?case
    by (metis not_storable_None)
next
  case (6 env opts mx kt vt v)
  then obtain kvs where v: "v = PDict kvs" "size_ok (length kvs)" "key_type kt"
    "distinct (List.map fst kvs)"
    and ks: "\<forall>x \<in> set (List.map fst kvs). storable env opts None kt x"
    and vs: "\<forall>x \<in> set (List.map snd kvs). storable_null (storable env opts None vt) vt x"
    by (auto split: py_value.splits)
  have "x \<noteq> PNone \<and> returns env opts None kt x" if "x \<in> set (List.map fst kvs)" for x
    using 6(1) [OF v(1) that] ks that not_storable_None by metis
  moreover have "\<exists>y. wire_null (wire env opts vt) x = Inr y \<and>
      validate_value (base_env env) y vt None = Inr x" if "x \<in> set (List.map snd kvs)" for x
    using returns_null [of "storable env opts None vt" vt x env opts] 6(2) [OF v(1) that] vs that
      not_storable_None by metis
  ultimately show ?case using returns_map [OF v(2-4)] v(1) by blast
next
  case (7 env opts mx fs v)
  then obtain vs where v: "v = PTuple vs" "length vs = length fs"
    "distinct (List.map (\<lambda>f. str_of (fst f)) fs)"
    and al: "\<forall>(f, x) \<in> set (zip fs vs). storable_null (\<lambda>x. storable env opts None (snd f) x) (snd f) x"
    by (auto split: py_value.splits)
  have st: "storable_null (\<lambda>x. storable env opts None (snd f) x) (snd f) x"
    if "(f, x) \<in> set (zip fs vs)" for f x using al that by blast
  have ih: "storable env opts None (snd f) y \<Longrightarrow> returns env opts None (snd f) y"
    if "(f, x) \<in> set (zip fs vs)" for f x y
    using 7(1) [OF v(1) that, of f x] by simp
  have "\<exists>y. wire_null (wire env opts (snd f)) x = Inr y \<and>
      validate_value (base_env env) y (snd f) None = Inr x" if "(f, x) \<in> set (zip fs vs)" for f x
    using returns_null [OF st [OF that]] ih [OF that] not_storable_None by metis
  with returns_struct [OF v(2,3)] v(1) show ?case by blast
next
  case (8 env opts mx t n v)
  then obtain vs where v: "v = PList vs" "size_ok (length vs)" "int (length vs) = n"
    "check_vector_elements vs = Inr ()" "\<forall>x \<in> set vs. storable env opts None t x"
    by (auto split: py_value.splits)
  with 8 show ?case by (auto intro!: returns_vector)
qed (simp add: returns_prim)

section \<open>Records that come back\<close>

definition storable_cell :: "codec_env \<Rightarrow> reader_options \<Rightarrow> odps_schema \<Rightarrow> column \<Rightarrow> py_value \<Rightarrow> bool" where
  "storable_cell env opts schema c v \<longleftrightarrow>
     v = PNone \<or> \<not> is_partition schema (col_name c) \<and> storable env opts (Some MAX_FIELD_SIZE) (col_type c) v"

definition storable_record :: "codec_env \<Rightarrow> reader_options \<Rightarrow> odps_schema \<Rightarrow> rec \<Rightarrow> bool" where
  "storable_record env opts schema r \<longleftrightarrow>
     rec_columns r = os_columns schema \<and> length (rec_values r) = length (os_columns schema) \<and>
     list_all2 (storable_cell env opts schema) (os_columns schema) (rec_values r)"

lemma deliver_storable:
  assumes "list_all2 (storable_cell env opts schema) cols vs"
    and "rec_columns r = pre @ cols" and "rec_max r = Some MAX_FIELD_SIZE"
    and "rec_values r = us @ replicate (length cols) PNone" and "length us = length pre"
  shows "deliver env opts schema (length pre) (cols @ rest) vs r = Inr (r\<lparr>rec_values := us @ vs\<rparr>)"
  using assms
proof (induction cols vs arbitrary: pre us r rule: list_all2_induct)
  case Nil
  then show ?case by (cases rest) auto
next
  case (Cons c cols v vs)
  have step: "deliver env opts schema (Suc (length pre)) (cols @ rest) vs (r\<lparr>rec_values := us @ v # replicate (length cols) PNone\<rparr>) =
      Inr (r\<lparr>rec_values := us @ v # vs\<rparr>)"
    using Cons.IH [of "r\<lparr>rec_values := us @ v # replicate (length cols) PNone\<rparr>" "pre @ [c]" "us @ [v]"]
      Cons.prems by simp
  show ?case
  proof (cases "v = PNone")
    case True
    moreover have "r\<lparr>rec_values := us @ PNone # replicate (length cols) PNone\<rparr> = r"
      using Cons.prems(3) by simp
    ultimately show ?thesis using step by simp
  next
    case False
    with Cons.hyps(1) have p: "\<not> is_partition schema (col_name c)"
      and "storable env opts (Some MAX_FIELD_SIZE) (col_type c) v" by (simp_all add: storable_cell_def)
    from storable_returns [OF this(2)] obtain w where w: "wire env opts (col_type c) v = Inr w"
      "validate_value (base_env env) w (col_type c) (Some MAX_FIELD_SIZE) = Inr v"
      by (auto simp: returns_def)
    have "rec_set (base_env env) (length pre) w r =
        (Inr (), r\<lparr>rec_values := us @ v # replicate (length cols) PNone\<rparr>)"
      using Cons.prems w(2) by (simp add: rec_set_def nth_append list_update_append)
    with step w(1) p False show ?thesis by simp
  qed
qed

lemma storable_received:
  assumes "storable_record env opts schema r"
  shows "received env opts schema (os_columns schema) None r =
    Inr ((blank_record (os_columns schema))\<lparr>rec_values := rec_values r\<rparr>)"
  using assms deliver_storable [of env opts schema "os_columns schema" "rec_values r"
      "blank_record (os_columns schema)" "[]" "[]" "partition_list (os_partitions schema)"]
  by (simp add: received_def storable_record_def all_columns_def with_partitions_def blank_record_def
      rec_blank_def)

lemma storable_received_all:
  "list_all (storable_record env opts schema) rs \<Longrightarrow>
   rmap (received env opts schema (os_columns schema) None) rs =
     Inr (List.map (\<lambda>r. (blank_record (os_columns schema))\<lparr>rec_values := rec_values r\<rparr>) rs)"
  by (induction rs) (simp_all add: storable_received)

section \<open>The whole journey\<close>

text \<open>C1: storable records written through \<^verbatim>\<open>BaseRecordWriter\<close>, whatever its buffer size, and closed
  are read back by \<^verbatim>\<open>BaseTunnelRecordReader\<close> over \<^verbatim>\<open>SimpleInputStream\<close>, whatever the blocks the network
  cuts the bytes into: the records come out in order, cell by cell what was written, every checksum
  and the footer are verified, and the run ends.\<close>

theorem record_file_roundtrip:
  assumes schema: "odps_schema_new cols parts = Inr schema" "length (all_columns schema) < 33553408"
    and opts: "\<not> ro_append_partitions opts"
    and reader: "reader_new schema None SpecNone opts [\<lambda>_. Inr (Some (si_open chunks))] = Inr t"
    and recs: "list_all (storable_record env opts schema) rs"
    and lim: "length rs < 2 ^ 63"
      "case ro_read_limit opts of None \<Rightarrow> True | Some m \<Rightarrow> length rs < m"
    and fuel: "length (all_columns schema) < fuel"
    and chunks: "concat chunks = concat (pw_output (snd (write_file env schema buffer_size rs)))"
  shows "fst (write_file env schema buffer_size rs) = Inr () \<and>
    (\<exists>u. read_all si_read_limit env opts retry fuel (Suc attempts) (length rs + Suc k) t =
        (Inr (List.map (\<lambda>r. (blank_record (os_columns schema))\<lparr>rec_values := rec_values r\<rparr>) rs), u) \<and>
      rr_footer_seen u \<and> rr_cursor u = length rs)"
proof -
  from reader opts have "rr_columns t = os_columns schema" "rr_partition_spec t = None"
    by (auto simp: reader_new_def reader_columns_def)
  with storable_received_all [OF recs]
  have "rmap (received env opts schema (rr_columns t) (rr_partition_spec t)) rs =
      Inr (List.map (\<lambda>r. (blank_record (os_columns schema))\<lparr>rec_values := rec_values r\<rparr>) rs)" by simp
  from record_file_transfer [OF schema reader this lim fuel chunks] show ?thesis by blast
qed

definition demo_columns :: "column list" where
  "demo_columns = [mk_column ''id'' (Prim Bigint), mk_column ''name'' (Prim String),
     mk_column ''tags'' (Map (Prim String) (Array (Prim Date)))]"

definition demo_options :: reader_options where
  "demo_options = \<lparr>ro_read_limit = None, ro_require_footer = True, ro_struct_as_dict = False,
     ro_overflow_as_none = False, ro_append_partitions = False\<rparr>"

definition demo_schema :: odps_schema where
  "demo_schema = \<lparr>os_columns = demo_columns, os_partitions = Some [mk_column ''pt'' (Prim String)],
     os_schema = raw_schema demo_columns,
     os_pschema = raw_schema [mk_column ''pt'' (Prim String)]\<rparr>"

definition demo_records :: "rec list" where
  "demo_records = List.map (\<lambda>vs. (blank_record demo_columns)\<lparr>rec_values := vs\<rparr>)
     [[PInt 7, PStr [104, 105], PDict [(PStr [97], PList [PDate 18000, PNone])]],
      [PInt (- 1), PNone, PDict []]]"

definition demo_reader :: "bytes list \<Rightarrow> simple_input record_reader" where
  "demo_reader chunks =
     \<lparr>rr_columns = demo_columns, rr_partition_spec = None, rr_reader = None,
      rr_crc = checksum_new ''crc32c'', rr_crccrc = checksum_new ''crc32c'', rr_cursor = 0,
      rr_attempt_rows = 0, rr_last_n_bytes = 0, rr_footer_seen = False, rr_injected = None,
      rr_metrics = None, rr_opens = [\<lambda>_. Inr (Some (si_open chunks))]\<rparr>"

lemma demo_names: "py_lower ''id'' = ''id''" "py_lower ''name'' = ''name''"
  "py_lower ''tags'' = ''tags''" "py_lower ''pt'' = ''pt''"
  by code_simp+

lemma demo_schema_new: "odps_schema_new demo_columns (Some [mk_column ''pt'' (Prim String)]) = Inr demo_schema"
  by (simp add: odps_schema_new_def schema_of_def schema_init_def demo_columns_def demo_schema_def
    raw_schema_def partition_list_def mk_column_def demo_names name_indexes_def)

lemma demo_reader_new: "reader_new demo_schema None SpecNone demo_options
    [\<lambda>_. Inr (Some (si_open chunks))] = Inr (demo_reader chunks)"
  by (simp add: reader_new_def reader_columns_def demo_options_def demo_reader_def demo_schema_def)

lemma demo_storable: "list_all (storable_record plain_codec demo_options demo_schema) demo_records"
  by (simp add: storable_record_def demo_records_def demo_schema_def demo_columns_def blank_record_def
    rec_blank_def storable_cell_def is_partition_def raw_schema_def index_of_def mk_column_def demo_names
    storable_prim_def plain_codec_def plain_env_def py_env.defs size_limit_def MAX_FIELD_SIZE_def
    storable_null_def name_indexes_def MAX_STRING_def)

lemma record_file_roundtrip_witness:
  "\<exists>chunks u. list_all (\<lambda>b. length b = 1) chunks \<and>
    read_all si_read_limit plain_codec demo_options (read_options (Some 3) 1 None) 5 1 3 (demo_reader chunks) = (Inr demo_records, u) \<and>
    rr_footer_seen u"
proof -
  let ?img = "concat (pw_output (snd (write_file plain_codec demo_schema (Some 16) demo_records)))"
  let ?chunks = "List.map (\<lambda>b. [b]) ?img"
  have "\<exists>u. read_all si_read_limit plain_codec demo_options (read_options (Some 3) 1 None) 5 (Suc 0) (length demo_records + Suc 0)
      (demo_reader ?chunks) =
        (Inr (List.map (\<lambda>r. (blank_record (os_columns demo_schema))\<lparr>rec_values := rec_values r\<rparr>) demo_records), u) \<and>
      rr_footer_seen u \<and> rr_cursor u = length demo_records"
    by (rule record_file_roundtrip [OF demo_schema_new _ _ demo_reader_new demo_storable, THEN conjunct2])
      (simp_all add: demo_schema_def all_columns_def demo_columns_def partition_list_def demo_options_def
        demo_records_def)
  then show ?thesis
    by (intro exI [of _ ?chunks])
      (auto simp: demo_records_def demo_schema_def list_all_iff numeral_3_eq_3)
qed

end
