(* ===== verification/Blob_Crc.thy ===== *)
theory Blob_Crc
  imports Input_Source Checksum
begin

text \<open>
  \<^verbatim>\<open>odps/maxstorage/io/crc.py\<close>: reading exact amounts from a stream that may answer short, and
  \<^verbatim>\<open>CrcStrippedInputStream\<close>, which verifies and removes the CRC-32C that follows every 4096 bytes of
  a blob. The raw stream is read through an operation, its \<^verbatim>\<open>read(n)\<close>; the locale \<open>partial_source\<close>
  states what is expected of it, less than \<open>byte_source\<close> does. The stream is shown to deliver the
  stripped bytes whatever sizes they are asked in, and to reject damaged blocks.
\<close>

section \<open>Exact reads\<close>

text \<open>The loop of \<^verbatim>\<open>read_exact\<close>, \<open>n\<close> being \<^verbatim>\<open>n - bio.tell()\<close>.\<close>

function read_exact_loop :: "'s reading \<Rightarrow> nat \<Rightarrow> 's \<Rightarrow> bytes \<times> 's" where
  "read_exact_loop rd n s =
     (if n = 0 then ([], s)
      else case rd n s of (chunk, s') \<Rightarrow>
        if chunk = [] then ([], s')
        else case read_exact_loop rd (n - length chunk) s' of (rest, t) \<Rightarrow> (chunk @ rest, t))"
  by pat_completeness auto
termination
  by (relation "measure (\<lambda>(_, n, _). n)") auto

declare read_exact_loop.simps [simp del]

definition read_exact :: "'s reading \<Rightarrow> nat \<Rightarrow> bool \<Rightarrow> ('s, bytes) sm" where
  "read_exact rd n strict s =
     (case read_exact_loop rd n s of (data, s') \<Rightarrow>
        if strict \<and> length data < n then (Inl MaxStorageError, s') else (Inr data, s'))"

text \<open>\<^verbatim>\<open>struct.unpack("<q", data)\<close>.\<close>

definition le_signed :: "bytes \<Rightarrow> int" where
  "le_signed bs = (let v = le_value bs in if 2 ^ 63 \<le> v then v - 2 ^ 64 else v)"

definition read_le_long :: "'s reading \<Rightarrow> ('s, int option) sm" where
  "read_le_long rd s =
     (case rd 8 s of (data, s') \<Rightarrow>
        if data = [] then (Inr None, s')
        else if length data < 8 then (Inl MaxStorageError, s')
        else if length data = 8 then (Inr (Some (le_signed data)), s')
        else (Inl StructError, s'))"

section \<open>CrcStrippedInputStream\<close>

definition CRC_BLOCK_SIZE :: nat where "CRC_BLOCK_SIZE = 4096"
definition CRC_SIZE :: nat where "CRC_SIZE = 4"
definition FULL_BLOCK_TOTAL :: nat where "FULL_BLOCK_TOTAL = CRC_BLOCK_SIZE + CRC_SIZE"

record 's crc_stream =
  cs_raw :: 's
  cs_buffer :: bytes
  cs_finished :: bool

definition cs_new :: "'s \<Rightarrow> 's crc_stream" where
  "cs_new raw = \<lparr>cs_raw = raw, cs_buffer = [], cs_finished = False\<rparr>"

definition verify_block :: "bytes \<Rightarrow> bytes \<Rightarrow> ('s crc_stream, unit) sm" where
  "verify_block data_slice trailer =
     sbind (slift (unpack_u32 trailer)) (\<lambda>expected.
       if uint (crc32c_getvalue (crc32c_update data_slice None None CRC_INIT)) \<noteq> expected
       then sraise MaxStorageError
       else smod (\<lambda>s. s\<lparr>cs_buffer := cs_buffer s @ data_slice\<rparr>))"

definition cs_fill :: "'s reading \<Rightarrow> ('s crc_stream, unit) sm" where
  "cs_fill rd s =
     (if cs_finished s then (Inr (), s)
      else case read_exact rd FULL_BLOCK_TOTAL False (cs_raw s) of
        (Inl e, raw) \<Rightarrow> (Inl e, s\<lparr>cs_raw := raw\<rparr>)
      | (Inr block, raw) \<Rightarrow>
          let s = s\<lparr>cs_raw := raw\<rparr>; n = length block in
          if block = [] then (Inr (), s\<lparr>cs_finished := True\<rparr>)
          else if n = FULL_BLOCK_TOTAL
          then verify_block (take CRC_BLOCK_SIZE block) (drop CRC_BLOCK_SIZE block) s
          else if CRC_SIZE < n
          then verify_block (take (n - CRC_SIZE) block) (drop (n - CRC_SIZE) block)
                 (s\<lparr>cs_finished := True\<rparr>)
          else (Inl MaxStorageError, s))"

lemma verify_block_Inr:
  "verify_block d t s = (Inr x, s') \<Longrightarrow> s' = s\<lparr>cs_buffer := cs_buffer s @ d\<rparr>"
  by (auto simp: verify_block_def sbind_def slift_def sraise_def smod_def split: sum.splits if_splits)

lemma cs_fill_progress:
  assumes "cs_fill rd s = (Inr x, s')" and "\<not> cs_finished s"
  shows "cs_finished s' \<or> length (cs_buffer s') = length (cs_buffer s) + 4096"
  using assms
  by (auto simp: cs_fill_def Let_def CRC_BLOCK_SIZE_def CRC_SIZE_def FULL_BLOCK_TOTAL_def
      dest!: verify_block_Inr split: prod.splits sum.splits if_splits)

text \<open>The loop of \<^verbatim>\<open>peek\<close> and of \<^verbatim>\<open>read\<close> with a size; that of \<^verbatim>\<open>read()\<close> needs a stream that ends.\<close>

function fill_loop :: "'s reading \<Rightarrow> nat \<Rightarrow> ('s crc_stream, unit) sm" where
  "fill_loop rd n s =
     (if n \<le> length (cs_buffer s) \<or> cs_finished s then (Inr (), s)
      else case cs_fill rd s of
        (Inl e, s') \<Rightarrow> (Inl e, s')
      | (Inr _, s') \<Rightarrow> fill_loop rd n s')"
  by pat_completeness auto
termination
proof (relation "measure (\<lambda>(_, n, s). if cs_finished s then 0 else Suc (n - length (cs_buffer s)))", goal_cases)
  case (2 rd n s r s' x)
  then show ?case using cs_fill_progress [of rd s x s'] by auto
qed simp

declare fill_loop.simps [simp del]

fun fill_all :: "'s reading \<Rightarrow> nat \<Rightarrow> ('s crc_stream, unit) sm" where
  "fill_all rd 0 s = (Inl FuelExhausted, s)"
| "fill_all rd (Suc fuel) s =
     (if cs_finished s then (Inr (), s)
      else case cs_fill rd s of
        (Inl e, s') \<Rightarrow> (Inl e, s')
      | (Inr _, s') \<Rightarrow> fill_all rd fuel s')"

definition cs_peek :: "'s reading \<Rightarrow> int \<Rightarrow> ('s crc_stream, bytes) sm" where
  "cs_peek rd n =
     (if n \<le> 0 then sret []
      else sthen (fill_loop rd (nat n)) (sget (\<lambda>s. take (nat n) (cs_buffer s))))"

definition cs_read :: "'s reading \<Rightarrow> nat \<Rightarrow> int \<Rightarrow> ('s crc_stream, bytes) sm" where
  "cs_read rd fuel n =
     (if n = 0 then sret []
      else if n < 0 then
        sthen (fill_all rd fuel)
          (\<lambda>s. (Inr (cs_buffer s), s\<lparr>cs_buffer := []\<rparr>))
      else
        sthen (fill_loop rd (nat n))
          (\<lambda>s. (Inr (take (nat n) (cs_buffer s)),
            s\<lparr>cs_buffer := drop (nat n) (cs_buffer s)\<rparr>)))"

section \<open>Stripping\<close>

text \<open>The wire format: every 4096 bytes, the last of them fewer, followed by their CRC-32C.\<close>

definition crc_trailer :: "bytes \<Rightarrow> bytes" where
  "crc_trailer block = le_bytes 4 (uint (crc32c_of block))"

function crc_framed :: "bytes \<Rightarrow> bytes" where
  "crc_framed data =
     (if data = [] then []
      else take 4096 data @ crc_trailer (take 4096 data) @ crc_framed (drop 4096 data))"
  by pat_completeness auto
termination
  by (relation "measure length") auto

declare crc_framed.simps [simp del]

lemma length_crc_trailer [simp]: "length (crc_trailer b) = 4"
  by (simp add: crc_trailer_def)

lemma crc_framed_Nil [simp]: "crc_framed [] = []"
  by (simp add: crc_framed.simps)

lemma crc_framed_append:
  "length block = 4096 \<Longrightarrow> crc_framed (block @ rest) = block @ crc_trailer block @ crc_framed rest"
  by (subst crc_framed.simps) auto

lemma crc_framed_last:
  "block \<noteq> [] \<Longrightarrow> length block \<le> 4096 \<Longrightarrow> crc_framed block = block @ crc_trailer block"
  by (subst crc_framed.simps) auto

lemma verify_block_eq:
  "length t = 4 \<Longrightarrow> verify_block d t s =
     (if t = crc_trailer d then (Inr (), s\<lparr>cs_buffer := cs_buffer s @ d\<rparr>) else (Inl MaxStorageError, s))"
proof -
  assume t: "length t = 4"
  have b: "uint (crc32c_of d) < 256 ^ 4" using uint_lt2p [of "crc32c_of d"] by simp
  have "le_value t = uint (crc32c_of d) \<longleftrightarrow> t = crc_trailer d"
  proof
    assume "le_value t = uint (crc32c_of d)"
    then show "t = crc_trailer d" using le_bytes_le_value [OF t] by (simp add: crc_trailer_def)
  next
    assume "t = crc_trailer d"
    with b show "le_value t = uint (crc32c_of d)"
      by (simp only: crc_trailer_def) (rule le_value_le_bytes, simp_all)
  qed
  with t show ?thesis
    by (auto simp: verify_block_def unpack_u32_def sbind_def slift_def sraise_def smod_def crc32c_of_def)
qed

text \<open>What \<^verbatim>\<open>_fill\<close> does with the block it got.\<close>

lemma cs_fill_block:
  assumes "\<not> cs_finished s" and "read_exact_loop rd 4100 (cs_raw s) = (d @ t, raw)"
    and "length t = 4" and "d \<noteq> []" and "length d \<le> 4096"
  shows "cs_fill rd s =
    (if t = crc_trailer d
     then (Inr (), s\<lparr>cs_raw := raw, cs_buffer := cs_buffer s @ d, cs_finished := length d \<noteq> 4096\<rparr>)
     else (Inl MaxStorageError, s\<lparr>cs_raw := raw, cs_finished := length d \<noteq> 4096\<rparr>))"
  using assms
  by (cases s) (auto simp: cs_fill_def read_exact_def Let_def FULL_BLOCK_TOTAL_def CRC_BLOCK_SIZE_def
      CRC_SIZE_def verify_block_eq)

lemma cs_fill_end:
  assumes "\<not> cs_finished s" and "read_exact_loop rd 4100 (cs_raw s) = ([], raw)"
  shows "cs_fill rd s = (Inr (), s\<lparr>cs_raw := raw, cs_finished := True\<rparr>)"
  using assms
  by (simp add: cs_fill_def read_exact_def FULL_BLOCK_TOTAL_def CRC_BLOCK_SIZE_def CRC_SIZE_def)

locale partial_source =
  fixes rd :: "nat \<Rightarrow> 's \<Rightarrow> bytes \<times> 's"
    and content :: "'s \<Rightarrow> bytes"
    and valid :: "'s \<Rightarrow> bool"
  assumes rd_part: "valid s \<Longrightarrow> 0 < n \<Longrightarrow> \<exists>k. 0 < k \<and> k \<le> n \<and> fst (rd n s) = take k (content s) \<and>
      content (snd (rd n s)) = drop k (content s) \<and> valid (snd (rd n s))"
begin

lemma read_exact_loop_content:
  "valid s \<Longrightarrow> read_exact_loop rd n s = (bs, s') \<Longrightarrow>
   bs = take n (content s) \<and> content s' = drop n (content s) \<and> valid s'"
proof (induction n arbitrary: s bs s' rule: less_induct)
  case (less n)
  show ?case
  proof (cases "n = 0")
    case True
    with less show ?thesis by (auto simp: read_exact_loop.simps [of rd 0])
  next
    case False
    obtain c t where c: "rd n s = (c, t)" by fastforce
    with rd_part [OF less.prems(1), of n] False obtain k where k: "0 < k" "k \<le> n"
      "c = take k (content s)" "content t = drop k (content s)" "valid t" by auto
    show ?thesis
    proof (cases "c = []")
      case True
      with k less.prems(2) c False show ?thesis by (simp add: read_exact_loop.simps [of _ n])
    next
      case ne: False
      obtain r u where r: "read_exact_loop rd (n - length c) t = (r, u)" by fastforce
      with less.prems(2) c False ne have e: "bs = c @ r" "s' = u"
        by (simp_all add: read_exact_loop.simps [of _ n])
      have "n - length c < n" using ne False by simp
      from less.IH [OF this k(5) r] have i: "r = take (n - length c) (drop k (content s))"
        "content u = drop (n - length c) (drop k (content s))" "valid u" by (simp_all add: k(4))
      show ?thesis
      proof (cases "k \<le> length (content s)")
        case True
        then have l: "length c = k" by (simp add: k(3))
        have "take n (content s) = take k (content s) @ take (n - k) (drop k (content s))"
          using k(2) by (metis le_add_diff_inverse take_add)
        then show ?thesis using e i k(2,3) l by (simp add: drop_drop)
      next
        case f: False
        then have "c = content s" "drop k (content s) = []" by (simp_all add: k(3))
        with e i k(2) f show ?thesis by simp
      qed
    qed
  qed
qed

text \<open>\<open>data\<close> is what the stream still has to deliver: what it has buffered and what is framed in the raw stream.\<close>

definition strips :: "'s crc_stream \<Rightarrow> bytes \<Rightarrow> bool" where
  "strips s data \<longleftrightarrow> valid (cs_raw s) \<and>
     (\<exists>rest. data = cs_buffer s @ rest \<and> content (cs_raw s) = crc_framed rest \<and>
        (cs_finished s \<longrightarrow> rest = []))"

lemma cs_fill_strips:
  assumes "strips s data" and nf: "\<not> cs_finished s"
  shows "\<exists>s'. cs_fill rd s = (Inr (), s') \<and> strips s' data \<and>
    (cs_finished s' \<or> length (content (cs_raw s')) < length (content (cs_raw s)))"
proof -
  from assms(1) obtain rest where r: "valid (cs_raw s)" "data = cs_buffer s @ rest"
    "content (cs_raw s) = crc_framed rest" by (auto simp: strips_def)
  obtain block raw where b: "read_exact_loop rd 4100 (cs_raw s) = (block, raw)" by fastforce
  from read_exact_loop_content [OF r(1) b] r(3) have c: "block = take 4100 (crc_framed rest)"
    "content raw = drop 4100 (crc_framed rest)" "valid raw" by simp_all
  show ?thesis
  proof (cases "rest = []")
    case True
    with c r b cs_fill_end [OF nf, of rd raw] show ?thesis by (simp add: strips_def)
  next
    case False
    define d where "d = take 4096 rest"
    have f: "crc_framed rest = d @ crc_trailer d @ crc_framed (drop 4096 rest)"
      using False by (subst crc_framed.simps) (simp add: d_def)
    have "length d = 4096 \<or> drop 4096 rest = []" by (auto simp: d_def)
    with c(1,2) f have "block = d @ crc_trailer d" "content raw = crc_framed (drop 4096 rest)"
      by (auto simp: d_def)
    moreover have "d \<noteq> []" "length d \<le> 4096" "cs_buffer s @ rest = (cs_buffer s @ d) @ drop 4096 rest"
      "length d \<noteq> 4096 \<longrightarrow> drop 4096 rest = []"
      using False by (auto simp: d_def)
    ultimately show ?thesis
      using cs_fill_block [OF nf, of rd d "crc_trailer d" raw] b c(3) r f by (auto simp: strips_def)
  qed
qed

lemma fill_loop_strips:
  "strips s data \<Longrightarrow> \<exists>s'. fill_loop rd n s = (Inr (), s') \<and> strips s' data \<and>
    (n \<le> length (cs_buffer s') \<or> cs_finished s')"
proof (induction "if cs_finished s then 0 else Suc (length (content (cs_raw s)))" arbitrary: s rule: less_induct)
  case less
  show ?case
  proof (cases "n \<le> length (cs_buffer s) \<or> cs_finished s")
    case True
    with less.prems show ?thesis by (subst fill_loop.simps) auto
  next
    case False
    with cs_fill_strips [OF less.prems] obtain s1 where s1: "cs_fill rd s = (Inr (), s1)" "strips s1 data"
      "cs_finished s1 \<or> length (content (cs_raw s1)) < length (content (cs_raw s))" by auto
    with False less.hyps [OF _ s1(2)] show ?thesis by (subst fill_loop.simps) auto
  qed
qed

lemma fill_all_strips:
  "strips s data \<Longrightarrow> length (content (cs_raw s)) + 1 < fuel \<Longrightarrow>
   \<exists>s'. fill_all rd fuel s = (Inr (), s') \<and> strips s' data \<and> cs_finished s'"
proof (induction fuel arbitrary: s)
  case (Suc fuel)
  show ?case
  proof (cases "cs_finished s")
    case False
    with cs_fill_strips [OF Suc.prems(1)] obtain s1 where s1: "cs_fill rd s = (Inr (), s1)" "strips s1 data"
      "cs_finished s1 \<or> length (content (cs_raw s1)) < length (content (cs_raw s))" by auto
    show ?thesis
    proof (cases "cs_finished s1")
      case True
      with Suc.prems(2) obtain m where "fuel = Suc m" by (cases fuel) auto
      with True False s1 show ?thesis by simp
    next
      case nf: False
      with Suc.IH [OF s1(2)] s1 Suc.prems(2) False show ?thesis by simp
    qed
  qed (use Suc.prems in simp)
qed simp

lemma cs_read_strips:
  assumes "strips s data" and "0 \<le> n"
  shows "\<exists>s'. cs_read rd fuel n s = (Inr (take (nat n) data), s') \<and> strips s' (drop (nat n) data)"
proof (cases "n = 0")
  case False
  from fill_loop_strips [OF assms(1), of "nat n"] obtain s1 where s1: "fill_loop rd (nat n) s = (Inr (), s1)"
    "strips s1 data" "nat n \<le> length (cs_buffer s1) \<or> cs_finished s1" by auto
  then show ?thesis using False assms(2)
    by (auto simp: cs_read_def sbind_def strips_def)
qed (use assms in \<open>simp add: cs_read_def sret_apply\<close>)

lemma cs_read_all_strips:
  assumes "strips s data" and "n < 0" and "length (content (cs_raw s)) + 1 < fuel"
  shows "\<exists>s'. cs_read rd fuel n s = (Inr data, s') \<and> strips s' []"
  using fill_all_strips [OF assms(1,3)] assms(2)
  by (auto simp: cs_read_def sbind_def strips_def)

lemma cs_reads_strips:
  assumes "strips s data" and "list_all (\<lambda>n. 0 \<le> n) sizes"
  shows "\<exists>pieces s'. sseq (List.map (cs_read rd fuel) sizes) s = (Inr pieces, s') \<and>
    concat pieces = take (nat (sum_list sizes)) data \<and> strips s' (drop (nat (sum_list sizes)) data)"
  using assms
proof (induction sizes arbitrary: s data)
  case (Cons n sizes)
  from cs_read_strips [OF Cons.prems(1)] Cons.prems(2) obtain s1 where
    s1: "cs_read rd fuel n s = (Inr (take (nat n) data), s1)" "strips s1 (drop (nat n) data)" by auto
  from Cons.IH [OF s1(2)] Cons.prems(2) obtain pieces s2 where
    s2: "sseq (List.map (cs_read rd fuel) sizes) s1 = (Inr pieces, s2)"
      "concat pieces = take (nat (sum_list sizes)) (drop (nat n) data)"
      "strips s2 (drop (nat (sum_list sizes)) (drop (nat n) data))" by auto
  have "0 \<le> sum_list sizes" using Cons.prems(2) by (induction sizes) auto
  with Cons.prems(2) have "nat (n + sum_list sizes) = nat n + nat (sum_list sizes)"
    by (simp add: nat_add_distrib)
  with s1 s2 show ?case
    by (simp add: sbind_def sret_def take_add add.commute)
qed (simp add: sret_apply)

lemma cs_fill_rejects:
  assumes "valid (cs_raw s)" and nf: "\<not> cs_finished s" and "content (cs_raw s) = d @ t @ tail"
    and "d \<noteq> []" "length d \<le> 4096" "length t = 4" "tail = [] \<or> length d = 4096" "t \<noteq> crc_trailer d"
  obtains raw where "cs_fill rd s =
    (Inl MaxStorageError, s\<lparr>cs_raw := raw, cs_finished := length d \<noteq> 4096\<rparr>)"
    "valid raw" "content raw = tail"
proof -
  obtain block raw where b: "read_exact_loop rd 4100 (cs_raw s) = (block, raw)" by fastforce
  from read_exact_loop_content [OF assms(1) b] assms(3,5,6,7)
  have "block = d @ t" "content raw = tail" "valid raw" by auto
  with cs_fill_block [OF nf, of rd d t raw] b assms(4-8) that show ?thesis by simp
qed

lemma fill_all_rejects:
  assumes "4096 dvd length pre" and "valid (cs_raw s)" and "\<not> cs_finished s"
    and "content (cs_raw s) = crc_framed pre @ d @ t @ tail"
    and d: "d \<noteq> []" "length d \<le> 4096" "length t = 4" "tail = [] \<or> length d = 4096" "t \<noteq> crc_trailer d"
    and "length pre < fuel"
  shows "\<exists>s'. fill_all rd fuel s = (Inl MaxStorageError, s') \<and> cs_finished s' = (length d \<noteq> 4096) \<and>
    cs_buffer s' = cs_buffer s @ pre"
  using assms(1-4,10)
proof (induction pre arbitrary: s fuel rule: length_induct)
  case (1 pre)
  from "1.prems"(5) obtain m where fuel: "fuel = Suc m" by (cases fuel) auto
  show ?case
  proof (cases "pre = []")
    case True
    with 1 have "content (cs_raw s) = d @ t @ tail" by simp
    from cs_fill_rejects [OF "1.prems"(2,3) this d] obtain raw where "cs_fill rd s =
      (Inl MaxStorageError, s\<lparr>cs_raw := raw, cs_finished := length d \<noteq> 4096\<rparr>)" by blast
    with True fuel "1.prems"(3) show ?thesis by simp
  next
    case False
    define b rest where "b = take 4096 pre" and "rest = drop 4096 pre"
    have p: "pre = b @ rest" by (simp add: b_def rest_def)
    have "4096 \<le> length pre" using False "1.prems"(1) by (simp add: dvd_imp_le)
    then have lb: "length b = 4096" "b \<noteq> []" by (auto simp: b_def)
    have dr: "4096 dvd length rest" using "1.prems"(1) by (simp add: rest_def dvd_minus_self)
    obtain block raw where r: "read_exact_loop rd 4100 (cs_raw s) = (block, raw)" by fastforce
    from read_exact_loop_content [OF "1.prems"(2) r] "1.prems"(4) lb
    have "block = b @ crc_trailer b" "content raw = crc_framed rest @ d @ t @ tail" "valid raw"
      by (simp_all add: p crc_framed_append)
    then have raw: "read_exact_loop rd 4100 (cs_raw s) = (b @ crc_trailer b, raw)"
      "content raw = crc_framed rest @ d @ t @ tail" "valid raw" using r by simp_all
    from cs_fill_block [OF "1.prems"(3), of rd b "crc_trailer b" raw] raw(1) lb
    have filled: "cs_fill rd s = (Inr (), s\<lparr>cs_raw := raw, cs_buffer := cs_buffer s @ b, cs_finished := False\<rparr>)"
      by simp
    have "length rest < length pre" "length rest < m" using lb "1.prems"(5) fuel by (simp_all add: p)
    then show ?thesis
      using "1.IH" [rule_format, OF \<open>length rest < length pre\<close> dr,
          of "s\<lparr>cs_raw := raw, cs_buffer := cs_buffer s @ b, cs_finished := False\<rparr>" m]
        filled raw fuel "1.prems"(3) by (simp add: p)
  qed
qed

end

text \<open>A stream that always answers in full is one that may answer short.\<close>

sublocale byte_source \<subseteq> partial_source rd content valid
proof
  fix s and n :: nat
  assume "valid s" "0 < n"
  then show "\<exists>k. 0 < k \<and> k \<le> n \<and> fst (rd n s) = take k (content s) \<and>
      content (snd (rd n s)) = drop k (content s) \<and> valid (snd (rd n s))"
    using rd_result rd_content rd_valid by blast
qed

interpretation block_source: partial_source internal_read si_content si_valid
proof
  fix s and n :: nat
  assume v: "si_valid s" "0 < n"
  obtain bs t where r: "internal_read n s = (bs, t)" by fastforce
  note c = internal_read_content [OF v(1) r]
  show "\<exists>k. 0 < k \<and> k \<le> n \<and> fst (internal_read n s) = take k (si_content s) \<and>
      si_content (snd (internal_read n s)) = drop k (si_content s) \<and> si_valid (snd (internal_read n s))"
  proof (cases "bs = []")
    case True
    with c v(2) show ?thesis by (intro exI [of _ n]) (auto simp: r)
  next
    case False
    with c show ?thesis by (intro exI [of _ "length bs"]) (simp add: r)
  qed
qed

section \<open>Properties\<close>

lemma length_crc_framed: "length (crc_framed d) \<le> 5 * length d"
proof (induction d rule: crc_framed.induct)
  case (1 d)
  show ?case
  proof (cases "d = []")
    case False
    then have "1 \<le> length d" by (simp add: Suc_le_eq)
    with 1 False show ?thesis by (subst crc_framed.simps) (simp add: min_def; linarith)
  qed simp
qed

lemma strips_open: "concat chunks = crc_framed data \<Longrightarrow> simple_source.strips (cs_new (si_open chunks)) data"
  by (simp add: simple_source.strips_def cs_new_def)

text \<open>C30: over a blob whose bytes come framed in 4096-byte blocks with their CRC-32C, whatever the network
  blocks, \<^verbatim>\<open>CrcStrippedInputStream\<close> is a plain stream of the blob: any sequence of reads gives
  consecutive pieces of it, and a final \<^verbatim>\<open>read()\<close> gives all the rest.\<close>

theorem blob_stream_strips:
  assumes "concat chunks = crc_framed data" and "list_all (\<lambda>n. 0 \<le> n) sizes"
    and "5 * length data + 1 < fuel"
  shows "\<exists>pieces s s'. sseq (List.map (cs_read si_read_limit fuel) sizes) (cs_new (si_open chunks)) = (Inr pieces, s) \<and>
    concat pieces = take (nat (sum_list sizes)) data \<and>
    cs_read si_read_limit fuel (- 1) s = (Inr (drop (nat (sum_list sizes)) data), s')"
proof -
  from simple_source.cs_reads_strips [OF strips_open [OF assms(1)] assms(2)]
  obtain pieces s where s: "sseq (List.map (cs_read si_read_limit fuel) sizes) (cs_new (si_open chunks)) = (Inr pieces, s)"
    "concat pieces = take (nat (sum_list sizes)) data"
    "simple_source.strips s (drop (nat (sum_list sizes)) data)" by blast
  from s(3) obtain rest where rest: "drop (nat (sum_list sizes)) data = cs_buffer s @ rest"
    "si_content (cs_raw s) = crc_framed rest" by (auto simp: simple_source.strips_def)
  from arg_cong [OF rest(1), of length] have "length rest \<le> length data" by simp
  with length_crc_framed [of rest] rest(2) have "length (si_content (cs_raw s)) \<le> 5 * length data" by simp
  with assms(3) have "length (si_content (cs_raw s)) + 1 < fuel" by simp
  from simple_source.cs_read_all_strips [OF s(3) _ this, of "- 1"] s(1,2) show ?thesis by auto
qed

lemma blob_stream_strips_witness:
  "\<exists>pieces s s'. sseq (List.map (cs_read si_read_limit 20) [2, 0, 1])
      (cs_new (si_open [[10, 20, 30], crc_trailer [10, 20, 30]])) = (Inr pieces, s) \<and>
    concat pieces = take (nat (sum_list [2, 0, 1])) [10, 20, 30] \<and>
    cs_read si_read_limit 20 (- 1) s = (Inr (drop (nat (sum_list [2, 0, 1])) [10, 20, 30]), s')"
  by (rule blob_stream_strips) (simp_all add: crc_framed_last)

text \<open>C31: when within one block up to four consecutive bytes of a blob were altered, reading the blob
  raises \<^verbatim>\<open>MaxStorageError\<close>.\<close>

theorem blob_stream_detects:
  assumes "concat chunks = crc_framed pre @ (a @ m' @ b) @ crc_trailer (a @ m @ b) @ tail"
    and "4096 dvd length pre" and "length (a @ m' @ b) \<le> 4096"
    and "tail = [] \<or> length (a @ m' @ b) = 4096"
    and "length m = length m'" and "length m \<le> 4" and "m \<noteq> m'" and "length pre < fuel"
  shows "fst (cs_read si_read_limit fuel (- 1) (cs_new (si_open chunks))) = Inl MaxStorageError"
proof -
  have "crc32c_of (a @ m @ b) \<noteq> crc32c_of (a @ m' @ b)"
    using crc_bitwise_burst [of castagnoli, OF _ assms(5-7)] by (simp add: crc32c_of_eq castagnoli_def)
  then have "crc_trailer (a @ m @ b) \<noteq> crc_trailer (a @ m' @ b)"
    using le_bytes_inj [of 4 "uint (crc32c_of (a @ m @ b))" "uint (crc32c_of (a @ m' @ b))"]
      uint_lt2p [of "crc32c_of (a @ m @ b)"] uint_lt2p [of "crc32c_of (a @ m' @ b)"]
    by (auto simp: crc_trailer_def simp flip: word_uint_eq_iff)
  moreover have "a @ m' @ b \<noteq> []" using assms(5,7) by auto
  ultimately obtain s' where "fill_all si_read_limit fuel (cs_new (si_open chunks)) = (Inl MaxStorageError, s')"
    using simple_source.fill_all_rejects [of pre "cs_new (si_open chunks)" "a @ m' @ b"
        "crc_trailer (a @ m @ b)" tail fuel] assms(1-4,8) by (auto simp: cs_new_def)
  then show ?thesis by (simp add: cs_read_def sbind_def)
qed

lemma blob_stream_detects_witness:
  "fst (cs_read si_read_limit 20 (- 1)
     (cs_new (si_open [[10, 21, 30], crc_trailer ([10] @ [20] @ [30])]))) = Inl MaxStorageError"
  by (rule blob_stream_detects [where pre = "[]" and a = "[10]" and m = "[20]" and m' = "[21]"
        and b = "[30]" and tail = "[]"]) simp_all

text \<open>C32: the stream marks itself finished before it has verified the last block: a caller that reads on
  after the error gets what looks like a complete blob, without that block.\<close>

theorem corrupt_end_forgotten:
  assumes "concat chunks = crc_framed pre @ block @ trailer" and "4096 dvd length pre"
    and "block \<noteq> []" and "length block < 4096" and "length trailer = 4" and "trailer \<noteq> crc_trailer block"
    and "length pre < fuel"
  shows "\<exists>s'. cs_read si_read_limit fuel (- 1) (cs_new (si_open chunks)) = (Inl MaxStorageError, s') \<and>
    fst (cs_read si_read_limit fuel (- 1) s') = Inr pre"
proof -
  from assms(7) obtain m where fuel: "fuel = Suc m" by (cases fuel) auto
  from simple_source.fill_all_rejects [of pre "cs_new (si_open chunks)" block trailer "[]" fuel] assms
  obtain s' where s: "fill_all si_read_limit fuel (cs_new (si_open chunks)) = (Inl MaxStorageError, s')"
    "cs_finished s'" "cs_buffer s' = pre" by (auto simp: cs_new_def)
  then show ?thesis by (simp add: cs_read_def sbind_def fuel)
qed

lemma corrupt_end_forgotten_witness:
  "\<exists>s'. cs_read si_read_limit 5 (- 1) (cs_new (si_open [[10, 20], crc_trailer [10, 21]])) =
      (Inl MaxStorageError, s') \<and>
    fst (cs_read si_read_limit 5 (- 1) s') = Inr []"
proof (rule corrupt_end_forgotten [where block = "[10, 20]" and trailer = "crc_trailer [10, 21]"])
  show "crc_trailer [10, 21] \<noteq> crc_trailer [10, 20]" by code_simp
qed simp_all

end
