(* ===== verification/Tunnel_Retry.thy ===== *)
theory Tunnel_Retry
  imports Py_String "HOL-Library.AList"
begin

text \<open>
  \<^verbatim>\<open>odps/tunnel/retry.py\<close>: the retry policies of the tunnel, the identity each request of a retry
  sequence carries, and the loop of \<^verbatim>\<open>TunnelRetryHandler\<close>. \<open>ODPSError status\<close> stands for an exception
  of class \<^verbatim>\<open>BaseODPSError\<close> with that \<^verbatim>\<open>status_code\<close>; every other error has none. The requests made
  and the seconds slept are recorded in the state of a run. \<^verbatim>\<open>KeyboardInterrupt\<close> is left out.
\<close>

section \<open>Request identities\<close>

definition RETRY_TRACE_ID_HEADER :: string where
  "RETRY_TRACE_ID_HEADER = ''odps-tunnel-retry-trace-id''"

definition RETRY_INDEX_HEADER :: string where
  "RETRY_INDEX_HEADER = ''odps-tunnel-retry-index''"

record retry_context =
  rc_trace :: string
  rc_index :: int

type_synonym headers = "(string \<times> string) list"

text \<open>
  \<^verbatim>\<open>RetryContext(trace_id, retry_index)\<close> with the value its sequence starts from; \<open>ctx_next\<close> works on
  the sequence that the contexts of one run share.
\<close>

definition ctx_new :: "string option \<Rightarrow> int \<Rightarrow> (retry_context \<times> int) result" where
  "ctx_new trace index =
     (case trace of
        None \<Rightarrow> Inl ValueError
      | Some t \<Rightarrow>
          if py_strip t = [] then Inl ValueError
          else if index < 0 then Inl ValueError
          else Inr (\<lparr>rc_trace = t, rc_index = index\<rparr>, index))"

definition ctx_next :: "retry_context \<Rightarrow> (int, retry_context) sm" where
  "ctx_next ctx sequence =
     (let index = sequence + 1
      in case ctx_new (Some (rc_trace ctx)) index of
           Inl e \<Rightarrow> (Inl e, index)
         | Inr (ctx', _) \<Rightarrow> (Inr ctx', index))"

definition inject_headers :: "retry_context \<Rightarrow> headers option \<Rightarrow> headers result" where
  "inject_headers ctx hs =
     (case hs of
        None \<Rightarrow> Inl ValueError
      | Some h \<Rightarrow> Inr (AList.update RETRY_INDEX_HEADER (py_str_int (rc_index ctx))
          (AList.update RETRY_TRACE_ID_HEADER (rc_trace ctx) h)))"

section \<open>Policies\<close>

definition SLOT_REASSIGNMENT :: nat where "SLOT_REASSIGNMENT = 308"
definition FLOW_EXCEEDED :: nat where "FLOW_EXCEEDED = 429"
definition REQUEST_TIMEOUT :: nat where "REQUEST_TIMEOUT = 408"
definition MAX_BACKOFF :: int where "MAX_BACKOFF = 64"
definition SERVER_ERROR_MAX_RETRIES :: nat where "SERVER_ERROR_MAX_RETRIES = 7"

datatype retry_policy =
  NoRetryPolicy | InfiniteExponentialWait | ExponentialWait | OptionsRetryPolicy

text \<open>\<^verbatim>\<open>options.retry_times\<close> and \<^verbatim>\<open>options.retry_delay\<close>; attempts count from 1.\<close>

record tunnel_options =
  to_retry_times :: nat
  to_retry_delay :: int

fun should_retry :: "tunnel_options \<Rightarrow> retry_policy \<Rightarrow> nat \<Rightarrow> bool" where
  "should_retry opts NoRetryPolicy attempt = False"
| "should_retry opts InfiniteExponentialWait attempt = True"
| "should_retry opts ExponentialWait attempt = (attempt \<le> SERVER_ERROR_MAX_RETRIES)"
| "should_retry opts OptionsRetryPolicy attempt = (attempt \<le> to_retry_times opts)"

fun retry_wait_time :: "tunnel_options \<Rightarrow> retry_policy \<Rightarrow> nat \<Rightarrow> int" where
  "retry_wait_time opts NoRetryPolicy attempt = 0"
| "retry_wait_time opts InfiniteExponentialWait attempt =
     (if attempt < 7 then 2 ^ (attempt - 1) else MAX_BACKOFF)"
| "retry_wait_time opts ExponentialWait attempt = 2 ^ (attempt - 1)"
| "retry_wait_time opts OptionsRetryPolicy attempt = to_retry_delay opts"

section \<open>The handler\<close>

text \<open>The state of a run: the caller's world, the requests made and the seconds slept.\<close>

record 's retry_run =
  ru_world :: 's
  ru_sequence :: int
  ru_requests :: "retry_context list"
  ru_waits :: "int list"

record 's retry_handler =
  th_options :: tunnel_options
  th_default :: retry_policy
  th_logger :: "(py_error \<Rightarrow> nat \<Rightarrow> int \<Rightarrow> ('s, unit) sm) option"

definition handler_new ::
    "tunnel_options \<Rightarrow> retry_policy option \<Rightarrow> (py_error \<Rightarrow> nat \<Rightarrow> int \<Rightarrow> ('s, unit) sm) option \<Rightarrow>
     's retry_handler" where
  "handler_new opts policy logger =
     \<lparr>th_options = opts, th_default = (case policy of None \<Rightarrow> NoRetryPolicy | Some p \<Rightarrow> p),
      th_logger = logger\<rparr>"

definition get_retry_policy :: "'s retry_handler \<Rightarrow> nat option \<Rightarrow> retry_policy" where
  "get_retry_policy h status_code =
     (case status_code of
        None \<Rightarrow> th_default h
      | Some c \<Rightarrow>
          if c \<in> {SLOT_REASSIGNMENT, FLOW_EXCEEDED} then InfiniteExponentialWait
          else if c = REQUEST_TIMEOUT \<or> 500 \<le> c \<and> c < 600 then ExponentialWait
          else NoRetryPolicy)"

fun status_code :: "py_error \<Rightarrow> nat option" where
  "status_code (ODPSError c) = c"
| "status_code _ = None"

definition policy_of :: "'s retry_handler \<Rightarrow> py_error \<Rightarrow> retry_policy" where
  "policy_of h exc =
     (case status_code exc of
        Some c \<Rightarrow> get_retry_policy h (Some c)
      | None \<Rightarrow> th_default h)"

definition on_world :: "('s, 'a) sm \<Rightarrow> ('s retry_run, 'a) sm" where
  "on_world m = (\<lambda>r. case m (ru_world r) of (x, w) \<Rightarrow> (x, r\<lparr>ru_world := w\<rparr>))"

text \<open>An exception of the logger is swallowed.\<close>

definition log_retry :: "'s retry_handler \<Rightarrow> py_error \<Rightarrow> nat \<Rightarrow> int \<Rightarrow> ('s retry_run, unit) sm" where
  "log_retry h exc attempt wait_ms =
     (case th_logger h of
        None \<Rightarrow> sret ()
      | Some f \<Rightarrow> (\<lambda>r. case on_world (f exc attempt wait_ms) r of (_, r') \<Rightarrow> (Inr (), r')))"

definition after_exception ::
    "'s retry_handler \<Rightarrow> (py_error \<Rightarrow> ('s, bool) sm) option \<Rightarrow> py_error \<Rightarrow> nat \<Rightarrow>
     ('s retry_run, unit) sm" where
  "after_exception h on_exception exc attempt =
     (let policy = policy_of h exc;
          wait = retry_wait_time (th_options h) policy attempt;
          retry = sthen (log_retry h exc attempt (wait * 1000))
                    (smod (\<lambda>r. r\<lparr>ru_waits := ru_waits r @ [wait]\<rparr>))
      in if should_retry (th_options h) policy attempt then retry
         else case on_exception of
                None \<Rightarrow> sraise exc
              | Some f \<Rightarrow>
                  sbind (on_world (f exc)) (\<lambda>give_up. if give_up then sraise exc else retry))"

text \<open>\<^verbatim>\<open>context = context.next()\<close>, on the sequence of the run.\<close>

definition next_context :: "retry_context \<Rightarrow> ('s retry_run, retry_context) sm" where
  "next_context ctx = (\<lambda>r.
     case ctx_next ctx (ru_sequence r) of (x, n) \<Rightarrow> (x, r\<lparr>ru_sequence := n\<rparr>))"

definition request ::
    "(retry_context \<Rightarrow> ('s, 'a) sm) \<Rightarrow> retry_context \<Rightarrow> ('s retry_run, 'a) sm" where
  "request action ctx =
     sthen (smod (\<lambda>r. r\<lparr>ru_requests := ru_requests r @ [ctx]\<rparr>)) (on_world (action ctx))"

definition report_status ::
    "(nat \<Rightarrow> ('s, unit) sm) option \<Rightarrow> py_error \<Rightarrow> ('s retry_run, unit) sm" where
  "report_status on_error_status exc =
     (case (on_error_status, status_code exc) of
        (Some f, Some c) \<Rightarrow> on_world (f c)
      | _ \<Rightarrow> sret ())"

text \<open>One turn of the loop: the outcome of the call, or the context of the next request.\<close>

definition retry_round ::
    "'s retry_handler \<Rightarrow> (retry_context \<Rightarrow> ('s, 'a) sm) \<Rightarrow> (nat \<Rightarrow> ('s, unit) sm) option \<Rightarrow>
     (py_error \<Rightarrow> ('s, bool) sm) option \<Rightarrow> retry_context \<Rightarrow> nat \<Rightarrow> 's retry_run \<Rightarrow>
     ('a result \<times> 's retry_run) + (retry_context \<times> 's retry_run)" where
  "retry_round h action on_status on_exc ctx attempt r =
     (case request action ctx r of
        (Inr x, r') \<Rightarrow> Inl (Inr x, r')
      | (Inl exc, r') \<Rightarrow>
          (case sthen (report_status on_status exc)
                  (sthen (after_exception h on_exc exc attempt) (next_context ctx)) r' of
             (Inl e, r'') \<Rightarrow> Inl (Inl e, r'')
           | (Inr ctx', r'') \<Rightarrow> Inr (ctx', r'')))"

text \<open>The loop may go on for ever, so it has fuel.\<close>

fun execute_loop ::
    "'s retry_handler \<Rightarrow> (retry_context \<Rightarrow> ('s, 'a) sm) \<Rightarrow> (nat \<Rightarrow> ('s, unit) sm) option \<Rightarrow>
     (py_error \<Rightarrow> ('s, bool) sm) option \<Rightarrow> nat \<Rightarrow> retry_context \<Rightarrow> nat \<Rightarrow> ('s retry_run, 'a) sm" where
  "execute_loop h action on_status on_exc 0 ctx attempt r = (Inl FuelExhausted, r)"
| "execute_loop h action on_status on_exc (Suc fuel) ctx attempt r =
     (case retry_round h action on_status on_exc ctx attempt r of
        Inl outcome \<Rightarrow> outcome
      | Inr (ctx', r') \<Rightarrow> execute_loop h action on_status on_exc fuel ctx' (attempt + 1) r')"

text \<open>\<open>trace\<close> is the fresh identifier that \<^verbatim>\<open>uuid.uuid4()\<close> gives.\<close>

definition execute_with_retry_ctx ::
    "string \<Rightarrow> 's retry_handler \<Rightarrow> (retry_context \<Rightarrow> ('s, 'a) sm) \<Rightarrow> (nat \<Rightarrow> ('s, unit) sm) option \<Rightarrow>
     (py_error \<Rightarrow> ('s, bool) sm) option \<Rightarrow> nat \<Rightarrow> 's \<Rightarrow> 'a result \<times> 's retry_run" where
  "execute_with_retry_ctx trace h action on_status on_exc fuel w =
     (let r = \<lparr>ru_world = w, ru_sequence = 0, ru_requests = [], ru_waits = []\<rparr>
      in case ctx_new (Some trace) 0 of
           Inl e \<Rightarrow> (Inl e, r)
         | Inr (ctx, n) \<Rightarrow> execute_loop h action on_status on_exc fuel ctx 1 (r\<lparr>ru_sequence := n\<rparr>))"

definition execute_with_retry ::
    "string \<Rightarrow> 's retry_handler \<Rightarrow> ('s, 'a) sm \<Rightarrow> (nat \<Rightarrow> ('s, unit) sm) option \<Rightarrow>
     (py_error \<Rightarrow> ('s, bool) sm) option \<Rightarrow> nat \<Rightarrow> 's \<Rightarrow> 'a result \<times> 's retry_run" where
  "execute_with_retry trace h action = execute_with_retry_ctx trace h (\<lambda>ctx. action)"

definition execute_with_retry_headers ::
    "string \<Rightarrow> 's retry_handler \<Rightarrow> (headers \<Rightarrow> ('s, 'a) sm) \<Rightarrow> headers option \<Rightarrow>
     (nat \<Rightarrow> ('s, unit) sm) option \<Rightarrow> (py_error \<Rightarrow> ('s, bool) sm) option \<Rightarrow> nat \<Rightarrow> 's \<Rightarrow>
     'a result \<times> 's retry_run" where
  "execute_with_retry_headers trace h request_func hs =
     (let base_headers = (case hs of None \<Rightarrow> [] | Some d \<Rightarrow> d)
      in execute_with_retry_ctx trace h
           (\<lambda>ctx. sbind (slift (inject_headers ctx (Some base_headers))) request_func))"

section \<open>What one round does\<close>

text \<open>Callbacks and requests work on the caller's world only.\<close>

definition same_book :: "'s retry_run \<Rightarrow> 's retry_run \<Rightarrow> bool" where
  "same_book r r' \<longleftrightarrow> ru_sequence r' = ru_sequence r \<and> ru_requests r' = ru_requests r \<and> ru_waits r' = ru_waits r"

lemma on_world_book: "on_world m r = (x, r') \<Longrightarrow> same_book r r'"
  by (auto simp: on_world_def same_book_def split: prod.splits)

lemma report_status_book: "report_status f e r = (x, r') \<Longrightarrow> same_book r r'"
  by (auto simp: report_status_def sret_def same_book_def split: option.splits dest!: on_world_book)

lemma log_retry_book: "log_retry h e n m r = (x, r') \<Longrightarrow> x = Inr () \<and> same_book r r'"
  by (auto simp: log_retry_def sret_def same_book_def split: option.splits prod.splits dest!: on_world_book)

lemma request_book:
  "request action ctx r = (x, r') \<Longrightarrow>
   ru_sequence r' = ru_sequence r \<and> ru_requests r' = ru_requests r @ [ctx] \<and> ru_waits r' = ru_waits r"
  by (auto simp: request_def sbind_def smod_def same_book_def dest!: on_world_book)

lemma request_result:
  "request action ctx r = (x, r') \<Longrightarrow> (x, ru_world r') = action ctx (ru_world r)"
  by (auto simp: request_def sbind_def smod_def on_world_def split: prod.splits)

text \<open>Going on after an error always waits as long as the policy says.\<close>

lemma after_exception_book:
  assumes "after_exception h on_exc exc n r = (x, r')"
  shows "ru_sequence r' = ru_sequence r \<and> ru_requests r' = ru_requests r \<and>
    ru_waits r' = ru_waits r @ (if x = Inr () then [retry_wait_time (th_options h) (policy_of h exc) n] else [])"
proof -
  let ?wait = "retry_wait_time (th_options h) (policy_of h exc) n"
  let ?retry = "sthen (log_retry h exc n (?wait * 1000)) (smod (\<lambda>r. r\<lparr>ru_waits := ru_waits r @ [?wait]\<rparr>))"
  have r: "x = Inr () \<and> ru_sequence r' = ru_sequence r \<and> ru_requests r' = ru_requests r \<and>
      ru_waits r' = ru_waits r @ [?wait]" if "?retry r = (x, r')" for r r'
  proof -
    obtain y q where q: "log_retry h exc n (?wait * 1000) r = (y, q)" by fastforce
    from log_retry_book [OF q] q that show ?thesis by (auto simp: sbind_def smod_def same_book_def)
  qed
  show ?thesis
  proof (cases "should_retry (th_options h) (policy_of h exc) n")
    case True
    with assms r [of r r'] show ?thesis by (simp add: after_exception_def Let_def)
  next
    case nr: False
    show ?thesis
    proof (cases on_exc)
      case None
      with nr assms show ?thesis by (auto simp: after_exception_def Let_def sraise_def)
    next
      case (Some f)
      obtain b q where q: "on_world (f exc) r = (b, q)" by fastforce
      from on_world_book [OF q] have sq: "same_book r q" .
      show ?thesis
      proof (cases b)
        case (Inl e)
        with q sq nr Some assms show ?thesis
          by (auto simp: after_exception_def Let_def sbind_def same_book_def)
      next
        case (Inr g)
        with q sq nr Some assms r [of q r'] show ?thesis
          by (cases g) (auto simp: after_exception_def Let_def sbind_def sraise_def same_book_def)
      qed
    qed
  qed
qed

lemma after_exception_final:
  assumes "\<not> should_retry (th_options h) (policy_of h exc) n"
  shows "after_exception h None exc n r = (Inl exc, r)"
  using assms by (simp add: after_exception_def Let_def sraise_def)

lemma after_exception_retry:
  assumes "should_retry (th_options h) (policy_of h exc) n"
  obtains r' where "after_exception h on_exc exc n r = (Inr (), r')"
proof -
  let ?wait = "retry_wait_time (th_options h) (policy_of h exc) n"
  obtain y q where q: "log_retry h exc n (?wait * 1000) r = (y, q)" by fastforce
  from log_retry_book [OF q] q assms that show thesis
    by (auto simp: after_exception_def Let_def sbind_def smod_def)
qed

definition ctx_of :: "string \<Rightarrow> nat \<Rightarrow> retry_context" where
  "ctx_of t i = \<lparr>rc_trace = t, rc_index = int i\<rparr>"

lemma next_context_of:
  "py_strip t \<noteq> [] \<Longrightarrow> ru_sequence r = int i \<Longrightarrow>
   next_context (ctx_of t i) r = (Inr (ctx_of t (Suc i)), r\<lparr>ru_sequence := int (Suc i)\<rparr>)"
  by (simp add: next_context_def ctx_next_def ctx_new_def ctx_of_def Let_def add.commute)

text \<open>\<open>booked t n r\<close>: before attempt \<open>n + 1\<close>, attempts \<open>0\<close> to \<open>n - 1\<close> were made, each under its number.\<close>

definition booked :: "string \<Rightarrow> nat \<Rightarrow> 's retry_run \<Rightarrow> bool" where
  "booked t n r \<longleftrightarrow> ru_sequence r = int n \<and> ru_requests r = List.map (ctx_of t) [0..<n] \<and>
     length (ru_waits r) = n"

text \<open>One attempt: either the run ends, or it goes on with the next number.\<close>

lemma retry_round_cases:
  assumes "py_strip t \<noteq> []" and "booked t n r"
  shows "case retry_round h action on_status on_exc (ctx_of t n) (Suc n) r of
      Inl (x, r') \<Rightarrow> ru_requests r' = List.map (ctx_of t) [0..<Suc n] \<and> ru_waits r' = ru_waits r \<and>
        (\<forall>y. x = Inr y \<longrightarrow> action (ctx_of t n) (ru_world r) = (Inr y, ru_world r')) \<and>
        (\<forall>e. x = Inl e \<longrightarrow> on_status = None \<longrightarrow> on_exc = None \<longrightarrow>
          action (ctx_of t n) (ru_world r) = (Inl e, ru_world r') \<and>
          \<not> should_retry (th_options h) (policy_of h e) (Suc n))
    | Inr (ctx', r') \<Rightarrow> ctx' = ctx_of t (Suc n) \<and> booked t (Suc n) r' \<and>
        (\<exists>exc w. action (ctx_of t n) (ru_world r) = (Inl exc, w) \<and>
          ru_waits r' = ru_waits r @ [retry_wait_time (th_options h) (policy_of h exc) (Suc n)] \<and>
          (on_exc = None \<longrightarrow> should_retry (th_options h) (policy_of h exc) (Suc n)) \<and>
          (on_status = None \<longrightarrow> on_exc = None \<longrightarrow> th_logger h = None \<longrightarrow> ru_world r' = w))"
proof -
  obtain x r1 where r1: "request action (ctx_of t n) r = (x, r1)" by fastforce
  note b1 = request_book [OF r1] and a = request_result [OF r1, symmetric]
  show ?thesis
  proof (cases x)
    case (Inr y)
    with r1 b1 a assms(2) show ?thesis by (simp add: retry_round_def booked_def)
  next
    case (Inl exc)
    obtain y r2 where r2: "report_status on_status exc r1 = (y, r2)" by fastforce
    note b2 = report_status_book [OF r2]
    have st: "y = Inr () \<and> r2 = r1" if "on_status = None"
      using r2 that by (simp add: report_status_def sret_def)
    obtain z r3 where r3: "after_exception h on_exc exc (Suc n) r2 = (z, r3)" by fastforce
    note b3 = after_exception_book [OF r3]
    have final: "z = Inl exc \<and> r3 = r2" if "on_exc = None" "\<not> should_retry (th_options h) (policy_of h exc) (Suc n)"
      using after_exception_final [OF that(2), of r2] r3 that(1) by simp
    have again: "z = Inr ()" if "should_retry (th_options h) (policy_of h exc) (Suc n)"
      using after_exception_retry [OF that] r3 by (metis prod.inject)
    show ?thesis
    proof (cases "y = Inr () \<and> z = Inr ()")
      case False
      with st final again r1 r2 r3 b1 b2 b3 a Inl assms(2) show ?thesis
        by (cases y; cases z) (auto simp: retry_round_def sbind_def booked_def same_book_def)
    next
      case True
      have w: "ru_world r3 = ru_world r1" if "on_status = None" "on_exc = None" "th_logger h = None"
        using st [OF that(1)] r3 that(2,3) True final
        by (auto simp: after_exception_def Let_def log_retry_def sret_def sbind_def smod_def split: if_splits)
      have s3: "ru_sequence r3 = int n"
        using b1 b2 b3 assms(2) by (simp add: booked_def same_book_def)
      have "retry_round h action on_status on_exc (ctx_of t n) (Suc n) r =
          Inr (ctx_of t (Suc n), r3\<lparr>ru_sequence := int (Suc n)\<rparr>)"
        using r1 Inl True r2 r3 next_context_of [OF assms(1) s3] by (simp add: retry_round_def sbind_def)
      with True final w a Inl b1 b2 b3 assms(2) show ?thesis
        by (auto simp: booked_def same_book_def)
    qed
  qed
qed

lemma execute_loop_requests:
  assumes "py_strip t \<noteq> []" and "booked t n r"
    and "execute_loop h action on_status on_exc fuel (ctx_of t n) (Suc n) r = (x, r')"
  shows "\<exists>k. ru_requests r' = List.map (ctx_of t) [0..<k] \<and> length (ru_waits r') \<le> k \<and> k \<le> n + fuel"
  using assms(2,3)
proof (induction fuel arbitrary: n r)
  case 0
  then show ?case by (auto simp: booked_def)
next
  case (Suc fuel)
  note c = retry_round_cases [OF assms(1) Suc.prems(1), where h = h and action = action and on_status = on_status and on_exc = on_exc]
  show ?case
  proof (cases "retry_round h action on_status on_exc (ctx_of t n) (Suc n) r")
    case (Inl out)
    with c Suc.prems show ?thesis by (intro exI [of _ "Suc n"]) (auto simp: booked_def split: prod.splits)
  next
    case (Inr p)
    then obtain r1 where r1: "p = (ctx_of t (Suc n), r1)" "booked t (Suc n) r1"
      using c by (auto split: prod.splits)
    with Suc.IH [OF r1(2)] Suc.prems(2) Inr show ?thesis by fastforce
  qed
qed

lemma execute_with_retry_ctx_loop:
  "py_strip t \<noteq> [] \<Longrightarrow> execute_with_retry_ctx t h action on_status on_exc fuel w =
    execute_loop h action on_status on_exc fuel (ctx_of t 0) 1
      \<lparr>ru_world = w, ru_sequence = 0, ru_requests = [], ru_waits = []\<rparr>"
  "booked t 0 \<lparr>ru_world = w, ru_sequence = 0, ru_requests = [], ru_waits = []\<rparr>"
  by (simp_all add: execute_with_retry_ctx_def ctx_new_def ctx_of_def booked_def)

section \<open>Properties\<close>

text \<open>C34: whatever the server answers and the callbacks decide, the requests of one retry sequence
  carry one trace id and the indexes 0, 1, 2, ... in the order they are made, and at most one wait
  follows each.\<close>

theorem requests_numbered:
  "\<exists>k \<le> fuel. ru_requests (snd (execute_with_retry_ctx t h action on_status on_exc fuel w)) =
       List.map (\<lambda>i. \<lparr>rc_trace = t, rc_index = int i\<rparr>) [0..<k] \<and>
     length (ru_waits (snd (execute_with_retry_ctx t h action on_status on_exc fuel w))) \<le> k"
proof (cases "py_strip t = []")
  case True
  then show ?thesis by (intro exI [of _ 0]) (simp add: execute_with_retry_ctx_def ctx_new_def)
next
  case False
  from execute_loop_requests [OF this execute_with_retry_ctx_loop(2), of h action on_status on_exc fuel]
  show ?thesis
    by (simp add: execute_with_retry_ctx_loop(1) [OF False] ctx_of_def [abs_def])
      (metis surjective_pairing)
qed

lemma server_errors_loop:
  assumes t: "py_strip t \<noteq> []"
    and pol: "\<forall>ctx w e w'. action ctx w = (Inl e, w') \<longrightarrow> policy_of h e \<in> {NoRetryPolicy, ExponentialWait}"
  shows "booked t n r \<Longrightarrow> ru_waits r = List.map (\<lambda>i. 2 ^ i) [0..<n] \<Longrightarrow> n \<le> 7 \<Longrightarrow> 7 - n < fuel \<Longrightarrow>
    \<exists>x r' k. (\<forall>more. execute_loop h action on_status None (fuel + more) (ctx_of t n) (Suc n) r = (x, r')) \<and>
      ru_requests r' = List.map (ctx_of t) [0..<Suc k] \<and>
      ru_waits r' = List.map (\<lambda>i. 2 ^ i) [0..<k] \<and> k \<le> 7"
proof (induction fuel arbitrary: n r)
  case (Suc fuel)
  note c = retry_round_cases [OF t Suc.prems(1), where h = h and action = action and on_status = on_status and on_exc = None]
  show ?case
  proof (cases "retry_round h action on_status None (ctx_of t n) (Suc n) r")
    case (Inl out)
    with c Suc.prems show ?thesis by (cases out) (fastforce intro: exI [of _ n])
  next
    case (Inr p)
    then obtain r1 exc w where r1: "p = (ctx_of t (Suc n), r1)" "booked t (Suc n) r1"
      "action (ctx_of t n) (ru_world r) = (Inl exc, w)"
      "ru_waits r1 = ru_waits r @ [retry_wait_time (th_options h) (policy_of h exc) (Suc n)]"
      "should_retry (th_options h) (policy_of h exc) (Suc n)"
      using c by (auto split: prod.splits)
    from pol [rule_format, OF r1(3)] r1(5) have p: "policy_of h exc = ExponentialWait" and "Suc n \<le> 7"
      by (auto simp: SERVER_ERROR_MAX_RETRIES_def)
    with r1(4) Suc.prems have "ru_waits r1 = List.map (\<lambda>i. 2 ^ i) [0..<Suc n]" "7 - Suc n < fuel" by simp_all
    from Suc.IH [OF r1(2) this(1) \<open>Suc n \<le> 7\<close> this(2)] Inr r1(1) show ?thesis by simp
  qed
qed simp

text \<open>C35: against a server that fails with 5xx or 408 (or with a status that is never retried), without
  an \<^verbatim>\<open>on_exception\<close> callback, the loop ends by itself: at most eight requests, waiting 1, 2, 4, ...
  seconds between them, 127 seconds at most.\<close>

theorem server_errors_bounded:
  assumes "py_strip t \<noteq> []" and "8 \<le> fuel"
    and "\<forall>ctx w e w'. action ctx w = (Inl e, w') \<longrightarrow> policy_of h e \<in> {NoRetryPolicy, ExponentialWait}"
  shows "execute_with_retry_ctx t h action on_status None fuel w =
      execute_with_retry_ctx t h action on_status None 8 w \<and>
    (case execute_with_retry_ctx t h action on_status None fuel w of (_, r) \<Rightarrow>
      length (ru_requests r) \<le> 8 \<and> ru_waits r = List.map (\<lambda>i. 2 ^ i) [0..<length (ru_requests r) - 1] \<and>
      sum_list (ru_waits r) \<le> 127)"
proof -
  let ?r = "\<lparr>ru_world = w, ru_sequence = 0, ru_requests = [], ru_waits = []\<rparr>"
  from server_errors_loop [OF assms(1) assms(3) execute_with_retry_ctx_loop(2) [of t w],
      where fuel = 8 and on_status = on_status]
  obtain x r k where k: "\<And>more. execute_loop h action on_status None (8 + more) (ctx_of t 0) 1 ?r = (x, r)"
    "ru_requests r = List.map (ctx_of t) [0..<Suc k]" "ru_waits r = List.map (\<lambda>i. 2 ^ i) [0..<k]" "k \<le> 7"
    by auto
  have s: "sum_list (List.map (\<lambda>i. 2 ^ i) [0..<m]) = 2 ^ m - (1 :: int)" for m by (induction m) auto
  have "(2 :: int) ^ k \<le> 2 ^ 7" using k(4) by (intro power_increasing) auto
  with k s [of k] have w: "length (ru_requests r) \<le> 8"
    "ru_waits r = List.map (\<lambda>i. 2 ^ i) [0..<length (ru_requests r) - 1]" "sum_list (ru_waits r) \<le> 127"
    by simp_all
  have "execute_with_retry_ctx t h action on_status None fuel w = (x, r)"
    "execute_with_retry_ctx t h action on_status None 8 w = (x, r)"
    using k(1) [of "fuel - 8"] k(1) [of 0] assms(2)
    by (simp_all add: execute_with_retry_ctx_loop(1) [OF assms(1)])
  with w show ?thesis by simp
qed

lemma server_errors_bounded_witness:
  "let h = handler_new \<lparr>to_retry_times = 4, to_retry_delay = 1\<rparr> None None;
       action = (\<lambda>ctx i. (Inl (ODPSError (Some 503)) :: unit result, Suc i));
       run = (\<lambda>fuel. execute_with_retry_ctx ''id'' h action None None fuel 0)
   in run 30 = run 8 \<and> (case run 30 of (_, r) \<Rightarrow>
      length (ru_requests r) \<le> 8 \<and> ru_waits r = List.map (\<lambda>i. 2 ^ i) [0..<length (ru_requests r) - 1] \<and>
      sum_list (ru_waits r) \<le> 127)"
proof -
  have "py_strip ''id'' \<noteq> []" by code_simp
  then show ?thesis unfolding Let_def
    by (rule server_errors_bounded)
      (auto simp: policy_of_def get_retry_policy_def SLOT_REASSIGNMENT_def FLOW_EXCEEDED_def)
qed

lemma shared_budget_loop:
  assumes "py_strip t \<noteq> []" and "th_logger h = None"
    and "\<forall>i < n. f i \<in> {ODPSError (Some 308), ODPSError (Some 429)}"
    and "f n = ODPSError (Some c)" "500 \<le> c" "c < 600" "7 \<le> n"
  shows "booked t m r \<Longrightarrow> ru_world r = m \<Longrightarrow> m \<le> n \<Longrightarrow> n - m < fuel \<Longrightarrow>
    \<exists>r'. execute_loop h (\<lambda>_ i. (Inl (f i) :: 'a result, Suc i)) None None fuel (ctx_of t m) (Suc m) r =
      (Inl (f n), r') \<and> ru_requests r' = List.map (ctx_of t) [0..<Suc n]"
proof (induction fuel arbitrary: m r)
  case (Suc fuel)
  let ?act = "\<lambda>_ i. (Inl (f i) :: 'a result, Suc i)"
  note c = retry_round_cases [OF assms(1) Suc.prems(1), where h = h and action = ?act and
      on_status = None and on_exc = None]
  have infinite: "should_retry (th_options h) (policy_of h (f m)) k" if "m < n" for k
    using assms(3) that
    by (auto simp: policy_of_def get_retry_policy_def SLOT_REASSIGNMENT_def FLOW_EXCEEDED_def dest!: spec [of _ m])
  have last: "\<not> should_retry (th_options h) (policy_of h (f n)) (Suc n)"
    using assms(4-7) by (auto simp: policy_of_def get_retry_policy_def SLOT_REASSIGNMENT_def
        FLOW_EXCEEDED_def REQUEST_TIMEOUT_def SERVER_ERROR_MAX_RETRIES_def)
  show ?case
  proof (cases "retry_round h ?act None None (ctx_of t m) (Suc m) r")
    case (Inl out)
    obtain x b where o: "out = (x, b)" by fastforce
    have "x = Inl (f m) \<and> \<not> should_retry (th_options h) (policy_of h (f m)) (Suc m) \<and>
        ru_requests b = List.map (ctx_of t) [0..<Suc m]"
      using c unfolding Inl o by (cases x) (auto simp: Suc.prems(2) simp del: upt_Suc)
    then have b: "out = (Inl (f m), b)" "ru_requests b = List.map (ctx_of t) [0..<Suc m]"
      "\<not> should_retry (th_options h) (policy_of h (f m)) (Suc m)" by (simp_all add: o)
    have "m = n" using infinite [of "Suc m"] b(3) Suc.prems(3) by linarith
    with Inl b show ?thesis by simp
  next
    case (Inr p)
    with c Suc.prems(2) assms(2) obtain r1 where r1: "p = (ctx_of t (Suc m), r1)" "booked t (Suc m) r1"
      "ru_world r1 = Suc m" "should_retry (th_options h) (policy_of h (f m)) (Suc m)"
      by (auto split: prod.splits)
    with last have "m \<noteq> n" by auto
    with Suc.prems(3,4) have "Suc m \<le> n" "n - Suc m < fuel" by simp_all
    from Suc.IH [OF r1(2,3) this] Inr r1(1) show ?thesis by simp
  qed
qed simp

text \<open>C36: the attempts of one call share one budget: after seven requests refused with 308 or 429, which
  are retried without limit, the first server error is not retried at all.\<close>

theorem retry_budget_shared:
  assumes "py_strip t \<noteq> []" and "th_logger h = None"
    and "\<forall>i < n. f i \<in> {ODPSError (Some 308), ODPSError (Some 429)}"
    and "f n = ODPSError (Some c)" and "500 \<le> c" and "c < 600" and "7 \<le> n" and "n < fuel"
  shows "\<exists>r. execute_with_retry_ctx t h (\<lambda>_ i. (Inl (f i) :: 'a result, Suc i)) None None fuel 0 =
      (Inl (f n), r) \<and> length (ru_requests r) = Suc n"
  using shared_budget_loop [OF assms(1-7) execute_with_retry_ctx_loop(2) [where w = 0], where fuel = fuel] assms(8)
  by (fastforce simp: execute_with_retry_ctx_loop(1) [OF assms(1)])

lemma retry_budget_shared_witness:
  "\<exists>r. execute_with_retry_ctx ''id'' (handler_new \<lparr>to_retry_times = 4, to_retry_delay = 1\<rparr> None None)
      (\<lambda>_ i. (Inl (if i < 7 then ODPSError (Some 429) else ODPSError (Some 503)) :: unit result, Suc i))
      None None 100 0 = (Inl (if 7 < (7::nat) then ODPSError (Some 429) else ODPSError (Some 503)), r) \<and>
    length (ru_requests r) = Suc 7"
proof -
  have "py_strip ''id'' \<noteq> []" by code_simp
  then show ?thesis
    by (rule retry_budget_shared [where f = "\<lambda>i. if i < 7 then ODPSError (Some 429) else ODPSError (Some 503)"
          and c = 503]) (auto simp: handler_new_def)
qed

text \<open>C37: the waits of the policies: the unbounded policy doubles up to 64 seconds; the bounded one stays
  within 64 seconds as long as it retries by itself, but not beyond, where only \<^verbatim>\<open>on_exception\<close> can
  drive it.\<close>

theorem backoff_bounds:
  assumes "0 < attempt"
  shows "retry_wait_time opts InfiniteExponentialWait attempt = min (2 ^ (attempt - 1)) MAX_BACKOFF \<and>
    (if should_retry opts ExponentialWait attempt
     then retry_wait_time opts ExponentialWait attempt \<le> MAX_BACKOFF
     else MAX_BACKOFF < retry_wait_time opts ExponentialWait attempt)"
proof -
  have small: "(2::int) ^ (attempt - 1) \<le> 2 ^ 6" if "attempt \<le> 7"
    using that by (intro power_increasing) auto
  have big: "(2::int) ^ 7 \<le> 2 ^ (attempt - 1)" if "8 \<le> attempt"
    using that by (intro power_increasing) auto
  show ?thesis
  proof (cases "attempt \<le> 7")
    case True
    then have "attempt = 7 \<or> attempt < 7" by auto
    with small [OF True] show ?thesis by (auto simp: MAX_BACKOFF_def SERVER_ERROR_MAX_RETRIES_def)
  next
    case False
    with big show ?thesis by (simp add: MAX_BACKOFF_def SERVER_ERROR_MAX_RETRIES_def)
  qed
qed

lemma backoff_bounds_witness:
  "retry_wait_time \<lparr>to_retry_times = 4, to_retry_delay = 1\<rparr> InfiniteExponentialWait 9 =
      min (2 ^ (9 - 1)) MAX_BACKOFF \<and>
    (if should_retry \<lparr>to_retry_times = 4, to_retry_delay = 1\<rparr> ExponentialWait 9
     then retry_wait_time \<lparr>to_retry_times = 4, to_retry_delay = 1\<rparr> ExponentialWait 9 \<le> MAX_BACKOFF
     else MAX_BACKOFF < retry_wait_time \<lparr>to_retry_times = 4, to_retry_delay = 1\<rparr> ExponentialWait 9)"
  by (rule backoff_bounds) simp

text \<open>The headers of the request numbered \<open>i\<close>, and a request function that keeps a record of them.\<close>

definition stamped :: "string \<Rightarrow> headers option \<Rightarrow> nat \<Rightarrow> headers" where
  "stamped t hs i = AList.update RETRY_INDEX_HEADER (py_str_int (int i))
     (AList.update RETRY_TRACE_ID_HEADER t (case hs of None \<Rightarrow> [] | Some d \<Rightarrow> d))"

definition recording :: "(headers \<Rightarrow> ('s, 'a) sm) \<Rightarrow> headers \<Rightarrow> (headers list \<times> 's, 'a) sm" where
  "recording f hdr = (\<lambda>(log, w). case f hdr w of (x, w') \<Rightarrow> (x, (log @ [hdr], w')))"

lemma headers_loop:
  fixes f :: "headers \<Rightarrow> ('s, 'a) sm" and hs :: "headers option"
  defines "act \<equiv> (\<lambda>ctx. sbind (slift (inject_headers ctx (Some (case hs of None \<Rightarrow> [] | Some d \<Rightarrow> d))))
    (recording f))"
  assumes "py_strip t \<noteq> []" and "th_logger h = None"
  shows "booked t n r \<Longrightarrow> fst (ru_world r) = List.map (stamped t hs) [0..<n] \<Longrightarrow>
    execute_loop h act None None fuel (ctx_of t n) (Suc n) r = (x, r') \<Longrightarrow>
    fst (ru_world r') = List.map (stamped t hs) [0..<length (ru_requests r')]"
proof (induction fuel arbitrary: n r)
  case 0
  then show ?case by (auto simp: booked_def)
next
  case (Suc fuel)
  have act: "fst (snd (act (ctx_of t n) w)) = fst w @ [stamped t hs n]" for w
    by (auto simp: act_def sbind_def slift_def inject_headers_def recording_def stamped_def ctx_of_def
        split: prod.splits option.splits)
  note c = retry_round_cases [OF assms(2) Suc.prems(1), where h = h and action = act and
      on_status = None and on_exc = None]
  show ?case
  proof (cases "retry_round h act None None (ctx_of t n) (Suc n) r")
    case (Inl out)
    obtain y b where o: "out = (y, b)" by fastforce
    have "snd (act (ctx_of t n) (ru_world r)) = ru_world b \<and> ru_requests b = List.map (ctx_of t) [0..<Suc n]"
      using c unfolding Inl o by (cases y) (simp_all del: upt_Suc)
    with act [of "ru_world r"] Inl o Suc.prems(2,3) show ?thesis by simp
  next
    case (Inr p)
    with c assms(3) obtain r1 where r1: "p = (ctx_of t (Suc n), r1)" "booked t (Suc n) r1"
      "snd (act (ctx_of t n) (ru_world r)) = ru_world r1" by (auto split: prod.splits)
    with act [of "ru_world r"] Suc.prems(2) have "fst (ru_world r1) = List.map (stamped t hs) [0..<Suc n]"
      by simp
    from Suc.IH [OF r1(2) this] Suc.prems(3) Inr r1(1) show ?thesis by simp
  qed
qed

text \<open>Each attempt of \<^verbatim>\<open>execute_with_retry_headers\<close> is made with the caller's headers and its own trace
  id and index on top, and every request made is one such attempt.\<close>

theorem headers_stamped:
  assumes "py_strip t \<noteq> []" and "th_logger h = None"
  shows "case execute_with_retry_headers t h (recording f) hs None None fuel ([], w) of (_, r) \<Rightarrow>
    fst (ru_world r) =
      List.map (\<lambda>i. AList.update RETRY_INDEX_HEADER (py_str_int (int i))
        (AList.update RETRY_TRACE_ID_HEADER t (case hs of None \<Rightarrow> [] | Some d \<Rightarrow> d)))
        [0..<length (ru_requests r)]"
proof -
  obtain x r where r: "execute_with_retry_headers t h (recording f) hs None None fuel ([], w) = (x, r)"
    by fastforce
  then have "execute_loop h (\<lambda>ctx. sbind (slift (inject_headers ctx (Some (case hs of None \<Rightarrow> [] | Some d \<Rightarrow> d))))
      (recording f)) None None fuel (ctx_of t 0) (Suc 0)
      \<lparr>ru_world = ([], w), ru_sequence = 0, ru_requests = [], ru_waits = []\<rparr> = (x, r)"
    by (simp add: execute_with_retry_headers_def Let_def execute_with_retry_ctx_loop(1) [OF assms(1)])
  from headers_loop [OF assms execute_with_retry_ctx_loop(2) _ this] r show ?thesis
    by (simp add: stamped_def [abs_def])
qed

lemma headers_stamped_witness:
  "case execute_with_retry_headers ''id'' (handler_new \<lparr>to_retry_times = 4, to_retry_delay = 1\<rparr> None None)
      (recording (\<lambda>hdr i. if i < (2::nat) then (Inl (ODPSError (Some 500)), Suc i) else (Inr (), i)))
      (Some [(''a'', ''b'')]) None None 9 ([], 0) of (_, r) \<Rightarrow>
    fst (ru_world r) =
      List.map (\<lambda>i. AList.update RETRY_INDEX_HEADER (py_str_int (int i))
        (AList.update RETRY_TRACE_ID_HEADER ''id'' (case Some [(''a'', ''b'')] of None \<Rightarrow> [] | Some d \<Rightarrow> d)))
        [0..<length (ru_requests r)]"
proof -
  have "py_strip ''id'' \<noteq> []" by code_simp
  then show ?thesis by (rule headers_stamped) (simp add: handler_new_def)
qed

end
