(* ===== verification/Record_Hash.thy ===== *)
theory Record_Hash
  imports Record_Writer Type_Parser "HOL-Library.Multiset"
begin

text \<open>
  \<^verbatim>\<open>odps/tunnel/hasher.py\<close>: the hashes that decide to which bucket of a clustered table a record goes.
  Every function is translated on Python's unbounded integers, as it is written; the integer hashes
  are then shown to be the wrap-around arithmetic of 64-bit and 32-bit machine words. The decimal
  hash works on the characters of \<^verbatim>\<open>str(x)\<close>. \<^verbatim>\<open>Timedelta.total_seconds\<close> of pandas is a parameter.
\<close>

section \<open>Hashers\<close>

definition to_int32 :: "int \<Rightarrow> int" where
  "to_int32 val =
     (let v = val AND 0xFFFFFFFF in if 0x80000000 \<le> v then v - 0x100000000 else v)"

definition to_int64 :: "int \<Rightarrow> int" where
  "to_int64 val =
     (let v = val AND 0xFFFFFFFFFFFFFFFF
      in if 0x8000000000000000 \<le> v then v - 0x10000000000000000 else v)"

datatype hasher = DefaultHasher | LegacyHasher

text \<open>\<^verbatim>\<open>DefaultHasher.hash_bigint\<close> and \<^verbatim>\<open>LegacyHasher.hash_bigint\<close>.\<close>

fun hash_bigint :: "hasher \<Rightarrow> int \<Rightarrow> int" where
  "hash_bigint DefaultHasher val =
     (let val = to_int64 (NOT val) + to_int64 (push_bit 18 val);
          val = to_int64 val;
          val = val XOR drop_bit 31 val;
          val = to_int64 (val * 21);
          val = val XOR drop_bit 11 val;
          val = to_int64 (val + to_int64 (push_bit 6 val));
          val = val XOR drop_bit 22 val
      in to_int32 val)"
| "hash_bigint LegacyHasher val = to_int32 (drop_bit 32 val XOR val)"

text \<open>Floats are packed first: \<^verbatim>\<open>struct.pack("<f", val)\<close> may overflow.\<close>

definition hash_float :: "hasher \<Rightarrow> 64 word \<Rightarrow> int result" where
  "hash_float h val = rbind (float_narrow val) (\<lambda>w. Inr (hash_bigint h (sint w)))"

definition hash_double :: "hasher \<Rightarrow> 64 word \<Rightarrow> int" where
  "hash_double h val = hash_bigint h (sint val)"

definition hash_bool :: "bool \<Rightarrow> int" where
  "hash_bool val = (if val then 0x172BA9C7 else - 0x3A59CB12)"

definition signed_byte :: "byte \<Rightarrow> int" where
  "signed_byte b = (let ch = uint b in if 0x80 \<le> ch then ch - 0x100 else ch)"

definition string_step :: "hasher \<Rightarrow> byte \<Rightarrow> int \<Rightarrow> int" where
  "string_step h b hash_val =
     (case h of
        DefaultHasher \<Rightarrow>
          (let v = to_int32 (hash_val + signed_byte b);
               v = to_int32 (v + to_int32 (push_bit 10 v))
           in to_int32 (v XOR drop_bit 6 v))
      | LegacyHasher \<Rightarrow> to_int32 (hash_val * 31 + signed_byte b))"

definition string_finish :: "hasher \<Rightarrow> int \<Rightarrow> int" where
  "string_finish h hash_val =
     (case h of
        DefaultHasher \<Rightarrow>
          (let v = to_int32 (hash_val + to_int32 (push_bit 3 hash_val));
               v = to_int32 (v XOR drop_bit 11 v)
           in to_int32 (v + to_int32 (push_bit 15 v)))
      | LegacyHasher \<Rightarrow> hash_val)"

definition hash_string :: "hasher \<Rightarrow> bytes \<Rightarrow> int" where
  "hash_string h val = string_finish h (fold (string_step h) val 0)"

definition get_hasher :: "string \<Rightarrow> hasher result" where
  "get_hasher hasher_type =
     (if hasher_type = ''legacy'' then Inr LegacyHasher
      else if hasher_type = ''default'' then Inr DefaultHasher
      else Inl ValueError)"

section \<open>Decimals\<close>

text \<open>
  The scan over the characters after the sign and the leading zeros: the characters before an
  exponent, whether a dot was found, and \<^verbatim>\<open>value_scale\<close>.
\<close>

fun decimal_scan :: "string \<Rightarrow> bool \<Rightarrow> int \<Rightarrow> (string \<times> bool \<times> int) result" where
  "decimal_scan [] found_dot value_scale = Inr ([], found_dot, value_scale)"
| "decimal_scan (c # cs) found_dot value_scale =
     (if is_digit c then
        rbind (decimal_scan cs found_dot (value_scale + of_bool found_dot)) (\<lambda>(num, r). Inr (c # num, r))
      else if c = CHR ''.'' \<and> \<not> found_dot then
        rbind (decimal_scan cs True value_scale) (\<lambda>(num, r). Inr (c # num, r))
      else if (c = CHR ''e'' \<or> c = CHR ''E'') \<and> cs \<noteq> [] then
        rbind (py_int cs) (\<lambda>exponent. Inr ([], found_dot, value_scale - exponent))
      else Inl ValueError)"

text \<open>
  \<^verbatim>\<open>tmp_result\<close> before its sign: the digits brought to \<^verbatim>\<open>scale\<close>, rounded by the first digit cut off,
  which \<^verbatim>\<open>num[len(num) - (value_scale - scale)]\<close> looks up.
\<close>

definition scale_digits :: "string \<Rightarrow> int \<Rightarrow> int \<Rightarrow> int result" where
  "scale_digits num value_scale scale =
     rbind (py_int num) (\<lambda>t.
       if scale < value_scale then
         rbind (py_index num (int (length num) - (value_scale - scale))) (\<lambda>c.
           Inr (t div 10 ^ nat (value_scale - scale) + (if 5 \<le> digit_val c then 1 else 0)))
       else if value_scale < scale then Inr (t * 10 ^ nat (scale - value_scale))
       else Inr t)"

definition decimal_sign :: "string \<Rightarrow> bool \<times> string" where
  "decimal_sign x =
     (case x of
        c # cs \<Rightarrow> if c = CHR ''-'' then (True, cs) else if c = CHR ''+'' then (False, cs) else (False, x)
      | [] \<Rightarrow> (False, x))"

definition decimal_unscaled :: "string \<Rightarrow> int \<Rightarrow> int result" where
  "decimal_unscaled x scale =
     (case decimal_sign (py_strip x) of (is_negative, digits) \<Rightarrow>
        rbind (decimal_scan (dropWhile (\<lambda>c. c = CHR ''0'') digits) False 0) (\<lambda>(num, found_dot, value_scale).
          let num' = (if found_dot then filter (\<lambda>c. c \<noteq> CHR ''.'') num else num)
          in if num' = [] then Inr 0
             else rbind (scale_digits num' value_scale scale) (\<lambda>t. Inr (if is_negative then - t else t))))"

definition hash_decimal :: "hasher \<Rightarrow> string \<Rightarrow> int \<Rightarrow> int \<Rightarrow> int result" where
  "hash_decimal h x precision scale =
     rbind (decimal_unscaled x scale) (\<lambda>t.
       Inr (if 18 < precision
            then hash_bigint h (t AND 0xFFFFFFFFFFFFFFFF) + hash_bigint h (drop_bit 64 t)
            else hash_bigint h t))"

section \<open>Values\<close>

record hash_env = codec_env +
  total_seconds :: "int \<Rightarrow> int"

definition shifted_seconds :: "int \<Rightarrow> int \<Rightarrow> int" where
  "shifted_seconds seconds nanos = push_bit 30 seconds OR nanos"

definition hash_date :: "hasher \<Rightarrow> py_value \<Rightarrow> int result" where
  "hash_date h x = (case x of PDate d \<Rightarrow> Inr (hash_bigint h (d * 86400)) | _ \<Rightarrow> Inl AttributeError)"

definition hash_datetime :: "hash_env \<Rightarrow> hasher \<Rightarrow> py_value \<Rightarrow> int result" where
  "hash_datetime env h x =
     (case x of
        PDatetime t \<Rightarrow> rbind (to_mills env False t) (\<lambda>ms. Inr (hash_bigint h ms))
      | _ \<Rightarrow> Inl AttributeError)"

definition hash_timestamp :: "hash_env \<Rightarrow> hasher \<Rightarrow> py_value \<Rightarrow> int result" where
  "hash_timestamp env h x =
     (case x of
        PTimestamp ns \<Rightarrow> rbind (to_mills env False (ns div 1000)) (\<lambda>ms.
          let seconds = sgn ms * (\<bar>ms\<bar> div 1000);
              nanos = ns div 1000 mod 1000000 * 1000 + ns mod 1000
          in Inr (hash_bigint h (shifted_seconds seconds nanos)))
      | _ \<Rightarrow> Inl AttributeError)"

definition hash_timedelta :: "hash_env \<Rightarrow> hasher \<Rightarrow> py_value \<Rightarrow> int result" where
  "hash_timedelta env h x =
     (case x of
        PTimedelta ns \<Rightarrow>
          (let seconds = total_seconds env ns;
               nanos = ns div 1000 mod 1000000 * 1000 + ns mod 1000
           in Inr (hash_bigint h (shifted_seconds seconds nanos)))
      | _ \<Rightarrow> Inl AttributeError)"

text \<open>The characters of \<^verbatim>\<open>str(x)\<close> of a decimal.\<close>

definition chars_of :: "bytes \<Rightarrow> string" where
  "chars_of bs = List.map (\<lambda>b. char_of (unat b)) bs"

definition hash_decimal_value :: "hasher \<Rightarrow> int \<Rightarrow> int \<Rightarrow> py_value \<Rightarrow> int result" where
  "hash_decimal_value h precision scale x =
     (case x of
        PDecimal d \<Rightarrow> hash_decimal h (chars_of d) precision scale
      | _ \<Rightarrow> Inl TypeError)"

definition DEFAULT_PRECISION :: int where "DEFAULT_PRECISION = 54"
definition DEFAULT_SCALE :: int where "DEFAULT_SCALE = 18"

text \<open>\<^verbatim>\<open>typ.precision or default\<close>: both \<^verbatim>\<open>None\<close> and 0 give the default.\<close>

definition py_or :: "int option \<Rightarrow> int \<Rightarrow> int" where
  "py_or x default_value = (case x of None \<Rightarrow> default_value | Some n \<Rightarrow> if n = 0 then default_value else n)"

type_synonym hash_fun = "hasher \<Rightarrow> py_value \<Rightarrow> int result"

definition type_to_hash_fun :: "hash_env \<Rightarrow> prim \<Rightarrow> hash_fun option" where
  "type_to_hash_fun env p =
     (if p \<in> {Tinyint, Smallint, IntT, Bigint} then
        Some (\<lambda>h x. rbind (as_int x) (\<lambda>n. Inr (hash_bigint h n)))
      else if p = Boolean then Some (\<lambda>h x. rbind (as_bool x) (\<lambda>b. Inr (hash_bool b)))
      else if p = Float then Some (\<lambda>h x. rbind (as_float x) (hash_float h))
      else if p = Double then Some (\<lambda>h x. rbind (as_float x) (\<lambda>w. Inr (hash_double h w)))
      else if p = Date then Some hash_date
      else if p = Datetime then Some (hash_datetime env)
      else if p = Timestamp then Some (hash_timestamp env)
      else if p = IntervalDayTime then Some (hash_timedelta env)
      else if p \<in> {Binary, String} then
        Some (\<lambda>h x. rbind (as_bytes x) (\<lambda>bs. Inr (hash_string h bs)))
      else None)"

definition string_hash_fun :: hash_fun where
  "string_hash_fun h x = rbind (as_bytes x) (\<lambda>bs. Inr (hash_string h bs))"

definition get_hash_func :: "hash_env \<Rightarrow> odps_type \<Rightarrow> hash_fun result" where
  "get_hash_func env typ =
     (case typ of
        Prim p \<Rightarrow> (case type_to_hash_fun env p of Some f \<Rightarrow> Inr f | None \<Rightarrow> Inl TypeError)
      | Char n \<Rightarrow> Inr string_hash_fun
      | Varchar n \<Rightarrow> Inr string_hash_fun
      | Decimal p s \<Rightarrow>
          Inr (\<lambda>h. hash_decimal_value h (py_or p DEFAULT_PRECISION) (py_or s DEFAULT_SCALE))
      | _ \<Rightarrow> Inl TypeError)"

section \<open>RecordHasher\<close>

record record_hasher =
  rh_hasher :: hasher
  rh_keys :: "string list"
  rh_key_to_idx :: "(string \<times> nat) list"
  rh_appenders :: "hash_fun list"

definition record_hasher_new ::
    "hash_env \<Rightarrow> odps_schema \<Rightarrow> string \<Rightarrow> string list \<Rightarrow> record_hasher result" where
  "record_hasher_new env schema hasher_type hash_keys =
     rbind (get_hasher hasher_type) (\<lambda>h.
       rbind (rmap (\<lambda>name. rbind (get_column schema name) (\<lambda>c. get_hash_func env (col_type c))) hash_keys)
         (\<lambda>fs. Inr
           \<lparr>rh_hasher = h, rh_keys = hash_keys,
            rh_key_to_idx =
              fold (\<lambda>(i, c) d. AList.update (col_name c) i d) (enumerate 0 (os_columns schema)) [],
            rh_appenders = fs\<rparr>))"

fun hash_sum :: "record_hasher \<Rightarrow> py_value list \<Rightarrow> nat \<Rightarrow> nat list \<Rightarrow> int \<Rightarrow> int result" where
  "hash_sum rh record idx [] acc = Inr acc"
| "hash_sum rh record idx (data_idx # rest) acc =
     rbind (list_get record data_idx) (\<lambda>v.
       if v = PNone then hash_sum rh record (Suc idx) rest acc
       else rbind (list_get (rh_appenders rh) idx) (\<lambda>f.
              rbind (f (rh_hasher rh) v) (\<lambda>x. hash_sum rh record (Suc idx) rest (acc + x))))"

definition hash_indexes :: "record_hasher \<Rightarrow> py_value list \<Rightarrow> nat list \<Rightarrow> int result" where
  "hash_indexes rh record idx_list =
     rbind (hash_sum rh record 0 idx_list 0) (\<lambda>total.
       let hash_sum = to_int32 total in Inr (hash_sum XOR drop_bit 8 hash_sum))"

definition key_indexes :: "record_hasher \<Rightarrow> nat list result" where
  "key_indexes rh =
     rmap (\<lambda>k. case map_of (rh_key_to_idx rh) k of None \<Rightarrow> Inl KeyError | Some i \<Rightarrow> Inr i) (rh_keys rh)"

definition hash_record :: "record_hasher \<Rightarrow> rec \<Rightarrow> int result" where
  "hash_record rh record = rbind (key_indexes rh) (hash_indexes rh (rec_values record))"

definition hash_list :: "record_hasher \<Rightarrow> py_value list \<Rightarrow> bool \<Rightarrow> int result" where
  "hash_list rh record need_index =
     rbind (if need_index then key_indexes rh else Inr [0..<length record]) (hash_indexes rh record)"

text \<open>\<^verbatim>\<open>hash_value(hasher_type, data_type, value)\<close> with the type as a string.\<close>

definition hash_value :: "hash_env \<Rightarrow> string \<Rightarrow> string \<Rightarrow> py_value \<Rightarrow> int result" where
  "hash_value env hasher_type data_type v =
     (if v = PNone then Inr 0
      else rbind (get_hasher hasher_type) (\<lambda>h.
        rbind (validate_data_type data_type) (\<lambda>t.
          case t of
            TType typ \<Rightarrow> rbind (get_hash_func env typ) (\<lambda>f. f h v)
          | _ \<Rightarrow> Inl TypeError)))"

section \<open>Machine arithmetic\<close>

lemma to_int32_sint: "to_int32 v = sint (word_of_int v :: 32 word)"
  using int_and_mask [of v 32]
  by (simp add: to_int32_def sint_sbintrunc' signed_take_bit_mod Let_def)

lemma to_int64_sint: "to_int64 v = sint (word_of_int v :: 64 word)"
  using int_and_mask [of v 64]
  by (simp add: to_int64_def sint_sbintrunc' signed_take_bit_mod Let_def)

lemma sint_xor_shift: "sint v XOR drop_bit n (sint v) = sint (v XOR signed_drop_bit n v)"
  by (simp add: sint_signed_drop_bit_eq signed_xor_eq)

lemma word_of_int_bits:
  "word_of_int (NOT v) = NOT (word_of_int v :: 'a::len word)"
  "word_of_int (push_bit n v) = push_bit n (word_of_int v :: 'a::len word)"
  by (simp_all add: push_bit_eq_mult of_int_not_eq)

text \<open>What a C or Java program computes: 64-bit wrap-around with arithmetic shifts, cut to 32 bits.\<close>

definition mix64 :: "64 word \<Rightarrow> 32 word" where
  "mix64 w =
     (let v = NOT w + push_bit 18 w;
          v = v XOR signed_drop_bit 31 v;
          v = v * 21;
          v = v XOR signed_drop_bit 11 v;
          v = v + push_bit 6 v;
          v = v XOR signed_drop_bit 22 v
      in scast v)"

definition mix_byte :: "byte \<Rightarrow> 32 word \<Rightarrow> 32 word" where
  "mix_byte b v =
     (let v = v + scast b; v = v + push_bit 10 v in v XOR signed_drop_bit 6 v)"

definition mix_string :: "bytes \<Rightarrow> 32 word" where
  "mix_string bs =
     (let v = fold mix_byte bs 0;
          v = v + push_bit 3 v;
          v = v XOR signed_drop_bit 11 v
      in v + push_bit 15 v)"

definition java_string :: "bytes \<Rightarrow> 32 word" where
  "java_string bs = fold (\<lambda>b v. v * 31 + scast b) bs 0"

lemma default_bigint: "hash_bigint DefaultHasher val = sint (mix64 (word_of_int val))"
  by (simp add: mix64_def Let_def to_int64_sint sint_xor_shift word_of_int_bits to_int32_sint)

lemma signed_byte_sint: "signed_byte b = sint b"
proof -
  have "sint b = sint (word_of_int (uint b) :: byte)" by simp
  also have "\<dots> = (let m = uint b mod 256 in if 128 \<le> m then m - 256 else m)"
    by (subst sint_sbintrunc') (simp add: signed_take_bit_mod Let_def)
  also have "uint b mod 256 = uint b" using uint_lt2p [of b] by (intro mod_pos_pos_trivial) simp_all
  finally show ?thesis by (simp add: signed_byte_def Let_def)
qed

lemma default_step: "string_step DefaultHasher b (sint v) = sint (mix_byte b v)"
  by (simp add: string_step_def mix_byte_def Let_def to_int32_sint signed_byte_sint word_of_int_bits
      sint_xor_shift)

lemma legacy_step: "string_step LegacyHasher b (sint v) = sint (v * 31 + scast b :: 32 word)"
proof -
  have "(scast v :: 32 word) = v" by transfer simp
  then show ?thesis by (simp add: string_step_def to_int32_sint signed_byte_sint)
qed

lemma fold_sint:
  assumes "\<And>b v. f b (sint v) = sint (g b v)"
  shows "fold f bs (sint v) = sint (fold g bs v)"
  by (induction bs arbitrary: v) (simp_all add: assms)

lemma default_string: "hash_string DefaultHasher bs = sint (mix_string bs)"
  using fold_sint [where f = "string_step DefaultHasher" and g = mix_byte, OF default_step, of bs 0]
  by (simp add: hash_string_def string_finish_def mix_string_def Let_def to_int32_sint
      word_of_int_bits sint_xor_shift)

lemma legacy_string: "hash_string LegacyHasher bs = sint (java_string bs)"
  using fold_sint [where f = "string_step LegacyHasher" and g = "\<lambda>b v. v * 31 + scast b", OF legacy_step, of bs 0]
  by (simp add: hash_string_def string_finish_def java_string_def)

lemma legacy_bigint: "hash_bigint LegacyHasher val = sint (ucast (w XOR drop_bit 32 w) :: 32 word)"
  if "w = (word_of_int val :: 64 word)"
proof -
  have "word_of_int (drop_bit 32 val XOR val) = (ucast (w XOR drop_bit 32 w) :: 32 word)"
    unfolding that by (rule bit_word_eqI) (auto simp: bit_simps)
  then show ?thesis by (simp add: to_int32_sint)
qed

text \<open>C38: on Python's unbounded integers the hashers compute what a program with 64-bit and 32-bit machine
  words computes: for every integer, also outside the 64-bit range, and every byte string.\<close>

theorem hashers_are_machine_hashes:
  "hash_bigint DefaultHasher val = sint (mix64 (word_of_int val)) \<and>
   hash_bigint LegacyHasher val =
     sint (ucast (word_of_int val XOR drop_bit 32 (word_of_int val :: 64 word)) :: 32 word) \<and>
   hash_string DefaultHasher bs = sint (mix_string bs) \<and>
   hash_string LegacyHasher bs = sint (java_string bs)"
  using default_bigint legacy_bigint default_string legacy_string by blast

section \<open>Records\<close>

lemma to_int32_shift: "\<exists>w :: 32 word. to_int32 v XOR drop_bit 8 (to_int32 v) = sint w"
  by (auto simp: to_int32_sint sint_xor_shift)

lemma hash_indexes_bounds:
  assumes "hash_indexes rh values idx = Inr x"
  shows "- (2 ^ 31) \<le> x \<and> x < 2 ^ 31"
proof -
  from assms obtain v where "x = to_int32 v XOR drop_bit 8 (to_int32 v)"
    by (auto simp: hash_indexes_def Let_def rbind_eq_Inr)
  with to_int32_shift [of v] obtain w :: "32 word" where "x = sint w" by auto
  with sint_ge [of w] sint_lt [of w] show ?thesis by simp
qed

section \<open>The sum over the keys\<close>

lemma rmap_Inr_iff: "rmap f xs = Inr ys \<longleftrightarrow> list_all (\<lambda>x. \<not> isl (f x)) xs \<and> ys = List.map (\<lambda>x. projr (f x)) xs"
proof (induction xs arbitrary: ys)
  case (Cons x xs)
  then show ?case by (cases "f x") (auto simp: rbind_eq_Inr)
qed auto

lemma rmap_perm:
  fixes f :: "'a \<Rightarrow> 'e + int"
  assumes "mset xs = mset ys" and "rmap f xs = Inr us"
  shows "\<exists>vs. rmap f ys = Inr vs \<and> sum_list vs = sum_list us"
proof -
  from assms(1) have "set xs = set ys" by (rule mset_eq_setD)
  moreover have "sum_list (List.map g xs) = sum_list (List.map g ys)" for g :: "'a \<Rightarrow> int"
    using assms(1) by (metis mset_map sum_mset_sum_list)
  ultimately show ?thesis using assms(2) by (simp add: rmap_Inr_iff list_all_iff)
qed

text \<open>What one key adds to the hash.\<close>

definition key_share :: "hash_env \<Rightarrow> odps_schema \<Rightarrow> (string \<times> nat) list \<Rightarrow> hasher \<Rightarrow> py_value list \<Rightarrow> string \<Rightarrow> int result" where
  "key_share env schema idx h values k =
     rbind (case map_of idx k of None \<Rightarrow> Inl KeyError | Some i \<Rightarrow> Inr i) (\<lambda>i.
       rbind (list_get values i) (\<lambda>v.
         if v = PNone then Inr 0
         else rbind (rbind (get_column schema k) (\<lambda>c. get_hash_func env (col_type c))) (\<lambda>f. f h v)))"

lemma hash_sum_shares:
  assumes "rh_hasher rh = h" and "rh_appenders rh = pre @ fs" and "length pre = n"
    and "rmap (\<lambda>k. rbind (get_column schema k) (\<lambda>c. get_hash_func env (col_type c))) ks = Inr fs"
    and "rmap (\<lambda>k. case map_of idx k of None \<Rightarrow> Inl KeyError | Some i \<Rightarrow> Inr i) ks = Inr is"
  shows "hash_sum rh values n is acc = Inr x \<longleftrightarrow>
    (\<exists>ys. rmap (key_share env schema idx h values) ks = Inr ys \<and> x = acc + sum_list ys)"
  using assms(2-)
proof (induction ks arbitrary: pre fs "is" n acc)
  case (Cons k ks)
  from Cons.prems obtain f gs i js where f: "rbind (get_column schema k) (\<lambda>c. get_hash_func env (col_type c)) = Inr f"
    "rmap (\<lambda>k. rbind (get_column schema k) (\<lambda>c. get_hash_func env (col_type c))) ks = Inr gs" "fs = f # gs"
    and i: "map_of idx k = Some i" "is = i # js"
      "rmap (\<lambda>k. case map_of idx k of None \<Rightarrow> Inl KeyError | Some i \<Rightarrow> Inr i) ks = Inr js"
    by (auto simp: rbind_eq_Inr split: option.splits)
  have a: "list_get (rh_appenders rh) n = Inr f"
    using Cons.prems(1) f(3) by (simp add: list_get_def flip: Cons.prems(2))
  have IH: "hash_sum rh values (Suc n) js acc' = Inr x \<longleftrightarrow>
      (\<exists>ys. rmap (key_share env schema idx h values) ks = Inr ys \<and> x = acc' + sum_list ys)" for acc'
    by (rule Cons.IH [of "pre @ [f]" gs]) (use Cons.prems f i in auto)
  have sk: "key_share env schema idx h values k =
      rbind (list_get values i) (\<lambda>v. if v = PNone then Inr 0 else f h v)"
    by (simp add: key_share_def f(1) i(1) cong: if_cong)
  show ?case
  proof (cases "list_get values i")
    case (Inl e)
    then show ?thesis by (simp add: i(2) sk)
  next
    case (Inr v)
    show ?thesis
    proof (cases "v = PNone")
      case True
      then show ?thesis
        by (cases "rmap (key_share env schema idx h values) ks") (simp_all add: i(2) sk Inr IH)
    next
      case False
      then show ?thesis
        by (cases "f h v"; cases "rmap (key_share env schema idx h values) ks")
          (simp_all add: i(2) sk Inr IH a assms(1) add.assoc)
    qed
  qed
qed auto

lemma hash_record_shares:
  assumes "record_hasher_new env schema ty keys = Inr rh" and "get_hasher ty = Inr h"
  shows "hash_record rh r = Inr x \<longleftrightarrow>
    (\<exists>ys. rmap (key_share env schema (rh_key_to_idx rh) h (rec_values r)) keys = Inr ys \<and>
      x = to_int32 (sum_list ys) XOR drop_bit 8 (to_int32 (sum_list ys)))"
proof -
  from assms obtain fs where fs: "rmap (\<lambda>k. rbind (get_column schema k) (\<lambda>c. get_hash_func env (col_type c))) keys = Inr fs"
    and rh: "rh_hasher rh = h" "rh_keys rh = keys" "rh_appenders rh = fs"
    by (auto simp: record_hasher_new_def rbind_eq_Inr)
  show ?thesis
  proof (cases "key_indexes rh")
    case (Inl e)
    then have "\<nexists>is. rmap (\<lambda>k. case map_of (rh_key_to_idx rh) k of None \<Rightarrow> Inl KeyError | Some i \<Rightarrow> Inr i) keys = Inr is"
      by (simp add: key_indexes_def rh)
    then obtain k where "k \<in> set keys" "map_of (rh_key_to_idx rh) k = None"
      by (force simp: rmap_Inr_iff list_all_iff split: option.splits)
    then have "\<nexists>ys. rmap (key_share env schema (rh_key_to_idx rh) h (rec_values r)) keys = Inr ys"
      by (auto simp: rmap_Inr_iff list_all_iff key_share_def intro!: bexI [of _ k])
    with Inl show ?thesis by (simp add: hash_record_def)
  next
    case (Inr "is")
    with hash_sum_shares [OF rh(1), of "[]" fs 0 schema env keys "rh_key_to_idx rh" "is" "rec_values r" 0] fs rh
    show ?thesis
      by (auto simp: hash_record_def hash_indexes_def Let_def rbind_eq_Inr key_indexes_def)
  qed
qed

text \<open>C39: the bucket hash of a record does not depend on the order in which the hash keys are given.\<close>

theorem hash_keys_order:
  assumes "record_hasher_new env schema ty keys = Inr rh" and "record_hasher_new env schema ty keys' = Inr rh'"
    and "mset keys = mset keys'"
  shows "hash_record rh r = Inr x \<longleftrightarrow> hash_record rh' r = Inr x"
proof -
  from assms(1) obtain h where h: "get_hasher ty = Inr h" by (auto simp: record_hasher_new_def rbind_eq_Inr)
  have "rh_key_to_idx rh' = rh_key_to_idx rh"
    using assms(1,2) by (auto simp: record_hasher_new_def rbind_eq_Inr)
  then have e: "key_share env schema (rh_key_to_idx rh') h (rec_values r) =
      key_share env schema (rh_key_to_idx rh) h (rec_values r)" by simp
  show ?thesis
    unfolding hash_record_shares [OF assms(1) h] hash_record_shares [OF assms(2) h] e
  proof (intro iffI; elim exE conjE)
    fix ys
    assume y: "rmap (key_share env schema (rh_key_to_idx rh) h (rec_values r)) keys = Inr ys"
      "x = to_int32 (sum_list ys) XOR drop_bit 8 (to_int32 (sum_list ys))"
    from rmap_perm [OF assms(3) y(1)] y(2)
    show "\<exists>ys. rmap (key_share env schema (rh_key_to_idx rh) h (rec_values r)) keys' = Inr ys \<and>
        x = to_int32 (sum_list ys) XOR drop_bit 8 (to_int32 (sum_list ys))" by metis
  next
    fix ys
    assume y: "rmap (key_share env schema (rh_key_to_idx rh) h (rec_values r)) keys' = Inr ys"
      "x = to_int32 (sum_list ys) XOR drop_bit 8 (to_int32 (sum_list ys))"
    from rmap_perm [OF assms(3) [symmetric] y(1)] y(2)
    show "\<exists>ys. rmap (key_share env schema (rh_key_to_idx rh) h (rec_values r)) keys = Inr ys \<and>
        x = to_int32 (sum_list ys) XOR drop_bit 8 (to_int32 (sum_list ys))" by metis
  qed
qed

definition demo_hash_env :: hash_env where
  "demo_hash_env = codec_env.extend plain_codec \<lparr>total_seconds = (\<lambda>ns. ns div 10 ^ 9)\<rparr>"

definition demo_hash_schema :: odps_schema where
  "demo_hash_schema =
     (let cols = [mk_column ''id'' (Prim Bigint), mk_column ''name'' (Prim String)]
      in \<lparr>os_columns = cols, os_partitions = None, os_schema = raw_schema cols, os_pschema = raw_schema []\<rparr>)"

definition demo_hasher :: "string list \<Rightarrow> record_hasher" where
  "demo_hasher keys =
     \<lparr>rh_hasher = DefaultHasher, rh_keys = keys, rh_key_to_idx = [(''id'', 0), (''name'', 1)],
      rh_appenders = List.map (\<lambda>k. if py_lower k = ''id''
        then (\<lambda>h x. rbind (as_int x) (\<lambda>n. Inr (hash_bigint h n)))
        else (\<lambda>h x. rbind (as_bytes x) (\<lambda>bs. Inr (hash_string h bs)))) keys\<rparr>"

lemma hash_lower: "py_lower ''id'' = ''id''" "py_lower ''name'' = ''name''" "py_lower ''ID'' = ''id''"
  by code_simp+

lemmas demo_hash_simps = record_hasher_new_def get_hasher_def get_column_def demo_hash_schema_def
  raw_schema_def index_of_def mk_column_def hash_lower name_indexes_def list_get_def get_hash_func_def
  type_to_hash_fun_def demo_hasher_def

lemma demo_hasher_new:
  "record_hasher_new demo_hash_env demo_hash_schema ''default'' [''id'', ''name''] = Inr (demo_hasher [''id'', ''name''])"
  "record_hasher_new demo_hash_env demo_hash_schema ''default'' [''name'', ''id''] = Inr (demo_hasher [''name'', ''id''])"
  "record_hasher_new demo_hash_env demo_hash_schema ''default'' [''ID''] = Inr (demo_hasher [''ID''])"
  by (simp_all add: demo_hash_simps)

definition demo_hash_record :: rec where
  "demo_hash_record =
     \<lparr>rec_columns = os_columns demo_hash_schema, rec_indexes = [(''id'', 0), (''name'', 1)], rec_max = None,
      rec_values = [PInt 7, PStr [104, 105]]\<rparr>"

lemma demo_hash: "hash_record (demo_hasher [''id'', ''name'']) demo_hash_record = Inr 75702613"
  by code_simp

lemma hash_keys_order_witness:
  "hash_record (demo_hasher [''id'', ''name'']) demo_hash_record = Inr 75702613 \<longleftrightarrow>
   hash_record (demo_hasher [''name'', ''id'']) demo_hash_record = Inr 75702613"
  by (rule hash_keys_order [OF demo_hasher_new(1,2)]) simp

text \<open>A record's hash is a 32-bit integer, even where the hash of a wide decimal is not.\<close>

theorem record_hash_bounds:
  assumes "hash_record rh r = Inr x \<or> hash_list rh vals need_index = Inr x"
  shows "- (2 ^ 31) \<le> x \<and> x < 2 ^ 31"
  using assms hash_indexes_bounds by (auto simp: hash_record_def hash_list_def rbind_eq_Inr split: if_splits)

lemma record_hash_bounds_witness: "- (2 ^ 31) \<le> (75702613 :: int) \<and> (75702613 :: int) < 2 ^ 31"
  by (rule record_hash_bounds [where rh = "demo_hasher [''id'', ''name'']" and r = demo_hash_record
        and vals = "[]" and need_index = True]) (simp add: demo_hash)

lemma key_index_names:
  "fst ` set (fold (\<lambda>(i, c) d. AList.update (col_name c) i d) (enumerate n cols) d) \<subseteq>
    fst ` set d \<union> col_name ` set cols" for d :: "(string \<times> nat) list"
proof (induction cols arbitrary: n d)
  case (Cons c cols)
  have "fst ` set (AList.update (col_name c) n d) = {col_name c} \<union> fst ` set d" by (rule dom_update)
  with Cons.IH [of "Suc n" "AList.update (col_name c) n d"] show ?case by auto
qed simp

text \<open>A hash key whose case differs from the column's name is accepted when the hasher is made, and
  every record then raises \<^verbatim>\<open>KeyError\<close>.\<close>

theorem hash_key_case:
  assumes "record_hasher_new env schema ty [k] = Inr rh" and "k \<notin> col_name ` set (os_columns schema)"
  shows "hash_record rh r = Inl KeyError"
proof -
  from assms(1) have "rh_key_to_idx rh =
      fold (\<lambda>(i, c) d. AList.update (col_name c) i d) (enumerate 0 (os_columns schema)) []"
    by (auto simp: record_hasher_new_def rbind_eq_Inr)
  with key_index_names [of 0 "os_columns schema" "[]"]
  have "fst ` set (rh_key_to_idx rh) \<subseteq> col_name ` set (os_columns schema)" by simp
  with assms(2) have "k \<notin> fst ` set (rh_key_to_idx rh)" by blast
  then have "map_of (rh_key_to_idx rh) k = None" by (simp add: map_of_eq_None_iff)
  moreover from assms(1) have "rh_keys rh = [k]" by (auto simp: record_hasher_new_def rbind_eq_Inr)
  ultimately show ?thesis by (simp add: hash_record_def key_indexes_def)
qed

lemma hash_key_case_witness: "hash_record (demo_hasher [''ID'']) demo_hash_record = Inl KeyError"
  by (rule hash_key_case [OF demo_hasher_new(3)]) (simp add: demo_hash_schema_def mk_column_def Let_def)

section \<open>Decimals\<close>

lemma is_digit_space: "is_digit c \<Longrightarrow> \<not> py_isspace c"
  by (auto simp: is_digit_def py_isspace_def Let_def)

definition dval :: "string \<Rightarrow> nat" where
  "dval s = fold (\<lambda>c a. 10 * a + digit_val c) s 0"

lemma fold_digits: "fold (\<lambda>c a. 10 * a + digit_val c) s m = m * 10 ^ length s + dval s"
proof (induction s arbitrary: m)
  case (Cons c s)
  show ?case using Cons.IH [of "10 * m + digit_val c"] Cons.IH [of "digit_val c"]
    by (simp add: dval_def add_mult_distrib add_mult_distrib2)
qed (simp add: dval_def)

lemma dval_append: "dval (s @ t) = dval s * 10 ^ length t + dval t"
  using fold_digits [of t "dval s"] by (simp add: dval_def)

lemma dval_Nil [simp]: "dval [] = 0" by (simp add: dval_def)
lemma dval_single: "dval [c] = digit_val c" by (simp add: dval_def)

lemma digit_val_le: "is_digit c \<Longrightarrow> digit_val c \<le> 9"
  by (auto simp: is_digit_def digit_val_def Let_def)

lemma dval_less: "list_all is_digit s \<Longrightarrow> dval s < 10 ^ length s"
proof (induction s rule: rev_induct)
  case (snoc c s)
  then have "digit_val c \<le> 9" "dval s < 10 ^ length s" by (simp_all add: digit_val_le)
  then show ?case by (simp add: dval_append dval_single)
qed simp

lemma py_int_digits:
  assumes "list_all is_digit s" and "s \<noteq> []"
  shows "py_int s = Inr (int (dval s))"
proof -
  obtain c cs where s: "s = c # cs" using assms(2) by (cases s) auto
  have sp: "py_strip s = s"
    by (rule py_strip_nospace) (use assms(1) is_digit_space in \<open>auto simp: list_all_iff\<close>)
  have ch: "c \<noteq> CHR ''-''" "c \<noteq> CHR ''+''" using assms(1) s by (auto simp: is_digit_def)
  have "int_digits cs (digit_val c) = Some (dval s)"
    using int_digits_append [of cs "[]" "digit_val c"] assms(1)
    by (simp add: s list_all_iff dval_def)
  with sp ch assms(1) show ?thesis by (simp add: py_int_def s unsigned_int_def)
qed

lemma scan_digits:
  "list_all is_digit ds \<Longrightarrow> decimal_scan (ds @ rest) dot vs =
     rbind (decimal_scan rest dot (vs + (if dot then int (length ds) else 0))) (\<lambda>(num, r). Inr (ds @ num, r))"
proof (induction ds arbitrary: vs)
  case Nil
  show ?case by (cases "decimal_scan rest dot vs") auto
next
  case (Cons d ds)
  then show ?case by (cases "decimal_scan rest dot (vs + (if dot then int (length (d # ds)) else 0))")
      (auto simp: add.assoc)
qed

lemma dval_zeros: "dval (dropWhile (\<lambda>c. c = CHR ''0'') s) = dval s"
proof (induction s)
  case (Cons c s)
  show ?case
  proof (cases "c = CHR ''0''")
    case True
    with Cons dval_append [of "[c]" s] show ?thesis by (simp add: dval_single digit_val_def)
  qed simp
qed simp

lemma half_up_div:
  fixes q a b c :: int
  assumes "0 \<le> b" and "b < q" and "0 \<le> c" and "c \<le> 9"
  shows "(10 * q * a + (c * q + b)) div (10 * q) = a"
    and "(10 * q * a + (c * q + b) + 5 * q) div (10 * q) = a + (if 5 \<le> c then 1 else 0)"
proof -
  have q: "0 < q" using assms(1,2) by simp
  have cq: "0 \<le> c * q" "c * q \<le> 9 * q" using assms(3,4) q by (simp_all add: mult_right_mono)
  show "(10 * q * a + (c * q + b)) div (10 * q) = a"
    by (rule int_div_pos_eq [where r = "c * q + b"]) (use assms cq in linarith)+
  show "(10 * q * a + (c * q + b) + 5 * q) div (10 * q) = a + (if 5 \<le> c then 1 else 0)"
  proof (cases "5 \<le> c")
    case True
    then have "5 * q \<le> c * q" using q by (intro mult_right_mono) auto
    then have "0 \<le> c * q + b - 5 * q" "c * q + b - 5 * q < 10 * q" using assms(1,2) cq by linarith+
    from int_div_pos_eq [OF _ this, of _ "a + 1"] True show ?thesis by (simp add: distrib_left ac_simps)
  next
    case False
    then have "c * q \<le> 4 * q" using q by (intro mult_right_mono) auto
    then have "0 \<le> c * q + b + 5 * q" "c * q + b + 5 * q < 10 * q" using assms(1,2) cq q by linarith+
    from int_div_pos_eq [OF _ this, of _ a] False show ?thesis by (simp add: ac_simps)
  qed
qed

text \<open>Rounding by the first digit cut off is rounding half up.\<close>

lemma scale_digits_half_up:
  assumes num: "list_all is_digit num" "num \<noteq> []" and "int k - scale \<le> int (length num)"
  shows "scale_digits num (int k) scale = Inr
    (if scale < int k
     then (int (dval num) + 5 * 10 ^ (nat (int k - scale) - 1)) div 10 ^ nat (int k - scale)
     else int (dval num) * 10 ^ nat (scale - int k))"
proof (cases "scale < int k")
  case True
  define d where "d = nat (int k - scale)"
  have d: "0 < d" "d \<le> length num" "int k - scale = int d" using True assms(3) by (auto simp: d_def)
  define a where "a = take (length num - d) num"
  obtain c b where cb: "drop (length num - d) num = c # b"
    using d num(2) by (cases "drop (length num - d) num") auto
  have s: "num = a @ c # b" using cb by (metis a_def append_take_drop_id)
  have lb: "length b = d - 1" using arg_cong [OF cb, of length] d by simp
  have dig: "is_digit c" "list_all is_digit b" using num(1) by (simp_all add: s)
  have c9: "digit_val c \<le> 9" and b: "dval b < 10 ^ (d - 1)"
    using dig dval_less [OF dig(2)] by (simp_all add: digit_val_le lb)
  define q where "q = (10::int) ^ (d - 1)"
  have p: "(10::int) ^ d = 10 * q" using d(1) by (simp add: q_def power_eq_if)
  have "dval num = dval a * 10 ^ d + (digit_val c * 10 ^ (d - 1) + dval b)"
    using dval_append [of a "c # b"] dval_append [of "[c]" b] lb d(1) by (simp add: s dval_single)
  then have v: "int (dval num) = 10 * q * int (dval a) + (int (digit_val c) * q + int (dval b))"
    using p by (simp add: q_def)
  have "int (dval b) < int (10 ^ (d - 1))" using b by (simp only: of_nat_less_iff)
  then have bq: "int (dval b) < q" by (simp add: q_def)
  note r = half_up_div [of "int (dval b)" q "int (digit_val c)" "int (dval a)"]
  have i: "py_index num (int (length num) - (int k - scale)) = Inr c"
    using d lb by (simp add: py_index_def s nth_append)
  have "scale_digits num (int k) scale =
      Inr (int (dval num) div 10 ^ d + (if 5 \<le> digit_val c then 1 else 0))"
    using True i py_int_digits [OF num] by (simp add: scale_digits_def d_def)
  also have "int (dval num) div 10 ^ d + (if 5 \<le> digit_val c then 1 else 0) =
      (int (dval num) + 5 * q) div 10 ^ d"
    unfolding v p using r bq c9 by simp
  finally show ?thesis using True by (simp add: q_def d_def)
next
  case False
  with py_int_digits [OF num] show ?thesis by (auto simp: scale_digits_def)
qed

lemma decimal_sign_digits:
  assumes "list_all is_digit ip" and "fr = [] \<or> hd fr = CHR ''.''"
  shows "decimal_sign ((if neg then ''-'' else []) @ ip @ fr) = (neg, ip @ fr)"
proof (cases neg)
  case False
  have "c \<noteq> CHR ''-'' \<and> c \<noteq> CHR ''+''" if "ip @ fr = c # cs" for c cs
    using assms that by (cases ip) (auto simp: is_digit_def)
  with False show ?thesis by (auto simp: decimal_sign_def split: list.split)
qed (simp add: decimal_sign_def)

lemma decimal_unscaled_half_up:
  assumes ip: "list_all is_digit ip" and fp: "list_all is_digit fp" and "0 \<le> scale"
  shows "decimal_unscaled ((if neg then ''-'' else []) @ ip @ (if fp = [] then [] else CHR ''.'' # fp)) scale =
    Inr ((if neg then - 1 else 1) *
      (if scale < int (length fp)
       then (int (dval (ip @ fp)) + 5 * 10 ^ (nat (int (length fp) - scale) - 1)) div
              10 ^ nat (int (length fp) - scale)
       else int (dval (ip @ fp)) * 10 ^ nat (scale - int (length fp))))"
proof -
  let ?fr = "if fp = [] then [] else CHR ''.'' # fp"
  define zs where "zs = dropWhile (\<lambda>c. c = CHR ''0'') ip"
  have zs: "list_all is_digit zs" "dval (zs @ fp) = dval (ip @ fp)"
    using ip by (auto simp: zs_def dval_append dval_zeros list_all_iff dest: set_dropWhileD)
  have "\<forall>c \<in> set ((if neg then ''-'' else []) @ ip @ ?fr). \<not> py_isspace c"
    using ip fp is_digit_space by (auto simp: list_all_iff py_isspace_def)
  then have strip: "py_strip ((if neg then ''-'' else []) @ ip @ ?fr) = (if neg then ''-'' else []) @ ip @ ?fr"
    by (rule py_strip_nospace)
  have drop: "dropWhile (\<lambda>c. c = CHR ''0'') (ip @ ?fr) = zs @ ?fr"
  proof (cases "\<forall>c \<in> set ip. c = CHR ''0''")
    case True
    then have "zs = []" by (simp add: zs_def dropWhile_eq_Nil_conv)
    with True show ?thesis by (simp add: dropWhile_append2)
  next
    case False
    then show ?thesis unfolding zs_def by (auto intro!: dropWhile_append1)
  qed
  have "is_digit c \<Longrightarrow> c \<noteq> CHR ''.''" for c by (auto simp: is_digit_def)
  then have nodot: "filter (\<lambda>c. c \<noteq> CHR ''.'') zs = zs" "filter (\<lambda>c. c \<noteq> CHR ''.'') fp = fp"
    using zs(1) fp by (auto simp: list_all_iff intro!: filter_True)
  have scan: "decimal_scan (zs @ ?fr) False 0 = Inr (zs @ ?fr, fp \<noteq> [], int (length fp))"
    using scan_digits [OF zs(1), of ?fr False 0] scan_digits [OF fp, of "[]" True 0]
    by (auto simp: is_digit_def)
  have num: "(if fp \<noteq> [] then filter (\<lambda>c. c \<noteq> CHR ''.'') (zs @ ?fr) else zs @ ?fr) = zs @ fp"
    using nodot by simp
  have sign: "decimal_sign ((if neg then ''-'' else []) @ ip @ ?fr) = (neg, ip @ ?fr)"
    by (rule decimal_sign_digits [OF ip]) simp
  have un: "decimal_unscaled ((if neg then ''-'' else []) @ ip @ ?fr) scale =
      (if zs @ fp = [] then Inr 0
       else rbind (scale_digits (zs @ fp) (int (length fp)) scale) (\<lambda>t. Inr (if neg then - t else t)))"
    by (simp only: decimal_unscaled_def strip sign prod.case drop scan rbind_simps Let_def num)
  show ?thesis
  proof (cases "zs @ fp = []")
    case True
    with zs(2) assms(3) show ?thesis unfolding un by simp
  next
    case False
    have "list_all is_digit (zs @ fp)" using zs(1) fp by simp
    from scale_digits_half_up [OF this False, of "length fp" scale] assms(3) False zs(2)
    show ?thesis unfolding un by auto
  qed
qed

text \<open>C40: a value of a decimal column that is written without an exponent, with any digits before and after
  the point, is hashed as the integer that its value times ten to the scale is rounded to, half up and away
  from zero; with a precision above 18 its low 64 bits and the rest are hashed and added. The scale is the
  one of the column when that is not zero. A column of scale 0 is treated like one without a scale: its
  values are hashed at the default scale 18 and not rounded to integers; a precision of 0 or none is 54.\<close>

theorem decimal_half_up:
  assumes digits: "list_all is_digit ip" "list_all is_digit fp"
    and d: "chars_of d = (if neg then ''-'' else []) @ ip @ (if fp = [] then [] else CHR ''.'' # fp)"
    and column: "get_hash_func env (Decimal p s) = Inr f" "\<forall>n. s = Some n \<longrightarrow> 0 \<le> n"
    and scale: "scale = (if s = None \<or> s = Some 0 then 18 else the s)"
    and precision: "precision = (if p = None \<or> p = Some 0 then 54 else the p)"
  shows "\<exists>t. f h (PDecimal d) = Inr (if 18 < precision
        then hash_bigint h (t AND 0xFFFFFFFFFFFFFFFF) + hash_bigint h (drop_bit 64 t) else hash_bigint h t) \<and>
    t = (if neg then - 1 else 1) *
      (if scale < int (length fp)
       then (int (dval (ip @ fp)) + 5 * 10 ^ (nat (int (length fp) - scale) - 1)) div
              10 ^ nat (int (length fp) - scale)
       else int (dval (ip @ fp)) * 10 ^ nat (scale - int (length fp)))"
proof -
  have f: "f = (\<lambda>h. hash_decimal_value h precision scale)"
    using column(1) scale precision
    by (auto simp: get_hash_func_def py_or_def DEFAULT_SCALE_def DEFAULT_PRECISION_def split: option.splits if_splits)
  have "0 \<le> scale" using column(2) scale by (cases s) auto
  from decimal_unscaled_half_up [OF digits this, of neg] show ?thesis
    by (simp add: f hash_decimal_value_def hash_decimal_def d)
qed

lemma decimal_half_up_witness:
  "\<exists>f. get_hash_func demo_hash_env (Decimal (Some 10) (Some 2)) = Inr f \<and>
    f DefaultHasher (PDecimal (List.map of_char ''-012.3450'')) = Inr (hash_bigint DefaultHasher (- 1235))"
proof -
  have d: "chars_of (List.map of_char ''-012.3450'') =
      (if True then ''-'' else []) @ ''012'' @ (if ''3450'' = [] then [] else CHR ''.'' # ''3450'')"
    by code_simp
  have digits: "list_all is_digit ''012''" "list_all is_digit ''3450''" by (simp_all add: is_digit_def)
  have v: "dval ''0123450'' = 123450" by (simp add: dval_def digit_val_def)
  obtain f where f: "get_hash_func demo_hash_env (Decimal (Some 10) (Some 2)) = Inr f"
    by (simp add: get_hash_func_def)
  from decimal_half_up [OF digits d f _ refl refl, of DefaultHasher] f show ?thesis by (simp add: v del: hash_bigint.simps)
qed

text \<open>With an exponent, as \<^verbatim>\<open>str\<close> prints decimals below a millionth, the same value may hash
  differently or raise \<^verbatim>\<open>IndexError\<close>: the lookup of the rounding digit runs off the digits. And a scale
  of 0 counts as no scale: the column is hashed as if it had 18 decimals.\<close>

theorem decimal_hash_flaws:
  "decimal_unscaled ''0.0000005'' 5 = Inr 0 \<and> decimal_unscaled ''5E-7'' 5 = Inr 1 \<and>
   decimal_unscaled ''5E-7'' 2 = Inl IndexError \<and>
   get_hash_func env (Decimal (Some 10) (Some 0)) = get_hash_func env (Decimal (Some 10) (Some 18))"
proof (intro conjI)
  show "decimal_unscaled ''0.0000005'' 5 = Inr 0" "decimal_unscaled ''5E-7'' 5 = Inr 1"
    "decimal_unscaled ''5E-7'' 2 = Inl IndexError" by code_simp+
  show "get_hash_func env (Decimal (Some 10) (Some 0)) = get_hash_func env (Decimal (Some 10) (Some 18))"
    by (simp add: get_hash_func_def py_or_def DEFAULT_SCALE_def)
qed

end
