(* ===== verification/Block_Upload.thy ===== *)
theory Block_Upload
  imports Record_Values
begin

text \<open>
  \<^verbatim>\<open>odps/tunnel/io/writer.py\<close>: \<^verbatim>\<open>BufferedRecordWriter\<close>, which collects encoded records in memory and
  uploads them as a block of its own whenever the buffer is full, and \<^verbatim>\<open>StreamRecordWriter\<close>, which
  does the same for the slots of a stream. The request that uploads a block, the generator of block
  ids and the refresh of the slots are parameters acting on a world \<open>'w\<close> (the server and the upload
  session). Nothing is compressed, and the client metrics are left out.
\<close>

section \<open>The writers\<close>

text \<open>The headers of the server's response, and the calls a writer makes.\<close>

type_synonym response = "string \<rightharpoonup> string"

record 'w upload_calls =
  up_request :: "int \<Rightarrow> bytes \<Rightarrow> ('w, response) sm"
  up_block_id_gen :: "('w, int) sm option"

record 'w buffered_writer =
  bb_base :: record_writer
  bb_block_id :: int
  bb_blocks_written :: "int list"
  bb_n_bytes_written :: nat
  bb_world :: 'w

definition bb_new :: "odps_schema \<Rightarrow> nat option \<Rightarrow> nat \<Rightarrow> int option \<Rightarrow> 'w \<Rightarrow> 'w buffered_writer" where
  "bb_new schema buffer_size block_buffer_size block_id w =
     \<lparr>bb_base = (bw_new schema None)\<lparr>pw_buffer_size :=
        (case buffer_size of None \<Rightarrow> block_buffer_size
         | Some n \<Rightarrow> if n = 0 then block_buffer_size else n)\<rparr>,
      bb_block_id = (case block_id of None \<Rightarrow> 0 | Some b \<Rightarrow> b),
      bb_blocks_written = [], bb_n_bytes_written = 0, bb_world = w\<rparr>"

text \<open>A method inherited from \<^verbatim>\<open>BaseRecordWriter\<close>, and a call on the world.\<close>

definition on_base :: "(record_writer, 'a) sm \<Rightarrow> (('w, 'z) buffered_writer_scheme, 'a) sm" where
  "on_base m = (\<lambda>s. case m (bb_base s) of (r, b) \<Rightarrow> (r, s\<lparr>bb_base := b\<rparr>))"

definition calling :: "('w, 'a) sm \<Rightarrow> (('w, 'z) buffered_writer_scheme, 'a) sm" where
  "calling m = (\<lambda>s. case m (bb_world s) of (r, w) \<Rightarrow> (r, s\<lparr>bb_world := w\<rparr>))"

definition n_raw_bytes :: "('w, 'z) buffered_writer_scheme \<Rightarrow> nat" where
  "n_raw_bytes s = n_bytes (bb_base s)"

definition total_bytes :: "('w, 'z) buffered_writer_scheme \<Rightarrow> nat" where
  "total_bytes s = bb_n_bytes_written s + n_raw_bytes s"

text \<open>\<^verbatim>\<open>self._buffer.getvalue()\<close>\<close>

definition buffer_value :: "('w, 'z) buffered_writer_scheme \<Rightarrow> bytes" where
  "buffer_value s = concat (pw_output (bb_base s))"

definition next_block_id :: "'w upload_calls \<Rightarrow> (('w, 'z) buffered_writer_scheme, int) sm" where
  "next_block_id up =
     (case up_block_id_gen up of
        Some gen \<Rightarrow> calling gen
      | None \<Rightarrow> sget (\<lambda>s. bb_block_id s + 1))"

text \<open>\<^verbatim>\<open>_reset_writer\<close>: a new buffer, an encoder and checksums without history.\<close>

definition reset_base :: "(record_writer, unit) sm" where
  "reset_base =
     sthen pw_re_init
       (smod (\<lambda>b. b\<lparr>bw_cursor := 0, bw_crccrc := checksum_reset (bw_crccrc b),
          bw_crc := checksum_reset (bw_crc b)\<rparr>))"

definition bb_reset_writer :: "response \<Rightarrow> (('w, 'z) buffered_writer_scheme, unit) sm" where
  "bb_reset_writer resp = on_base reset_base"

definition bb_send_buffer :: "'w upload_calls \<Rightarrow> (('w, 'z) buffered_writer_scheme, response) sm" where
  "bb_send_buffer up =
     sbind (sget (\<lambda>s. (bb_block_id s, buffer_value s))) (\<lambda>(block_id, data).
       calling (up_request up block_id data))"

text \<open>
  \<^verbatim>\<open>_flush\<close>, with the two methods that \<^verbatim>\<open>StreamRecordWriter\<close> overrides as arguments.
\<close>

definition bb_flush ::
    "'w upload_calls \<Rightarrow> (('w, 'z) buffered_writer_scheme, response) sm \<Rightarrow>
     (response \<Rightarrow> (('w, 'z) buffered_writer_scheme, unit) sm) \<Rightarrow>
     (('w, 'z) buffered_writer_scheme, unit) sm" where
  "bb_flush up send reset =
     sthen (on_base write_finish_tags)
     (sthen (smod (\<lambda>s. s\<lparr>bb_n_bytes_written := bb_n_bytes_written s + n_raw_bytes s\<rparr>))
     (sthen (on_base flush_all)
     (sbind send (\<lambda>resp.
      sthen (smod (\<lambda>s. s\<lparr>bb_blocks_written := bb_blocks_written s @ [bb_block_id s]\<rparr>))
     (sbind (next_block_id up) (\<lambda>block_id.
      sthen (smod (\<lambda>s. s\<lparr>bb_block_id := block_id\<rparr>)) (reset resp)))))))"

definition buffered_flush :: "'w upload_calls \<Rightarrow> (('w, 'z) buffered_writer_scheme, unit) sm" where
  "buffered_flush up = bb_flush up (bb_send_buffer up) bb_reset_writer"

definition bb_write ::
    "(('w, 'z) buffered_writer_scheme, unit) sm \<Rightarrow> codec_env \<Rightarrow> rec \<Rightarrow>
     (('w, 'z) buffered_writer_scheme, unit) sm" where
  "bb_write flush env record =
     sthen (on_base (write_record env record)) (\<lambda>s.
       if 0 < pw_buffer_size (bb_base s) \<and> pw_buffer_size (bb_base s) < n_raw_bytes s
       then flush s else (Inr (), s))"

definition bb_close ::
    "(('w, 'z) buffered_writer_scheme, unit) sm \<Rightarrow> (('w, 'z) buffered_writer_scheme, unit) sm" where
  "bb_close flush =
     sthen (\<lambda>s. if 0 < n_raw_bytes s then flush s else (Inr (), s)) (on_base flush_all)"

fun bb_writes ::
    "(('w, 'z) buffered_writer_scheme, unit) sm \<Rightarrow> codec_env \<Rightarrow> rec list \<Rightarrow>
     (('w, 'z) buffered_writer_scheme, unit) sm" where
  "bb_writes flush env [] = sret ()"
| "bb_writes flush env (r # rs) = sthen (bb_write flush env r) (bb_writes flush env rs)"

text \<open>\<^verbatim>\<open>with session.open_record_writer() as writer\<close>: write the records, then close.\<close>

definition upload_records ::
    "'w upload_calls \<Rightarrow> codec_env \<Rightarrow> rec list \<Rightarrow> ('w buffered_writer, unit) sm" where
  "upload_records up env rs =
     sthen (bb_writes (buffered_flush up) env rs) (bb_close (buffered_flush up))"

subsection \<open>StreamRecordWriter\<close>

record 'w stream_writer = "'w buffered_writer" +
  sw_slot :: int
  sw_record_count :: nat

record 'w stream_calls =
  st_request :: "bytes \<Rightarrow> ('w, response) sm"
  st_reload_slots :: "int \<Rightarrow> string \<Rightarrow> int \<Rightarrow> ('w, unit) sm"

definition header :: "response \<Rightarrow> string \<Rightarrow> string result" where
  "header resp k = (case resp k of None \<Rightarrow> Inl KeyError | Some v \<Rightarrow> Inr v)"

definition sw_new :: "odps_schema \<Rightarrow> nat option \<Rightarrow> nat \<Rightarrow> int \<Rightarrow> 'w \<Rightarrow> 'w stream_writer" where
  "sw_new schema buffer_size block_buffer_size slot w =
     buffered_writer.extend (bb_new schema buffer_size block_buffer_size None w)
       \<lparr>sw_slot = slot, sw_record_count = 0\<rparr>"

definition sw_send_buffer :: "'w stream_calls \<Rightarrow> ('w stream_writer, response) sm" where
  "sw_send_buffer st = sbind (sget buffer_value) (\<lambda>data. calling (st_request st data))"

definition sw_reset_writer :: "'w stream_calls \<Rightarrow> response \<Rightarrow> ('w stream_writer, unit) sm" where
  "sw_reset_writer st resp =
     sthen (smod (\<lambda>s. s\<lparr>sw_record_count := 0\<rparr>))
     (sbind (slift (header resp ''odps-tunnel-routed-server'')) (\<lambda>slot_server.
      sbind (slift (rbind (header resp ''odps-tunnel-slot-num'') py_int)) (\<lambda>slot_num.
      sbind (sget sw_slot) (\<lambda>slot.
      sthen (calling (st_reload_slots st slot slot_server slot_num)) (bb_reset_writer resp)))))"

definition stream_flush :: "'w stream_calls \<Rightarrow> ('w stream_writer, unit) sm" where
  "stream_flush st =
     bb_flush \<lparr>up_request = (\<lambda>_. st_request st), up_block_id_gen = None\<rparr> (sw_send_buffer st)
       (sw_reset_writer st)"

definition sw_write :: "'w stream_calls \<Rightarrow> codec_env \<Rightarrow> rec \<Rightarrow> ('w stream_writer, unit) sm" where
  "sw_write st env record =
     sthen (bb_write (stream_flush st) env record)
       (smod (\<lambda>s. s\<lparr>sw_record_count := sw_record_count s + 1\<rparr>))"

fun sw_writes :: "'w stream_calls \<Rightarrow> codec_env \<Rightarrow> rec list \<Rightarrow> ('w stream_writer, unit) sm" where
  "sw_writes st env [] = sret ()"
| "sw_writes st env (r # rs) = sthen (sw_write st env r) (sw_writes st env rs)"

section \<open>What is uploaded\<close>

text \<open>The bytes of the complete file of some records.\<close>

definition file_bytes :: "codec_env \<Rightarrow> odps_schema \<Rightarrow> rec list \<Rightarrow> bytes" where
  "file_bytes env schema rs = concat (pw_output (snd (write_file env schema None rs)))"

text \<open>
  What the writer relies on: every upload succeeds and is recorded, and the generator of block ids
  uploads nothing.
\<close>

definition accepts :: "('w \<Rightarrow> (int \<times> bytes) list) \<Rightarrow> 'w upload_calls \<Rightarrow> bool" where
  "accepts uploaded up \<longleftrightarrow>
     (\<forall>block_id data w. \<exists>resp w'. up_request up block_id data w = (Inr resp, w') \<and>
        uploaded w' = uploaded w @ [(block_id, data)]) \<and>
     (case up_block_id_gen up of
        None \<Rightarrow> True
      | Some gen \<Rightarrow> \<forall>w. \<exists>block_id w'. gen w = (Inr block_id, w') \<and> uploaded w' = uploaded w)"

definition imaged :: "codec_env \<Rightarrow> odps_schema \<Rightarrow> rec list \<Rightarrow> bytes \<Rightarrow> checksum \<Rightarrow> bool" where
  "imaged env schema rs img cc \<longleftrightarrow>
     (img = [] \<longleftrightarrow> rs = []) \<and>
     (\<forall>s. idle schema fresh_crc 0 s \<longrightarrow> (\<exists>s'. write_records env rs s = (Inr (), s') \<and>
        written s' = written s @ img \<and> idle schema cc (length rs) s'))"

lemma idle_new: "idle schema fresh_crc 0 (bw_new schema buffer_size)"
  "written (bw_new schema buffer_size) = []"
  by (simp_all add: idle_def bw_new_def pw_new_def protobuf_writer.defs counted_def written_def)

lemma idle_buffer_size [simp]: "idle schema cc n (s\<lparr>pw_buffer_size := b\<rparr>) = idle schema cc n s"
  "written (s\<lparr>pw_buffer_size := b\<rparr>) = written s"
  by (simp_all add: idle_def counted_def written_def)

lemma imaged_file:
  assumes "imaged env schema rs img cc" and "length rs < 2 ^ 63"
  shows "file_bytes env schema rs = img @ footer (length rs) cc"
proof -
  from assms(1) idle_new obtain s1 where s1: "write_records env rs (bw_new schema None) = (Inr (), s1)"
      "written s1 = img" "idle schema cc (length rs) s1"
    unfolding imaged_def by fastforce
  from close_effect [OF s1(3) assms(2)] obtain s2 where "bw_close s1 = (Inr (), s2)"
      "concat (pw_output s2) = written s1 @ footer (length rs) cc" by blast
  with s1 show ?thesis by (simp add: file_bytes_def write_file_def sbind_Inr)
qed

lemma aligned_columns:
  assumes "odps_schema_new cols parts = Inr schema" and "length (all_columns schema) < 33553408"
  shows "aligned schema (os_columns schema)"
proof -
  let ?opts = "\<lparr>ro_read_limit = None, ro_require_footer = True, ro_struct_as_dict = False,
     ro_overflow_as_none = False, ro_append_partitions = False\<rparr>"
  have "\<exists>t. reader_new schema None SpecNone ?opts [] = Inr t \<and> rr_columns t = os_columns schema"
    by (simp add: reader_new_def reader_columns_def)
  with aligned_reader [OF assms(1) _ assms(2)] show ?thesis by metis
qed

lemma transmits_imaged:
  assumes "transmits env opts schema cols spec fuel rs rs' img fresh_crc cc"
  shows "imaged env schema rs img cc"
proof -
  from assms have "(img = [] \<longleftrightarrow> rs = []) \<and> (\<forall>s n. idle schema fresh_crc n s \<longrightarrow>
      (\<exists>s'. write_records env rs s = (Inr (), s') \<and>
        written s' = written s @ img \<and> idle schema cc (n + length rs) s'))"
    unfolding transmits_def by (elim conjE) (intro conjI)
  then show ?thesis unfolding imaged_def by (metis add_0)
qed

text \<open>What the reader makes of a record: the same cells under the columns of the schema.\<close>

definition as_read :: "odps_schema \<Rightarrow> rec \<Rightarrow> rec" where
  "as_read schema r = (blank_record (os_columns schema))\<lparr>rec_values := rec_values r\<rparr>"

lemma storable_transmits:
  assumes "odps_schema_new cols parts = Inr schema" and "length (all_columns schema) < 33553408"
    and "list_all (storable_record env opts schema) rs" and "is_c32c c0"
    and "length (all_columns schema) < fuel"
  shows "\<exists>img cc. transmits env opts schema (os_columns schema) None fuel rs
    (List.map (as_read schema) rs) img c0 cc"
  using records_transmitted [OF storable_received_all [OF assms(3)] aligned_columns [OF assms(1,2)]
      assms(4,5)] unfolding as_read_def .

lemma storable_imaged:
  assumes "odps_schema_new cols parts = Inr schema" and "length (all_columns schema) < 33553408"
    and "list_all (storable_record env opts schema) rs"
  shows "\<exists>img cc. imaged env schema rs img cc"
  using storable_transmits [OF assms is_c32c_simps(1) lessI] transmits_imaged by metis

text \<open>Records that are in the buffer, not yet uploaded.\<close>

definition pending :: "codec_env \<Rightarrow> odps_schema \<Rightarrow> rec list \<Rightarrow> record_writer \<Rightarrow> bool" where
  "pending env schema rs b \<longleftrightarrow>
     (\<exists>b0. idle schema fresh_crc 0 b0 \<and> written b0 = [] \<and> write_records env rs b0 = (Inr (), b))"

lemma pending_imaged:
  "pending env schema rs b \<Longrightarrow> imaged env schema rs img cc \<Longrightarrow>
   written b = img \<and> idle schema cc (length rs) b"
  unfolding pending_def imaged_def by fastforce

lemma pending_Nil: "idle schema fresh_crc 0 b \<Longrightarrow> written b = [] \<Longrightarrow> pending env schema [] b"
  by (auto simp: pending_def sret_apply)

lemma write_records_snoc:
  "write_records env (rs @ [r]) = sthen (write_records env rs) (write_record env r)"
  by (induction rs) (auto simp: sbind_assoc sbind_def sret_def split: prod.splits sum.splits)

lemma pending_snoc:
  assumes "pending env schema rs b" and "imaged env schema (rs @ [r]) img cc"
  shows "\<exists>b'. write_record env r b = (Inr (), b') \<and> pending env schema (rs @ [r]) b'"
proof -
  from assms(1) obtain b0 where b0: "idle schema fresh_crc 0 b0" "written b0 = []"
      "write_records env rs b0 = (Inr (), b)"
    by (auto simp: pending_def)
  with assms(2) obtain b' where b': "write_records env (rs @ [r]) b0 = (Inr (), b')"
    unfolding imaged_def by blast
  with b0(3) have "write_record env r b = (Inr (), b')" by (simp add: write_records_snoc sbind_Inr)
  with b0(1,2) b' show ?thesis unfolding pending_def by blast
qed

lemma reset_base_effect:
  assumes "idle schema cc n b"
  shows "\<exists>b'. reset_base b = (Inr (), b') \<and> idle schema fresh_crc 0 b' \<and> written b' = []"
  using assms
  by (simp add: reset_base_def pw_re_init_def sbind_apply smod_apply idle_def reset_fresh counted_def
      written_def)

lemma flush_all_output:
  "\<exists>b'. flush_all b = (Inr (), b') \<and> concat (pw_output b') = written b \<and> (idle schema cc n b \<longrightarrow> idle schema cc n b')"
  by (auto simp: flush_all_def pw_flush_def smod_apply written_def idle_def counted_def)

text \<open>One flush uploads the pending records as a complete file and leaves an empty buffer.\<close>

lemma on_base_eq: "on_base m s = (fst (m (bb_base s)), s\<lparr>bb_base := snd (m (bb_base s))\<rparr>)"
  by (simp add: on_base_def split: prod.splits)

lemma tags_and_flush:
  assumes "idle schema cc n (bb_base s)" and "n < 2 ^ 63"
  shows "\<exists>b. sthen (on_base write_finish_tags)
     (sthen (smod (\<lambda>s. s\<lparr>bb_n_bytes_written := bb_n_bytes_written s + n_raw_bytes s\<rparr>))
     (sthen (on_base flush_all) k)) s =
     k (s\<lparr>bb_n_bytes_written := bb_n_bytes_written s + length (written (bb_base s) @ footer n cc),
         bb_base := b\<rparr>) \<and>
     idle schema cc n b \<and> concat (pw_output b) = written (bb_base s) @ footer n cc"
proof -
  from finish_tags_effect [OF assms] obtain b1 where b1: "write_finish_tags (bb_base s) = (Inr (), b1)"
      "written b1 = written (bb_base s) @ footer n cc" "idle schema cc n b1" by blast
  from flush_all_output [of b1 schema cc n] b1(3) obtain b where b: "flush_all b1 = (Inr (), b)"
      "concat (pw_output b) = written b1" "idle schema cc n b" by blast
  have "n_bytes b1 = length (written b1)" using b1(3) by (simp add: idle_def counted_n_bytes)
  with b1(1,2) b show ?thesis
    by (intro exI [of _ b]) (simp add: sbind_apply smod_apply on_base_eq n_raw_bytes_def)
qed

definition flushed ::
    "('w \<Rightarrow> (int \<times> bytes) list) \<Rightarrow> 'w upload_calls \<Rightarrow> bytes \<Rightarrow> 'w buffered_writer \<Rightarrow> 'w buffered_writer \<Rightarrow>
     bool" where
  "flushed uploaded up data s s' \<longleftrightarrow>
     uploaded (bb_world s') = uploaded (bb_world s) @ [(bb_block_id s, data)] \<and>
     bb_blocks_written s' = bb_blocks_written s @ [bb_block_id s] \<and>
     (up_block_id_gen up = None \<longrightarrow> bb_block_id s' = bb_block_id s + 1) \<and>
     bb_n_bytes_written s' = bb_n_bytes_written s + length data"

lemma buffered_flush_effect:
  assumes s: "idle schema cc n (bb_base s)" and n: "n < 2 ^ 63" and up: "accepts uploaded up"
  shows "\<exists>s'. buffered_flush up s = (Inr (), s') \<and> pending env schema [] (bb_base s') \<and>
    flushed uploaded up (written (bb_base s) @ footer n cc) s s'"
proof -
  let ?data = "written (bb_base s) @ footer n cc"
  from tags_and_flush [OF s n] obtain b where b: "buffered_flush up s =
      sbind (bb_send_buffer up) (\<lambda>resp.
        sthen (smod (\<lambda>s. s\<lparr>bb_blocks_written := bb_blocks_written s @ [bb_block_id s]\<rparr>))
        (sbind (next_block_id up) (\<lambda>block_id.
         sthen (smod (\<lambda>s. s\<lparr>bb_block_id := block_id\<rparr>)) (bb_reset_writer resp))))
      (s\<lparr>bb_n_bytes_written := bb_n_bytes_written s + length ?data, bb_base := b\<rparr>)"
      "idle schema cc n b" "concat (pw_output b) = ?data"
    unfolding buffered_flush_def bb_flush_def by blast
  from up obtain resp w where w: "up_request up (bb_block_id s) ?data (bb_world s) = (Inr resp, w)"
      "uploaded w = uploaded (bb_world s) @ [(bb_block_id s, ?data)]"
    unfolding accepts_def by blast
  define s1 where "s1 = s\<lparr>bb_n_bytes_written := bb_n_bytes_written s + length ?data, bb_base := b,
    bb_world := w, bb_blocks_written := bb_blocks_written s @ [bb_block_id s]\<rparr>"
  have next_id: "\<exists>i w'. next_block_id up s1 = (Inr i, s1\<lparr>bb_world := w'\<rparr>) \<and> uploaded w' = uploaded w \<and>
      (up_block_id_gen up = None \<longrightarrow> i = bb_block_id s + 1)"
  proof (cases "up_block_id_gen up")
    case None
    then show ?thesis
      by (intro exI [of _ "bb_block_id s + 1"] exI [of _ w])
        (simp add: next_block_id_def sget_apply s1_def)
  next
    case (Some gen)
    with up have "\<forall>w. \<exists>i w'. gen w = (Inr i, w') \<and> uploaded w' = uploaded w"
      unfolding accepts_def by simp
    then obtain i w' where "gen w = (Inr i, w')" "uploaded w' = uploaded w" by blast
    with Some show ?thesis
      by (intro exI [of _ i] exI [of _ w']) (simp add: next_block_id_def calling_def s1_def)
  qed
  then obtain i w' where i: "next_block_id up s1 = (Inr i, s1\<lparr>bb_world := w'\<rparr>)" "uploaded w' = uploaded w"
      "up_block_id_gen up = None \<longrightarrow> i = bb_block_id s + 1"
    by (elim exE conjE) (rule that)
  from reset_base_effect [OF b(2)] obtain b' where b': "reset_base b = (Inr (), b')"
      "idle schema fresh_crc 0 b'" "written b' = []" by blast
  define s2 where "s2 = s1\<lparr>bb_world := w', bb_block_id := i, bb_base := b'\<rparr>"
  have "buffered_flush up s = (Inr (), s2)"
    using b(1,3) w(1) i(1) b'(1)
    by (simp add: sbind_apply bb_send_buffer_def sget_apply calling_def buffer_value_def smod_apply
        bb_reset_writer_def on_base_eq s1_def s2_def)
  moreover have "pending env schema [] (bb_base s2)"
    using b'(2,3) by (simp add: s2_def pending_Nil)
  moreover have "flushed uploaded up ?data s s2"
    using w(2) i(2,3) by (simp add: flushed_def s2_def s1_def)
  ultimately show ?thesis by blast
qed

text \<open>The blocks uploaded so far are the files of \<open>segs\<close>.\<close>

definition uploading ::
    "codec_env \<Rightarrow> odps_schema \<Rightarrow> ('w \<Rightarrow> (int \<times> bytes) list) \<Rightarrow> 'w upload_calls \<Rightarrow>
     'w buffered_writer \<Rightarrow> rec list list \<Rightarrow> 'w buffered_writer \<Rightarrow> bool" where
  "uploading env schema uploaded up s0 segs s \<longleftrightarrow>
     uploaded (bb_world s) =
       uploaded (bb_world s0) @ zip (bb_blocks_written s) (List.map (file_bytes env schema) segs) \<and>
     length (bb_blocks_written s) = length segs \<and> [] \<notin> set segs \<and>
     (up_block_id_gen up = None \<longrightarrow>
        bb_blocks_written s = List.map (\<lambda>i. bb_block_id s0 + int i) [0..<length segs] \<and>
        bb_block_id s = bb_block_id s0 + int (length segs)) \<and>
     bb_n_bytes_written s = sum_list (List.map (\<lambda>seg. length (file_bytes env schema seg)) segs)"

definition all_imaged :: "codec_env \<Rightarrow> odps_schema \<Rightarrow> rec set \<Rightarrow> bool" where
  "all_imaged env schema R \<longleftrightarrow>
     (\<forall>rs. set rs \<subseteq> R \<longrightarrow> (\<exists>img cc. imaged env schema rs img cc))"

lemma flush_uploads:
  assumes "uploading env schema uploaded up s0 segs s" and "accepts uploaded up"
    and "imaged env schema seg img cc" and "pending env schema seg (bb_base s)"
    and "seg \<noteq> []" and "length seg < 2 ^ 63"
  shows "\<exists>s'. buffered_flush up s = (Inr (), s') \<and> pending env schema [] (bb_base s') \<and>
    uploading env schema uploaded up s0 (segs @ [seg]) s'"
proof -
  from pending_imaged [OF assms(4,3)] have b: "written (bb_base s) = img"
    "idle schema cc (length seg) (bb_base s)" by simp_all
  from buffered_flush_effect [OF b(2) assms(6,2)] obtain s' where
    s': "buffered_flush up s = (Inr (), s')" "pending env schema [] (bb_base s')"
      "flushed uploaded up (img @ footer (length seg) cc) s s'"
    unfolding b(1) by blast
  with imaged_file [OF assms(3,6)] have "flushed uploaded up (file_bytes env schema seg) s s'" by simp
  with assms(1,5) have "uploading env schema uploaded up s0 (segs @ [seg]) s'"
    by (simp add: uploading_def flushed_def)
  with s' show ?thesis by blast
qed

lemma write_uploads:
  assumes "uploading env schema uploaded up s0 segs s" and "accepts uploaded up"
    and "imaged env schema (seg @ [r]) img cc" and "pending env schema seg (bb_base s)"
    and "length (seg @ [r]) < 2 ^ 63"
  shows "\<exists>s' segs' seg'. bb_write (buffered_flush up) env r s = (Inr (), s') \<and>
    pending env schema seg' (bb_base s') \<and> uploading env schema uploaded up s0 segs' s' \<and>
    concat segs' @ seg' = concat segs @ seg @ [r] \<and> set seg' \<subseteq> set (seg @ [r])"
proof -
  from pending_snoc [OF assms(4,3)] obtain b where b: "write_record env r (bb_base s) = (Inr (), b)"
      "pending env schema (seg @ [r]) b" by blast
  let ?s = "s\<lparr>bb_base := b\<rparr>"
  have u: "uploading env schema uploaded up s0 segs ?s" using assms(1) by (simp add: uploading_def)
  have w: "bb_write (buffered_flush up) env r s =
      (if 0 < pw_buffer_size b \<and> pw_buffer_size b < n_raw_bytes ?s then buffered_flush up ?s else (Inr (), ?s))"
    using b(1) by (simp add: bb_write_def sbind_apply on_base_eq)
  show ?thesis
  proof (cases "0 < pw_buffer_size b \<and> pw_buffer_size b < n_raw_bytes ?s")
    case True
    from flush_uploads [OF u assms(2,3)] b(2) assms(5) obtain s' where
      "buffered_flush up ?s = (Inr (), s')" "pending env schema [] (bb_base s')"
      "uploading env schema uploaded up s0 (segs @ [seg @ [r]]) s'" by auto
    with True w show ?thesis
      by (intro exI [of _ s'] exI [of _ "segs @ [seg @ [r]]"] exI [of _ "[]"]) simp
  next
    case False
    with w b(2) u show ?thesis
      by (intro exI [of _ ?s] exI [of _ segs] exI [of _ "seg @ [r]"]) auto
  qed
qed

lemma writes_upload:
  assumes "uploading env schema uploaded up s0 segs s" and "accepts uploaded up"
    and "all_imaged env schema R" and "pending env schema seg (bb_base s)" and "set seg \<subseteq> R"
    and "set rs \<subseteq> R" and "length (concat segs @ seg @ rs) < 2 ^ 63"
  shows "\<exists>s' segs' seg'. bb_writes (buffered_flush up) env rs s = (Inr (), s') \<and>
    pending env schema seg' (bb_base s') \<and> uploading env schema uploaded up s0 segs' s' \<and>
    concat segs' @ seg' = concat segs @ seg @ rs"
  using assms
proof (induction rs arbitrary: s segs seg)
  case Nil
  then show ?case by (intro exI [of _ s] exI [of _ segs] exI [of _ seg]) (simp add: sret_apply)
next
  case (Cons r rs)
  from Cons.prems(3,5,6) obtain img cc where "imaged env schema (seg @ [r]) img cc"
    unfolding all_imaged_def by (metis Un_subset_iff list.simps(15) set_append set_simps(1) insert_subset empty_subsetI)
  from write_uploads [OF Cons.prems(1,2) this Cons.prems(4)] Cons.prems(7) obtain s1 segs1 seg1 where
    s1: "bb_write (buffered_flush up) env r s = (Inr (), s1)" "pending env schema seg1 (bb_base s1)"
      "uploading env schema uploaded up s0 segs1 s1" "concat segs1 @ seg1 = concat segs @ seg @ [r]"
      "set seg1 \<subseteq> set (seg @ [r])"
    by auto
  have "set seg1 \<subseteq> R" "set rs \<subseteq> R" using s1(5) Cons.prems(5,6) by auto
  moreover have app: "concat segs1 @ seg1 @ rs = concat segs @ seg @ r # rs"
    using arg_cong [OF s1(4), of "\<lambda>x. x @ rs"] by simp
  moreover have "length (concat segs1 @ seg1 @ rs) < 2 ^ 63" using Cons.prems(7) by (simp only: app)
  ultimately obtain s' segs' seg' where "bb_writes (buffered_flush up) env rs s1 = (Inr (), s')"
      "pending env schema seg' (bb_base s')" "uploading env schema uploaded up s0 segs' s'"
      "concat segs' @ seg' = concat segs1 @ seg1 @ rs"
    using Cons.IH [OF s1(3) Cons.prems(2,3) s1(2)] by blast
  with s1(1) app show ?case
    by (intro exI [of _ s'] exI [of _ segs'] exI [of _ seg']) (simp add: sbind_Inr)
qed

text \<open>Closing uploads what is left.\<close>

lemma close_uploads:
  assumes "uploading env schema uploaded up s0 segs s" and "accepts uploaded up"
    and "imaged env schema seg img cc" and "pending env schema seg (bb_base s)"
    and "length seg < 2 ^ 63"
  shows "\<exists>s' segs'. bb_close (buffered_flush up) s = (Inr (), s') \<and>
    uploading env schema uploaded up s0 segs' s' \<and> concat segs' = concat segs @ seg \<and>
    n_raw_bytes s' = 0"
proof -
  from pending_imaged [OF assms(4,3)] have b: "written (bb_base s) = img"
    "idle schema cc (length seg) (bb_base s)" by simp_all
  then have raw: "n_raw_bytes s = length img"
    by (simp add: n_raw_bytes_def counted_n_bytes idle_def)
  obtain s1 segs1 where s1: "(if 0 < n_raw_bytes s then buffered_flush up s else (Inr (), s)) = (Inr (), s1)"
      "uploading env schema uploaded up s0 segs1 s1" "concat segs1 = concat segs @ seg"
      "written (bb_base s1) = [] \<and> counted (bb_base s1)"
  proof (cases "seg = []")
    case True
    with assms(3) raw b that [of s segs] assms(1) show ?thesis by (simp add: imaged_def idle_def)
  next
    case False
    from flush_uploads [OF assms(1-4) this assms(5)] obtain s' where s':
      "buffered_flush up s = (Inr (), s')" "pending env schema [] (bb_base s')"
      "uploading env schema uploaded up s0 (segs @ [seg]) s'" by blast
    moreover have "written (bb_base s') = [] \<and> counted (bb_base s')"
      using s'(2) by (auto simp: pending_def sret_apply idle_def)
    ultimately show ?thesis using that [of s' "segs @ [seg]"] False assms(3) raw
      by (simp add: imaged_def)
  qed
  from s1(4) have raw1: "pw_encoder (bb_base s1) = []" "n_raw_bytes s1 = 0"
    by (simp_all add: written_def n_raw_bytes_def counted_n_bytes)
  have "on_base flush_all s1 = (Inr (), s1)"
    using raw1(1) by (simp add: on_base_eq flush_all_def pw_flush_def smod_apply)
  with s1(1) have "bb_close (buffered_flush up) s = (Inr (), s1)"
    by (simp add: bb_close_def sbind_apply)
  with s1(2,3) raw1(2) show ?thesis by blast
qed

lemma upload_segments:
  assumes "all_imaged env schema (set rs)" and "accepts uploaded up" and "length rs < 2 ^ 63"
  shows "\<exists>s' segs. upload_records up env rs (bb_new schema bs dflt block_id w) = (Inr (), s') \<and>
    uploading env schema uploaded up (bb_new schema bs dflt block_id w) segs s' \<and> concat segs = rs \<and>
    n_raw_bytes s' = 0"
proof -
  let ?s = "bb_new schema bs dflt block_id w"
  have "uploading env schema uploaded up ?s [] ?s" by (simp add: uploading_def bb_new_def)
  moreover have "pending env schema [] (bb_base ?s)"
    by (rule pending_Nil) (simp_all add: bb_new_def idle_new)
  ultimately obtain s1 segs seg where s1: "bb_writes (buffered_flush up) env rs ?s = (Inr (), s1)"
      "pending env schema seg (bb_base s1)" "uploading env schema uploaded up ?s segs s1"
      "concat segs @ seg = rs"
    using writes_upload [OF _ assms(2,1), of ?s "[]" ?s "[]" rs] assms(3) by auto
  from s1(4) have seg: "set seg \<subseteq> set rs" "length seg < 2 ^ 63" using assms(3) by auto
  with assms(1) obtain img cc where "imaged env schema seg img cc"
    unfolding all_imaged_def by blast
  from close_uploads [OF s1(3) assms(2) this s1(2) seg(2)] s1(1,4) show ?thesis
    by (auto simp: upload_records_def sbind_Inr)
qed

section \<open>Reading the blocks back\<close>

text \<open>A new reader over the bytes of one block, delivered in the pieces \<open>chunks\<close>; fewer than \<open>n\<close> records.\<close>

definition read_file ::
    "codec_env \<Rightarrow> reader_options \<Rightarrow> retry_options \<Rightarrow> nat \<Rightarrow> odps_schema \<Rightarrow> nat \<Rightarrow> bytes list \<Rightarrow>
     rec list result" where
  "read_file env opts retry fuel schema n chunks =
     rbind (reader_new schema None SpecNone opts [\<lambda>_. Inr (Some (si_open chunks))]) (\<lambda>t.
       fst (read_all si_read_limit env opts retry fuel 1 n t))"

lemma reader_of_file:
  assumes "\<not> ro_append_partitions opts"
  shows "\<exists>t. reader_new schema None SpecNone opts opens = Inr t \<and>
    rr_columns t = os_columns schema \<and> rr_partition_spec t = None"
  using assms by (simp add: reader_new_def reader_columns_def)

lemma read_file_back:
  assumes schema: "odps_schema_new cols parts = Inr schema" "length (all_columns schema) < 33553408"
    and opts: "\<not> ro_append_partitions opts"
    and recs: "list_all (storable_record env opts schema) rs"
    and lim: "length rs < 2 ^ 63"
      "case ro_read_limit opts of None \<Rightarrow> True | Some m \<Rightarrow> length rs < m"
    and fuel: "length (all_columns schema) < fuel"
    and n: "length rs < n"
    and chunks: "concat chunks = file_bytes env schema rs"
  shows "read_file env opts retry fuel schema n chunks = Inr (List.map (as_read schema) rs)"
proof -
  from reader_of_file [OF opts] obtain t where
    t: "reader_new schema None SpecNone opts [\<lambda>_. Inr (Some (si_open chunks))] = Inr t"
      "rr_columns t = os_columns schema" "rr_partition_spec t = None" by metis
  have "rmap (received env opts schema (rr_columns t) (rr_partition_spec t)) rs =
      Inr (List.map (as_read schema) rs)"
    using storable_received_all [OF recs] t(2,3) by (simp add: as_read_def)
  from record_file_transfer(2) [OF schema t(1) this lim fuel, of None retry 0 "n - Suc (length rs)"]
    chunks n t(1)
  show ?thesis by (auto simp: read_file_def file_bytes_def)
qed

lemma list_all_concat: "list_all P (concat xss) \<longleftrightarrow> list_all (list_all P) xss"
  by (induction xss) simp_all

lemma rmap_zip_map:
  assumes "length ids = length xs" and "\<And>x. x \<in> set xs \<Longrightarrow> g (f x) = Inr (h x)"
  shows "rmap (\<lambda>(i, d). g d) (zip ids (List.map f xs)) = Inr (List.map h xs)"
  using assms by (induction ids xs rule: list_induct2) simp_all

lemma map_zip_snd:
  "length ids = length xs \<Longrightarrow> List.map (\<lambda>(i, d). g d) (zip ids (List.map f xs)) = List.map (\<lambda>x. g (f x)) xs"
  by (induction ids xs rule: list_induct2) simp_all

lemma length_concat_member: "x \<in> set xss \<Longrightarrow> length x \<le> length (concat xss)"
  by (induction xss) auto

text \<open>C2: however large the block buffer, however block ids are made, records written and closed
  through \<^verbatim>\<open>BufferedRecordWriter\<close> reach the server in blocks that are complete files of their own:
  reading the uploaded blocks one after another, each cut by the network in any way, gives back all
  the records in order. \<^verbatim>\<open>get_blocks_written\<close> lists exactly the ids of the uploaded blocks, counting
  up from the first when there is no generator, and \<^verbatim>\<open>n_bytes\<close> is the number of bytes uploaded.\<close>

theorem buffered_upload_roundtrip:
  assumes schema: "odps_schema_new cols parts = Inr schema" "length (all_columns schema) < 33553408"
    and opts: "\<not> ro_append_partitions opts"
    and recs: "list_all (storable_record env opts schema) rs"
    and lim: "length rs < 2 ^ 63"
      "case ro_read_limit opts of None \<Rightarrow> True | Some m \<Rightarrow> length rs < m"
    and fuel: "length (all_columns schema) < fuel"
    and server: "accepts uploaded up"
    and slices: "\<forall>data. concat (slices data) = data"
  shows "\<exists>s blocks.
    upload_records up env rs (bb_new schema buffer_size block_buffer_size block_id w) = (Inr (), s) \<and>
    uploaded (bb_world s) = uploaded w @ blocks \<and>
    rbind (rmap (\<lambda>(i, data). read_file env opts retry fuel schema (Suc (length rs)) (slices data)) blocks)
      (\<lambda>rss. Inr (concat rss)) = Inr (List.map (as_read schema) rs) \<and>
    bb_blocks_written s = List.map fst blocks \<and>
    (up_block_id_gen up = None \<longrightarrow> List.map fst blocks =
       List.map (\<lambda>i. (case block_id of None \<Rightarrow> 0 | Some b \<Rightarrow> b) + int i) [0..<length blocks]) \<and>
    total_bytes s = sum_list (List.map (\<lambda>(i, data). length data) blocks)"
proof -
  let ?s0 = "bb_new schema buffer_size block_buffer_size block_id w"
  have "all_imaged env schema (set rs)"
    unfolding all_imaged_def
  proof (intro allI impI)
    fix seg assume "set seg \<subseteq> set rs"
    with recs have "list_all (storable_record env opts schema) seg" by (auto simp: list_all_iff)
    then show "\<exists>img cc. imaged env schema seg img cc" by (rule storable_imaged [OF schema])
  qed
  from upload_segments [OF this server lim(1)] obtain s segs where s:
    "upload_records up env rs ?s0 = (Inr (), s)" "uploading env schema uploaded up ?s0 segs s"
    "concat segs = rs" "n_raw_bytes s = 0" by metis
  define blocks where "blocks = zip (bb_blocks_written s) (List.map (file_bytes env schema) segs)"
  from s(2) have len: "length (bb_blocks_written s) = length segs" by (simp add: uploading_def)
  then have snd: "List.map (\<lambda>(i, data). length data) blocks =
      List.map (\<lambda>seg. length (file_bytes env schema seg)) segs"
    unfolding blocks_def by (rule map_zip_snd)
  have "read_file env opts retry fuel schema (Suc (length rs)) (slices (file_bytes env schema seg)) =
      Inr (List.map (as_read schema) seg)" if "seg \<in> set segs" for seg
  proof (rule read_file_back [OF schema opts])
    have "length seg \<le> length rs" using length_concat_member [OF that] s(3) by simp
    with lim show "length seg < 2 ^ 63" "length seg < Suc (length rs)"
      "case ro_read_limit opts of None \<Rightarrow> True | Some m \<Rightarrow> length seg < m"
      by (auto split: option.splits)
    show "list_all (storable_record env opts schema) seg"
      using recs s(3) that list_all_concat [of _ segs] by (auto simp: list_all_iff)
  qed (use fuel slices in auto)
  with len have "rmap (\<lambda>(i, data). read_file env opts retry fuel schema (Suc (length rs)) (slices data)) blocks =
      Inr (List.map (List.map (as_read schema)) segs)"
    unfolding blocks_def by (rule rmap_zip_map)
  then have "rbind (rmap (\<lambda>(i, data). read_file env opts retry fuel schema (Suc (length rs)) (slices data)) blocks)
      (\<lambda>rss. Inr (concat rss)) = Inr (List.map (as_read schema) rs)"
    using s(3) by (simp add: map_concat [symmetric])
  with s len snd show ?thesis
    by (intro exI [of _ s] exI [of _ blocks])
      (auto simp: uploading_def blocks_def bb_new_def total_bytes_def)
qed

text \<open>A server that keeps what it is sent, and numbers given out by a counter.\<close>

definition keeping_server :: "(nat \<times> (int \<times> bytes) list) upload_calls" where
  "keeping_server =
     \<lparr>up_request = (\<lambda>i data (n, blocks). (Inr Map.empty, (n, blocks @ [(i, data)]))),
      up_block_id_gen = Some (\<lambda>(n, blocks). (Inr (int n), (Suc n, blocks)))\<rparr>"

theorem buffered_upload_roundtrip_witness:
  "\<exists>s blocks.
    upload_records keeping_server plain_codec demo_records (bb_new demo_schema (Some 16) 0 (Some 7) (8, [])) = (Inr (), s) \<and>
    snd (bb_world s) = blocks \<and>
    rbind (rmap (\<lambda>(i, data). read_file plain_codec demo_options (read_options (Some 3) 1 None) 5 demo_schema 3 (List.map (\<lambda>b. [b]) data)) blocks)
      (\<lambda>rss. Inr (concat rss)) = Inr (List.map (as_read demo_schema) demo_records) \<and>
    bb_blocks_written s = List.map fst blocks"
proof -
  have "\<forall>data :: bytes. concat (List.map (\<lambda>b. [b]) data) = data" by simp
  from buffered_upload_roundtrip [OF demo_schema_new _ _ demo_storable _ _ _ _ this,
      of 5 "snd" keeping_server "Some 16" 0 "Some 7" "(8, [])" "read_options (Some 3) 1 None"]
  show ?thesis
    by (fastforce simp: demo_schema_def all_columns_def demo_columns_def partition_list_def demo_options_def
        demo_records_def accepts_def keeping_server_def numeral_3_eq_3)
qed

section \<open>After a failed upload\<close>

text \<open>A request that always raises, and how the writer is left behind by it.\<close>

definition broken_calls :: "py_error \<Rightarrow> 'w upload_calls \<Rightarrow> bool" where
  "broken_calls e up \<longleftrightarrow> (\<forall>i data w. up_request up i data w = (Inl e, w))"

lemma broken_flush:
  assumes "broken_calls e up" and "idle schema cc n (bb_base s)" and "n < 2 ^ 63"
  shows "\<exists>b m. buffered_flush up s = (Inl e, s\<lparr>bb_n_bytes_written := m, bb_base := b\<rparr>) \<and>
    idle schema cc n b \<and> written b = written (bb_base s) @ footer n cc"
proof -
  from finish_tags_effect [OF assms(2,3)] obtain b1 where b1: "write_finish_tags (bb_base s) = (Inr (), b1)"
      "written b1 = written (bb_base s) @ footer n cc" "idle schema cc n b1" by blast
  define b where "b = snd (flush_all b1)"
  have b: "flush_all b1 = (Inr (), b)" "written b = written b1" "idle schema cc n b"
    using b1(3) by (auto simp: b_def flush_all_def pw_flush_def smod_apply written_def idle_def counted_def)
  have "buffered_flush up s =
      (Inl e, s\<lparr>bb_n_bytes_written := bb_n_bytes_written s + n_bytes b1, bb_base := b\<rparr>)"
    using assms(1) b1(1) b(1)
    by (simp add: buffered_flush_def bb_flush_def sbind_apply smod_apply on_base_eq bb_send_buffer_def
        sget_apply calling_def broken_calls_def n_raw_bytes_def)
  with b b1(2) show ?thesis by auto
qed

lemma broken_writes:
  assumes "broken_calls e up" and "all_imaged env schema R" and "set (seg @ rs) \<subseteq> R"
    and "length (seg @ rs) < 2 ^ 63" and "pending env schema seg (bb_base s)"
    and "bb_writes (buffered_flush up) env rs s = (Inr (), s')"
  shows "pending env schema (seg @ rs) (bb_base s') \<and> (\<exists>b. s' = s\<lparr>bb_base := b\<rparr>)"
  using assms(3-6)
proof (induction rs arbitrary: seg s)
  case Nil
  then show ?case by (auto simp: sret_apply intro: exI [of _ "bb_base s"])
next
  case (Cons r rs)
  have "set (seg @ [r]) \<subseteq> R" using Cons.prems(1) by simp
  with assms(2) obtain img cc where im: "imaged env schema (seg @ [r]) img cc"
    unfolding all_imaged_def by blast
  from pending_snoc [OF Cons.prems(3) this] obtain b where b: "write_record env r (bb_base s) = (Inr (), b)"
      "pending env schema (seg @ [r]) b" by blast
  let ?s = "s\<lparr>bb_base := b\<rparr>"
  from pending_imaged [OF b(2) im] Cons.prems(2) have "idle schema cc (length (seg @ [r])) (bb_base ?s)"
    "length (seg @ [r]) < 2 ^ 63" by simp_all
  from broken_flush [OF assms(1) this] have fl: "\<exists>u. buffered_flush up ?s = (Inl e, u)" by blast
  have "bb_write (buffered_flush up) env r s = (Inr (), ?s)"
    using Cons.prems(4) b(1) fl
    by (auto simp: bb_write_def sbind_apply on_base_eq split: if_splits)
  with Cons.prems(4) have "bb_writes (buffered_flush up) env rs ?s = (Inr (), s')"
    by (simp add: sbind_Inr)
  with Cons.IH [of "seg @ [r]" ?s] Cons.prems(1,2) b(2)
  show ?case by auto
qed

text \<open>One more record and the close that follows upload everything as a single block.\<close>

lemma last_upload:
  assumes s: "idle schema c0 n (bb_base s)" and n: "n + 1 < 2 ^ 63" and up: "accepts uploaded up"
    and r: "write_record env r (bb_base s) = (Inr (), b)" "idle schema cc (n + 1) b" "written b \<noteq> []"
  shows "\<exists>s'. upload_records up env [r] s = (Inr (), s') \<and>
    flushed uploaded up (written b @ footer (n + 1) cc) s s'"
proof -
  let ?s = "s\<lparr>bb_base := b\<rparr>"
  from buffered_flush_effect [of schema cc "n + 1" ?s uploaded up env] r(2) n up obtain s' where
    s': "buffered_flush up ?s = (Inr (), s')" "pending env schema [] (bb_base s')"
      "flushed uploaded up (written b @ footer (n + 1) cc) ?s s'" by auto
  from s'(2) have "written (bb_base s') = []" "counted (bb_base s')"
    by (auto simp: pending_def sret_apply idle_def)
  then have empty: "n_raw_bytes s' = 0" "on_base flush_all s' = (Inr (), s')"
    by (simp_all add: written_def n_raw_bytes_def counted_n_bytes on_base_eq flush_all_def pw_flush_def
        smod_apply)
  have "0 < n_raw_bytes ?s" using r(2,3) by (simp add: n_raw_bytes_def counted_n_bytes idle_def)
  then have "upload_records up env [r] s = (Inr (), s')"
    using r(1) s'(1) empty
    by (cases "0 < pw_buffer_size b \<and> pw_buffer_size b < n_raw_bytes ?s")
      (simp_all add: upload_records_def bb_write_def bb_close_def sbind_apply on_base_eq sret_apply)
  with s'(3) show ?thesis by (auto simp: flushed_def)
qed

text \<open>C12: \<^verbatim>\<open>_flush\<close> has written the footer into the buffer before it uploads, and nothing takes it out
  again when the upload fails: a record written afterwards ends up behind that footer. The block
  that is uploaded in the end is accepted by the reader, which stops at the first footer and returns
  the records without the last one.\<close>

theorem failed_upload_hides_records:
  assumes schema: "odps_schema_new cols parts = Inr schema" "length (all_columns schema) < 33553408"
    and opts: "\<not> ro_append_partitions opts"
    and recs: "list_all (storable_record env opts schema) (rs @ [r])" and rs: "rs \<noteq> []"
    and lim: "length (rs @ [r]) < 2 ^ 63"
      "case ro_read_limit opts of None \<Rightarrow> True | Some m \<Rightarrow> length rs < m"
    and fuel: "length (all_columns schema) < fuel"
    and broken: "broken_calls e broken" and server: "accepts uploaded up"
    and written: "bb_writes (buffered_flush broken) env rs
      (bb_new schema buffer_size block_buffer_size block_id w) = (Inr (), s0)"
    and slices: "\<forall>data. concat (slices data) = data"
  shows "\<exists>s1 s2 i data. bb_close (buffered_flush broken) s0 = (Inl e, s1) \<and>
    upload_records up env [r] s1 = (Inr (), s2) \<and>
    uploaded (bb_world s2) = uploaded w @ [(i, data)] \<and> bb_blocks_written s2 = [i] \<and>
    read_file env opts retry fuel schema (Suc (length rs)) (slices data) = Inr (List.map (as_read schema) rs)"
proof -
  let ?s = "bb_new schema buffer_size block_buffer_size block_id w"
  from recs have recs': "list_all (storable_record env opts schema) rs"
    "list_all (storable_record env opts schema) [r]" by simp_all
  from storable_transmits [OF schema recs'(1) is_c32c_simps(1) fuel, of CRC_INIT] obtain img cc where
    tr: "transmits env opts schema (os_columns schema) None fuel rs (List.map (as_read schema) rs)
      img fresh_crc cc" by auto
  then have cc: "is_c32c cc" "img \<noteq> []" using rs by (simp_all add: transmits_def)
  from storable_transmits [OF schema recs'(2) cc(1) fuel] obtain img2 cc2 where
    tr2: "transmits env opts schema (os_columns schema) None fuel [r] [as_read schema r] img2 cc cc2"
    by auto
  have "all_imaged env schema (set rs)"
    unfolding all_imaged_def
  proof (intro allI impI)
    fix seg assume "set seg \<subseteq> set rs"
    with recs have "list_all (storable_record env opts schema) seg" by (auto simp: list_all_iff)
    then show "\<exists>img cc. imaged env schema seg img cc" by (rule storable_imaged [OF schema])
  qed
  moreover have "pending env schema [] (bb_base ?s)"
    by (rule pending_Nil) (simp_all add: bb_new_def idle_new)
  ultimately obtain b0 where b0: "pending env schema rs (bb_base s0)" "s0 = ?s\<lparr>bb_base := b0\<rparr>"
    using broken_writes [OF broken, of env schema "set rs" "[]" rs ?s s0] lim(1) written by auto
  from pending_imaged [OF b0(1) transmits_imaged [OF tr]] have im: "written (bb_base s0) = img"
    "idle schema cc (length rs) (bb_base s0)" by simp_all
  from broken_flush [OF broken im(2)] lim(1) obtain b1 m where b1:
    "buffered_flush broken s0 = (Inl e, s0\<lparr>bb_n_bytes_written := m, bb_base := b1\<rparr>)"
    "idle schema cc (length rs) b1" "written b1 = img @ footer (length rs) cc"
    unfolding im(1) by auto
  let ?s1 = "s0\<lparr>bb_n_bytes_written := m, bb_base := b1\<rparr>"
  have "0 < n_raw_bytes s0" using im cc(2) by (simp add: n_raw_bytes_def counted_n_bytes idle_def)
  with b1(1) have closed: "bb_close (buffered_flush broken) s0 = (Inl e, ?s1)"
    by (simp add: bb_close_def sbind_apply)
  from tr2 b1(2) obtain b2 where b2: "write_record env r b1 = (Inr (), b2)"
      "written b2 = (img @ footer (length rs) cc) @ img2" "idle schema cc2 (length rs + 1) b2"
    unfolding transmits_def b1(3) [symmetric] by (fastforce simp: sbind_eq_Inr sret_apply)
  have "length rs + 1 < 2 ^ 63" using lim(1) by simp
  from last_upload [of schema cc "length rs" ?s1, OF _ this server _ b2(3)] b1(2) b2(1,2) cc(2)
  obtain s2 where s2: "upload_records up env [r] ?s1 = (Inr (), s2)"
      "flushed uploaded up (written b2 @ footer (length rs + 1) cc2) ?s1 s2" by auto
  let ?data = "written b2 @ footer (length rs + 1) cc2"
  from reader_of_file [OF opts] obtain t where
    t: "reader_new schema None SpecNone opts [\<lambda>_. Inr (Some (si_open (slices ?data)))] = Inr t"
      "rr_columns t = os_columns schema" "rr_partition_spec t = None" by metis
  have "concat (slices ?data) = img @ footer (length rs) cc @ (img2 @ footer (length rs + 1) cc2)"
    using slices b2(2) by simp
  from transmitted_read [OF t(1) _ _ lim(2) _ this, of env fuel "List.map (as_read schema) rs" retry 0 0]
    tr t(2,3) lim(1) fuel
  have "read_file env opts retry fuel schema (Suc (length rs)) (slices ?data) = Inr (List.map (as_read schema) rs)"
    using t(1) by (auto simp: read_file_def)
  moreover have "uploaded (bb_world s2) = uploaded w @ [(bb_block_id s0, ?data)]"
    "bb_blocks_written s2 = [bb_block_id s0]"
    using s2(2) b0(2) by (simp_all add: flushed_def bb_new_def)
  ultimately show ?thesis using closed s2(1) by blast
qed

definition refusing_server :: "(nat \<times> (int \<times> bytes) list) upload_calls" where
  "refusing_server =
     \<lparr>up_request = (\<lambda>i data w. (Inl (ODPSError (Some 502)), w)), up_block_id_gen = None\<rparr>"

definition null_record :: rec where
  "null_record = (blank_record demo_columns)\<lparr>rec_values := [PNone, PNone, PNone]\<rparr>"

lemma demo_bounds: "length (all_columns demo_schema) < 33553408" "length (all_columns demo_schema) < 5"
  "\<not> ro_append_partitions demo_options"
  "case ro_read_limit demo_options of None \<Rightarrow> True | Some m \<Rightarrow> length [null_record] < m"
  by (simp_all add: demo_schema_def all_columns_def demo_columns_def partition_list_def demo_options_def)

lemma null_storable: "storable_record plain_codec demo_options demo_schema null_record"
  by (simp add: storable_record_def null_record_def demo_schema_def demo_columns_def blank_record_def
    rec_blank_def storable_cell_def)

lemma null_written:
  "\<exists>s. bb_writes (buffered_flush refusing_server) plain_codec [null_record]
     (bb_new demo_schema None 0 None (8, [])) = (Inr (), s)"
proof -
  let ?b = "(bw_new demo_schema None)\<lparr>pw_buffer_size := 0\<rparr>"
  have "bw_crc ?b = fresh_crc" "bw_crccrc ?b = fresh_crc" "bw_schema ?b = demo_schema" "bw_cursor ?b = 0"
    "counted ?b"
    by (simp_all add: bw_new_def pw_new_def protobuf_writer.defs counted_def)
  from end_record_effect [OF this(1) _ this(2) _ this(3-5)] obtain b where
    b: "end_record ?b = (Inr (), b)" "pw_buffer_size b = pw_buffer_size ?b" by auto
  have "write_record plain_codec null_record ?b = end_record ?b"
    by (simp add: write_record_def null_record_def demo_columns_def bw_columns_def bw_new_def
        protobuf_writer.defs demo_schema_def all_columns_def partition_list_def blank_record_def
        rec_blank_def sbind_apply write_cell_def sret_apply)
  with b show ?thesis
    by (simp add: bb_write_def bb_new_def sbind_apply on_base_eq sret_apply)
qed

theorem failed_upload_hides_records_witness:
  "\<exists>s0 s1 s2 i data.
    bb_writes (buffered_flush refusing_server) plain_codec [null_record]
      (bb_new demo_schema None 0 None (8, [])) = (Inr (), s0) \<and>
    bb_close (buffered_flush refusing_server) s0 = (Inl (ODPSError (Some 502)), s1) \<and>
    upload_records keeping_server plain_codec [demo_records ! 0] s1 = (Inr (), s2) \<and>
    snd (bb_world s2) = [(i, data)] \<and>
    read_file plain_codec demo_options (read_options (Some 3) 1 None) 5 demo_schema 2 [data] =
      Inr [as_read demo_schema null_record]"
proof -
  from null_written obtain s0 where s0: "bb_writes (buffered_flush refusing_server) plain_codec [null_record]
     (bb_new demo_schema None 0 None (8, [])) = (Inr (), s0)" by blast
  have recs: "list_all (storable_record plain_codec demo_options demo_schema) ([null_record] @ [demo_records ! 0])"
    using null_storable demo_storable by (simp add: demo_records_def)
  have server: "broken_calls (ODPSError (Some 502)) refusing_server" "accepts snd keeping_server"
    by (auto simp: accepts_def keeping_server_def broken_calls_def refusing_server_def)
  obtain s1 s2 i data where
    "bb_close (buffered_flush refusing_server) s0 = (Inl (ODPSError (Some 502)), s1)"
    "upload_records keeping_server plain_codec [demo_records ! 0] s1 = (Inr (), s2)"
    "snd (bb_world s2) = [(i, data)]"
    "read_file plain_codec demo_options (read_options (Some 3) 1 None) 5 demo_schema
       (Suc (Suc 0)) [data] = Inr [as_read demo_schema null_record]"
    using failed_upload_hides_records [OF demo_schema_new demo_bounds(1,3) recs _ _ demo_bounds(4,2) server s0,
        where slices = "\<lambda>data. [data]" and retry = "read_options (Some 3) 1 None"]
    by simp (elim exE conjE, rule that, assumption+)
  with s0 show ?thesis by (auto simp: numeral_2_eq_2)
qed

end
