(* ===== verification/Request_IO.thy ===== *)
theory Request_IO
  imports Prelude "HOL-Library.Sublist"
begin

text \<open>
  \<^verbatim>\<open>RequestsIO\<close> and \<^verbatim>\<open>ThreadRequestsIO\<close> of \<^verbatim>\<open>odps/tunnel/io/stream.py\<close>: the writer's thread hands chunks
  of bytes, through one variable guarded by two semaphores, to a thread that sends them as the body
  of an HTTP request. Cutting the bytes into chunks is a function of the bytes written; the hand-over
  is a relation between states of the two threads, one rule per step that another thread can observe.
  The time of waiting is left out: a wait that may time out has a rule for that. The greenlet variant
  and the time records are left out.
\<close>

section \<open>Chunks\<close>

text \<open>
  \<^verbatim>\<open>write\<close> and \<^verbatim>\<open>flush\<close>: the state is \<^verbatim>\<open>_buf\<close> with \<^verbatim>\<open>_bytes_produced\<close>; the result is what is given to
  \<^verbatim>\<open>put\<close>, if anything.
\<close>

record chunker =
  ck_buf :: bytes
  ck_bytes_produced :: nat

definition chunker_new :: chunker where
  "chunker_new = \<lparr>ck_buf = [], ck_bytes_produced = 0\<rparr>"

definition rio_write :: "nat \<Rightarrow> bytes \<Rightarrow> chunker \<Rightarrow> bytes list \<times> chunker" where
  "rio_write chunk_size data c =
     (let buf = ck_buf c @ data; n = ck_bytes_produced c + length data
      in if chunk_size \<le> length buf then ([buf], \<lparr>ck_buf = [], ck_bytes_produced = n\<rparr>)
         else ([], \<lparr>ck_buf = buf, ck_bytes_produced = n\<rparr>))"

definition rio_flush :: "chunker \<Rightarrow> bytes list \<times> chunker" where
  "rio_flush c = (if 0 < length (ck_buf c) then ([ck_buf c], c\<lparr>ck_buf := []\<rparr>) else ([], c))"

fun rio_writes :: "nat \<Rightarrow> bytes list \<Rightarrow> chunker \<Rightarrow> bytes list \<times> chunker" where
  "rio_writes chunk_size [] c = ([], c)"
| "rio_writes chunk_size (data # datas) c =
     (case rio_write chunk_size data c of (xs, c1) \<Rightarrow>
      case rio_writes chunk_size datas c1 of (ys, c2) \<Rightarrow> (xs @ ys, c2))"

text \<open>
  The arguments of all the calls of \<^verbatim>\<open>put\<close> when \<open>datas\<close> are written one after another and \<^verbatim>\<open>finish\<close>
  follows: it flushes and puts \<^verbatim>\<open>None\<close>.
\<close>

definition rio_puts :: "nat \<Rightarrow> bytes list \<Rightarrow> bytes option list" where
  "rio_puts chunk_size datas =
     (case rio_writes chunk_size datas chunker_new of (xs, c) \<Rightarrow>
        List.map Some (xs @ fst (rio_flush c)) @ [None])"

text \<open>\<^verbatim>\<open>data_generator\<close> cuts what \<^verbatim>\<open>get\<close> returns into pieces of at most \<^verbatim>\<open>chunk_size\<close> bytes.\<close>

function slices_of :: "nat \<Rightarrow> bytes \<Rightarrow> bytes list" where
  "slices_of chunk_size data =
     (if data = [] \<or> chunk_size = 0 then []
      else take chunk_size data # slices_of chunk_size (drop chunk_size data))"
  by pat_completeness auto
termination
  by (relation "measure (\<lambda>(_, data). length data)") auto

declare slices_of.simps [simp del]

definition body_pieces :: "nat \<Rightarrow> bytes option list \<Rightarrow> bytes list" where
  "body_pieces chunk_size got =
     concat (List.map (\<lambda>d. slices_of chunk_size (the d)) (takeWhile (\<lambda>d. d \<noteq> None) got))"

lemma slices_of_concat: "0 < n \<Longrightarrow> concat (slices_of n data) = data"
proof (induction n data rule: slices_of.induct)
  case (1 n data)
  then show ?case by (cases "data = []") (simp_all add: slices_of.simps [of n data] slices_of.simps [of n "[]"])
qed

lemma slices_of_sizes: "piece \<in> set (slices_of n data) \<Longrightarrow> piece \<noteq> [] \<and> length piece \<le> n"
proof (induction n data rule: slices_of.induct)
  case (1 n data)
  then show ?case by (auto simp: slices_of.simps [of n data] split: if_splits)
qed

lemma rio_writes_concat:
  "rio_writes n datas c = (xs, c') \<Longrightarrow>
   concat xs @ ck_buf c' = ck_buf c @ concat datas \<and>
   ck_bytes_produced c' = ck_bytes_produced c + length (concat datas)"
proof (induction n datas c arbitrary: xs rule: rio_writes.induct)
  case (2 n data datas c)
  obtain ys c1 where 1: "rio_write n data c = (ys, c1)" by (cases "rio_write n data c")
  obtain zs where 2: "rio_writes n datas c1 = (zs, c')" "xs = ys @ zs"
    using "2.prems" 1 by (auto split: prod.splits)
  have "concat ys @ ck_buf c1 = ck_buf c @ data" "ck_bytes_produced c1 = ck_bytes_produced c + length data"
    using 1 by (auto simp: rio_write_def Let_def split: if_splits)
  moreover have "concat ys @ ck_buf c1 @ concat datas = ck_buf c @ data @ concat datas"
    using calculation(1) by (metis append.assoc)
  ultimately show ?case
    using "2.IH" [OF 1 [symmetric] 2(1)] 2(2) by simp
qed simp

lemma rio_puts_chunks:
  obtains chunks where "rio_puts n datas = List.map Some chunks @ [None]" and "concat chunks = concat datas"
proof -
  obtain xs c where w: "rio_writes n datas chunker_new = (xs, c)"
    by (cases "rio_writes n datas chunker_new")
  have "concat (fst (rio_flush c)) = ck_buf c" by (simp add: rio_flush_def)
  with rio_writes_concat [OF w] have "concat (xs @ fst (rio_flush c)) = concat datas"
    by (simp add: chunker_new_def)
  with w that [of "xs @ fst (rio_flush c)"] show ?thesis by (simp add: rio_puts_def)
qed

section \<open>The two threads\<close>

text \<open>
  Where the writer's thread is: before the checks of \<^verbatim>\<open>put\<close>, between \<^verbatim>\<open>_reraise_errors\<close> and the
  assertion, waiting for \<^verbatim>\<open>_sem_put\<close>, holding it, after \<^verbatim>\<open>put\<close> returned, waiting for the sender to end,
  and at its end, with the response returned or an exception raised.
\<close>

datatype writer_pc = PutCheck | PutAssert | PutAcquire | PutStore | PutReturned | Join
  | Finished | Raised py_error

text \<open>
  Where the sending thread is: inside \<^verbatim>\<open>_post_call\<close>, waiting for \<^verbatim>\<open>_sem_get\<close> in \<^verbatim>\<open>get\<close>, holding it,
  past \<^verbatim>\<open>_post_call\<close>, past \<^verbatim>\<open>self._wait_obj = None\<close>, and ended.
\<close>

datatype sender_pc = Posting | GetAcquire | GetTake | Posted | Releasing | Ended

record io_state =
  io_todo :: "bytes option list"
  io_writer :: writer_pc
  io_sender :: sender_pc
  io_sem_put :: nat
  io_sem_get :: nat
  io_last_data :: "bytes option"
  io_async_err :: "py_error option"
  io_resp :: bool
  io_got :: "bytes option list"

definition io_start :: "bytes option list \<Rightarrow> io_state" where
  "io_start puts =
     \<lparr>io_todo = puts, io_writer = PutCheck, io_sender = Posting, io_sem_put = 1, io_sem_get = 0,
      io_last_data = None, io_async_err = None, io_resp = False, io_got = []\<rparr>"

text \<open>\<^verbatim>\<open>_wait_obj\<close> still refers to the thread, and the generator has delivered \<^verbatim>\<open>None\<close>.\<close>

definition wait_obj :: "io_state \<Rightarrow> bool" where
  "wait_obj s \<longleftrightarrow> io_sender s \<noteq> Releasing \<and> io_sender s \<noteq> Ended"

definition exhausted :: "io_state \<Rightarrow> bool" where
  "exhausted s \<longleftrightarrow> None \<in> set (io_got s)"

text \<open>
  \<open>Quiet\<close> steps are those of an undisturbed run; a wait for the semaphore may time out, and the request
  may fail at any time. \<^verbatim>\<open>_post_call\<close> returns a response once it has read the whole body.
\<close>

datatype io_event = Quiet | Timeout | Fail py_error

inductive io_step :: "io_state \<Rightarrow> io_event \<Rightarrow> io_state \<Rightarrow> bool" where
  put_check: "io_writer s = PutCheck \<Longrightarrow> io_todo s \<noteq> [] \<Longrightarrow>
    io_step s Quiet (s\<lparr>io_writer :=
      (case io_async_err s of None \<Rightarrow> PutAssert | Some e \<Rightarrow> Raised e)\<rparr>)"
| put_assert: "io_writer s = PutAssert \<Longrightarrow>
    io_step s Quiet (s\<lparr>io_writer := (if wait_obj s then PutAcquire else Raised AssertionError)\<rparr>)"
| put_acquire: "io_writer s = PutAcquire \<Longrightarrow> 0 < io_sem_put s \<Longrightarrow>
    io_step s Quiet (s\<lparr>io_writer := PutStore, io_sem_put := io_sem_put s - 1\<rparr>)"
| put_timeout: "io_writer s = PutAcquire \<Longrightarrow> io_sem_put s = 0 \<Longrightarrow>
    io_step s Timeout (s\<lparr>io_writer := Raised TimeoutError, io_last_data := None,
      io_sem_get := io_sem_get s + 1\<rparr>)"
| put_store: "io_writer s = PutStore \<Longrightarrow> io_todo s = data # todo \<Longrightarrow> io_async_err s = None \<Longrightarrow>
    io_step s Quiet (s\<lparr>io_writer := (if data = None then Join else PutReturned), io_todo := todo,
      io_last_data := data, io_sem_get := io_sem_get s + 1\<rparr>)"
| put_reraise: "io_writer s = PutStore \<Longrightarrow> io_async_err s = Some e \<Longrightarrow>
    io_step s Quiet (s\<lparr>io_writer := Raised e, io_last_data := None, io_sem_get := io_sem_get s + 1\<rparr>)"
| put_returned: "io_writer s = PutReturned \<Longrightarrow>
    io_step s Quiet (s\<lparr>io_writer :=
      (case io_async_err s of None \<Rightarrow> PutCheck | Some e \<Rightarrow> Raised e)\<rparr>)"
| join: "io_writer s = Join \<Longrightarrow> \<not> wait_obj s \<Longrightarrow>
    io_step s Quiet (s\<lparr>io_writer :=
      (case io_async_err s of None \<Rightarrow> Finished | Some e \<Rightarrow> Raised e)\<rparr>)"
| get: "io_sender s = Posting \<Longrightarrow> \<not> exhausted s \<Longrightarrow>
    io_step s Quiet (s\<lparr>io_sender := GetAcquire\<rparr>)"
| get_acquire: "io_sender s = GetAcquire \<Longrightarrow> 0 < io_sem_get s \<Longrightarrow>
    io_step s Quiet (s\<lparr>io_sender := GetTake, io_sem_get := io_sem_get s - 1\<rparr>)"
| get_take: "io_sender s = GetTake \<Longrightarrow>
    io_step s Quiet (s\<lparr>io_sender := Posting, io_got := io_got s @ [io_last_data s],
      io_sem_put := io_sem_put s + 1\<rparr>)"
| responded: "io_sender s = Posting \<Longrightarrow> exhausted s \<Longrightarrow>
    io_step s Quiet (s\<lparr>io_sender := Posted, io_resp := True\<rparr>)"
| failed: "io_sender s = Posting \<Longrightarrow>
    io_step s (Fail e) (s\<lparr>io_sender := Posted, io_async_err := Some e\<rparr>)"
| forget_thread: "io_sender s = Posted \<Longrightarrow> io_step s Quiet (s\<lparr>io_sender := Releasing\<rparr>)"
| release: "io_sender s = Releasing \<Longrightarrow>
    io_step s Quiet (s\<lparr>io_sender := Ended, io_sem_put := io_sem_put s + 1\<rparr>)"

inductive_cases io_stepE: "io_step s e s'"

text \<open>Runs of a transition relation, labelled by events that satisfy \<open>P\<close>.\<close>

inductive run_by ::
    "('s \<Rightarrow> 'e \<Rightarrow> 's \<Rightarrow> bool) \<Rightarrow> ('e \<Rightarrow> bool) \<Rightarrow> 's \<Rightarrow> 's \<Rightarrow> bool" for step P where
  run_refl: "run_by step P s s"
| run_step: "run_by step P s t \<Longrightarrow> step t e u \<Longrightarrow> P e \<Longrightarrow> run_by step P s u"

text \<open>The states that the two threads can reach from the start.\<close>

definition io_reach :: "(io_event \<Rightarrow> bool) \<Rightarrow> nat \<Rightarrow> bytes list \<Rightarrow> io_state \<Rightarrow> bool" where
  "io_reach P chunk_size datas s \<longleftrightarrow> run_by io_step P (io_start (rio_puts chunk_size datas)) s"

definition writer_ended :: "io_state \<Rightarrow> bool" where
  "writer_ended s \<longleftrightarrow> (case io_writer s of Finished \<Rightarrow> True | Raised e \<Rightarrow> True | _ \<Rightarrow> False)"

section \<open>Runs\<close>

text \<open>
  What is known of a transition relation with an invariant, a weight that every step lessens and a
  step to take wherever the run has not ended: every run can be completed, and none is longer than
  the weight of its first state.
\<close>

locale stepping =
  fixes step :: "'s \<Rightarrow> 'e \<Rightarrow> 's \<Rightarrow> bool" and P :: "'e \<Rightarrow> bool" and inv :: "'s \<Rightarrow> bool"
    and weight :: "'s \<Rightarrow> nat" and at_end :: "'s \<Rightarrow> bool"
  assumes inv_step: "inv s \<Longrightarrow> step s e t \<Longrightarrow> P e \<Longrightarrow> inv t"
    and weight_step: "inv s \<Longrightarrow> step s e t \<Longrightarrow> P e \<Longrightarrow> weight t < weight s"
    and progress: "inv s \<Longrightarrow> \<not> at_end s \<Longrightarrow> \<exists>e t. P e \<and> step s e t"
begin

lemma run_inv: "run_by step P s t \<Longrightarrow> inv s \<Longrightarrow> inv t"
  by (induction rule: run_by.induct) (auto intro: inv_step)

lemma run_completes:
  assumes "run_by step P s t" and "inv s"
  shows "\<exists>u. run_by step P s u \<and> inv u \<and> at_end u"
  using assms(1)
proof (induction "weight t" arbitrary: t rule: less_induct)
  case less
  have t: "inv t" using run_inv [OF less.prems assms(2)] .
  show ?case
  proof (cases "at_end t")
    case True
    with t less.prems show ?thesis by blast
  next
    case False
    from progress [OF t this] obtain e u where "P e" "step t e u" by blast
    with less.hyps [OF weight_step [OF t this(2,1)]] run_step [OF less.prems this(2,1)]
    show ?thesis by blast
  qed
qed

text \<open>A chain of steps as a sequence of states.\<close>

lemma chain_bounded:
  assumes "\<And>i. i < n \<Longrightarrow> \<exists>e. P e \<and> step (f i) e (f (Suc i))" and "inv (f 0)"
  shows "inv (f n) \<and> n + weight (f n) \<le> weight (f 0)"
  using assms
proof (induction n)
  case (Suc n)
  then have "inv (f n)" "n + weight (f n) \<le> weight (f 0)" by simp_all
  moreover obtain e where "P e" "step (f n) e (f (Suc n))" using Suc.prems(1) by blast
  ultimately show ?case using inv_step weight_step by fastforce
qed simp

end

section \<open>The invariant of the hand-over\<close>

definition raised :: "io_state \<Rightarrow> bool" where
  "raised s \<longleftrightarrow> (case io_writer s of Raised e \<Rightarrow> True | _ \<Rightarrow> False)"

definition past_post :: "io_state \<Rightarrow> bool" where
  "past_post s \<longleftrightarrow> io_sender s \<in> {Posted, Releasing, Ended}"

definition in_flight :: "io_state \<Rightarrow> bytes option list" where
  "in_flight s = (if 0 < io_sem_get s \<or> io_sender s = GetTake then [io_last_data s] else [])"

text \<open>The semaphores admit one of the two threads at a time, with one more release at the end.\<close>

definition semaphores :: "io_state \<Rightarrow> bool" where
  "semaphores s \<longleftrightarrow>
     io_sem_put s + io_sem_get s + of_bool (io_writer s = PutStore) + of_bool (io_sender s = GetTake) =
       1 + of_bool (io_sender s = Ended) \<and> io_sem_get s \<le> 1"

definition controlled :: "io_state \<Rightarrow> bool" where
  "controlled s \<longleftrightarrow>
     (io_writer s \<in> {PutCheck, PutAssert, PutAcquire, PutStore, PutReturned} \<longrightarrow> io_todo s \<noteq> []) \<and>
     (io_writer s \<in> {Join, Finished} \<longrightarrow> io_todo s = []) \<and>
     (io_sender s \<in> {GetAcquire, GetTake} \<longrightarrow> \<not> exhausted s) \<and>
     (past_post s \<and> io_async_err s = None \<longrightarrow> exhausted s \<and> io_resp s) \<and>
     (io_async_err s \<noteq> None \<longrightarrow> past_post s) \<and>
     (io_writer s = Finished \<longrightarrow> \<not> wait_obj s \<and> io_async_err s = None)"

text \<open>\<open>sent\<close> is what \<^verbatim>\<open>put\<close> has stored so far.\<close>

definition flowing :: "bytes option list \<Rightarrow> io_state \<Rightarrow> bool" where
  "flowing sent s \<longleftrightarrow>
     (if raised s then
        (io_last_data s = None \<or> past_post s) \<and>
        (\<exists>p. prefix p sent \<and> (io_got s = p \<or> io_got s = p @ [None]))
      else io_got s @ in_flight s = sent \<and> semaphores s)"

definition io_inv :: "bytes list \<Rightarrow> io_state \<Rightarrow> bool" where
  "io_inv chunks s \<longleftrightarrow>
     controlled s \<and> (\<exists>sent. List.map Some chunks @ [None] = sent @ io_todo s \<and> flowing sent s)"

lemma none_last:
  assumes "List.map Some chunks @ [None] = sent @ todo" and "None \<in> set sent"
  shows "todo = [] \<and> sent = List.map Some chunks @ [None]"
proof (cases todo rule: rev_cases)
  case (snoc xs x)
  with assms(1) have "List.map Some chunks = sent @ xs" by simp
  then have "None \<in> set (List.map Some chunks)" using assms(2) by (metis Un_iff set_append)
  then show ?thesis by auto
qed (use assms in simp)

lemma none_next:
  assumes "List.map Some chunks @ [None] = sent @ d # todo"
  shows "d = None \<longleftrightarrow> todo = []"
proof -
  have "todo = [] \<Longrightarrow> d = None" using assms by simp
  moreover have "d = None \<Longrightarrow> todo = []" using none_last [of chunks "sent @ [d]" todo] assms by simp
  ultimately show ?thesis by blast
qed

lemma io_inv_start: "io_inv chunks (io_start (List.map Some chunks @ [None]))"
  by (simp add: io_inv_def io_start_def controlled_def flowing_def raised_def past_post_def in_flight_def
      semaphores_def)

lemmas io_defs = controlled_def flowing_def raised_def past_post_def in_flight_def semaphores_def
  exhausted_def wait_obj_def

lemma same_sent:
  assumes "List.map Some chunks @ [None] = sent @ io_todo s'" and "controlled s'" and "flowing sent s'"
  shows "io_inv chunks s'"
  using assms unfolding io_inv_def by blast

lemma flowing_move:
  assumes "flowing sent s" and "raised s' = raised s" and "io_got s' = io_got s"
    and "io_last_data s' = io_last_data s" and "past_post s \<Longrightarrow> past_post s'"
    and "in_flight s' = in_flight s" and "semaphores s \<Longrightarrow> semaphores s'"
  shows "flowing sent s'"
  using assms by (auto simp: flowing_def)

lemma io_inv_step:
  assumes "io_step s e s'" and "io_inv chunks s"
  shows "io_inv chunks s'"
proof -
  from assms(2) obtain sent where c: "controlled s" and i: "List.map Some chunks @ [None] = sent @ io_todo s"
    and f: "flowing sent s" by (auto simp: io_inv_def)
  have ex: "io_todo s = []" if "exhausted s" "\<not> raised s"
    using none_last [OF i] f that by (auto simp: flowing_def exhausted_def)
  show ?thesis
    using assms(1)
  proof (cases rule: io_step.cases)
    case put_check
    show ?thesis by (rule same_sent [of _ sent]) (use put_check c i f in \<open>auto simp: io_defs split: option.splits\<close>)
  next
    case put_assert
    show ?thesis by (rule same_sent [of _ sent]) (use put_assert c i f in \<open>auto simp: io_defs split: option.splits\<close>)
  next
    case put_acquire
    have "controlled s'"
      using c put_acquire by (auto simp: controlled_def past_post_def exhausted_def wait_obj_def)
    moreover from f have "flowing sent s'"
      by (rule flowing_move) (use put_acquire in \<open>auto simp: raised_def past_post_def in_flight_def semaphores_def\<close>)
    ultimately show ?thesis using i put_acquire by (intro same_sent [of _ sent]) auto
  next
    case put_timeout
    show ?thesis by (rule same_sent [of _ sent]) (use put_timeout c i f in \<open>auto simp: io_defs split: option.splits\<close>)
  next
    case (put_store data todo)
    have np: "\<not> exhausted s" using ex put_store(3,4) by (auto simp: raised_def put_store(3))
    then have act: "io_sender s \<in> {Posting, GetAcquire, GetTake}"
      using c put_store by (cases "io_sender s") (auto simp: io_defs)
    then have fl: "io_sem_get s = 0" "io_sender s \<noteq> GetTake" "io_got s = sent" "io_sem_put s = 0"
      using f put_store by (auto simp: io_defs split: if_splits)
    have "List.map Some chunks @ [None] = sent @ data # todo" using i put_store by simp
    from none_next [OF this] have d: "data = None \<longleftrightarrow> todo = []" .
    have "controlled s'" using c put_store d np by (auto simp: io_defs)
    moreover have "flowing (sent @ [data]) s'" using put_store fl act by (auto simp: io_defs)
    ultimately show ?thesis using i put_store by (auto simp: io_inv_def intro!: exI [of _ "sent @ [data]"])
  next
    case (put_reraise e)
    show ?thesis by (rule same_sent [of _ sent]) (use put_reraise c i f in \<open>auto simp: io_defs split: option.splits\<close>)
  next
    case put_returned
    show ?thesis by (rule same_sent [of _ sent]) (use put_returned c i f in \<open>auto simp: io_defs split: option.splits\<close>)
  next
    case join
    show ?thesis by (rule same_sent [of _ sent]) (use join c i f in \<open>auto simp: io_defs split: option.splits\<close>)
  next
    case get
    have "controlled s'"
      using c get by (auto simp: controlled_def past_post_def exhausted_def wait_obj_def)
    moreover from f have "flowing sent s'"
      by (rule flowing_move) (use get in \<open>auto simp: raised_def past_post_def in_flight_def semaphores_def\<close>)
    ultimately show ?thesis using i get by (intro same_sent [of _ sent]) auto
  next
    case get_acquire
    have "controlled s'"
      using c get_acquire by (auto simp: controlled_def past_post_def exhausted_def wait_obj_def)
    moreover from f have "flowing sent s'"
      by (rule flowing_move) (use get_acquire in \<open>auto simp: raised_def past_post_def in_flight_def semaphores_def\<close>)
    ultimately show ?thesis using i get_acquire by (intro same_sent [of _ sent]) auto
  next
    case get_take
    have cs: "controlled s'"
      using c get_take by (auto simp: controlled_def past_post_def wait_obj_def exhausted_def)
    have "flowing sent s'"
    proof (cases "raised s")
      case True
      with c f get_take have l: "io_last_data s = None" "\<not> exhausted s" by (simp_all add: io_defs)
      from f True obtain p where "prefix p sent" "io_got s = p \<or> io_got s = p @ [None]"
        by (auto simp: flowing_def)
      with l(2) have "prefix (io_got s) sent" by (auto simp: exhausted_def)
      with True l(1) get_take show ?thesis by (auto simp: flowing_def raised_def)
    next
      case False
      with f get_take show ?thesis by (auto simp: io_defs)
    qed
    with cs i get_take show ?thesis by (intro same_sent [of _ sent]) auto
  next
    case responded
    have "controlled s'"
      using c responded by (auto simp: controlled_def past_post_def exhausted_def wait_obj_def)
    moreover from f have "flowing sent s'"
      by (rule flowing_move) (use responded in \<open>auto simp: raised_def past_post_def in_flight_def semaphores_def\<close>)
    ultimately show ?thesis using i responded by (intro same_sent [of _ sent]) auto
  next
    case (failed e)
    have "controlled s'"
      using c failed by (auto simp: controlled_def past_post_def exhausted_def wait_obj_def)
    moreover from f have "flowing sent s'"
      by (rule flowing_move) (use failed in \<open>auto simp: raised_def past_post_def in_flight_def semaphores_def\<close>)
    ultimately show ?thesis using i failed by (intro same_sent [of _ sent]) auto
  next
    case forget_thread
    have "controlled s'"
      using c forget_thread by (auto simp: controlled_def past_post_def exhausted_def wait_obj_def)
    moreover from f have "flowing sent s'"
      by (rule flowing_move) (use forget_thread in \<open>auto simp: raised_def past_post_def in_flight_def semaphores_def\<close>)
    ultimately show ?thesis using i forget_thread by (intro same_sent [of _ sent]) auto
  next
    case release
    have "controlled s'"
      using c release by (auto simp: controlled_def past_post_def exhausted_def wait_obj_def)
    moreover from f have "flowing sent s'"
      by (rule flowing_move) (use release in \<open>auto simp: raised_def past_post_def in_flight_def semaphores_def\<close>)
    ultimately show ?thesis using i release by (intro same_sent [of _ sent]) auto
  qed
qed

definition io_weight :: "io_state \<Rightarrow> nat" where
  "io_weight s =
     10 * length (io_todo s) + 4 * io_sem_get s +
     (case io_writer s of PutReturned \<Rightarrow> 9 | PutCheck \<Rightarrow> 8 | PutAssert \<Rightarrow> 7 | PutAcquire \<Rightarrow> 6 | PutStore \<Rightarrow> 5
      | Join \<Rightarrow> 1 | Finished \<Rightarrow> 0 | Raised e \<Rightarrow> 0) +
     (case io_sender s of GetTake \<Rightarrow> 5 | Posting \<Rightarrow> 3 | GetAcquire \<Rightarrow> 2 | Posted \<Rightarrow> 2 | Releasing \<Rightarrow> 1 | Ended \<Rightarrow> 0)"

lemma io_weight_step: "io_step s e s' \<Longrightarrow> io_weight s' < io_weight s"
  by (induction rule: io_step.induct) (auto simp: io_weight_def split: option.splits)

definition io_calm :: "bytes list \<Rightarrow> io_state \<Rightarrow> bool" where
  "io_calm chunks s \<longleftrightarrow> io_inv chunks s \<and> \<not> raised s \<and> io_async_err s = None \<and>
     (\<not> wait_obj s \<longrightarrow> io_todo s = [])"

lemma io_calm_step:
  assumes "io_calm chunks s" and "io_step s e s'" and "e = Quiet"
  shows "io_calm chunks s'"
proof -
  have i: "io_inv chunks s'" using io_inv_step assms by (auto simp: io_calm_def)
  have "io_writer s = PutAssert \<Longrightarrow> wait_obj s"
    using assms(1) by (auto simp: io_calm_def io_inv_def controlled_def)
  then have "\<not> raised s'" "io_async_err s' = None"
    using assms by (auto simp: io_calm_def raised_def elim!: io_stepE split: option.splits if_splits)
  moreover from i this have "\<not> wait_obj s' \<Longrightarrow> io_todo s' = []"
    using none_last by (fastforce simp: io_inv_def io_defs)
  ultimately show ?thesis using i by (simp add: io_calm_def)
qed

lemma sender_moves:
  assumes "io_sender s \<noteq> Ended" and "io_sender s = GetAcquire \<longrightarrow> 0 < io_sem_get s"
  shows "\<exists>s'. io_step s Quiet s'"
proof (cases "io_sender s")
  case Posting
  then show ?thesis by (cases "exhausted s") (metis responded, metis get)
next
  case GetAcquire
  with assms(2) show ?thesis by (metis get_acquire)
next
  case GetTake
  then show ?thesis by (metis get_take)
next
  case Posted
  then show ?thesis by (metis forget_thread)
next
  case Releasing
  then show ?thesis by (metis release)
qed (use assms(1) in simp)

lemma join_progress:
  assumes "io_inv chunks s" and "io_writer s = Join"
  shows "\<exists>s'. io_step s Quiet s'"
proof (cases "wait_obj s")
  case True
  from assms obtain sent where c: "controlled s" and i: "List.map Some chunks @ [None] = sent @ io_todo s"
    and f: "io_got s @ in_flight s = sent"
    by (auto simp: io_inv_def flowing_def raised_def)
  have "0 < io_sem_get s" if "io_sender s = GetAcquire"
  proof (rule ccontr)
    assume "\<not> 0 < io_sem_get s"
    with that f have "io_got s = sent" by (simp add: in_flight_def)
    moreover have "io_todo s = []" using c assms(2) by (simp add: controlled_def)
    ultimately have "io_got s = List.map Some chunks @ [None]" using i by simp
    then have "exhausted s" by (simp add: exhausted_def)
    with c that show False by (simp add: controlled_def)
  qed
  moreover have "io_sender s \<noteq> Ended" using True by (simp add: wait_obj_def)
  ultimately show ?thesis by (intro sender_moves) simp_all
qed (use assms(2) join in blast)

lemma store_progress:
  assumes "controlled s" and "io_writer s = PutStore"
  shows "\<exists>s'. io_step s Quiet s'"
proof (cases "io_async_err s")
  case None
  obtain d todo where "io_todo s = d # todo" using assms by (auto simp: controlled_def neq_Nil_conv)
  with assms(2) None show ?thesis by (metis put_store)
next
  case (Some e)
  with assms(2) show ?thesis by (metis put_reraise)
qed

lemma quiet_progress:
  assumes "io_calm chunks s" and "\<not> io_writer s = Finished"
  shows "\<exists>s'. io_step s Quiet s'"
proof -
  from assms(1) obtain sent where c: "controlled s" and i: "List.map Some chunks @ [None] = sent @ io_todo s"
    and f: "io_got s @ in_flight s = sent" "semaphores s" and r: "\<not> raised s" "io_async_err s = None"
    by (auto simp: io_calm_def io_inv_def flowing_def)
  show ?thesis
  proof (cases "io_writer s")
    case PutAcquire
    show ?thesis
    proof (cases "io_sem_put s = 0")
      case True
      with f(2) PutAcquire have "io_sender s \<noteq> Ended" "io_sender s = GetAcquire \<longrightarrow> 0 < io_sem_get s"
        by (auto simp: semaphores_def)
      then show ?thesis by (rule sender_moves)
    qed (use PutAcquire put_acquire in blast)
  next
    case Join
    with assms(1) join_progress show ?thesis by (auto simp: io_calm_def)
  next
    case (Raised e)
    with r show ?thesis by (simp add: raised_def)
  next
    case PutStore
    with c store_progress show ?thesis by blast
  next
    case PutCheck
    with c show ?thesis using put_check by (auto simp: controlled_def)
  next
    case PutAssert
    then show ?thesis using put_assert by blast
  next
    case PutReturned
    then show ?thesis using put_returned by blast
  qed (use assms(2) in simp)
qed

lemma io_progress:
  assumes "io_inv chunks s" and "\<not> writer_ended s"
  shows "\<exists>e s'. io_step s e s'"
proof -
  from assms(1) have c: "controlled s" by (simp add: io_inv_def)
  show ?thesis
  proof (cases "io_writer s")
    case PutCheck
    with c show ?thesis using put_check by (fastforce simp: controlled_def)
  next
    case PutAcquire
    then show ?thesis using put_acquire put_timeout by (cases "io_sem_put s = 0") blast+
  next
    case Join
    with assms(1) join_progress show ?thesis by blast
  next
    case PutStore
    with c store_progress show ?thesis by blast
  qed (use assms(2) put_assert put_returned in \<open>auto simp: writer_ended_def\<close>)
qed

interpretation quiet_io: stepping io_step "\<lambda>e. e = Quiet" "io_calm chunks" io_weight
    "\<lambda>s. io_writer s = Finished" for chunks
proof unfold_locales
  fix s e t assume "io_calm chunks s" "io_step s e t" "e = Quiet"
  then show "io_calm chunks t" by (rule io_calm_step)
  show "io_weight t < io_weight s" using \<open>io_step s e t\<close> by (rule io_weight_step)
next
  fix s assume "io_calm chunks s" "\<not> io_writer s = Finished"
  then show "\<exists>e t. e = Quiet \<and> io_step s e t" using quiet_progress by blast
qed

interpretation any_io: stepping io_step "\<lambda>e. True" "io_inv chunks" io_weight writer_ended for chunks
proof unfold_locales
  fix s e t assume "io_inv chunks s" "io_step s e t"
  then show "io_inv chunks t" by (metis io_inv_step)
  show "io_weight t < io_weight s" using \<open>io_step s e t\<close> by (rule io_weight_step)
next
  fix s assume "io_inv chunks s" "\<not> writer_ended s"
  then show "\<exists>e t. True \<and> io_step s e t" using io_progress by blast
qed

lemma io_calm_start: "io_calm chunks (io_start (List.map Some chunks @ [None]))"
  using io_inv_start [of chunks] by (simp add: io_calm_def io_start_def raised_def wait_obj_def)

lemma run_by_mono:
  assumes "run_by step P s t" and "\<And>e. P e \<Longrightarrow> Q e"
  shows "run_by step Q s t"
  using assms by (induction rule: run_by.induct) (auto intro: run_by.intros)

section \<open>The steps as a function\<close>

datatype io_action = WriterStep | WriterTimeout | SenderStep | SenderFail py_error

definition writer_step :: "io_state \<Rightarrow> io_state option" where
  "writer_step s =
     (case io_writer s of
        PutCheck \<Rightarrow>
          if io_todo s = [] then None
          else Some (s\<lparr>io_writer := (case io_async_err s of None \<Rightarrow> PutAssert | Some e \<Rightarrow> Raised e)\<rparr>)
      | PutAssert \<Rightarrow> Some (s\<lparr>io_writer := (if wait_obj s then PutAcquire else Raised AssertionError)\<rparr>)
      | PutAcquire \<Rightarrow>
          if io_sem_put s = 0 then None
          else Some (s\<lparr>io_writer := PutStore, io_sem_put := io_sem_put s - 1\<rparr>)
      | PutStore \<Rightarrow>
          (case io_async_err s of
             Some e \<Rightarrow> Some (s\<lparr>io_writer := Raised e, io_last_data := None, io_sem_get := io_sem_get s + 1\<rparr>)
           | None \<Rightarrow>
               (case io_todo s of
                  [] \<Rightarrow> None
                | data # todo \<Rightarrow> Some (s\<lparr>io_writer := (if data = None then Join else PutReturned),
                    io_todo := todo, io_last_data := data, io_sem_get := io_sem_get s + 1\<rparr>)))
      | PutReturned \<Rightarrow>
          Some (s\<lparr>io_writer := (case io_async_err s of None \<Rightarrow> PutCheck | Some e \<Rightarrow> Raised e)\<rparr>)
      | Join \<Rightarrow>
          if wait_obj s then None
          else Some (s\<lparr>io_writer := (case io_async_err s of None \<Rightarrow> Finished | Some e \<Rightarrow> Raised e)\<rparr>)
      | Finished \<Rightarrow> None
      | Raised e \<Rightarrow> None)"

definition sender_step :: "io_state \<Rightarrow> io_state option" where
  "sender_step s =
     (case io_sender s of
        Posting \<Rightarrow>
          if exhausted s then Some (s\<lparr>io_sender := Posted, io_resp := True\<rparr>)
          else Some (s\<lparr>io_sender := GetAcquire\<rparr>)
      | GetAcquire \<Rightarrow>
          if io_sem_get s = 0 then None
          else Some (s\<lparr>io_sender := GetTake, io_sem_get := io_sem_get s - 1\<rparr>)
      | GetTake \<Rightarrow>
          Some (s\<lparr>io_sender := Posting, io_got := io_got s @ [io_last_data s],
            io_sem_put := io_sem_put s + 1\<rparr>)
      | Posted \<Rightarrow> Some (s\<lparr>io_sender := Releasing\<rparr>)
      | Releasing \<Rightarrow> Some (s\<lparr>io_sender := Ended, io_sem_put := io_sem_put s + 1\<rparr>)
      | Ended \<Rightarrow> None)"

fun io_fire :: "io_action \<Rightarrow> io_state \<Rightarrow> io_state option" where
  "io_fire WriterStep s = writer_step s"
| "io_fire WriterTimeout s =
     (if io_writer s = PutAcquire \<and> io_sem_put s = 0
      then Some (s\<lparr>io_writer := Raised TimeoutError, io_last_data := None, io_sem_get := io_sem_get s + 1\<rparr>)
      else None)"
| "io_fire SenderStep s = sender_step s"
| "io_fire (SenderFail e) s =
     (if io_sender s = Posting then Some (s\<lparr>io_sender := Posted, io_async_err := Some e\<rparr>) else None)"

fun event_of :: "io_action \<Rightarrow> io_event" where
  "event_of WriterStep = Quiet"
| "event_of WriterTimeout = Timeout"
| "event_of SenderStep = Quiet"
| "event_of (SenderFail e) = Fail e"

lemma io_fire_step: "io_fire a s = Some t \<Longrightarrow> io_step s (event_of a) t"
proof (cases a)
  case WriterStep
  assume "io_fire a s = Some t"
  with WriterStep show ?thesis
    using put_check [of s] put_assert [of s] put_acquire [of s] put_store [of s] put_reraise [of s]
      put_returned [of s] join [of s]
    by (cases "io_writer s") (auto simp: writer_step_def split: option.splits list.splits if_splits)
next
  case SenderStep
  assume "io_fire a s = Some t"
  with SenderStep show ?thesis
    using get [of s] get_acquire [of s] get_take [of s] responded [of s] forget_thread [of s] release [of s]
    by (cases "io_sender s") (auto simp: sender_step_def split: if_splits)
qed (use put_timeout [of s] failed [of s] in \<open>auto split: if_splits\<close>)

fun io_fires :: "io_action list \<Rightarrow> io_state \<Rightarrow> io_state option" where
  "io_fires [] s = Some s"
| "io_fires (a # as) s = (case io_fire a s of None \<Rightarrow> None | Some t \<Rightarrow> io_fires as t)"

lemma io_fires_run:
  "io_fires as s = Some t \<Longrightarrow> run_by io_step P r s \<Longrightarrow> list_all (\<lambda>a. P (event_of a)) as \<Longrightarrow>
   run_by io_step P r t"
  by (induction as arbitrary: s) (auto split: option.splits intro: run_step io_fire_step)

lemma io_fire_complete:
  assumes "io_step s e t"
  shows "\<exists>a. io_fire a s = Some t \<and> event_of a = e"
proof -
  have "io_fire (case e of Fail x \<Rightarrow> SenderFail x | Timeout \<Rightarrow> WriterTimeout | Quiet \<Rightarrow> WriterStep) s = Some t \<or>
      e = Quiet \<and> io_fire SenderStep s = Some t"
    using assms by (cases rule: io_step.cases) (auto simp: writer_step_def sender_step_def)
  then show ?thesis
    by (cases e) (metis event_of.simps io_event.case)+
qed

section \<open>The body of the request\<close>

lemma takeWhile_chunks: "takeWhile (\<lambda>d. d \<noteq> None) (List.map Some chunks @ xs) =
    List.map Some chunks @ takeWhile (\<lambda>d. d \<noteq> None) xs"
  by (induction chunks) simp_all

lemma takeWhile_prefix:
  assumes "prefix p (List.map Some chunks @ [None])"
  shows "prefix (takeWhile (\<lambda>d. d \<noteq> None) p) (List.map Some chunks) \<and>
    takeWhile (\<lambda>d. d \<noteq> None) (p @ [None]) = takeWhile (\<lambda>d. d \<noteq> None) p"
proof
  from assms obtain q where "List.map Some chunks @ [None] = p @ q" by (auto simp: prefix_def)
  then have "takeWhile (\<lambda>d. d \<noteq> None) (p @ q) = List.map Some chunks"
    using takeWhile_chunks [of chunks "[None]"] by simp
  moreover have "prefix (takeWhile (\<lambda>d. d \<noteq> None) p) (takeWhile (\<lambda>d. d \<noteq> None) (p @ q))"
    by (induction p) auto
  ultimately show "prefix (takeWhile (\<lambda>d. d \<noteq> None) p) (List.map Some chunks)" by simp
  show "takeWhile (\<lambda>d. d \<noteq> None) (p @ [None]) = takeWhile (\<lambda>d. d \<noteq> None) p"
    by (induction p) auto
qed

lemma io_inv_body:
  assumes "io_inv chunks s"
  shows "prefix (takeWhile (\<lambda>d. d \<noteq> None) (io_got s)) (List.map Some chunks) \<and>
    (io_writer s = Finished \<longrightarrow> io_got s = List.map Some chunks @ [None] \<and> io_resp s)"
proof
  from assms obtain sent where c: "controlled s" and i: "List.map Some chunks @ [None] = sent @ io_todo s"
    and f: "flowing sent s" by (auto simp: io_inv_def)
  have "\<exists>p. prefix p sent \<and> (io_got s = p \<or> io_got s = p @ [None])"
    using f by (auto simp: flowing_def prefix_def split: if_splits)
  then obtain p where p: "prefix p sent" "io_got s = p \<or> io_got s = p @ [None]" by blast
  have "prefix p (List.map Some chunks @ [None])" using p(1) i by (auto simp: prefix_def)
  from takeWhile_prefix [OF this] p(2)
  show "prefix (takeWhile (\<lambda>d. d \<noteq> None) (io_got s)) (List.map Some chunks)" by auto
  show "io_writer s = Finished \<longrightarrow> io_got s = List.map Some chunks @ [None] \<and> io_resp s"
  proof
    assume w: "io_writer s = Finished"
    with c have t: "io_todo s = []" "\<not> wait_obj s" "io_async_err s = None" by (simp_all add: controlled_def)
    then have "past_post s" by (simp add: wait_obj_def past_post_def)
    with c t(3) have e: "exhausted s" "io_resp s" by (simp_all add: controlled_def)
    from f w have "io_got s @ in_flight s = List.map Some chunks @ [None]"
      using i t(1) by (simp add: flowing_def raised_def)
    with none_last [of chunks "io_got s" "in_flight s"] e
    show "io_got s = List.map Some chunks @ [None] \<and> io_resp s" by (simp add: exhausted_def)
  qed
qed

lemma body_pieces_concat:
  assumes "0 < n" and "takeWhile (\<lambda>d. d \<noteq> None) got = List.map Some chunks"
  shows "concat (body_pieces n got) = concat chunks"
proof -
  have "concat (concat (List.map (slices_of n) cs)) = concat cs" for cs
    using assms(1) by (induction cs) (simp_all add: slices_of_concat)
  with assms(2) show ?thesis by (simp add: body_pieces_def comp_def)
qed

lemma prefix_map_Some:
  assumes "prefix p (List.map Some chunks)"
  obtains pre where "p = List.map Some pre" and "prefix pre chunks"
proof -
  from assms obtain q where "List.map Some chunks = p @ q" by (auto simp: prefix_def)
  then obtain pre post where "chunks = pre @ post" "p = List.map Some pre" by (auto simp: map_eq_append_conv)
  with that [of pre] show ?thesis by simp
qed

lemma reached_body:
  assumes "0 < chunk_size" and "io_reach (\<lambda>e. True) chunk_size datas s"
  shows "prefix (concat (body_pieces chunk_size (io_got s))) (concat datas) \<and>
    list_all (\<lambda>piece. piece \<noteq> [] \<and> length piece \<le> chunk_size) (body_pieces chunk_size (io_got s)) \<and>
    (io_writer s = Finished \<longrightarrow>
       concat (body_pieces chunk_size (io_got s)) = concat datas \<and> io_resp s \<and> io_async_err s = None)"
proof -
  obtain chunks where puts: "rio_puts chunk_size datas = List.map Some chunks @ [None]"
    and all: "concat chunks = concat datas" by (rule rio_puts_chunks)
  have inv: "io_inv chunks s"
    using any_io.run_inv [OF _ io_inv_start] assms(2) by (simp add: io_reach_def puts)
  from io_inv_body [OF this] have b: "prefix (takeWhile (\<lambda>d. d \<noteq> None) (io_got s)) (List.map Some chunks)"
    "io_writer s = Finished \<longrightarrow> io_got s = List.map Some chunks @ [None] \<and> io_resp s" by simp_all
  from prefix_map_Some [OF b(1)] obtain pre where
    pre: "takeWhile (\<lambda>d. d \<noteq> None) (io_got s) = List.map Some pre" "prefix pre chunks" .
  have "concat (body_pieces chunk_size (io_got s)) = concat pre"
    by (rule body_pieces_concat [OF assms(1) pre(1)])
  moreover have "prefix (concat pre) (concat chunks)" using pre(2) by (auto simp: prefix_def)
  moreover have "io_writer s = Finished \<Longrightarrow> pre = chunks"
    using b(2) pre(1) takeWhile_chunks [of chunks "[None]"] by (auto dest: map_injective)
  moreover have "list_all (\<lambda>piece. piece \<noteq> [] \<and> length piece \<le> chunk_size) (body_pieces chunk_size (io_got s))"
    by (auto simp: list_all_iff body_pieces_def dest: slices_of_sizes)
  moreover have "io_writer s = Finished \<Longrightarrow> io_async_err s = None"
    using inv by (simp add: io_inv_def controlled_def)
  ultimately show ?thesis using all b(2) by auto
qed

text \<open>C25: whatever the interleaving of the two threads, with time-outs of the writer and failures of the
  request at any moment, the body sent so far is a prefix of the bytes written, in non-empty pieces
  no larger than the chunk size; and when \<^verbatim>\<open>finish\<close> returns, the request got a response after a body
  of exactly the bytes written.\<close>

theorem request_body_written:
  assumes "0 < chunk_size" and "io_reach (\<lambda>e. True) chunk_size datas s"
  shows "prefix (concat (body_pieces chunk_size (io_got s))) (concat datas) \<and>
    list_all (\<lambda>piece. piece \<noteq> [] \<and> length piece \<le> chunk_size) (body_pieces chunk_size (io_got s)) \<and>
    (io_writer s = Finished \<longrightarrow>
       concat (body_pieces chunk_size (io_got s)) = concat datas \<and> io_resp s \<and> io_async_err s = None)"
  by (rule reached_body [OF assms])

theorem request_body_written_witness:
  "\<exists>s :: io_state. io_writer s = Finished \<and> concat (body_pieces 2 (io_got s)) = [1, 2, 3, 4] \<and> io_resp s"
proof -
  let ?as = "concat (replicate 2 (replicate 5 WriterStep @ replicate 3 SenderStep)) @
    replicate 4 WriterStep @ replicate 5 SenderStep @ [WriterStep]"
  let ?s = "io_start (rio_puts 2 [[1, 2, 3], [4]])"
  obtain s where s: "io_fires ?as ?s = Some s" "io_writer s = Finished"
  proof -
    have "map_option io_writer (io_fires ?as ?s) = Some Finished" by code_simp
    with that show thesis by auto
  qed
  have "list_all (\<lambda>a. True) ?as" by (simp add: list_all_iff)
  with io_fires_run [OF s(1) run_refl] have "io_reach (\<lambda>e. True) 2 [[1, 2, 3], [4]] s"
    by (simp add: io_reach_def list_all_iff)
  from request_body_written [OF _ this] s(2) show ?thesis by auto
qed

lemma reached_completes:
  assumes "0 < chunk_size" and "io_reach (\<lambda>e. e = Quiet) chunk_size datas s"
  shows "(\<exists>t. run_by io_step (\<lambda>e. e = Quiet) s t \<and> io_writer t = Finished \<and> io_resp t \<and>
      concat (body_pieces chunk_size (io_got t)) = concat datas) \<and>
    (\<forall>f n. f 0 = s \<and> (\<forall>i < n. \<exists>e. io_step (f i) e (f (Suc i))) \<longrightarrow> n \<le> io_weight s)"
proof -
  obtain chunks where puts: "rio_puts chunk_size datas = List.map Some chunks @ [None]"
    and all: "concat chunks = concat datas" by (rule rio_puts_chunks)
  have calm: "io_calm chunks s"
    using quiet_io.run_inv [OF _ io_calm_start] assms(2) by (simp add: io_reach_def puts)
  from quiet_io.run_completes [OF run_refl this] obtain t where
    t: "run_by io_step (\<lambda>e. e = Quiet) s t" "io_calm chunks t" "io_writer t = Finished" by blast
  from t(2) io_inv_body [of chunks t] t(3) have got: "io_got t = List.map Some chunks @ [None]" "io_resp t"
    by (simp_all add: io_calm_def)
  then have "takeWhile (\<lambda>d. d \<noteq> None) (io_got t) = List.map Some chunks"
    using takeWhile_chunks [of chunks "[None]"] by simp
  from body_pieces_concat [OF assms(1) this] all
  have "concat (body_pieces chunk_size (io_got t)) = concat datas" by simp
  moreover have "n \<le> io_weight s" if "f 0 = s" "\<forall>i < n. \<exists>e. io_step (f i) e (f (Suc i))" for f n
    using any_io.chain_bounded [of n f chunks] that calm by (simp add: io_calm_def)
  ultimately show ?thesis using t(1,3) got(2) by blast
qed

text \<open>C26: the two threads cannot block each other. As long as nothing times out and the request does not
  fail, the run can be completed from wherever it is, with the whole body sent and \<^verbatim>\<open>finish\<close> returning;
  and in no case, failures included, is there an endless run: the number of steps still to come is
  bounded.\<close>

theorem request_io_completes:
  assumes "0 < chunk_size" and "io_reach (\<lambda>e. e = Quiet) chunk_size datas s"
  shows "(\<exists>t. run_by io_step (\<lambda>e. e = Quiet) s t \<and> io_writer t = Finished \<and> io_resp t \<and>
      concat (body_pieces chunk_size (io_got t)) = concat datas) \<and>
    (\<forall>f n. f 0 = s \<and> (\<forall>i < n. \<exists>e. io_step (f i) e (f (Suc i))) \<longrightarrow> n \<le> io_weight s)"
  by (rule reached_completes [OF assms])

theorem request_io_completes_witness:
  "\<exists>t. run_by io_step (\<lambda>e. e = Quiet) (io_start (rio_puts 2 [[1, 2, 3], [4]])) t \<and>
     io_writer t = Finished \<and> concat (body_pieces 2 (io_got t)) = [1, 2, 3, 4]"
  using request_io_completes [of 2 "[[1, 2, 3], [4]]" "io_start (rio_puts 2 [[1, 2, 3], [4]])"]
  by (auto simp: io_reach_def run_refl)

text \<open>C27: two races. When the writer times out on its second chunk, the first, accepted chunk is
  overwritten by the \<^verbatim>\<open>None\<close> that ends the body: the request completes normally with a shorter body. And
  when the request fails between the two checks at the start of \<^verbatim>\<open>put\<close>, the caller gets an
  \<^verbatim>\<open>AssertionError\<close> in place of the exception of the request.\<close>

theorem request_io_races:
  "(\<exists>s. io_reach (\<lambda>e. e = Quiet \<or> e = Timeout) 1 [[1], [2]] s \<and> io_writer s = Raised TimeoutError \<and>
      io_sender s = Ended \<and> io_resp s \<and> io_async_err s = None \<and> body_pieces 1 (io_got s) = []) \<and>
   (\<exists>s. io_reach (\<lambda>e. e \<noteq> Timeout) 1 [[1], [2]] s \<and> io_writer s = Raised AssertionError \<and>
      io_async_err s = Some (ODPSError (Some 502)))"
proof
  let ?as = "replicate 7 WriterStep @ [WriterTimeout] @ replicate 6 SenderStep"
  let ?s = "io_start (rio_puts 1 [[1], [2]])"
  have "map_option (\<lambda>s. (io_writer s, io_sender s, io_resp s, io_async_err s, body_pieces 1 (io_got s)))
      (io_fires ?as ?s) = Some (Raised TimeoutError, Ended, True, None, [])" by code_simp
  then obtain s where s: "io_fires ?as ?s = Some s" "io_writer s = Raised TimeoutError" "io_sender s = Ended"
    "io_resp s" "io_async_err s = None" "body_pieces 1 (io_got s) = []" by auto
  from io_fires_run [OF s(1) run_refl, of "\<lambda>e. e = Quiet \<or> e = Timeout"] s(2-)
  show "\<exists>s. io_reach (\<lambda>e. e = Quiet \<or> e = Timeout) 1 [[1], [2]] s \<and> io_writer s = Raised TimeoutError \<and>
      io_sender s = Ended \<and> io_resp s \<and> io_async_err s = None \<and> body_pieces 1 (io_got s) = []"
    by (auto simp: io_reach_def list_all_iff)
next
  let ?as = "[WriterStep, SenderFail (ODPSError (Some 502)), SenderStep, WriterStep]"
  let ?s = "io_start (rio_puts 1 [[1], [2]])"
  have "map_option (\<lambda>s. (io_writer s, io_async_err s)) (io_fires ?as ?s) =
      Some (Raised AssertionError, Some (ODPSError (Some 502)))" by code_simp
  then obtain s where s: "io_fires ?as ?s = Some s" "io_writer s = Raised AssertionError"
    "io_async_err s = Some (ODPSError (Some 502))" by auto
  from io_fires_run [OF s(1) run_refl, of "\<lambda>e. e \<noteq> Timeout"] s(2-)
  show "\<exists>s. io_reach (\<lambda>e. e \<noteq> Timeout) 1 [[1], [2]] s \<and> io_writer s = Raised AssertionError \<and>
      io_async_err s = Some (ODPSError (Some 502))"
    by (auto simp: io_reach_def)
qed

end
