(* ===== verification/Partition_Expr.thy ===== *)
theory Partition_Expr
  imports Schema Type_Parser
begin

text \<open>
  \<^verbatim>\<open>odps/expressions/core.py\<close> and \<^verbatim>\<open>odps/expressions/functions.py\<close>: the expressions that generate
  the value of a partition column from a record. They arrive as a list in postfix order, which
  \<^verbatim>\<open>VisitedExpressions.parse\<close> turns into a tree with a stack. Evaluation is modelled on records;
  the variants for pandas and pyarrow and the printing of expressions are left out. \<^verbatim>\<open>strptime\<close>,
  \<^verbatim>\<open>strftime\<close> and the clock are parameters.
\<close>

section \<open>Nodes and trees\<close>

text \<open>
  The nodes as they arrive: \<^verbatim>\<open>leafExprDesc\<close> with its constant (\<open>PNone\<close> when missing), its reference and
  its type, and \<^verbatim>\<open>functionCall\<close> with its name.
\<close>

datatype expr_node = LeafExprDesc py_value "string option" string | FunctionCall string

datatype expr = Leaf py_value "string option" string | Call string "expr list"

definition expr_functions :: "(string \<times> nat) list" where
  "expr_functions = [(''trunc_time'', 2), (''current_timestamp_ntz'', 0)]"

definition arg_count :: "string \<Rightarrow> nat result" where
  "arg_count func_name =
     (case map_of expr_functions (py_lower func_name) of
        None \<Rightarrow> Inl ValueError | Some n \<Rightarrow> Inr n)"

text \<open>\<^verbatim>\<open>xs[-n:]\<close> and \<^verbatim>\<open>xs[:-n]\<close>; with \<^verbatim>\<open>n = 0\<close> the index \<^verbatim>\<open>-0\<close> counts from the front.\<close>

definition slice_last :: "nat \<Rightarrow> 'a list \<Rightarrow> 'a list" where
  "slice_last n xs = (if n = 0 then xs else drop (length xs - n) xs)"

definition slice_but_last :: "nat \<Rightarrow> 'a list \<Rightarrow> 'a list" where
  "slice_but_last n xs = (if n = 0 then [] else take (length xs - n) xs)"

text \<open>The loop of \<^verbatim>\<open>parse\<close> over the nodes, with \<^verbatim>\<open>res_stack\<close>.\<close>

fun visit_nodes :: "expr_node list \<Rightarrow> expr list \<Rightarrow> expr list result" where
  "visit_nodes [] res_stack = Inr res_stack"
| "visit_nodes (LeafExprDesc c r t # nodes) res_stack = visit_nodes nodes (res_stack @ [Leaf c r t])"
| "visit_nodes (FunctionCall name # nodes) res_stack =
     rbind (arg_count name) (\<lambda>n.
       visit_nodes nodes (slice_but_last n res_stack @ [Call name (slice_last n res_stack)]))"

fun node_references :: "expr_node list \<Rightarrow> string list" where
  "node_references [] = []"
| "node_references (LeafExprDesc c (Some r) t # nodes) = r # node_references nodes"
| "node_references (_ # nodes) = node_references nodes"

definition parse_expr :: "expr_node list \<Rightarrow> (expr \<times> string list) result" where
  "parse_expr nodes =
     rbind (visit_nodes nodes []) (\<lambda>res_stack.
       case res_stack of
         [e] \<Rightarrow> Inr (e, node_references nodes)
       | _ \<Rightarrow> Inl AssertionError)"

section \<open>Evaluation\<close>

record time_env =
  te_strptime :: "bytes \<Rightarrow> int result"
  te_strftime :: "string \<Rightarrow> int \<Rightarrow> py_value result"
  te_utcnow :: int

definition truthy :: "py_value \<Rightarrow> bool" where
  "truthy v =
     (case v of
        PNone \<Rightarrow> False
      | PBool b \<Rightarrow> b
      | PInt n \<Rightarrow> n \<noteq> 0
      | PFloat w \<Rightarrow> unat w mod 2 ^ 63 \<noteq> 0
      | PStr s \<Rightarrow> s \<noteq> []
      | PBytes s \<Rightarrow> s \<noteq> []
      | PList vs \<Rightarrow> vs \<noteq> []
      | PDict kvs \<Rightarrow> kvs \<noteq> []
      | _ \<Rightarrow> True)"

text \<open>\<^verbatim>\<open>validate_data_type\<close> may answer a string or a pair, which \<^verbatim>\<open>validate_value\<close> refuses.\<close>

definition expr_type :: "string \<Rightarrow> odps_type result" where
  "expr_type s =
     rbind (validate_data_type s) (\<lambda>tok. case tok of TType t \<Rightarrow> Inr t | _ \<Rightarrow> Inl ValueError)"

definition leaf_value :: "py_env \<Rightarrow> rec \<Rightarrow> py_value \<Rightarrow> string option \<Rightarrow> string \<Rightarrow> py_value result" where
  "leaf_value env record constant reference typ =
     (if truthy constant then rbind (expr_type typ) (\<lambda>t. validate_value env constant t None)
      else case reference of
             Some name \<Rightarrow> get_by_name record name
           | None \<Rightarrow> Inl NotImplementedError)"

definition lower_bytes :: "bytes \<Rightarrow> bytes" where
  "lower_bytes = List.map (\<lambda>b. if 65 \<le> b \<and> b \<le> 90 then b + 32 else b)"

definition date_patterns :: "(py_value \<times> string) list" where
  "date_patterns =
     [(str_of ''year'', ''%Y''), (str_of ''month'', ''%Y-%m''), (str_of ''day'', ''%Y-%m-%d''),
      (str_of ''hour'', ''%Y-%m-%d %H:00:00'')]"

definition trunc_single :: "time_env \<Rightarrow> py_value \<Rightarrow> py_value \<Rightarrow> py_value result" where
  "trunc_single te val date_part =
     rbind (case val of
              PDatetime t \<Rightarrow> Inr t
            | PTimestamp ns \<Rightarrow> Inr (ns div 1000)
            | PStr s \<Rightarrow> te_strptime te s
            | _ \<Rightarrow> Inl TypeError) (\<lambda>t.
       case map_of date_patterns date_part of
         None \<Rightarrow> Inl KeyError
       | Some pattern \<Rightarrow> te_strftime te pattern t)"

definition call_function :: "time_env \<Rightarrow> string \<Rightarrow> py_value list \<Rightarrow> py_value result" where
  "call_function te name args =
     rbind (arg_count name) (\<lambda>n.
       if length args \<noteq> n then Inl TypeError
       else case args of
              [arg, date_part] \<Rightarrow>
                (case date_part of
                   PStr s \<Rightarrow> trunc_single te arg (PStr (lower_bytes s))
                 | _ \<Rightarrow> Inl AssertionError)
            | _ \<Rightarrow> Inr (PDatetime (te_utcnow te)))"

fun eval_expr :: "time_env \<Rightarrow> py_env \<Rightarrow> rec \<Rightarrow> expr \<Rightarrow> py_value result" where
  "eval_expr te env record (Leaf c r t) = leaf_value env record c r t"
| "eval_expr te env record (Call name args) =
     rbind (arg_count name) (\<lambda>_.
       rbind (rmap (eval_expr te env record) args) (call_function te name))"

section \<open>Postfix order and trees\<close>

fun postfix :: "expr \<Rightarrow> expr_node list" where
  "postfix (Leaf c r t) = [LeafExprDesc c r t]"
| "postfix (Call name args) = concat (List.map postfix args) @ [FunctionCall name]"

fun wf_expr :: "expr \<Rightarrow> bool" where
  "wf_expr (Leaf c r t) = True"
| "wf_expr (Call name args) = (arg_count name = Inr (length args) \<and> list_all wf_expr args)"

text \<open>No call without arguments; and none but as the very first operand.\<close>

fun no_nullary :: "expr \<Rightarrow> bool" where
  "no_nullary (Leaf c r t) = True"
| "no_nullary (Call name args) = (args \<noteq> [] \<and> list_all no_nullary args)"

fun nullary_first :: "expr \<Rightarrow> bool" where
  "nullary_first (Leaf c r t) = True"
| "nullary_first (Call name []) = True"
| "nullary_first (Call name (a # as)) = (nullary_first a \<and> list_all no_nullary as)"

text \<open>A call of a function without parameters that has been given arguments.\<close>

fun swallows :: "expr \<Rightarrow> bool" where
  "swallows (Leaf c r t) = False"
| "swallows (Call name args) = (arg_count name = Inr 0 \<and> args \<noteq> [] \<or> list_ex swallows args)"

lemma slices_append [simp]:
  "0 < length xs \<Longrightarrow> slice_last (length xs) (st @ xs) = xs"
  "0 < length xs \<Longrightarrow> slice_but_last (length xs) (st @ xs) = st"
  by (simp_all add: slice_last_def slice_but_last_def)

lemma visit_each:
  assumes "\<And>a st ns. a \<in> set as \<Longrightarrow> visit_nodes (postfix a @ ns) st = visit_nodes ns (st @ [a])"
  shows "visit_nodes (concat (List.map postfix as) @ ns) st = visit_nodes ns (st @ as)"
  using assms
proof (induction as arbitrary: st)
  case (Cons a as)
  have "visit_nodes (concat (List.map postfix (a # as)) @ ns) st =
      visit_nodes (concat (List.map postfix as) @ ns) (st @ [a])"
    using Cons.prems [of a "concat (List.map postfix as) @ ns" st] by simp
  also have "\<dots> = visit_nodes ns ((st @ [a]) @ as)" by (rule Cons.IH) (use Cons.prems in simp)
  finally show ?case by simp
qed simp

lemma visit_no_nullary:
  "wf_expr e \<Longrightarrow> no_nullary e \<Longrightarrow> visit_nodes (postfix e @ ns) st = visit_nodes ns (st @ [e])"
proof (induction e arbitrary: st ns)
  case (Call name args)
  have "visit_nodes (postfix (Call name args) @ ns) st = visit_nodes (FunctionCall name # ns) (st @ args)"
    using visit_each [of args "FunctionCall name # ns" st] Call by (auto simp: list_all_iff)
  with Call.prems show ?case by simp
qed simp

lemma visit_nullary_first:
  "wf_expr e \<Longrightarrow> nullary_first e \<Longrightarrow> visit_nodes (postfix e @ ns) [] = visit_nodes ns [e]"
proof (induction e arbitrary: ns rule: nullary_first.induct)
  case (2 name)
  then show ?case by (simp add: slice_last_def slice_but_last_def)
next
  case (3 name a as)
  have "visit_nodes (postfix (Call name (a # as)) @ ns) [] =
      visit_nodes (concat (List.map postfix as) @ FunctionCall name # ns) [a]"
    using 3 by simp
  also have "\<dots> = visit_nodes (FunctionCall name # ns) ([a] @ as)"
    by (rule visit_each) (use 3 in \<open>auto simp: list_all_iff intro: visit_no_nullary\<close>)
  finally show ?case
    using 3(2) slices_append [of "a # as" "[]"] by simp
qed simp

text \<open>What has swallowed arguments stays in the result.\<close>

lemma swallows_slices:
  "list_ex swallows st \<Longrightarrow> list_ex swallows (slice_but_last n st) \<or> list_ex swallows (slice_last n st)"
  unfolding slice_but_last_def slice_last_def
  by (metis append_take_drop_id list_ex_append)

lemma swallows_kept:
  "visit_nodes ns st = Inr st' \<Longrightarrow> list_ex swallows st \<Longrightarrow> list_ex swallows st'"
proof (induction ns st rule: visit_nodes.induct)
  case (3 name nodes st)
  then obtain n where n: "arg_count name = Inr n"
    "visit_nodes nodes (slice_but_last n st @ [Call name (slice_last n st)]) = Inr st'"
    by (auto simp: rbind_eq_Inr)
  moreover have "list_ex swallows (slice_but_last n st @ [Call name (slice_last n st)])"
    using swallows_slices [OF "3.prems"(2), of n] by auto
  ultimately show ?case using "3.IH" by blast
qed auto

lemma swallows_each:
  assumes "\<And>a st ns st'. a \<in> set as \<Longrightarrow> wf_expr a \<Longrightarrow> \<not> no_nullary a \<Longrightarrow> st \<noteq> [] \<Longrightarrow>
      visit_nodes (postfix a @ ns) st = Inr st' \<Longrightarrow> list_ex swallows st'"
    and "list_all wf_expr as" and "\<not> list_all no_nullary as" and "st \<noteq> []"
    and "visit_nodes (concat (List.map postfix as) @ ns) st = Inr st'"
  shows "list_ex swallows st'"
  using assms
proof (induction as arbitrary: st)
  case (Cons a as)
  show ?case
  proof (cases "no_nullary a")
    case True
    with Cons.prems(2,5) visit_no_nullary [of a "concat (List.map postfix as) @ ns" st]
    have "visit_nodes (concat (List.map postfix as) @ ns) (st @ [a]) = Inr st'" by simp
    then show ?thesis
    proof (rule Cons.IH [rotated -1])
      fix b u ms u'
      assume "b \<in> set as" "wf_expr b" "\<not> no_nullary b" "u \<noteq> []" "visit_nodes (postfix b @ ms) u = Inr u'"
      then show "list_ex swallows u'" using Cons.prems(1) [of b u ms u'] by simp
    qed (use Cons.prems(2,3) True in simp_all)
  next
    case False
    with Cons.prems(1) [of a st "concat (List.map postfix as) @ ns" st'] Cons.prems(2,4,5)
    show ?thesis by simp
  qed
qed simp

lemma nullary_swallows:
  "wf_expr e \<Longrightarrow> \<not> no_nullary e \<Longrightarrow> st \<noteq> [] \<Longrightarrow> visit_nodes (postfix e @ ns) st = Inr st' \<Longrightarrow>
   list_ex swallows st'"
proof (induction e arbitrary: st ns st')
  case (Call name args)
  show ?case
  proof (cases "args = []")
    case True
    with Call.prems have "visit_nodes ns [Call name st] = Inr st'"
      by (simp add: slice_last_def slice_but_last_def)
    moreover have "list_ex swallows [Call name st]" using Call.prems True by simp
    ultimately show ?thesis by (rule swallows_kept)
  next
    case False
    with swallows_each [of args st "FunctionCall name # ns" st'] Call show ?thesis by simp
  qed
qed simp

lemma misplaced_swallows:
  "wf_expr e \<Longrightarrow> \<not> nullary_first e \<Longrightarrow> visit_nodes (postfix e @ ns) [] = Inr st' \<Longrightarrow> list_ex swallows st'"
proof (induction e arbitrary: ns rule: nullary_first.induct)
  case (3 name a as)
  let ?ns = "concat (List.map postfix as) @ FunctionCall name # ns"
  have v: "visit_nodes (postfix a @ ?ns) [] = Inr st'" using "3.prems"(3) by simp
  show ?case
  proof (cases "nullary_first a")
    case True
    with v "3.prems"(1) visit_nullary_first [of a ?ns] have "visit_nodes ?ns [a] = Inr st'" by simp
    with swallows_each [of as "[a]" "FunctionCall name # ns" st'] nullary_swallows "3.prems"(1,2) True
    show ?thesis by simp
  next
    case False
    with "3.IH" [of ?ns] v "3.prems"(1) show ?thesis by simp
  qed
qed simp_all

lemma wf_not_swallows: "wf_expr e \<Longrightarrow> \<not> swallows e"
  by (induction e) (auto simp: list_all_iff list_ex_iff)

text \<open>C33: parsing the postfix form of an expression gives the expression back exactly when a function
  without parameters is called nowhere but as the very first operand: anywhere else its call takes
  everything on the stack for its arguments, since \<^verbatim>\<open>res_stack[-0:]\<close> is the whole stack.\<close>

theorem postfix_roundtrip:
  assumes "wf_expr e"
  shows "parse_expr (postfix e) = Inr (e, node_references (postfix e)) \<longleftrightarrow> nullary_first e"
proof
  assume "nullary_first e"
  with assms visit_nullary_first [of e "[]"] have "visit_nodes (postfix e) [] = Inr [e]" by simp
  then show "parse_expr (postfix e) = Inr (e, node_references (postfix e))"
    by (simp add: parse_expr_def)
next
  assume "parse_expr (postfix e) = Inr (e, node_references (postfix e))"
  then have "visit_nodes (postfix e @ []) [] = Inr [e]"
  proof (cases "visit_nodes (postfix e) []")
    case (Inr st)
    with \<open>parse_expr (postfix e) = _\<close> have "st = [e]"
      by (cases st; cases "tl st") (simp_all add: parse_expr_def)
    with Inr show ?thesis by simp
  qed (simp add: parse_expr_def)
  with misplaced_swallows [OF assms] wf_not_swallows [OF assms] show "nullary_first e" by fastforce
qed

text \<open>An expression of the test suite, and one whose second operand is the current time.\<close>

definition hour_of_now :: expr where
  "hour_of_now =
     Call ''TRUNC_time''
       [Call ''trunc_time'' [Call ''current_timestamp_ntz'' [], Leaf (str_of ''hour'') None ''string''],
        Leaf (str_of ''day'') None ''string'']"

definition swapped_operands :: expr where
  "swapped_operands =
     Call ''trunc_time'' [Leaf PNone (Some ''dt'') ''timestamp'', Call ''current_timestamp_ntz'' []]"

theorem postfix_roundtrip_witness:
  "parse_expr (postfix hour_of_now) = Inr (hour_of_now, []) \<and>
   parse_expr (postfix swapped_operands) \<noteq> Inr (swapped_operands, [''dt''])"
proof -
  have "wf_expr hour_of_now" "nullary_first hour_of_now" "node_references (postfix hour_of_now) = []"
    "wf_expr swapped_operands" "\<not> nullary_first swapped_operands"
    "node_references (postfix swapped_operands) = [''dt'']" by code_simp+
  with postfix_roundtrip [of hour_of_now] postfix_roundtrip [of swapped_operands] show ?thesis by simp
qed

text \<open>A constant that Python takes for false, as the bigint 0 or the empty string, is not
  recognised as a constant: a leaf that holds it, and every call over it, raises
  \<^verbatim>\<open>NotImplementedError\<close>, whatever the type says; every other constant is validated by its type.\<close>

theorem constant_leaf:
  assumes "validate_data_type typ = Inr (TType t)"
  shows "eval_expr te env record (Leaf c None typ) =
      (if truthy c then validate_value env c t None else Inl NotImplementedError) \<and>
    (\<not> truthy c \<and> arg_count name = Inr n \<longrightarrow>
      eval_expr te env record (Call name (Leaf c None typ # args)) = Inl NotImplementedError)"
  using assms by (simp add: leaf_value_def expr_type_def)

definition no_clock :: time_env where
  "no_clock = \<lparr>te_strptime = (\<lambda>_. Inl ValueError), te_strftime = (\<lambda>_ _. Inl ValueError), te_utcnow = 0\<rparr>"

theorem constant_leaf_witness:
  "eval_expr no_clock plain_env (rec_blank [] [] None) (Leaf (PInt 7) None ''bigint'') = Inr (PInt 7) \<and>
   eval_expr no_clock plain_env (rec_blank [] [] None)
     (Call ''trunc_time'' [Leaf (PStr []) None ''string'', Leaf (str_of ''day'') None ''string'']) =
     Inl NotImplementedError"
proof -
  have v: "validate_data_type ''bigint'' = Inr (TType (Prim Bigint))"
    "validate_data_type ''string'' = Inr (TType (Prim String))"
    "arg_count ''trunc_time'' = Inr 2" "validate_value plain_env (PInt 7) (Prim Bigint) None = Inr (PInt 7)"
    by code_simp+
  from constant_leaf [OF v(1), of no_clock plain_env "rec_blank [] [] None" "PInt 7"] v(4)
    constant_leaf [OF v(2), of no_clock plain_env "rec_blank [] [] None" "PStr []" "''trunc_time''" 2
      "[Leaf (str_of ''day'') None ''string'']"] v(3)
  show ?thesis by (simp add: truthy_def)
qed

end
