(* ===== verification/Reader_Answers.thy ===== *)
theory Reader_Answers
  imports Record_File
begin

text \<open>
  Answers of the pure parts of \<^verbatim>\<open>BaseTunnelRecordReader\<close>: casting and checking a value gives a value or an
  exception of the code, never \<open>FuelExhausted\<close>, which is no exception of the code and marks a bounded
  loop that ran out of rounds. The conversions of the library are asked for the same.
\<close>

named_theorems python_intros \<open>answers that are values or exceptions of the code\<close>

definition python :: "'a result \<Rightarrow> bool" where
  "python r \<longleftrightarrow> r \<noteq> Inl FuelExhausted"

lemma python_base [python_intros]: "python (Inr x)" "e \<noteq> FuelExhausted \<Longrightarrow> python (Inl e)"
  by (simp_all add: python_def)

lemma python_rbind [python_intros]:
  "python r \<Longrightarrow> (\<And>x. python (f x)) \<Longrightarrow> python (rbind r f)"
  by (cases r) (auto simp: python_def)

lemma python_if [python_intros]:
  "(b \<Longrightarrow> python r) \<Longrightarrow> (\<not> b \<Longrightarrow> python r') \<Longrightarrow> python (if b then r else r')"
  by simp

lemma python_rmap [python_intros]: "(\<And>x. x \<in> set xs \<Longrightarrow> python (f x)) \<Longrightarrow> python (rmap f xs)"
  by (induction xs) (auto intro!: python_intros)

definition python_env :: "codec_env \<Rightarrow> bool" where
  "python_env env \<longleftrightarrow>
     (\<forall>v t. python (env_convert env v t)) \<and> (\<forall>b m. python (from_mills env b m)) \<and>
     (\<forall>t n. python (pd_timestamp env t n)) \<and> (\<forall>l n. python (pd_timedelta env l n)) \<and>
     (\<forall>bs. python (json_loads env bs))"

lemma python_convert: "python_env env \<Longrightarrow> python (env_convert (base_env env) v t)"
  by (simp add: python_env_def base_env_def py_env.truncate_def)

lemma python_text [python_intros]:
  assumes "\<And>v t. python (env_convert env v t)"
  shows "python (utf8_decode bs)" "python (to_text env v)" "python (to_binary env v)"
  using assms
  by (auto simp: utf8_decode_def to_text_def to_binary_def intro!: python_intros split: py_value.split)

lemma python_cast:
  assumes "\<And>v t. python (env_convert env v t)"
  shows "python (cast_value env p v d)"
  by (cases p) (auto simp: integer_cast_def float_cast_def string_cast_def datetime_cast_def
      date_cast_def boolean_cast_def binary_cast_def timestamp_cast_def interval_day_time_cast_def
      interval_year_month_cast_def json_cast_def variant_cast_def cast_or_throw_def
      intro!: python_intros assms split: py_value.split)

lemma python_cast_primitive:
  assumes "\<And>v t. python (env_convert env v t)"
  shows "python (cast_primitive_value env p v)"
  unfolding cast_primitive_value_def
  by (auto simp del: cast_value.simps intro!: python_intros python_cast assms
      split: py_value.split option.split)

lemma python_len [python_intros]: "python (py_len v)"
  by (cases v) (auto intro: python_intros)

lemma python_elements [python_intros]: "python (check_vector_elements vs)"
  by (induction vs) (auto intro!: python_intros split: py_value.split)

lemma python_check [python_intros]: "python (check_value env t v m)"
  by (cases t) (auto simp: check_integer_def check_size_def check_string_byte_size_def check_json_def
      check_sized_string_def check_decimal_def check_vector_def Let_def
      intro!: python_intros split: py_value.split option.split)

lemma python_composites [python_intros]:
  assumes "\<And>v t. python (env_convert env v t)"
  shows "python (sized_composite env t n v)" "python (decimal_composite env p s v)"
  by (auto simp: sized_composite_def decimal_composite_def string_cast_def cast_or_throw_def
      check_sized_string_def intro!: python_intros assms split: py_value.split option.split)

lemma python_containers [python_intros]:
  "(\<And>e. python (f e)) \<Longrightarrow> python (array_composite f v)"
  "(\<And>e. python (f e)) \<Longrightarrow> python (vector_composite f v)"
  "(\<And>e. python (f e)) \<Longrightarrow> (\<And>e. python (g e)) \<Longrightarrow> python (map_composite f g v)"
  by (auto simp: array_composite_def vector_composite_def map_composite_def
      intro!: python_intros split: py_value.split)

lemma python_struct [python_intros]:
  assumes "\<And>e k t. (k, t) \<in> set fs \<Longrightarrow> python (f e t)"
  shows "python (struct_composite f fs v)"
proof -
  have "python (f e (snd g))" if "g \<in> set fs" for e g
    using assms [of "fst g" "snd g"] that by simp
  then show ?thesis
    by (auto simp: struct_composite_def intro!: python_intros split: py_value.split dest: set_zip_rightD)
qed

lemmas validate_forms =
  validate_value.simps [of _ _ "Prim p" for p] validate_value.simps [of _ _ "Varchar n" for n]
  validate_value.simps [of _ _ "Char n" for n] validate_value.simps [of _ _ "Decimal p s" for p s]
  validate_value.simps [of _ _ "Array t" for t] validate_value.simps [of _ _ "Map t u" for t u]
  validate_value.simps [of _ _ "Struct fs" for fs] validate_value.simps [of _ _ "Vector t n" for t n]

lemma python_validate:
  assumes "\<And>v t. python (env_convert env v t)"
  shows "python (validate_value env v t m)"
proof (induction t arbitrary: v m)
  case (Struct fs)
  have "python (validate_value env w t None)" if "(k, t) \<in> set fs" for w k t
    using Struct.IH [OF that] by simp
  then show ?case by (auto simp: validate_forms simp del: check_value.simps intro!: python_intros)
qed (auto simp: validate_forms simp del: check_value.simps
    intro!: python_intros python_cast_primitive assms)

lemma python_rec_set:
  assumes "python_env env"
  shows "python (fst (rec_set (base_env env) i v r))"
  using python_validate [of "base_env env", OF python_convert [OF assms]]
  by (auto simp: rec_set_def python_def split: sum.split)

end
