(* ===== verification/Reader_Safety.thy ===== *)
theory Reader_Safety
  imports Reader_Answers
begin

text \<open>
  \<^verbatim>\<open>BaseTunnelRecordReader\<close> on bytes nobody vouches for: reading a record comes to an end whatever the
  stream holds, and with \<^verbatim>\<open>require_footer\<close> the end of the records is announced only after a footer whose
  count and checksum are those of the records read. No operation of the decoder puts bytes back, each
  field begins with a tag of at least one byte, and the cells of a record leave the state alone that the
  footer is compared with: \<open>orderly\<close> says so of one operation after the other.
\<close>

named_theorems orderly_intros \<open>operations that answer and leave the state where they should\<close>

definition orderly :: "('s \<Rightarrow> 's \<Rightarrow> bool) \<Rightarrow> ('s, 'a) sm \<Rightarrow> bool" where
  "orderly R m \<longleftrightarrow> (\<forall>s. python (fst (m s)) \<and> R s (snd (m s)))"

lemma orderlyD: "orderly R m \<Longrightarrow> m s = (x, t) \<Longrightarrow> python x \<and> R s t"
  by (auto simp: orderly_def dest: spec [of _ s])

lemma orderly_base [orderly_intros]:
  assumes "reflp R"
  shows "orderly R (sret x)" "e \<noteq> FuelExhausted \<Longrightarrow> orderly R (sraise e)"
    "python r \<Longrightarrow> orderly R (slift r)" "orderly R (sget f)"
  using assms by (auto simp: orderly_def monad_simps python_intros dest: reflpD)

lemma orderly_smod [orderly_intros]: "(\<And>s. R s (g s)) \<Longrightarrow> orderly R (smod g)"
  by (simp add: orderly_def smod_apply python_intros)

lemma orderly_sbind [orderly_intros]:
  assumes "transp R" and "orderly R m" and "\<And>x. orderly R (f x)"
  shows "orderly R (sbind m f)"
  unfolding orderly_def
proof
  fix s
  obtain r t where m: "m s = (r, t)" by fastforce
  with orderlyD [OF assms(2)] have t: "python r" "R s t" by blast+
  show "python (fst (sbind m f s)) \<and> R s (snd (sbind m f s))"
  proof (cases r)
    case (Inl e)
    with t m show ?thesis by (simp add: sbind_apply python_def)
  next
    case (Inr x)
    have "python (fst (f x t))" "R t (snd (f x t))" using assms(3) [of x] by (simp_all add: orderly_def)
    with t(2) m Inr show ?thesis using transpD [OF assms(1)] by (auto simp: sbind_apply)
  qed
qed

lemma orderly_if [orderly_intros]:
  "(b \<Longrightarrow> orderly R m) \<Longrightarrow> (\<not> b \<Longrightarrow> orderly R n) \<Longrightarrow> orderly R (if b then m else n)"
  by simp

section \<open>The decoder\<close>

text \<open>The decoder in the state \<open>t\<close> is further on in the bytes it had in \<open>s\<close>.\<close>

definition later :: "bytes in_stream \<Rightarrow> bytes in_stream \<Rightarrow> bool" where
  "later s t \<longleftrightarrow> (\<exists>bs. is_input s = bs @ is_input t)"

lemma later_refl [simp, intro]: "later s s"
  by (simp add: later_def)

lemma later_trans: "later s t \<Longrightarrow> later t u \<Longrightarrow> later s u"
  unfolding later_def by (elim exE) simp

lemma later_order [orderly_intros]: "reflp later" "transp later"
  by (auto intro: reflpI transpI later_trans)

lemma later_length: "later s t \<Longrightarrow> length (is_input t) \<le> length (is_input s)"
  by (auto simp: later_def)

lemma orderly_input [orderly_intros]: "orderly later (input_read list_read n)" "orderly later (advance n)"
  by (auto simp: orderly_def input_read_def list_read_def advance_def smod_apply later_def
      python_intros) (metis append_take_drop_id)

lemma varint_loop_orderly:
  "read_varint_loop list_read r shift s = (x, t) \<Longrightarrow>
   python x \<and> later s t \<and> (\<forall>v. x = Inr v \<longrightarrow> length (is_input t) < length (is_input s))"
proof (induction "64 - shift" arbitrary: r shift s rule: less_induct)
  case less
  note unfold = read_varint_loop.simps [of list_read r shift s]
  show ?case
  proof (cases "64 \<le> shift")
    case True
    with less.prems show ?thesis by (auto simp: unfold python_intros)
  next
    case sh: False
    show ?thesis
    proof (cases "is_input s")
      case Nil
      with sh less.prems show ?thesis by (auto simp: unfold list_read_def later_def python_intros)
    next
      case (Cons b bs)
      define s' where "s' = s\<lparr>is_input := bs, is_pos := is_pos s + 1\<rparr>"
      have s': "later s s'" "length (is_input s') < length (is_input s)"
        using Cons by (simp_all add: s'_def later_def)
      show ?thesis
      proof (cases "uint b AND 0x80 = 0")
        case True
        with sh Cons less.prems have "t = s'" "\<exists>v. x = Inr v"
          by (auto simp: unfold list_read_def Let_def s'_def)
        with s' show ?thesis by (auto simp: python_intros)
      next
        case False
        with sh Cons less.prems
        have "read_varint_loop list_read (r OR push_bit shift (uint b AND 0x7F)) (shift + 7) s' = (x, t)"
          by (simp add: unfold list_read_def Let_def s'_def)
        have "64 - (shift + 7) < 64 - shift" using sh by simp
        from less.hyps [OF this \<open>read_varint_loop list_read _ (shift + 7) s' = (x, t)\<close>] s'
        show ?thesis using less_trans later_trans by blast
      qed
    qed
  qed
qed

lemma orderly_varint [orderly_intros]: "orderly later (read_varint_helper list_read)"
  unfolding orderly_def read_varint_helper_def
  using varint_loop_orderly by (metis prod.collapse)

lemma orderly_decoder [orderly_intros]:
  "orderly later (read_field_number_and_wire_type list_read)"
  "orderly later (read_uint32 list_read)" "orderly later (read_sint32 list_read)"
  "orderly later (read_sint64 list_read)" "orderly later (read_float list_read)"
  "orderly later (read_double list_read)" "orderly later (read_bool list_read)"
  "orderly later (read_string list_read)"
  unfolding read_field_number_and_wire_type_def read_uint32_def read_sint32_def read_sint64_def
    read_float_def read_double_def read_bool_def read_string_def read_string_sized_def
    read_var_uint32_def read_var_uint64_def
  by (intro orderly_intros; simp)+

text \<open>A tag that was read has taken at least one byte.\<close>

lemma tag_takes:
  assumes "read_field_number_and_wire_type list_read s = (Inr x, t)"
  shows "length (is_input t) < length (is_input s)"
proof -
  from assms obtain v u where "read_varint_loop list_read 0 0 s = (Inr v, u)" "u = t"
    by (auto simp: read_field_number_and_wire_type_def read_uint32_def read_var_uint32_def
        read_var_uint64_def read_varint_helper_def sbind_eq_Inr sret_apply sraise_apply split: if_splits)
  with varint_loop_orderly show ?thesis by blast
qed

section \<open>The reader\<close>

text \<open>
  What the cells of a record leave of the reader: the stream is further on, and the state the footer is
  verified against is untouched.
\<close>

definition onward :: "bytes record_reader \<Rightarrow> bytes record_reader \<Rightarrow> bool" where
  "onward s t \<longleftrightarrow>
     rel_option later (rr_reader s) (rr_reader t) \<and> rr_crccrc t = rr_crccrc s \<and>
     rr_attempt_rows t = rr_attempt_rows s \<and> rr_footer_seen t = rr_footer_seen s"

lemma onward_refl [simp, intro]: "onward s s"
  by (simp add: onward_def option.rel_refl)

lemma onward_trans: "onward s t \<Longrightarrow> onward t u \<Longrightarrow> onward s u"
  by (auto simp: onward_def intro: later_trans elim!: option.rel_cases)

lemma onward_order [orderly_intros]: "reflp onward" "transp onward"
  by (auto intro: reflpI transpI onward_trans)

lemma orderly_decoding [orderly_intros]:
  assumes "orderly later m"
  shows "orderly onward (decoding m)"
  unfolding orderly_def
proof
  fix s
  show "python (fst (decoding m s)) \<and> onward s (snd (decoding m s))"
  proof (cases "rr_reader s")
    case None
    then show ?thesis by (simp add: decoding_def python_intros)
  next
    case (Some d)
    obtain x d' where "m d = (x, d')" by fastforce
    with orderlyD [OF assms this] Some show ?thesis by (simp add: decoding_def onward_def)
  qed
qed

lemma crc_answers:
  "python (fst (update_long v c))" "python (fst (update_int n c))" "python (fst (checksum_update bs c))"
  "python (fst (update_float w c))" "python (fst (update_double x c))" "python (fst (update_bool b c))"
  by (auto simp: update_long_def update_int_def update_float_def update_double_def update_bool_def
      checksum_update_def monad_simps pack_i32_def pack_i64_def python_intros split: sum.split)

lemma orderly_crc [orderly_intros]:
  "(\<And>c. python (fst (m c))) \<Longrightarrow> orderly onward (on_rcrc m)"
  by (auto simp: orderly_def on_rcrc_def onward_def option.rel_refl split: prod.split) (metis fst_conv)

lemma orderly_values [orderly_intros]:
  assumes "python_env env"
  shows "orderly onward (read_long_value list_read)" "orderly onward (read_int_value list_read)"
    "orderly onward (read_bytes_value list_read)" "orderly onward (read_float_value list_read)"
    "orderly onward (read_double_value list_read)" "orderly onward (read_bool_value list_read)"
    "orderly onward (read_timestamp list_read env opts ntz)"
    "orderly onward (read_interval_day_time list_read env)"
    "orderly onward (read_json list_read env)"
  using assms
  unfolding read_long_value_def read_int_value_def read_bytes_value_def read_float_value_def
    read_double_value_def read_bool_value_def read_timestamp_def read_interval_day_time_def
    read_json_def Let_def overflow_none_def rapply_def float_narrow_def python_env_def
  by (intro orderly_intros crc_answers python_intros; simp)+

lemma orderly_items [orderly_intros]:
  "orderly onward rf \<Longrightarrow> orderly onward (read_items list_read rf n)"
  by (induction n) (auto intro!: orderly_intros)

lemma orderly_array [orderly_intros]:
  "orderly onward rf \<Longrightarrow> orderly onward (read_array list_read rf)"
  unfolding read_array_def by (intro orderly_intros)

lemma orderly_struct_fields [orderly_intros]:
  assumes "\<And>k t. (k, t) \<in> set fs \<Longrightarrow> orderly onward (rf t)"
  shows "orderly onward (read_struct_fields list_read rf fs)"
  using assms
proof (induction fs)
  case (Cons f fs)
  then have "orderly onward (rf (snd f))" by (cases f) auto
  with Cons show ?case by (auto intro!: orderly_intros)
qed (auto intro!: orderly_intros)

lemma orderly_elements [orderly_intros]:
  "orderly onward rf \<Longrightarrow> orderly onward (read_elements rf n)"
  by (induction n) (auto intro!: orderly_intros)

lemma orderly_prim [orderly_intros]:
  assumes "python_env env"
  shows "orderly onward (read_prim list_read env opts p)"
proof -
  note env = assms [unfolded python_env_def]
  show ?thesis
    using env
    by (cases p) (auto simp: read_prim_def overflow_none_def rapply_def to_date_def
        intro!: orderly_intros python_intros assms)
qed

lemma python_dict [python_intros]: "python (py_dict ks vs)"
  by (auto simp: py_dict_def intro!: python_intros)

lemma orderly_field [orderly_intros]:
  assumes "python_env env"
  shows "orderly onward (read_field list_read env opts t)"
proof (induction t)
  case (Struct fs)
  have "orderly onward (read_field list_read env opts t)" if "(k, t) \<in> set fs" for k t
    using Struct.IH [OF that] by simp
  then show ?case by (auto intro!: orderly_intros)
qed (auto simp: read_vector_def intro!: orderly_intros python_intros assms)

lemma orderly_cell [orderly_intros]:
  assumes "python_env env"
  shows "orderly onward (read_cell list_read env opts n r)"
proof -
  have "orderly onward (case rec_set (base_env env) i v r of (Inl e, _) \<Rightarrow> sraise e | (Inr _, r') \<Rightarrow> sret r')" for i v
    using python_rec_set [OF assms, of i v r]
    by (auto split: prod.split sum.split intro!: orderly_intros simp: python_def)
  then show ?thesis unfolding read_cell_def
    by (intro orderly_intros crc_answers assms)
qed

lemma python_partitions:
  assumes "python_env env"
  shows "python (append_partition_values (base_env env) kvs r)"
proof (induction kvs arbitrary: r)
  case (Cons kv kvs)
  obtain k v where kv: "kv = (k, v)" by fastforce
  have "python (fst (set_by_name (base_env env) k (str_of v) r))"
    using python_rec_set [OF assms] by (auto simp: set_by_name_def python_intros split: option.split)
  with Cons kv show ?case by (auto simp: python_def split: prod.split sum.split)
qed (simp add: python_intros)

lemma python_crc_value [python_intros]: "python (crc_value c)"
  by (auto simp: crc_value_def intro: python_intros split: option.split)

section \<open>Records\<close>

definition anyhow :: "'s \<Rightarrow> 's \<Rightarrow> bool" where
  "anyhow s t \<longleftrightarrow> True"

lemma anyhow_order [orderly_intros]: "reflp anyhow" "transp anyhow" "anyhow s t"
  by (simp_all add: anyhow_def reflpI transpI)

lemma orderly_anyhow [orderly_intros]:
  "orderly later m \<Longrightarrow> orderly anyhow (decoding m)"
  "(\<And>c. python (fst (f c))) \<Longrightarrow> orderly anyhow (on_rcrc f)"
  "(\<And>c. python (fst (f c))) \<Longrightarrow> orderly anyhow (on_rcrccrc f)"
proof -
  assume "orderly later m"
  then have "orderly onward (decoding m)" by (intro orderly_intros)
  then show "orderly anyhow (decoding m)" by (simp add: orderly_def anyhow_def)
qed (auto simp: orderly_def anyhow_def on_rcrc_def on_rcrccrc_def split: prod.split, (metis fst_conv)+)

lemma orderly_ends [orderly_intros]:
  "orderly anyhow (check_record list_read)" "orderly anyhow (read_metrics list_read tag)"
  "orderly anyhow (read_footer list_read)" "orderly anyhow (end_of_stream opts)"
proof -
  show metrics: "orderly anyhow (read_metrics list_read tag)" for tag
    unfolding read_metrics_def Let_def
    by (auto split: prod.split intro!: orderly_intros crc_answers python_intros)
  show "orderly anyhow (check_record list_read)" "orderly anyhow (read_footer list_read)"
    unfolding check_record_def read_footer_def Let_def
    by (intro orderly_intros metrics crc_answers python_intros; simp)+
  show "orderly anyhow (end_of_stream opts)"
    by (auto simp: orderly_def end_of_stream_def anyhow_def python_intros)
qed

lemma orderly_finish [orderly_intros]:
  "python_env env \<Longrightarrow> orderly anyhow (finish_record env opts r)"
  by (auto simp: orderly_def anyhow_def finish_record_def with_partitions_def python_def
      split: sum.split option.split dest: python_partitions [unfolded python_def])

section \<open>The loop over the fields\<close>

definition stream_left :: "bytes record_reader \<Rightarrow> nat" where
  "stream_left s = (case rr_reader s of None \<Rightarrow> 0 | Some d \<Rightarrow> length (is_input d))"

lemma onward_left: "onward s t \<Longrightarrow> stream_left t \<le> stream_left s"
  by (auto simp: onward_def stream_left_def dest: later_length split: option.split)

lemma tag_onward:
  assumes "decoding (read_field_number_and_wire_type list_read) s = (x, t)"
  shows "python x" and "onward s t" and "x = Inr tag \<Longrightarrow> stream_left t < stream_left s"
proof -
  have "orderly onward (decoding (read_field_number_and_wire_type list_read))" by (intro orderly_intros)
  from orderlyD [OF this assms] show "python x" "onward s t" by blast+
  show "stream_left t < stream_left s" if x: "x = Inr tag"
  proof (cases "rr_reader s")
    case None
    with assms x show ?thesis by (simp add: decoding_def)
  next
    case (Some d)
    with assms x obtain d' where "read_field_number_and_wire_type list_read d = (Inr tag, d')"
        "t = s\<lparr>rr_reader := Some d'\<rparr>"
      by (auto simp: decoding_def split: prod.splits)
    with Some tag_takes show ?thesis by (simp add: stream_left_def)
  qed
qed

text \<open>With more rounds than bytes left, the rounds never run out, and further ones change nothing.\<close>

lemma record_loop_answers:
  assumes "python_env env" and "stream_left s < fuel"
  shows "python (fst (record_loop list_read env opts fuel r s))"
  using assms(2)
proof (induction fuel arbitrary: r s)
  case (Suc fuel)
  obtain x t where tag: "decoding (read_field_number_and_wire_type list_read) s = (x, t)" by fastforce
  show ?case
  proof (cases x)
    case (Inl e)
    have "orderly anyhow (end_of_stream opts)" by (intro orderly_intros)
    with tag tag_onward(1) [OF tag] Inl show ?thesis by (auto simp: orderly_def python_def)
  next
    case (Inr iw)
    with tag_onward [OF tag] Suc.prems have t: "stream_left t < fuel" by fastforce
    have cell: "python (fst (sbind (read_cell list_read env opts n r) (record_loop list_read env opts fuel) t))" for n
    proof -
      obtain y u where u: "read_cell list_read env opts n r t = (y, u)" by fastforce
      from orderlyD [OF orderly_cell [OF assms(1)] u]
      have "python y" "stream_left u < fuel" using onward_left t by fastforce+
      with u Suc.IH show ?thesis by (cases y) (simp_all add: sbind_apply python_def)
    qed
    have "orderly anyhow (sthen (check_record list_read) (finish_record env opts r))"
      "orderly anyhow (sthen (read_footer list_read) (sret (None :: rec option)))"
      by (intro orderly_intros assms(1))+
    then have "python (fst (sthen (check_record list_read) (finish_record env opts r) t))"
      "python (fst (sthen (read_footer list_read) (sret (None :: rec option)) t))"
      by (simp_all add: orderly_def)
    then show ?thesis
      using tag Inr Suc.IH [OF t] cell
      by (cases iw) (auto intro!: python_intros)
  qed
qed simp

lemma record_loop_fuel:
  assumes "python_env env"
  shows "stream_left s < fuel \<Longrightarrow>
   record_loop list_read env opts (Suc fuel) r s = record_loop list_read env opts fuel r s"
proof (induction fuel arbitrary: r s)
  case (Suc fuel)
  obtain x t where tag: "decoding (read_field_number_and_wire_type list_read) s = (x, t)" by fastforce
  show ?case
  proof (cases x)
    case (Inr iw)
    with tag_onward [OF tag] Suc.prems have t: "stream_left t < fuel" by fastforce
    have cell: "sbind (read_cell list_read env opts n r) (record_loop list_read env opts (Suc fuel)) t =
        sbind (read_cell list_read env opts n r) (record_loop list_read env opts fuel) t" for n
    proof -
      obtain y u where u: "read_cell list_read env opts n r t = (y, u)" by fastforce
      from orderlyD [OF orderly_cell [OF assms] u] t have "stream_left u < fuel"
        using onward_left by fastforce
      with u Suc.IH show ?thesis by (cases y) (simp_all add: sbind_apply)
    qed
    show ?thesis
      using tag Inr Suc.IH [OF t] cell
      by (cases iw) (simp only: record_loop.simps prod.case sum.case Let_def cong: if_cong)
  qed (use tag in simp)
qed simp

lemma record_loop_enough:
  assumes "python_env env" and "stream_left s < fuel" and "fuel \<le> fuel'"
  shows "record_loop list_read env opts fuel' r s = record_loop list_read env opts fuel r s"
  using assms(3)
proof (induction rule: dec_induct)
  case (step n)
  then have "stream_left s < n" using assms(2) by simp
  with record_loop_fuel [OF assms(1)] step.IH show ?case by metis
qed simp

section \<open>The footer\<close>

text \<open>
  A footer read in the bytes \<open>bs\<close>: the tag of the record count, the count \<open>n\<close>, further on the tag of the
  checksum, the checksum \<open>v\<close>, and \<open>rest\<close> after it.
\<close>

definition footer_read :: "bytes \<Rightarrow> int \<Rightarrow> int \<Rightarrow> bytes \<Rightarrow> bool" where
  "footer_read bs n v rest \<longleftrightarrow>
     (\<exists>pre d w d1 d2 e w' e1 e2. bs = pre @ is_input d \<and>
        read_field_number_and_wire_type list_read d = (Inr (TUNNEL_META_COUNT, w), d1) \<and>
        read_sint64 list_read d1 = (Inr n, d2) \<and> later d2 e \<and>
        read_field_number_and_wire_type list_read e = (Inr (TUNNEL_META_CHECKSUM, w'), e1) \<and>
        read_uint32 list_read e1 = (Inr v, e2) \<and> is_input e2 = rest)"

lemma decoding_Inr:
  "decoding m s = (Inr x, t) \<longleftrightarrow>
   (\<exists>d d'. rr_reader s = Some d \<and> m d = (Inr x, d') \<and> t = s\<lparr>rr_reader := Some d'\<rparr>)"
  by (auto simp: decoding_def split: option.splits prod.splits)

lemma unless_raised: "(if c then sraise e else m) s = (Inr x, t) \<longleftrightarrow> \<not> c \<and> m s = (Inr x, t)"
  by (simp add: sraise_apply)

lemma metrics_steps:
  assumes "read_metrics list_read (j, k) s = (Inr i, t)"
  obtains m s1 s2 s3 x s4 y s5 w where "on_rcrc (update_int j) s = (Inr (), s1)"
    and "decoding (read_string list_read) s1 = (Inr m, s2)"
    and "on_rcrc (checksum_update m) (s2\<lparr>rr_metrics := Some m\<rparr>) = (Inr (), s3)"
    and "decoding (read_field_number_and_wire_type list_read) s3 = (Inr x, s4)"
    and "decoding (read_uint32 list_read) (s4\<lparr>rr_crc := checksum_reset (rr_crc s4)\<rparr>) = (Inr y, s5)"
    and "decoding (read_field_number_and_wire_type list_read) s5 = (Inr (i, w), t)"
  using assms
  by (simp add: read_metrics_def sbind_eq_Inr smod_apply sget_apply slift_apply unless_raised
      sret_apply Let_def case_prod_beta split del: if_split) (elim exE conjE, rule that, assumption+)

lemma metrics_tag:
  assumes "read_metrics list_read tag s = (Inr i, t)"
  obtains u w where "rel_option later (rr_reader s) (rr_reader u)" and "rr_crccrc u = rr_crccrc s"
    and "decoding (read_field_number_and_wire_type list_read) u = (Inr (i, w), t)"
proof -
  have ends: "orderly onward (decoding (read_field_number_and_wire_type list_read))"
      "orderly onward (decoding (read_string list_read))"
      "orderly onward (decoding (read_uint32 list_read))" "orderly onward (on_rcrc (update_int n))"
      "orderly onward (on_rcrc (checksum_update bs))" for n bs
    by (intro orderly_intros crc_answers)+
  obtain j k where tag: "tag = (j, k)" by fastforce
  from metrics_steps [OF assms [unfolded tag]] obtain m s1 s2 s3 x s4 y s5 w where
    steps: "on_rcrc (update_int j) s = (Inr (), s1)"
    "decoding (read_string list_read) s1 = (Inr m, s2)"
    "on_rcrc (checksum_update m) (s2\<lparr>rr_metrics := Some m\<rparr>) = (Inr (), s3)"
    "decoding (read_field_number_and_wire_type list_read) s3 = (Inr x, s4)"
    "decoding (read_uint32 list_read) (s4\<lparr>rr_crc := checksum_reset (rr_crc s4)\<rparr>) = (Inr y, s5)" and
    last: "decoding (read_field_number_and_wire_type list_read) s5 = (Inr (i, w), t)" .
  have "onward s s1" using orderlyD [OF ends(4) steps(1)] by blast
  also have "onward \<dots> s2" using orderlyD [OF ends(2) steps(2)] by blast
  finally (onward_trans) have 1: "onward s s2" .
  have "onward s2 s3" using orderlyD [OF ends(5) steps(3)] by (simp add: onward_def)
  moreover have "onward s3 s4" using orderlyD [OF ends(1) steps(4)] by blast
  moreover have "onward s4 s5" using orderlyD [OF ends(3) steps(5)] by (simp add: onward_def)
  ultimately have "onward s s5" using 1 by (meson onward_trans)
  with last show thesis by (intro that [of s5 w]) (simp_all add: onward_def)
qed

lemma read_footer_verified:
  assumes "read_footer list_read s = (Inr (), t)" and "rr_reader s = Some d1"
  shows "\<exists>d2 e w' e1 e2 v. read_sint64 list_read d1 = (Inr (int (rr_attempt_rows s)), d2) \<and>
    later d2 e \<and> read_field_number_and_wire_type list_read e = (Inr (TUNNEL_META_CHECKSUM, w'), e1) \<and>
    crc_value (rr_crccrc s) = Inr v \<and> read_uint32 list_read e1 = (Inr v, e2) \<and>
    rr_reader t = Some e2 \<and> rr_footer_seen t"
proof -
  let ?tag = "decoding (read_field_number_and_wire_type list_read)"
  from assms(1) obtain u tag u1 i u2 v u3 where
    count: "decoding (read_sint64 list_read) s = (Inr (int (rr_attempt_rows u)), u)" and
    tag: "?tag u = (Inr tag, u1)" and
    next_tag: "(if fst tag \<noteq> TUNNEL_META_CHECKSUM then read_metrics list_read tag else sret (fst tag)) u1 =
       (Inr TUNNEL_META_CHECKSUM, u2)" and
    crc: "crc_value (rr_crccrc u2) = Inr v" and
    stored: "decoding (read_uint32 list_read) u2 = (Inr v, u3)" and t: "t = u3\<lparr>rr_footer_seen := True\<rparr>"
    by (auto simp: read_footer_def sbind_eq_Inr smod_apply sget_apply slift_apply unless_raised
        split del: if_split)
  from count assms(2) obtain d2 where d2: "read_sint64 list_read d1 = (Inr (int (rr_attempt_rows s)), d2)"
      "u = s\<lparr>rr_reader := Some d2\<rparr>"
    by (auto simp: decoding_Inr)
  have "\<exists>e w' e1. later d2 e \<and> rr_crccrc u2 = rr_crccrc s \<and> rr_reader u2 = Some e1 \<and>
      read_field_number_and_wire_type list_read e = (Inr (TUNNEL_META_CHECKSUM, w'), e1)"
  proof (cases "fst tag = TUNNEL_META_CHECKSUM")
    case True
    with next_tag have "u2 = u1" by (simp add: sret_apply)
    with True tag d2 show ?thesis by (cases tag) (auto simp: decoding_Inr)
  next
    case False
    with next_tag have "read_metrics list_read tag u1 = (Inr TUNNEL_META_CHECKSUM, u2)" by simp
    then obtain x w where x: "rel_option later (rr_reader u1) (rr_reader x)" "rr_crccrc x = rr_crccrc u1"
        "?tag x = (Inr (TUNNEL_META_CHECKSUM, w), u2)"
      by (rule metrics_tag)
    from tag_onward(2) [OF tag] d2 x(1,2)
    have "rel_option later (Some d2) (rr_reader x)" "rr_crccrc x = rr_crccrc s"
      by (auto simp: onward_def intro: later_trans elim!: option.rel_cases)
    with x(3) show ?thesis by (auto simp: decoding_Inr)
  qed
  with d2 crc stored t show ?thesis by (fastforce simp: decoding_Inr)
qed

lemma footer_read_later: "later d d' \<Longrightarrow> footer_read (is_input d') n v rest \<Longrightarrow> footer_read (is_input d) n v rest"
  unfolding later_def footer_read_def by (elim exE conjE) (metis append_assoc)

text \<open>Where \<open>None\<close> comes from: the end of a stream whose footer was seen before, or a verified footer.\<close>

definition ended :: "reader_options \<Rightarrow> bytes record_reader \<Rightarrow> bytes record_reader \<Rightarrow> bool" where
  "ended opts s t \<longleftrightarrow>
     rr_footer_seen t = rr_footer_seen s \<and> (ro_require_footer opts \<longrightarrow> rr_footer_seen t) \<or>
     rr_footer_seen t \<and> (\<exists>d v e. rr_reader s = Some d \<and> crc_value (rr_crccrc s) = Inr v \<and>
       rr_reader t = Some e \<and> footer_read (is_input d) (int (rr_attempt_rows s)) v (is_input e))"

lemma ended_onward: "onward s u \<Longrightarrow> ended opts u t \<Longrightarrow> ended opts s t"
  unfolding ended_def onward_def
  by (auto elim!: option.rel_cases intro: footer_read_later)

lemma footer_ends:
  assumes "decoding (read_field_number_and_wire_type list_read) s = (Inr (TUNNEL_META_COUNT, w), u)"
    and "read_footer list_read u = (Inr (), t)"
  shows "ended opts s t"
proof -
  from assms(1) obtain d d1 where d: "rr_reader s = Some d" "u = s\<lparr>rr_reader := Some d1\<rparr>"
      "read_field_number_and_wire_type list_read d = (Inr (TUNNEL_META_COUNT, w), d1)"
    by (auto simp: decoding_Inr)
  then have "rr_reader u = Some d1" by simp
  from read_footer_verified [OF assms(2) this] d show ?thesis
    unfolding ended_def footer_read_def by simp (metis append_Nil)
qed

lemma record_loop_ended:
  assumes "python_env env"
  shows "record_loop list_read env opts fuel r s = (Inr None, t) \<Longrightarrow> ended opts s t"
proof (induction fuel arbitrary: r s)
  case (Suc fuel)
  obtain x u where tag: "decoding (read_field_number_and_wire_type list_read) s = (x, u)" by fastforce
  note on = tag_onward(2) [OF tag]
  show ?case
  proof (cases x)
    case (Inl e)
    with Suc.prems tag on show ?thesis
      by (auto simp: end_of_stream_def onward_def ended_def split: if_splits)
  next
    case (Inr iw)
    obtain index wt where iw: "iw = (index, wt)" by (cases iw)
    have finish: "\<not> sthen (check_record list_read) (finish_record env opts r) u = (Inr None, t)"
      by (auto simp: sbind_eq_Inr finish_record_def split: sum.splits)
    have foot: "ended opts s t"
      if "sthen (read_footer list_read) (sret None) u = (Inr None, t)" "index = TUNNEL_META_COUNT"
    proof -
      from that(1) have "read_footer list_read u = (Inr (), t)" by (auto simp: sbind_eq_Inr sret_apply)
      with footer_ends tag Inr iw that(2) show ?thesis by blast
    qed
    have cell: "ended opts s t"
      if cell: "sbind (read_cell list_read env opts (nat index) r) (record_loop list_read env opts fuel) u =
        (Inr None, t)"
    proof -
      from cell obtain r' w where "read_cell list_read env opts (nat index) r u = (Inr r', w)"
          "record_loop list_read env opts fuel r' w = (Inr None, t)"
        by (auto simp: sbind_eq_Inr)
      with orderlyD [OF orderly_cell [OF assms]] Suc.IH on show ?thesis
        by (meson ended_onward)
    qed
    have again: "record_loop list_read env opts fuel r u = (Inr None, t) \<Longrightarrow> ended opts s t"
      using Suc.IH on ended_onward by blast
    show ?thesis
      using Suc.prems tag Inr iw finish foot cell again by (auto split: if_splits)
  qed
qed simp

section \<open>Over the network\<close>

text \<open>The reader over the bytes that a reader over \<^verbatim>\<open>SimpleInputStream\<close> still has before it.\<close>

definition bytes_reader :: "simple_input record_reader \<Rightarrow> bytes record_reader" where
  "bytes_reader s =
     \<lparr>rr_columns = rr_columns s, rr_partition_spec = rr_partition_spec s,
      rr_reader = map_option (\<lambda>d. \<lparr>is_input = si_content (is_input d), is_pos = is_pos d\<rparr>) (rr_reader s),
      rr_crc = rr_crc s, rr_crccrc = rr_crccrc s, rr_cursor = rr_cursor s,
      rr_attempt_rows = rr_attempt_rows s, rr_last_n_bytes = rr_last_n_bytes s,
      rr_footer_seen = rr_footer_seen s, rr_injected = rr_injected s, rr_metrics = rr_metrics s,
      rr_opens = List.map (\<lambda>f n. map_sum id (map_option si_content) (f n)) (rr_opens s)\<rparr>"

definition open_streams :: "simple_input record_reader \<Rightarrow> bool" where
  "open_streams s \<longleftrightarrow>
     (\<forall>d. rr_reader s = Some d \<longrightarrow> si_valid (is_input d)) \<and>
     (\<forall>f \<in> set (rr_opens s). \<forall>n i. f n = Inr (Some i) \<longrightarrow> si_valid i)"

lemma same_bytes_reader:
  assumes "open_streams s"
  shows "simple_source.same_reader s (bytes_reader s)"
proof -
  have "simple_source.same_answer f (\<lambda>n. map_sum id (map_option si_content) (f n))" if "f \<in> set (rr_opens s)" for f
    unfolding simple_source.same_answer_def
  proof
    fix n
    show "rel_sum (=) (rel_option (\<lambda>s bs. si_valid s \<and> si_content s = bs)) (f n)
        (map_sum id (map_option si_content) (f n))"
    proof (cases "f n")
      case (Inr a)
      with assms that show ?thesis by (cases a) (auto simp: open_streams_def)
    qed simp
  qed
  then have "list_all2 simple_source.same_answer (rr_opens s) (rr_opens (bytes_reader s))"
    by (simp add: bytes_reader_def list.rel_map list.rel_refl_strong)
  moreover have "simple_source.same_stream (rr_reader s) (rr_reader (bytes_reader s))"
    using assms by (cases "rr_reader s")
      (auto simp: simple_source.same_stream_def simple_source.holds_def bytes_reader_def open_streams_def)
  ultimately show ?thesis by (simp add: simple_source.same_reader_def bytes_reader_def)
qed

lemma single_record:
  assumes "python_env env" and "stream_left s < fuel"
  shows "python (fst (read_single_record list_read env opts fuel s))"
    and "read_single_record list_read env opts (fuel + extra) s = read_single_record list_read env opts fuel s"
    and "read_single_record list_read env opts fuel s = (Inr None, t) \<Longrightarrow> rr_reader s \<noteq> None \<Longrightarrow>
      (\<exists>m. ro_read_limit opts = Some m \<and> m \<le> rr_cursor s) \<or> ended opts s t"
proof -
  show "python (fst (read_single_record list_read env opts fuel s))"
    using record_loop_answers [OF assms] by (simp add: read_single_record_def python_intros)
  show "read_single_record list_read env opts (fuel + extra) s = read_single_record list_read env opts fuel s"
    by (simp only: read_single_record_def record_loop_enough [OF assms le_add1])
  assume run: "read_single_record list_read env opts fuel s = (Inr None, t)" and some: "rr_reader s \<noteq> None"
  show "(\<exists>m. ro_read_limit opts = Some m \<and> m \<le> rr_cursor s) \<or> ended opts s t"
  proof (cases "\<exists>m. ro_read_limit opts = Some m \<and> m \<le> rr_cursor s")
    case False
    then have "\<not> (case ro_read_limit opts of None \<Rightarrow> False | Some n \<Rightarrow> n \<le> rr_cursor s)"
      by (simp split: option.split)
    with run some have "record_loop list_read env opts fuel (blank_record (rr_columns s)) s = (Inr None, t)"
      unfolding read_single_record_def by (metis Inl_Inr_False prod.inject)
    from record_loop_ended [OF assms(1) this] show ?thesis by blast
  qed blast
qed

text \<open>C3: on any bytes whatever, however they are cut into blocks, reading a record ends with a record, with
  \<^verbatim>\<open>None\<close> or with an exception of the code: as many rounds of its loop as there are bytes left, plus one, do
  not run out, and more of them change nothing. With \<^verbatim>\<open>require_footer\<close> the end of the records is
  announced only when the read limit is reached, or after a footer: one that an earlier call had read, or
  one in these bytes whose stored count is the number of records read in this attempt, and whose stored
  checksum is the checksum of the records' checksums.\<close>

theorem reader_ends:
  assumes "python_env env" and "open_streams s" and "rr_reader s = Some d"
    and "length (si_content (is_input d)) < fuel"
  shows "\<exists>x. fst (read_single_record si_read_limit env opts fuel s) = x \<and> x \<noteq> Inl FuelExhausted \<and>
    (\<forall>extra. fst (read_single_record si_read_limit env opts (fuel + extra) s) = x) \<and>
    (x = Inr None \<and> ro_require_footer opts \<longrightarrow>
      (\<exists>m. ro_read_limit opts = Some m \<and> m \<le> rr_cursor s) \<or>
      rr_footer_seen (snd (read_single_record si_read_limit env opts fuel s)) \<and>
      (rr_footer_seen s \<or>
       (\<exists>v d'. crc_value (rr_crccrc s) = Inr v \<and>
          rr_reader (snd (read_single_record si_read_limit env opts fuel s)) = Some d' \<and>
          footer_read (si_content (is_input d)) (int (rr_attempt_rows s)) v (si_content (is_input d')))))"
proof -
  let ?t = "bytes_reader s"
  let ?run = "\<lambda>n. read_single_record si_read_limit env opts n s"
  obtain x u where run: "read_single_record list_read env opts fuel ?t = (x, u)" by fastforce
  have sim: "fst (?run n) = fst (read_single_record list_read env opts n ?t)"
      "simple_source.same_reader (snd (?run n)) (snd (read_single_record list_read env opts n ?t))" for n
    using ssimD [OF simple_source.sim_read_single_record same_bytes_reader [OF assms(2)]] by blast+
  have t: "stream_left ?t < fuel" "rr_reader ?t \<noteq> None" "rr_footer_seen ?t = rr_footer_seen s"
      "rr_crccrc ?t = rr_crccrc s" "rr_attempt_rows ?t = rr_attempt_rows s" "rr_cursor ?t = rr_cursor s"
    using assms(3,4) by (simp_all add: stream_left_def bytes_reader_def)
  note single = single_record [OF assms(1) t(1), where opts = opts]
  have "fst (?run fuel) = x" using sim(1) run by simp
  moreover have "x \<noteq> Inl FuelExhausted" using single(1) run by (simp add: python_def)
  moreover have "fst (?run (fuel + extra)) = x" for extra
    using sim(1) single(2) [of extra] run by simp
  moreover have "(\<exists>m. ro_read_limit opts = Some m \<and> m \<le> rr_cursor s) \<or>
      rr_footer_seen (snd (?run fuel)) \<and> (rr_footer_seen s \<or>
       (\<exists>v d'. crc_value (rr_crccrc s) = Inr v \<and> rr_reader (snd (?run fuel)) = Some d' \<and>
          footer_read (si_content (is_input d)) (int (rr_attempt_rows s)) v (si_content (is_input d'))))"
    if x: "x = Inr None" "ro_require_footer opts"
  proof -
    from single(3) run x(1) t(2) consider
      "\<exists>m. ro_read_limit opts = Some m \<and> m \<le> rr_cursor s" | "ended opts ?t u"
      using t(6) by auto
    then show ?thesis
    proof cases
      case 2
      from sim(2) [of fuel] run have same: "simple_source.same_reader (snd (?run fuel)) u" by simp
      then have seen: "rr_footer_seen (snd (?run fuel)) = rr_footer_seen u"
        by (simp add: simple_source.same_reader_def)
      have stream: "\<exists>d'. rr_reader (snd (?run fuel)) = Some d' \<and> si_content (is_input d') = is_input e"
        if "rr_reader u = Some e" for e
        using same that by (auto simp: simple_source.same_reader_def simple_source.same_stream_def
            simple_source.holds_def option_rel_Some2)
      from 2 x(2) show ?thesis
        unfolding ended_def using seen stream t assms(3) by (fastforce simp: bytes_reader_def)
    qed simp
  qed
  ultimately show ?thesis by blast
qed

text \<open>A reader before three bytes that make no record.\<close>

definition stray_reader :: "simple_input record_reader" where
  "stray_reader =
     \<lparr>rr_columns = [], rr_partition_spec = None,
      rr_reader = Some \<lparr>is_input = si_open [[0], [255, 255]], is_pos = 0\<rparr>,
      rr_crc = C32c CRC_INIT, rr_crccrc = C32c CRC_INIT, rr_cursor = 0, rr_attempt_rows = 0,
      rr_last_n_bytes = 0, rr_footer_seen = False, rr_injected = None, rr_metrics = None, rr_opens = []\<rparr>"

definition strict_options :: reader_options where
  "strict_options = \<lparr>ro_read_limit = None, ro_require_footer = True, ro_struct_as_dict = False,
     ro_overflow_as_none = False, ro_append_partitions = False\<rparr>"

lemma stray_tags:
  "read_field_number_and_wire_type si_read_limit \<lparr>is_input = si_open [[0], [255, 255]], is_pos = 0\<rparr> =
     (Inr (0, 0), \<lparr>is_input = \<lparr>si_chunks = [[255, 255]], si_buffer = [0], si_buffered_pos = 1, si_pos = 1,
        si_closed = False\<rparr>, is_pos = 1\<rparr>)"
  "fst (read_field_number_and_wire_type si_read_limit
     \<lparr>is_input = \<lparr>si_chunks = [[255, 255]], si_buffer = [0], si_buffered_pos = 1, si_pos = 1,
        si_closed = False\<rparr>, is_pos = 1\<rparr>) = Inl DecodeError"
  by code_simp+

lemma stray_stops:
  "fst (record_loop si_read_limit env strict_options (Suc (Suc n)) r stray_reader) = Inl (StreamTruncated 0)"
  using stray_tags
  by (auto simp: stray_reader_def decoding_def end_of_stream_def strict_options_def split: prod.splits)

lemma plain_codec_python: "python_env plain_codec"
  by (simp add: python_env_def plain_codec_def plain_env_def py_env.extend_def python_intros)

theorem reader_ends_witness:
  "fst (read_single_record si_read_limit plain_codec strict_options 99 stray_reader) = Inl (StreamTruncated 0)"
proof -
  have "open_streams stray_reader" "rr_reader stray_reader = Some \<lparr>is_input = si_open [[0], [255, 255]], is_pos = 0\<rparr>"
    by (simp_all add: open_streams_def stray_reader_def)
  from reader_ends [OF plain_codec_python this, of 4 strict_options]
  have "\<forall>extra. fst (read_single_record si_read_limit plain_codec strict_options (4 + extra) stray_reader) =
      fst (read_single_record si_read_limit plain_codec strict_options 4 stray_reader)"
    by force
  from spec [OF this, of 95]
  have "fst (read_single_record si_read_limit plain_codec strict_options (4 + 95) stray_reader) =
      fst (read_single_record si_read_limit plain_codec strict_options (Suc (Suc 2)) stray_reader)"
    by simp
  also have "\<dots> = Inl (StreamTruncated 0)"
    using stray_stops [of plain_codec 2]
    by (simp add: read_single_record_def stray_reader_def strict_options_def del: record_loop.simps)
  finally show ?thesis by simp
qed

end
