(* ===== verification/Volume_Writer.thy ===== *)
theory Volume_Writer
  imports Request_IO Checksum
begin

text \<open>
  \<^verbatim>\<open>VolumeWriter\<close> of \<^verbatim>\<open>odps/tunnel/volumetunnel.py\<close>: it sends a chunk size and then the bytes of a file in
  chunks of that size, each followed by the CRC-32 of everything sent so far except the checksums.
  Nothing is compressed. What is given to the request is related to the bytes written.
\<close>

section \<open>Big-endian integers\<close>

definition be_bytes :: "nat \<Rightarrow> int \<Rightarrow> bytes" where
  "be_bytes n v = rev (le_bytes n v)"

text \<open>\<^verbatim>\<open>struct.unpack(">I", data)\<close>.\<close>

definition unpack_be32 :: "bytes \<Rightarrow> int result" where
  "unpack_be32 bs = (if length bs = 4 then Inr (le_value (rev bs)) else Inl StructError)"

lemma length_be_bytes [simp]: "length (be_bytes n v) = n"
  by (simp add: be_bytes_def)

lemma be_bytes_eq_Nil [simp]: "be_bytes n v = [] \<longleftrightarrow> n = 0"
  by (simp flip: length_0_conv)

lemma unpack_be_bytes [roundtrip_simps]:
  "0 \<le> v \<Longrightarrow> v < 2 ^ 32 \<Longrightarrow> unpack_be32 (be_bytes 4 v) = Inr v"
  by (simp add: unpack_be32_def be_bytes_def le_value_le_bytes)

section \<open>VolumeWriter\<close>

text \<open>
  The state: \<open>vw_written\<close> lists the arguments of the calls of \<^verbatim>\<open>self._writer.write\<close>, \<open>vw_started\<close> says
  whether the thread of \<^verbatim>\<open>self._req_io\<close> was started.
\<close>

definition CHUNK_SIZE :: nat where "CHUNK_SIZE = 512 * 1024"

record volume_writer =
  vw_written :: "bytes list"
  vw_started :: bool
  vw_crc :: checksum
  vw_initialized :: bool
  vw_chunk_offset :: nat

definition vw_new :: volume_writer where
  "vw_new = \<lparr>vw_written = [], vw_started = False, vw_crc = checksum_new ''crc32'', vw_initialized = False,
     vw_chunk_offset = 0\<rparr>"

definition vw_emit :: "bytes \<Rightarrow> volume_writer \<Rightarrow> volume_writer" where
  "vw_emit data w = w\<lparr>vw_written := vw_written w @ [data]\<rparr>"

definition vw_init_writer :: "volume_writer \<Rightarrow> volume_writer" where
  "vw_init_writer w =
     (let chunk_bytes = be_bytes 4 (int CHUNK_SIZE); w = vw_emit chunk_bytes w
      in w\<lparr>vw_crc := checksum_raw chunk_bytes (vw_crc w), vw_chunk_offset := 0\<rparr>)"

text \<open>\<^verbatim>\<open>struct.pack(">I", self._crc.getvalue())\<close>; the checksum has been fed, so that it has a value.\<close>

definition vw_checksum :: "volume_writer \<Rightarrow> bytes" where
  "vw_checksum w = be_bytes 4 (case checksum_getvalue (vw_crc w) of None \<Rightarrow> 0 | Some v \<Rightarrow> uint v)"

text \<open>The loop of \<^verbatim>\<open>write\<close>, \<open>buf\<close> being \<^verbatim>\<open>buf[processed:]\<close>.\<close>

function vw_loop :: "bytes \<Rightarrow> volume_writer \<Rightarrow> volume_writer" where
  "vw_loop buf w =
     (if buf = [] then w
      else if vw_chunk_offset w = CHUNK_SIZE
      then vw_loop buf ((vw_emit (vw_checksum w) w)\<lparr>vw_chunk_offset := 0\<rparr>)
      else
        (let size = (if CHUNK_SIZE - vw_chunk_offset w < length buf then CHUNK_SIZE - vw_chunk_offset w
                     else length buf);
             write_chunk = take size buf;
             w1 = vw_emit write_chunk w
         in if size = 0 then w
            else vw_loop (drop size buf)
              (w1\<lparr>vw_crc := checksum_raw write_chunk (vw_crc w1), vw_chunk_offset := vw_chunk_offset w1 + size\<rparr>)))"
  by pat_completeness auto
termination
  by (relation "measure (\<lambda>(buf, w). 2 * length buf + (if vw_chunk_offset w = CHUNK_SIZE then 1 else 0))")
    (auto simp: vw_emit_def CHUNK_SIZE_def)

declare vw_loop.simps [simp del]

text \<open>
  What \<^verbatim>\<open>write\<close> can be given: bytes, a text as its encoding, \<^verbatim>\<open>None\<close>, an integer, a \<^verbatim>\<open>BytesIO\<close> with its content
  and the encoding of its \<^verbatim>\<open>str()\<close>. \<^verbatim>\<open>to_binary\<close> turns everything but \<^verbatim>\<open>None\<close> into bytes, so that the branches of
  \<^verbatim>\<open>write\<close> for integers and \<^verbatim>\<open>BytesIO\<close> are never taken.
\<close>

datatype volume_data = VBytes bytes | VText bytes | VNone | VInt int | VBytesIO bytes bytes

definition ascii_bytes :: "string \<Rightarrow> bytes" where
  "ascii_bytes s = List.map of_char s"

fun volume_binary :: "volume_data \<Rightarrow> bytes option" where
  "volume_binary (VBytes b) = Some b"
| "volume_binary (VText b) = Some b"
| "volume_binary VNone = None"
| "volume_binary (VInt i) = Some (ascii_bytes (py_str_int i))"
| "volume_binary (VBytesIO content text) = Some text"

definition vw_write :: "volume_data \<Rightarrow> (volume_writer, unit) sm" where
  "vw_write data w =
     (let buf = volume_binary data;
          w = (if vw_initialized w then w
               else (vw_init_writer (w\<lparr>vw_initialized := True\<rparr>))\<lparr>vw_started := True\<rparr>)
      in case buf of None \<Rightarrow> (Inl OSError, w)
         | Some b \<Rightarrow> if b = [] then (Inl OSError, w) else (Inr (), vw_loop b w))"

text \<open>
  \<^verbatim>\<open>close\<close>, given what \<^verbatim>\<open>self._req_io.finish()\<close> does: it raises, or returns \<^verbatim>\<open>None\<close>, or a response with a
  status. Flushing a request whose thread was not started fails at the assertion in \<^verbatim>\<open>put\<close>.
 
\<close>

definition vw_close :: "nat option result \<Rightarrow> (volume_writer, nat) sm" where
  "vw_close finish w =
     (let w = (if vw_initialized w then w else vw_init_writer (w\<lparr>vw_initialized := True\<rparr>));
          w = (if vw_chunk_offset w \<noteq> 0 then vw_emit (vw_checksum w) w else w)
      in if \<not> vw_started w then (Inl AssertionError, w)
         else case finish of Inl e \<Rightarrow> (Inl e, w)
           | Inr None \<Rightarrow> (Inl TunnelError, w)
           | Inr (Some status) \<Rightarrow> if status < 400 then (Inr status, w) else (Inl TunnelError, w))"

text \<open>Leaving a \<^verbatim>\<open>with\<close> block: nothing is closed when it was left by an exception.\<close>

definition vw_exit :: "py_error option \<Rightarrow> nat option result \<Rightarrow> (volume_writer, unit) sm" where
  "vw_exit exc finish =
     (case exc of Some e \<Rightarrow> sret () | None \<Rightarrow> sthen (vw_close finish) (sret ()))"

section \<open>The file that is sent\<close>

definition crc_be :: "bytes \<Rightarrow> bytes" where
  "crc_be fed = be_bytes 4 (uint (zlib_crc32 fed 0))"

fun chunk_frames :: "bytes \<Rightarrow> bytes list \<Rightarrow> bytes" where
  "chunk_frames fed [] = []"
| "chunk_frames fed (b # bs) = b @ crc_be (fed @ b) @ chunk_frames (fed @ b) bs"

definition volume_file :: "nat \<Rightarrow> bytes list \<Rightarrow> bytes" where
  "volume_file n blocks = be_bytes 4 (int n) @ chunk_frames (be_bytes 4 (int n)) blocks"

lemma chunk_frames_append:
  "chunk_frames fed (xs @ ys) = chunk_frames fed xs @ chunk_frames (fed @ concat xs) ys"
  by (induction xs arbitrary: fed) simp_all

lemma CHUNK_SIZE_pos: "0 < CHUNK_SIZE"
  by (simp add: CHUNK_SIZE_def)

lemma slices_of_Nil [simp]: "slices_of n [] = []"
  by (simp add: slices_of.simps)

lemma slices_of_last:
  assumes "0 < n" and "P \<noteq> []" and "length P \<le> n"
  shows "n dvd length F \<Longrightarrow> slices_of n (F @ P) = slices_of n F @ [P]"
proof (induction "length F" arbitrary: F rule: less_induct)
  case less
  show ?case
  proof (cases "F = []")
    case True
    with assms show ?thesis by (simp add: slices_of.simps [of n P])
  next
    case False
    with less.prems have l: "n \<le> length F" by (auto dest: dvd_imp_le)
    have "slices_of n (drop n F @ P) = slices_of n (drop n F) @ [P]"
      using less.hyps [of "drop n F"] less.prems False assms(1) by (auto simp: dvd_diff_nat)
    with l assms(1) False show ?thesis
      by (simp add: slices_of.simps [of n "F @ P"] slices_of.simps [of n F])
  qed
qed

definition volume_image :: "bytes \<Rightarrow> bytes" where
  "volume_image D = volume_file CHUNK_SIZE (slices_of CHUNK_SIZE D)"

abbreviation header_bytes :: bytes where
  "header_bytes \<equiv> be_bytes 4 (int CHUNK_SIZE)"

text \<open>A writer that was given \<open>D\<close>: full chunks with their checksums, then a chunk being written.\<close>

definition has_written :: "bytes \<Rightarrow> volume_writer \<Rightarrow> bool" where
  "has_written D w \<longleftrightarrow> vw_initialized w \<and> vw_started w \<and>
     vw_crc w = C32 (Some (zlib_crc32 (header_bytes @ D) 0)) \<and>
     (\<exists>F P. D = F @ P \<and> CHUNK_SIZE dvd length F \<and> length P \<le> CHUNK_SIZE \<and> vw_chunk_offset w = length P \<and>
        concat (vw_written w) = header_bytes @ chunk_frames header_bytes (slices_of CHUNK_SIZE F) @ P)"

lemma zlib_append: "zlib_crc32 (xs @ ys) v = zlib_crc32 ys (zlib_crc32 xs v)"
  by (simp add: zlib_crc32_def)

lemma crc_fed: "checksum_raw b (C32 (Some (zlib_crc32 a 0))) = C32 (Some (zlib_crc32 (a @ b) 0))"
  by (simp add: crc32_update_eq zlib_append)

lemma has_written_checksum:
  "has_written D w \<Longrightarrow> vw_checksum w = crc_be (header_bytes @ D)"
  by (simp add: has_written_def vw_checksum_def crc_be_def)

text \<open>The file is complete once the checksum follows the last chunk.\<close>

lemma has_written_image:
  assumes "has_written D w" and "vw_chunk_offset w \<noteq> 0"
  shows "concat (vw_written (vw_emit (vw_checksum w) w)) = volume_image D"
proof -
  from assms obtain F P where D: "D = F @ P" "CHUNK_SIZE dvd length F" "length P \<le> CHUNK_SIZE" "P \<noteq> []"
    "concat (vw_written w) = header_bytes @ chunk_frames header_bytes (slices_of CHUNK_SIZE F) @ P"
    by (auto simp: has_written_def)
  from D slices_of_last [OF CHUNK_SIZE_pos D(4,3,2)] show ?thesis
    by (simp add: vw_emit_def volume_image_def volume_file_def chunk_frames_append slices_of_concat
        has_written_checksum [OF assms(1)] CHUNK_SIZE_pos)
qed

lemma has_written_full:
  assumes "has_written D w" and "vw_chunk_offset w = CHUNK_SIZE"
  shows "has_written D ((vw_emit (vw_checksum w) w)\<lparr>vw_chunk_offset := 0\<rparr>)"
proof -
  from assms obtain F P where D: "D = F @ P" "CHUNK_SIZE dvd length F" "length P = CHUNK_SIZE" by (auto simp: has_written_def)
  have "concat (vw_written (vw_emit (vw_checksum w) w)) = volume_image D"
    using assms CHUNK_SIZE_pos by (intro has_written_image) simp_all
  moreover have "CHUNK_SIZE dvd length D" using D by simp
  ultimately show ?thesis using assms(1)
    by (auto simp: has_written_def vw_emit_def volume_image_def volume_file_def intro!: exI [of _ D])
qed

lemma has_written_more:
  assumes "has_written D w" and "length b \<le> CHUNK_SIZE - vw_chunk_offset w" and "w1 = vw_emit b w"
  shows "has_written (D @ b)
    (w1\<lparr>vw_crc := checksum_raw b (vw_crc w1), vw_chunk_offset := vw_chunk_offset w1 + length b\<rparr>)"
proof -
  from assms(1) obtain F P where D: "D = F @ P" "CHUNK_SIZE dvd length F" "length P \<le> CHUNK_SIZE"
    "vw_chunk_offset w = length P"
    "concat (vw_written w) = header_bytes @ chunk_frames header_bytes (slices_of CHUNK_SIZE F) @ P"
    by (auto simp: has_written_def)
  let ?w = "w1\<lparr>vw_crc := checksum_raw b (vw_crc w1), vw_chunk_offset := vw_chunk_offset w1 + length b\<rparr>"
  have w: "vw_initialized ?w" "vw_started ?w" "vw_crc ?w = C32 (Some (zlib_crc32 (header_bytes @ D @ b) 0))"
    "concat (vw_written ?w) = concat (vw_written w) @ b" "vw_chunk_offset ?w = length (P @ b)"
    using assms D(4) crc_fed [of b "header_bytes @ D"] by (simp_all add: has_written_def vw_emit_def)
  have "D @ b = F @ P @ b" "length (P @ b) \<le> CHUNK_SIZE" using D assms(2) by simp_all
  with w D(2,5) show ?thesis unfolding has_written_def by (metis append.assoc)
qed

lemma vw_loop_written:
  assumes "has_written D w"
  shows "has_written (D @ buf) (vw_loop buf w) \<and> (buf \<noteq> [] \<longrightarrow> vw_chunk_offset (vw_loop buf w) \<noteq> 0)"
  using assms
proof (induction buf w arbitrary: D rule: vw_loop.induct)
  case (1 buf w)
  consider "buf = []" | "buf \<noteq> []" "vw_chunk_offset w = CHUNK_SIZE" | "buf \<noteq> []" "vw_chunk_offset w \<noteq> CHUNK_SIZE"
    by blast
  then show ?case
  proof cases
    case 1
    with "1.prems" show ?thesis by (simp add: vw_loop.simps [of "[]"])
  next
    case 2
    from "1.IH"(1) [OF 2 has_written_full [OF "1.prems" 2(2)]] 2 show ?thesis
      by (simp add: vw_loop.simps [of buf w])
  next
    case 3
    define k where "k = (if CHUNK_SIZE - vw_chunk_offset w < length buf then CHUNK_SIZE - vw_chunk_offset w else length buf)"
    define w1 where "w1 = vw_emit (take k buf) w"
    define w2 where "w2 = w1\<lparr>vw_crc := checksum_raw (take k buf) (vw_crc w1), vw_chunk_offset := vw_chunk_offset w1 + k\<rparr>"
    have off: "vw_chunk_offset w < CHUNK_SIZE" using 3(2) "1.prems" by (auto simp: has_written_def)
    then have k: "0 < k" "k \<le> length buf" "k \<le> CHUNK_SIZE - vw_chunk_offset w" using 3(1) by (auto simp: k_def)
    then have w2: "has_written (D @ take k buf) w2"
      using has_written_more [OF "1.prems", of "take k buf" w1] by (simp add: w1_def w2_def)
    have step: "vw_loop buf w = vw_loop (drop k buf) w2"
      using 3 k(1) by (simp add: vw_loop.simps [of buf w] Let_def w1_def w2_def flip: k_def)
    from "1.IH"(2) [OF 3 k_def refl w1_def, of "D @ take k buf"] k(1) w2
    have ih: "has_written ((D @ take k buf) @ drop k buf) (vw_loop (drop k buf) w2)"
      "drop k buf \<noteq> [] \<longrightarrow> vw_chunk_offset (vw_loop (drop k buf) w2) \<noteq> 0" by (simp_all add: w2_def)
    have "drop k buf = [] \<Longrightarrow> vw_chunk_offset (vw_loop (drop k buf) w2) \<noteq> 0"
      using k(1) by (simp add: vw_loop.simps [of "[]"] w2_def)
    with ih show ?thesis by (auto simp: step)
  qed
qed

text \<open>Whole histories of a writer.\<close>

definition volume_bytes :: "volume_data list \<Rightarrow> bytes" where
  "volume_bytes datas = concat (List.map (\<lambda>d. case volume_binary d of None \<Rightarrow> [] | Some b \<Rightarrow> b) datas)"

lemma vw_init_written:
  "has_written [] ((vw_init_writer (vw_new\<lparr>vw_initialized := True\<rparr>))\<lparr>vw_started := True\<rparr>)"
  by (auto simp: has_written_def vw_init_writer_def vw_new_def vw_emit_def checksum_new_def py_lower_def Let_def
      crc32_update_eq)

definition in_progress :: "bytes \<Rightarrow> volume_writer \<Rightarrow> bool" where
  "in_progress D w \<longleftrightarrow> (if vw_initialized w then has_written D w \<and> (D \<noteq> [] \<longrightarrow> vw_chunk_offset w \<noteq> 0) else w = vw_new \<and> D = [])"

lemma vw_write_progress:
  assumes "in_progress D w" and "vw_write data w = (Inr u, w')"
  shows "in_progress (D @ volume_bytes [data]) w' \<and> vw_initialized w'"
proof -
  define v where "v = (if vw_initialized w then w else (vw_init_writer (w\<lparr>vw_initialized := True\<rparr>))\<lparr>vw_started := True\<rparr>)"
  have v: "has_written D v" using assms(1) vw_init_written by (auto simp: in_progress_def v_def)
  from assms(2) obtain b where b: "volume_binary data = Some b" "b \<noteq> []" "w' = vw_loop b v"
    by (auto simp: vw_write_def Let_def v_def split: option.splits if_splits)
  with vw_loop_written [OF v, of b] show ?thesis
    by (auto simp: in_progress_def volume_bytes_def has_written_def)
qed

lemma vw_writes_progress:
  assumes "in_progress D w" and "sseq (List.map vw_write datas) w = (Inr us, w')"
  shows "in_progress (D @ volume_bytes datas) w'"
  using assms
proof (induction datas arbitrary: D w us)
  case Nil
  then show ?case by (simp add: sret_apply volume_bytes_def)
next
  case (Cons d ds)
  from Cons.prems(2) obtain u w1 vs where w: "vw_write d w = (Inr u, w1)"
    "sseq (List.map vw_write ds) w1 = (Inr vs, w')"
    unfolding list.map sseq.simps sbind_eq_Inr sret_apply by auto
  from vw_write_progress [OF Cons.prems(1) w(1)] have "in_progress (D @ volume_bytes [d]) w1" by simp
  from Cons.IH [OF this w(2)] show ?case by (simp add: volume_bytes_def)
qed

lemma vw_file_written:
  assumes "sseq (List.map vw_write datas) vw_new = (Inr us, w)" and "vw_close finish w = (Inr status, w')"
  shows "concat (vw_written w') = volume_image (volume_bytes datas)"
proof -
  have "in_progress [] vw_new" by (simp add: in_progress_def vw_new_def)
  from vw_writes_progress [OF this assms(1)] have p: "in_progress (volume_bytes datas) w" by simp
  have i: "vw_initialized w"
    using assms(2) p by (cases "vw_initialized w")
      (auto simp: in_progress_def vw_close_def vw_new_def vw_init_writer_def vw_emit_def Let_def)
  with p have w: "has_written (volume_bytes datas) w" "volume_bytes datas \<noteq> [] \<longrightarrow> vw_chunk_offset w \<noteq> 0"
    by (simp_all add: in_progress_def)
  show ?thesis
  proof (cases "vw_chunk_offset w = 0")
    case True
    with w have e: "volume_bytes datas = []" "w' = w"
      using assms(2) i by (auto simp: vw_close_def Let_def split: sum.splits option.splits if_splits)
    with w(1) True show ?thesis
      by (auto simp: has_written_def volume_image_def volume_file_def)
  next
    case False
    with i assms(2) have "w' = vw_emit (vw_checksum w) w"
      by (auto simp: vw_close_def Let_def split: sum.splits option.splits if_splits)
    with has_written_image [OF w(1) False] show ?thesis by simp
  qed
qed

end
