(* ===== verification/Volume_Reader.thy ===== *)
theory Volume_Reader
  imports Volume_Writer Pb_Codec Input_Source
begin

text \<open>
  \<^verbatim>\<open>VolumeReader\<close> of \<^verbatim>\<open>odps/tunnel/volumetunnel.py\<close>, which verifies the chunks of a volume file and hands out
  bytes or lines. It is simulated by a reader whose source is the list of the chunks themselves.
\<close>

section \<open>VolumeReader\<close>

definition MAX_CHUNK_SIZE :: int where "MAX_CHUNK_SIZE = 256 * 1024 * 1024"
definition MIN_CHUNK_SIZE :: int where "MIN_CHUNK_SIZE = 1"
definition CHECKSUM_SIZE :: nat where "CHECKSUM_SIZE = 4"

text \<open>\<^verbatim>\<open>sys.maxsize\<close>.\<close>

definition MAXSIZE :: int where "MAXSIZE = 2 ^ 63 - 1"

definition CR :: byte where "CR = 13"
definition LF :: byte where "LF = 10"

text \<open>
  \<open>vr_raw\<close> is \<^verbatim>\<open>self._response\<close>. \<^verbatim>\<open>_left_part\<close> and \<^verbatim>\<open>_chunk_left\<close> are only tested for truth: \<open>[]\<close> stands for \<^verbatim>\<open>None\<close>
  too. \<^verbatim>\<open>_data_size\<close> is set whenever it is read.
\<close>

record 's volume_reader =
  vr_raw :: 's
  vr_crc :: checksum
  vr_buffer_size :: nat
  vr_initialized :: bool
  vr_last_line_ending :: "byte option"
  vr_eof :: bool
  vr_left_part :: bytes
  vr_left_part_pos :: nat
  vr_chunk_left :: bytes
  vr_data_size :: nat

definition vr_new :: "'s \<Rightarrow> 's volume_reader" where
  "vr_new raw = \<lparr>vr_raw = raw, vr_crc = checksum_new ''crc32'', vr_buffer_size = 0, vr_initialized = False,
     vr_last_line_ending = None, vr_eof = False, vr_left_part = [], vr_left_part_pos = 0,
     vr_chunk_left = [], vr_data_size = 0\<rparr>"

definition vr_raw_read :: "'s reading \<Rightarrow> nat \<Rightarrow> ('s volume_reader, bytes) sm" where
  "vr_raw_read rd n s = (case rd n (vr_raw s) of (buf, raw) \<Rightarrow> (Inr buf, s\<lparr>vr_raw := raw\<rparr>))"

definition vr_init_buf :: "'s reading \<Rightarrow> ('s volume_reader, unit) sm" where
  "vr_init_buf rd =
     sbind (vr_raw_read rd 4) (\<lambda>size_buf.
       if size_buf = [] then sraise OSError
       else sthen (smod (\<lambda>s. s\<lparr>vr_crc := checksum_raw size_buf (vr_crc s)\<rparr>))
         (sbind (slift (unpack_be32 size_buf)) (\<lambda>chunk_size.
           if MAX_CHUNK_SIZE < chunk_size \<or> chunk_size < MIN_CHUNK_SIZE then sraise OSError
           else smod (\<lambda>s. s\<lparr>vr_buffer_size := CHECKSUM_SIZE + nat chunk_size\<rparr>))))"

text \<open>The loop of \<^verbatim>\<open>_read_buf\<close>: \<open>data\<close> is what is in \<^verbatim>\<open>data_buffer\<close>, the result what is added to it.\<close>

function vr_gather :: "'s reading \<Rightarrow> nat \<Rightarrow> nat \<Rightarrow> 's \<Rightarrow> bytes \<times> 's" where
  "vr_gather rd buffer_size tell raw =
     (if \<not> tell < buffer_size then ([], raw)
      else case rd buffer_size raw of (buf, raw') \<Rightarrow>
        if buf = [] then ([], raw')
        else case vr_gather rd buffer_size (tell + length buf) raw' of (rest, t) \<Rightarrow> (buf @ rest, t))"
  by pat_completeness auto
termination
  by (relation "measure (\<lambda>(_, buffer_size, tell, _). buffer_size - tell)") (auto simp: diff_less_mono2)

declare vr_gather.simps [simp del]

definition vr_read_buf :: "'s reading \<Rightarrow> ('s volume_reader, bytes option) sm" where
  "vr_read_buf rd s =
     (let size = vr_buffer_size s; cached = vr_chunk_left s in
      case vr_gather rd size (length cached) (vr_raw s) of (added, raw) \<Rightarrow>
        let s = s\<lparr>vr_raw := raw, vr_chunk_left := []\<rparr>; data = cached @ added in
        if added = [] then (Inr None, s)
        else
          let buf = take size data;
              s = (if length data \<le> size then s else s\<lparr>vr_chunk_left := drop size data\<rparr>)
          in if length buf < CHECKSUM_SIZE then (Inl OSError, s)
             else
               let data_size = length buf - CHECKSUM_SIZE; block = take data_size buf;
                   s = s\<lparr>vr_data_size := data_size, vr_crc := checksum_raw block (vr_crc s)\<rparr>
               in case unpack_be32 (drop data_size buf) of Inl e \<Rightarrow> (Inl e, s)
                  | Inr checksum \<Rightarrow>
                      if map_option uint (checksum_getvalue (vr_crc s)) \<noteq> Some checksum then (Inl OSError, s)
                      else (Inr (Some block), s))"

section \<open>Reading\<close>

text \<open>The index of the first line ending from \<open>idx\<close> on.\<close>

fun find_eol :: "nat \<Rightarrow> bytes \<Rightarrow> nat option" where
  "find_eol idx [] = None"
| "find_eol idx (b # bs) = (if b = CR \<or> b = LF then Some idx else find_eol (Suc idx) bs)"

text \<open>\<^verbatim>\<open>buf[start:stop]\<close>.\<close>

definition slice :: "bytes \<Rightarrow> nat \<Rightarrow> nat \<Rightarrow> bytes" where
  "slice buf start stop = take (stop - start) (drop start buf)"

text \<open>
  What \<^verbatim>\<open>read\<close> does with the part left by an earlier read, in two stages, for lines and for sizes;
  \<open>Some\<close> is what it returns, \<open>None\<close> means that it goes on.
\<close>

definition left_line :: "('s volume_reader, bytes option) sm" where
  "left_line s =
     (let left = vr_left_part s; pos = vr_left_part_pos s in
      if length left \<le> pos then (Inl IndexError, s)
      else
        let s = (if left ! pos = LF \<and> vr_last_line_ending s = Some CR
                 then s\<lparr>vr_last_line_ending := None, vr_left_part_pos := pos + 1\<rparr> else s);
            pos = vr_left_part_pos s
        in case find_eol pos (drop pos left) of None \<Rightarrow> (Inr None, s)
           | Some idx \<Rightarrow>
               let left' = left[idx := LF];
                   s = s\<lparr>vr_last_line_ending := Some (left ! idx), vr_left_part := left',
                         vr_left_part_pos := idx + 1\<rparr>;
                   s = (if idx + 1 = length left' then s\<lparr>vr_left_part := [], vr_left_part_pos := 0\<rparr> else s)
               in (Inr (Some (slice left' pos (idx + 1))), s))"

definition left_sized :: "int \<Rightarrow> ('s volume_reader, bytes option) sm" where
  "left_sized n s =
     (let left = vr_left_part s; pos = vr_left_part_pos s in
      if n \<le> int (length left) - int pos
      then (Inr (Some (slice left pos (pos + nat n))), s\<lparr>vr_left_part_pos := pos + nat n\<rparr>)
      else (Inr None, s))"

text \<open>
  What the loop of \<^verbatim>\<open>read\<close> does with a chunk, \<open>out\<close> being the content of \<^verbatim>\<open>out_buf\<close>: it returns a line
  (\<open>Inl\<close>), or goes on with a new \<^verbatim>\<open>length_left\<close> and \<^verbatim>\<open>out_buf\<close> (\<open>Inr\<close>).
\<close>

definition use_chunk ::
    "bool \<Rightarrow> int \<Rightarrow> bytes \<Rightarrow> bytes \<Rightarrow> ('s volume_reader, bytes + int \<times> bytes) sm" where
  "use_chunk break_line length_left out buf s =
     (if break_line \<and> buf = [] then (Inl IndexError, s)
      else
        let start_pos = (if break_line \<and> buf ! 0 = LF \<and> vr_last_line_ending s = Some CR then 1 else 0)
        in case (if break_line then find_eol start_pos (drop start_pos buf) else None) of
             Some idx \<Rightarrow>
               let s = s\<lparr>vr_last_line_ending := Some (buf ! idx)\<rparr>; buf = buf[idx := LF];
                   out = out @ slice buf start_pos (idx + 1);
                   s = (if idx + 1 < length buf
                        then s\<lparr>vr_left_part := drop (idx + 1) buf, vr_left_part_pos := 0\<rparr> else s)
               in (Inr (Inl out), s)
           | None \<Rightarrow>
               if length_left \<le> int (length buf) then
                 let stop = start_pos + nat length_left;
                     s = (if length_left < int (length buf)
                          then s\<lparr>vr_left_part := drop stop buf, vr_left_part_pos := 0\<rparr> else s)
                 in (Inr (Inr (0, out @ slice buf start_pos stop)), s)
               else (Inr (Inr (length_left - int (vr_data_size s),
                       out @ slice buf start_pos (start_pos + vr_data_size s))), s))"

text \<open>
  The loop itself, \<open>rb\<close> being \<^verbatim>\<open>_read_buf\<close>. A chunk without data does not lessen \<^verbatim>\<open>length_left\<close>, so the loop is
  bounded by fuel.
\<close>

fun vr_loop ::
    "('s volume_reader, bytes option) sm \<Rightarrow> bool \<Rightarrow> nat \<Rightarrow> int \<Rightarrow> bytes \<Rightarrow> bool \<Rightarrow>
     ('s volume_reader, bytes option) sm" where
  "vr_loop rb break_line 0 length_left out has_stuff = sraise FuelExhausted"
| "vr_loop rb break_line (Suc fuel) length_left out has_stuff =
     (if \<not> 0 < length_left then sret (if has_stuff then Some out else None)
      else sbind rb (\<lambda>chunk. case chunk of
          None \<Rightarrow> sthen (smod (\<lambda>s. s\<lparr>vr_eof := True\<rparr>)) (sret (if has_stuff then Some out else None))
        | Some buf \<Rightarrow> sbind (use_chunk break_line length_left out buf) (\<lambda>next. case next of
              Inl line \<Rightarrow> sret (Some line)
            | Inr (length_left', out') \<Rightarrow> vr_loop rb break_line fuel length_left' out' True)))"

text \<open>The rest of what is left goes to \<^verbatim>\<open>out_buf\<close> before the loop.\<close>

definition take_left :: "('s volume_reader, bytes) sm" where
  "take_left s = (Inr (drop (vr_left_part_pos s) (vr_left_part s)), s\<lparr>vr_left_part := [], vr_left_part_pos := 0\<rparr>)"

definition vr_read_left ::
    "('s volume_reader, bytes option) sm \<Rightarrow> nat \<Rightarrow> int \<Rightarrow> bool \<Rightarrow> ('s volume_reader, bytes option) sm" where
  "vr_read_left rb fuel n break_line =
     sbind (sget (\<lambda>s. vr_left_part s = [])) (\<lambda>nothing_left.
       if nothing_left then vr_loop rb break_line fuel n [] False
       else
         sbind (if break_line then left_line else sret None) (\<lambda>line.
           if line \<noteq> None then sret line
           else sbind (left_sized n) (\<lambda>part.
             if part \<noteq> None then sret part
             else sbind take_left (\<lambda>out. vr_loop rb break_line fuel (n - int (length out)) out True))))"

text \<open>\<^verbatim>\<open>read\<close>, with \<^verbatim>\<open>_init_buf\<close> and \<^verbatim>\<open>_read_buf\<close> as arguments; a size is a natural number or \<^verbatim>\<open>None\<close>.\<close>

definition vr_read_by ::
    "('s volume_reader, unit) sm \<Rightarrow> ('s volume_reader, bytes option) sm \<Rightarrow> nat \<Rightarrow> nat option \<Rightarrow> bool \<Rightarrow>
     ('s volume_reader, bytes option) sm" where
  "vr_read_by init rb fuel limit break_line s =
     (let n = (case limit of None \<Rightarrow> MAXSIZE | Some k \<Rightarrow> int k) in
      if vr_eof s then (Inr None, s)
      else if n = 0 then (Inr (Some []), s)
      else
        sthen (if vr_initialized s then sret ()
               else sthen (smod (\<lambda>s. s\<lparr>vr_initialized := True\<rparr>)) init)
          (vr_read_left rb fuel n break_line) s)"

definition vr_read :: "'s reading \<Rightarrow> nat \<Rightarrow> nat option \<Rightarrow> bool \<Rightarrow> ('s volume_reader, bytes option) sm" where
  "vr_read rd = vr_read_by (vr_init_buf rd) (vr_read_buf rd)"

text \<open>\<^verbatim>\<open>readline\<close> and \<^verbatim>\<open>readlines\<close>, without the decoding of the bytes; the second loop has its own fuel.\<close>

definition vr_readline :: "'s reading \<Rightarrow> nat \<Rightarrow> nat option \<Rightarrow> ('s volume_reader, bytes option) sm" where
  "vr_readline rd fuel limit = vr_read rd fuel limit True"

fun lines_by :: "('s volume_reader, bytes option) sm \<Rightarrow> nat \<Rightarrow> ('s volume_reader, bytes list) sm" where
  "lines_by line 0 = sraise FuelExhausted"
| "lines_by line (Suc n) =
     sbind line (\<lambda>r. case r of None \<Rightarrow> sret [] | Some l \<Rightarrow> sbind (lines_by line n) (\<lambda>ls. sret (l # ls)))"

definition vr_readlines ::
    "'s reading \<Rightarrow> nat \<Rightarrow> nat option \<Rightarrow> nat \<Rightarrow> ('s volume_reader, bytes list) sm" where
  "vr_readlines rd fuel limit n = lines_by (vr_readline rd fuel limit) n"

section \<open>A reader of chunks\<close>

text \<open>
  The same reader over the list of the chunks' data: nothing precedes them, and the next one is
  taken off the list.
\<close>

definition chunk_init :: "(bytes list volume_reader, unit) sm" where
  "chunk_init = sret ()"

definition chunk_read :: "(bytes list volume_reader, bytes option) sm" where
  "chunk_read s = (case vr_raw s of [] \<Rightarrow> (Inr None, s)
     | b # bs \<Rightarrow> (Inr (Some b), s\<lparr>vr_raw := bs, vr_data_size := length b\<rparr>))"

definition same_view :: "'s volume_reader \<Rightarrow> 't volume_reader \<Rightarrow> bool" where
  "same_view s t \<longleftrightarrow> vr_initialized s = vr_initialized t \<and> vr_last_line_ending s = vr_last_line_ending t \<and>
     vr_eof s = vr_eof t \<and> vr_left_part s = vr_left_part t \<and> vr_left_part_pos s = vr_left_part_pos t \<and>
     vr_data_size s = vr_data_size t"

text \<open>All chunks are full but the last one, and none is empty.\<close>

fun full_chunks :: "nat \<Rightarrow> bytes list \<Rightarrow> bool" where
  "full_chunks n [] = True"
| "full_chunks n (b # bs) = (b \<noteq> [] \<and> length b \<le> n \<and> (bs \<noteq> [] \<longrightarrow> length b = n) \<and> full_chunks n bs)"

lemma vr_gather_Nil: "bs \<le> tell \<Longrightarrow> vr_gather rd bs tell raw = ([], raw)"
  by (simp add: vr_gather.simps)

lemma length_crc_be [simp]: "length (crc_be x) = 4"
  by (simp add: crc_be_def)

lemma crc_be_neq_Nil [simp]: "crc_be x \<noteq> []"
  by (simp flip: length_0_conv)

lemma unpack_crc_be [simp]: "unpack_be32 (crc_be x) = Inr (uint (zlib_crc32 x 0))"
proof -
  have "uint (zlib_crc32 x 0) < 2 ^ 32" using uint_lt2p [of "zlib_crc32 x 0"] by simp
  then show ?thesis by (simp add: crc_be_def unpack_be_bytes)
qed

context byte_source
begin

definition over_file :: "'s volume_reader \<Rightarrow> bytes list volume_reader \<Rightarrow> bool" where
  "over_file s t \<longleftrightarrow> valid (vr_raw s) \<and> vr_chunk_left s = [] \<and>
     (\<exists>n. 1 \<le> n \<and> int n \<le> MAX_CHUNK_SIZE \<and> full_chunks n (vr_raw t) \<and>
        (if vr_initialized s then vr_buffer_size s = 4 + n \<and>
           (\<exists>fed. vr_crc s = C32 (Some (zlib_crc32 fed 0)) \<and> content (vr_raw s) = chunk_frames fed (vr_raw t))
         else vr_crc s = C32 None \<and> content (vr_raw s) = volume_file n (vr_raw t)))"

definition reads_file :: "'s volume_reader \<Rightarrow> bytes list volume_reader \<Rightarrow> bool" where
  "reads_file s t \<longleftrightarrow> same_view s t \<and> over_file s t"

definition in_file :: "'s volume_reader \<Rightarrow> bytes list volume_reader \<Rightarrow> bool" where
  "in_file s t \<longleftrightarrow> reads_file s t \<and> vr_initialized s"

lemma gather_content:
  assumes "valid raw" and "0 < bs"
  obtains raw' where "vr_gather rd bs 0 raw = (take bs (content raw), raw')" and "valid raw'"
    and "content raw' = drop bs (content raw)"
proof -
  obtain c u where c: "rd bs raw = (c, u)" by fastforce
  with rd_result [OF assms(1), of bs] rd_content [OF assms(1), of bs] rd_valid [OF assms(1), of bs]
  have u: "c = take bs (content raw)" "content u = drop bs (content raw)" "valid u" by simp_all
  show ?thesis
  proof (cases "c = [] \<or> bs \<le> length c")
    case True
    with c u assms(2) show ?thesis by (intro that) (auto simp: vr_gather.simps [of rd bs] vr_gather_Nil)
  next
    case False
    then have l: "content u = []" using u(1,2) by simp
    obtain d v where d: "rd bs u = (d, v)" by fastforce
    with rd_result [OF u(3), of bs] rd_content [OF u(3), of bs] rd_valid [OF u(3), of bs] l
    have "d = []" "content v = []" "valid v" by simp_all
    with c d False u(1,2) l assms(2) show ?thesis
      by (intro that [of v]) (auto simp: vr_gather.simps [of rd bs])
  qed
qed

lemma sim_chunk_read: "ssim in_file (vr_read_buf rd) chunk_read"
  unfolding ssim_def
proof (intro allI impI)
  fix s t assume st: "in_file s t"
  then obtain n fed where n: "1 \<le> n" "full_chunks n (vr_raw t)" "int n \<le> MAX_CHUNK_SIZE" and
    s: "valid (vr_raw s)" "vr_chunk_left s = []" "vr_buffer_size s = 4 + n" "vr_initialized s" "same_view s t"
      "vr_crc s = C32 (Some (zlib_crc32 fed 0))" "content (vr_raw s) = chunk_frames fed (vr_raw t)"
    by (auto simp: in_file_def reads_file_def over_file_def)
  obtain raw where g: "vr_gather rd (4 + n) 0 (vr_raw s) = (take (4 + n) (content (vr_raw s)), raw)"
    "valid raw" "content raw = drop (4 + n) (content (vr_raw s))"
    using gather_content [OF s(1), of "4 + n"] by auto
  show "fst (vr_read_buf rd s) = fst (chunk_read t) \<and> in_file (snd (vr_read_buf rd s)) (snd (chunk_read t))"
  proof (cases "vr_raw t")
    case Nil
    with s g n st show ?thesis
      by (auto simp: vr_read_buf_def chunk_read_def in_file_def reads_file_def over_file_def same_view_def Let_def)
  next
    case (Cons b bs)
    with n(2) have b: "b \<noteq> []" "length b \<le> n" "bs \<noteq> [] \<longrightarrow> length b = n" "full_chunks n bs" by simp_all
    have "bs = [] \<or> length b = n" using b(3) by blast
    then have got: "take (4 + n) (content (vr_raw s)) = b @ crc_be (fed @ b)"
      "content raw = chunk_frames (fed @ b) bs"
      using s(7) g(3) Cons b(2) by (auto simp: take_Cons')
    define s' where "s' = s\<lparr>vr_raw := raw, vr_chunk_left := [], vr_data_size := length b,
      vr_crc := C32 (Some (zlib_crc32 (fed @ b) 0))\<rparr>"
    have r: "vr_read_buf rd s = (Inr (Some b), s')"
      using g(1) s(2,3,6) b(2) crc_fed [of b fed] unfolding got(1)
      by (simp add: vr_read_buf_def CHECKSUM_SIZE_def s'_def Let_def del: checksum_raw.simps)
    have "same_view s' (t\<lparr>vr_raw := bs, vr_data_size := length b\<rparr>)"
      using s(5) by (simp add: same_view_def s'_def)
    moreover have "over_file s' (t\<lparr>vr_raw := bs, vr_data_size := length b\<rparr>)"
      using n(1,3) b(4) g(2) got(2) s(3,4) by (auto simp: over_file_def s'_def)
    ultimately show ?thesis
      using r s(4) by (simp add: chunk_read_def Cons in_file_def reads_file_def s'_def)
  qed
qed


lemma in_file_update [intro]:
  assumes "in_file s t"
  shows "in_file (s\<lparr>vr_last_line_ending := x\<rparr>) (t\<lparr>vr_last_line_ending := x\<rparr>)"
    and "in_file (s\<lparr>vr_eof := e\<rparr>) (t\<lparr>vr_eof := e\<rparr>)"
    and "in_file (s\<lparr>vr_left_part := l\<rparr>) (t\<lparr>vr_left_part := l\<rparr>)"
    and "in_file (s\<lparr>vr_left_part_pos := p\<rparr>) (t\<lparr>vr_left_part_pos := p\<rparr>)"
  using assms by (auto simp: in_file_def reads_file_def over_file_def same_view_def)

lemma in_file_view:
  "in_file s t \<Longrightarrow> vr_last_line_ending s = vr_last_line_ending t \<and> vr_eof s = vr_eof t \<and>
     vr_left_part s = vr_left_part t \<and> vr_left_part_pos s = vr_left_part_pos t \<and> vr_data_size s = vr_data_size t"
  by (simp add: in_file_def reads_file_def same_view_def)

lemma sim_view [sim_intros]: "(\<And>s t. same_view s t \<Longrightarrow> f s = g t) \<Longrightarrow> ssim in_file (sget f) (sget g)"
  by (auto simp: ssim_def sget_apply in_file_def reads_file_def)

text \<open>Operations that only look at and change what both readers share.\<close>

lemma sim_shared [sim_intros]:
  "ssim in_file left_line left_line" "ssim in_file (left_sized n) (left_sized n)" "ssim in_file take_left take_left"
  "ssim in_file (use_chunk brk n out buf) (use_chunk brk n out buf)"
  "ssim in_file (smod (\<lambda>s. s\<lparr>vr_eof := e\<rparr>)) (smod (\<lambda>s. s\<lparr>vr_eof := e\<rparr>))"
  unfolding ssim_def
  by (intro allI impI; frule in_file_view; auto simp: left_line_def left_sized_def take_left_def use_chunk_def
      smod_apply Let_def split: option.split)+

lemma sim_loop [sim_intros]:
  "ssim in_file (vr_loop (vr_read_buf rd) brk fuel n out stuff) (vr_loop chunk_read brk fuel n out stuff)"
proof (induction fuel arbitrary: n out stuff)
  case (Suc fuel)
  then show ?case
    unfolding vr_loop.simps by (intro sim_intros ssim_cases sim_chunk_read)
qed (simp add: sim_intros)

lemma sim_read_left [sim_intros]:
  "ssim in_file (vr_read_left (vr_read_buf rd) fuel n brk) (vr_read_left chunk_read fuel n brk)"
  unfolding vr_read_left_def by (intro sim_intros) (simp add: same_view_def)

lemma init_in_file:
  assumes "reads_file s t" and "\<not> vr_initialized s"
  obtains s' where "vr_init_buf rd (s\<lparr>vr_initialized := True\<rparr>) = (Inr (), s')"
    and "in_file s' (t\<lparr>vr_initialized := True\<rparr>)"
proof -
  from assms obtain n where n: "1 \<le> n" "int n \<le> MAX_CHUNK_SIZE" "full_chunks n (vr_raw t)" and
    s: "valid (vr_raw s)" "vr_chunk_left s = []" "vr_crc s = C32 None" "same_view s t"
      "content (vr_raw s) = volume_file n (vr_raw t)"
    by (auto simp: reads_file_def over_file_def)
  obtain c raw where c: "rd 4 (vr_raw s) = (c, raw)" by fastforce
  with rd_result [OF s(1), of 4] rd_content [OF s(1), of 4] rd_valid [OF s(1), of 4] s(5)
  have raw: "c = be_bytes 4 (int n)" "content raw = chunk_frames (be_bytes 4 (int n)) (vr_raw t)" "valid raw"
    by (simp_all add: volume_file_def)
  define s' where "s' = s\<lparr>vr_initialized := True, vr_raw := raw, vr_buffer_size := 4 + n,
    vr_crc := C32 (Some (zlib_crc32 (be_bytes 4 (int n)) 0))\<rparr>"
  have "int n < 2 ^ 32" using n(2) by (simp add: MAX_CHUNK_SIZE_def)
  then have "vr_init_buf rd (s\<lparr>vr_initialized := True\<rparr>) = (Inr (), s')"
    using n(1,2) s(3) c raw(1) unpack_be_bytes [of "int n"]
    by (simp add: vr_init_buf_def vr_raw_read_def monad_simps crc32_update_eq MIN_CHUNK_SIZE_def CHECKSUM_SIZE_def s'_def)
  moreover have "in_file s' (t\<lparr>vr_initialized := True\<rparr>)"
    using n raw(2,3) s(2,4) by (auto simp: in_file_def reads_file_def over_file_def same_view_def s'_def)
  ultimately show ?thesis by (rule that)
qed

lemma sim_read:
  "ssim reads_file (vr_read rd fuel limit brk) (vr_read_by chunk_init chunk_read fuel limit brk)"
  unfolding ssim_def
proof (intro allI impI)
  fix s t assume st: "reads_file s t"
  let ?n = "case limit of None \<Rightarrow> MAXSIZE | Some k \<Rightarrow> int k"
  let ?P = "\<lambda>x y. fst x = fst y \<and> reads_file (snd x) (snd y)"
  have v: "vr_eof s = vr_eof t" "vr_initialized s = vr_initialized t" using st by (simp_all add: reads_file_def same_view_def)
  have read: "?P (vr_read_left (vr_read_buf rd) fuel ?n brk s') (vr_read_left chunk_read fuel ?n brk t')"
    if "in_file s' t'" for s' t'
    using ssimD [OF sim_read_left that, of fuel ?n brk] by (simp add: in_file_def)
  consider "vr_eof s \<or> ?n = 0" | "\<not> vr_eof s" "?n \<noteq> 0" "vr_initialized s" | "\<not> vr_eof s" "?n \<noteq> 0" "\<not> vr_initialized s"
    by blast
  then show "?P (vr_read rd fuel limit brk s) (vr_read_by chunk_init chunk_read fuel limit brk t)"
  proof cases
    case 1
    with st v show ?thesis by (auto simp: vr_read_def vr_read_by_def Let_def)
  next
    case 2
    with st read [of s t] v show ?thesis by (simp add: vr_read_def vr_read_by_def in_file_def Let_def)
  next
    case 3
    from init_in_file [OF st 3(3)] obtain s' where s': "vr_init_buf rd (s\<lparr>vr_initialized := True\<rparr>) = (Inr (), s')"
      "in_file s' (t\<lparr>vr_initialized := True\<rparr>)" .
    from read [OF s'(2)] 3 v s'(1) show ?thesis
      by (simp add: vr_read_def vr_read_by_def chunk_init_def monad_simps Let_def)
  qed
qed

end

end
