(* ===== verification/Volume_File.thy ===== *)
theory Volume_File
  imports Volume_Reader
begin

text \<open>
  Volume files as a whole: what \<^verbatim>\<open>VolumeWriter\<close> sends as the body of a request, \<^verbatim>\<open>VolumeReader\<close> reads back, with
  sizes or line by line.
\<close>

section \<open>Reads with a size\<close>

text \<open>What a reader of chunks still has to deliver, and its invariant.\<close>

definition pending :: "bytes list volume_reader \<Rightarrow> bytes" where
  "pending t = drop (vr_left_part_pos t) (vr_left_part t) @ concat (vr_raw t)"

definition sound_reader :: "bytes list volume_reader \<Rightarrow> bool" where
  "sound_reader t \<longleftrightarrow> [] \<notin> set (vr_raw t) \<and> vr_left_part_pos t \<le> length (vr_left_part t) \<and>
     (vr_eof t \<longrightarrow> pending t = [])"

definition read_bytes :: "bytes option \<Rightarrow> bytes" where
  "read_bytes r = (case r of None \<Rightarrow> [] | Some b \<Rightarrow> b)"

lemma read_bytes_simps [simp]: "read_bytes None = []" "read_bytes (Some b) = b"
  by (simp_all add: read_bytes_def)

lemma slice_start [simp]: "slice buf start (start + n) = take n (drop start buf)" "slice buf 0 n = take n buf"
  by (simp_all add: slice_def)

lemma loop_sized:
  assumes "[] \<notin> set (vr_raw t)" and "vr_left_part t = []" and "vr_left_part_pos t = 0" and "\<not> vr_eof t"
    and "length (vr_raw t) < fuel"
  shows "\<exists>r t'. vr_loop chunk_read False fuel n out stuff t = (Inr r, t') \<and>
    (r = (if stuff \<or> 0 < n \<and> vr_raw t \<noteq> [] then Some (out @ take (nat n) (concat (vr_raw t))) else None)) \<and>
    pending t' = drop (nat n) (concat (vr_raw t)) \<and> sound_reader t' \<and> length (vr_raw t') \<le> length (vr_raw t)"
  using assms
proof (induction fuel arbitrary: n out stuff t)
  case (Suc fuel)
  show ?case
  proof (cases "0 < n")
    case False
    with Suc.prems show ?thesis by (simp add: sret_apply pending_def sound_reader_def)
  next
    case n: True
    show ?thesis
    proof (cases "vr_raw t")
      case Nil
      with n Suc.prems show ?thesis
        by (simp add: monad_simps chunk_read_def pending_def sound_reader_def)
    next
      case (Cons b bs)
      with Suc.prems obtain f where f: "fuel = Suc f" by (cases fuel) auto
      define t1 where "t1 = t\<lparr>vr_raw := bs, vr_data_size := length b\<rparr>"
      have b: "b \<noteq> []" "[] \<notin> set bs" using Suc.prems(1) Cons by auto
      show ?thesis
      proof (cases "n \<le> int (length b)")
        case True
        define t2 where "t2 = (if n < int (length b) then t1\<lparr>vr_left_part := drop (nat n) b, vr_left_part_pos := 0\<rparr> else t1)"
        have "vr_loop chunk_read False (Suc fuel) n out stuff t = (Inr (Some (out @ take (nat n) b)), t2)"
          using n True Cons by (simp add: monad_simps chunk_read_def use_chunk_def Let_def f t1_def t2_def)
        moreover have "pending t2 = drop (nat n) (concat (vr_raw t))" "sound_reader t2" "length (vr_raw t2) \<le> length (vr_raw t)"
          using True b Suc.prems(2-4) Cons by (auto simp: pending_def sound_reader_def t1_def t2_def)
        ultimately show ?thesis using True n Cons by simp
      next
        case False
        have step: "vr_loop chunk_read False (Suc fuel) n out stuff t =
            vr_loop chunk_read False fuel (n - int (length b)) (out @ b) True t1"
          using n False Cons by (simp add: monad_simps chunk_read_def use_chunk_def Let_def t1_def)
        have "[] \<notin> set (vr_raw t1)" "vr_left_part t1 = []" "vr_left_part_pos t1 = 0" "\<not> vr_eof t1"
          "length (vr_raw t1) < fuel" "vr_raw t1 = bs"
          using b Cons Suc.prems by (simp_all add: t1_def)
        with Suc.IH [of t1 "n - int (length b)" "out @ b" True] False n Cons show ?thesis
          by (auto simp: step nat_diff_distrib simp del: vr_loop.simps)
      qed
    qed
  qed
qed simp

lemma read_sized:
  assumes "sound_reader t" and "length (vr_raw t) < fuel"
  shows "\<exists>r t'. vr_read_by chunk_init chunk_read fuel limit False t = (Inr r, t') \<and>
    read_bytes r = take (nat (case limit of None \<Rightarrow> MAXSIZE | Some k \<Rightarrow> int k)) (pending t) \<and>
    pending t' = drop (nat (case limit of None \<Rightarrow> MAXSIZE | Some k \<Rightarrow> int k)) (pending t) \<and>
    sound_reader t' \<and> length (vr_raw t') \<le> length (vr_raw t)"
proof -
  define n where "n = (case limit of None \<Rightarrow> MAXSIZE | Some k \<Rightarrow> int k)"
  have n: "0 \<le> n" by (auto simp: n_def MAXSIZE_def split: option.split)
  show ?thesis
  proof (cases "vr_eof t \<or> n = 0")
    case True
    with assms(1) show ?thesis
      by (auto simp: vr_read_by_def Let_def sound_reader_def simp flip: n_def)
  next
    case False
    define u where "u = (if vr_initialized t then t else t\<lparr>vr_initialized := True\<rparr>)"
    have read: "vr_read_by chunk_init chunk_read fuel limit False t = vr_read_left chunk_read fuel n False u"
      using False by (cases "vr_initialized t")
        (simp_all add: vr_read_by_def chunk_init_def monad_simps Let_def u_def flip: n_def)
    have u: "sound_reader u" "pending u = pending t" "vr_raw u = vr_raw t" "\<not> vr_eof u"
      using assms(1) False by (simp_all add: u_def sound_reader_def pending_def)
    show ?thesis
    proof (cases "vr_left_part u = []")
      case True
      with u have "vr_left_part_pos u = 0" by (simp add: sound_reader_def)
      with loop_sized [of u fuel n "[]" False] True u assms(2) False n show ?thesis
        by (auto simp: read vr_read_left_def monad_simps sound_reader_def pending_def simp flip: n_def)
    next
      case left: False
      define l where "l = drop (vr_left_part_pos u) (vr_left_part u)"
      show ?thesis
      proof (cases "n \<le> int (length l)")
        case True
        define v where "v = u\<lparr>vr_left_part_pos := vr_left_part_pos u + nat n\<rparr>"
        have "vr_read_left chunk_read fuel n False u = (Inr (Some (take (nat n) l)), v)"
          using True left u(1) by (simp add: vr_read_left_def left_sized_def monad_simps Let_def l_def v_def
              sound_reader_def of_nat_diff)
        moreover have "take (nat n) (pending u) = take (nat n) l" "pending v = drop (nat n) (pending u)"
          "sound_reader v" "vr_raw v = vr_raw t"
          using True u(1,3,4) n
          by (auto simp: pending_def l_def v_def sound_reader_def nat_le_iff add.commute)
        ultimately show ?thesis unfolding read u(2) [symmetric] by (simp flip: n_def)
      next
        case False
        define v where "v = u\<lparr>vr_left_part := [], vr_left_part_pos := 0\<rparr>"
        have "vr_read_left chunk_read fuel n False u = vr_loop chunk_read False fuel (n - int (length l)) l True v"
          using False left u(1) by (simp add: vr_read_left_def left_sized_def take_left_def monad_simps Let_def l_def v_def
              sound_reader_def of_nat_diff)
        moreover have p: "pending u = l @ concat (vr_raw t)" using u(3) by (simp add: pending_def l_def)
        moreover have "[] \<notin> set (vr_raw v)" "vr_left_part v = []" "vr_left_part_pos v = 0" "\<not> vr_eof v" "vr_raw v = vr_raw t"
          using u by (simp_all add: v_def sound_reader_def)
        ultimately show ?thesis
          using loop_sized [of v fuel "n - int (length l)" l True] assms(2) False p
          unfolding read u(2) [symmetric] by (auto simp: nat_diff_distrib simp flip: n_def)
      qed
    qed
  qed
qed

lemma reads_sized:
  assumes "sound_reader t" and "length (vr_raw t) < fuel"
  shows "\<exists>rs t'. sseq (List.map (\<lambda>k. vr_read_by chunk_init chunk_read fuel (Some k) False) sizes) t = (Inr rs, t') \<and>
    concat (List.map read_bytes rs) = take (sum_list sizes) (pending t) \<and>
    pending t' = drop (sum_list sizes) (pending t) \<and> sound_reader t' \<and> length (vr_raw t') \<le> length (vr_raw t)"
  using assms
proof (induction sizes arbitrary: t)
  case Nil
  then show ?case by (simp add: sret_apply)
next
  case (Cons k ks)
  from read_sized [OF Cons.prems, of "Some k"] obtain r u where r:
    "vr_read_by chunk_init chunk_read fuel (Some k) False t = (Inr r, u)" "read_bytes r = take k (pending t)"
    "pending u = drop k (pending t)" "sound_reader u" "length (vr_raw u) \<le> length (vr_raw t)" by auto
  with Cons.prems(2) have "length (vr_raw u) < fuel" by simp
  from Cons.IH [OF r(4) this] r show ?case
    by (auto simp: sbind_Inr sret_apply take_add drop_drop add.commute)
qed

section \<open>Lines\<close>

lemma find_eol_eq:
  "find_eol k bs = (if CR \<in> set bs \<or> LF \<in> set bs
     then Some (k + length (takeWhile (\<lambda>b. b \<noteq> CR \<and> b \<noteq> LF) bs)) else None)"
  by (induction bs arbitrary: k) auto

definition first_line :: "bytes \<Rightarrow> bytes" where
  "first_line p = takeWhile (\<lambda>b. b \<noteq> LF) p @ (if LF \<in> set p then [LF] else [])"

definition after_line :: "bytes \<Rightarrow> bytes" where
  "after_line p = tl (dropWhile (\<lambda>b. b \<noteq> LF) p)"

lemma line_append:
  "LF \<notin> set a \<Longrightarrow> first_line (a @ b) = a @ first_line b"
  "LF \<notin> set a \<Longrightarrow> after_line (a @ b) = after_line b"
  "LF \<in> set a \<Longrightarrow> first_line (a @ b) = first_line a"
  "LF \<in> set a \<Longrightarrow> after_line (a @ b) = after_line a @ b"
proof -
  show "LF \<notin> set a \<Longrightarrow> first_line (a @ b) = a @ first_line b" "LF \<notin> set a \<Longrightarrow> after_line (a @ b) = after_line b"
    by (induction a) (auto simp: first_line_def after_line_def)
  show "LF \<in> set a \<Longrightarrow> first_line (a @ b) = first_line a" "LF \<in> set a \<Longrightarrow> after_line (a @ b) = after_line a @ b"
    by (induction a) (auto simp: first_line_def after_line_def)
qed

lemma length_after_line: "p \<noteq> [] \<Longrightarrow> length (after_line p) < length p"
  using length_dropWhile_le [of "\<lambda>b. b \<noteq> LF" p]
  by (simp add: after_line_def less_diff_conv2 flip: length_greater_0_conv)

lemma set_after_line: "set (after_line p) \<subseteq> set p"
  by (induction p) (auto simp: after_line_def)

text \<open>The lines of a text whose line ending is LF, with their ends kept.\<close>

function lf_lines :: "bytes \<Rightarrow> bytes list" where
  "lf_lines p = (if p = [] then [] else first_line p # lf_lines (after_line p))"
  by pat_completeness auto
termination
proof (relation "measure length", goal_cases)
  case (2 p)
  then show ?case unfolding in_measure by (rule length_after_line)
qed simp

declare lf_lines.simps [simp del]

text \<open>The place of the line ending that the code finds, in a text without CR.\<close>

lemma first_eol:
  assumes "CR \<notin> set p" and "LF \<in> set p" and "k = length (takeWhile (\<lambda>b. b \<noteq> LF) p)"
  shows "k < length p" and "p ! k = LF" and "take (Suc k) p = first_line p" and "drop (Suc k) p = after_line p"
proof -
  show k: "k < length p" unfolding assms(3) using assms(2) by (induction p) auto
  then show e: "p ! k = LF" using nth_length_takeWhile [of "\<lambda>b. b \<noteq> LF" p] by (simp flip: assms(3))
  have "takeWhile (\<lambda>b. b \<noteq> LF) p = take k p" unfolding assms(3) by (rule takeWhile_eq_take)
  with k e assms(2) show "take (Suc k) p = first_line p" by (simp add: take_Suc_conv_app_nth first_line_def)
  have "dropWhile (\<lambda>b. b \<noteq> LF) p = drop k p" unfolding assms(3) by (rule dropWhile_eq_drop)
  then show "drop (Suc k) p = after_line p" by (simp add: after_line_def drop_Suc tl_drop)
qed

lemma takeWhile_eol: "CR \<notin> set p \<Longrightarrow> takeWhile (\<lambda>b. b \<noteq> CR \<and> b \<noteq> LF) p = takeWhile (\<lambda>b. b \<noteq> LF) p"
  by (rule takeWhile_cong) auto

definition line_ready :: "bytes list volume_reader \<Rightarrow> bool" where
  "line_ready t \<longleftrightarrow> CR \<notin> set (pending t) \<and> vr_last_line_ending t \<noteq> Some CR \<and> [] \<notin> set (vr_raw t) \<and>
     (vr_left_part t = [] \<and> vr_left_part_pos t = 0 \<or> vr_left_part_pos t < length (vr_left_part t)) \<and>
     (vr_eof t \<longrightarrow> pending t = [])"

lemma LF_CR [simp]: "LF \<noteq> CR" "CR \<noteq> LF"
  by (simp_all add: LF_def CR_def)

lemma loop_line:
  assumes "line_ready t" and "vr_left_part t = []" and "\<not> vr_eof t"
    and "int (length (concat (vr_raw t))) < n" and "length (vr_raw t) < fuel"
  shows "\<exists>t'. vr_loop chunk_read True fuel n out stuff t =
      (Inr (if stuff \<or> vr_raw t \<noteq> [] then Some (out @ first_line (concat (vr_raw t))) else None), t') \<and>
    pending t' = after_line (concat (vr_raw t)) \<and> line_ready t' \<and> length (vr_raw t') \<le> length (vr_raw t)"
  using assms
proof (induction fuel arbitrary: n out stuff t)
  case (Suc fuel)
  have n: "0 < n" using Suc.prems(4) by linarith
  show ?case
  proof (cases "vr_raw t")
    case Nil
    with n Suc.prems show ?thesis
      by (auto simp: monad_simps chunk_read_def pending_def line_ready_def first_line_def after_line_def)
  next
    case (Cons b bs)
    define t1 where "t1 = t\<lparr>vr_raw := bs, vr_data_size := length b\<rparr>"
    from Suc.prems(1,2) Cons have b: "b \<noteq> []" "CR \<notin> set b" "CR \<notin> set (concat bs)" "[] \<notin> set bs"
      "vr_last_line_ending t \<noteq> Some CR" "vr_left_part_pos t = 0"
      by (auto simp: line_ready_def pending_def)
    show ?thesis
    proof (cases "LF \<in> set b")
      case True
      define k where "k = length (takeWhile (\<lambda>b. b \<noteq> LF) b)"
      note f = first_eol [OF b(2) True k_def]
      have eol: "find_eol 0 b = Some k" using True b(2) by (simp add: find_eol_eq takeWhile_eol k_def)
      have same: "b[k := LF] = b" using f(2) by (metis list_update_id)
      define t2 where "t2 = (if Suc k < length b
        then t1\<lparr>vr_last_line_ending := Some LF, vr_left_part := drop (Suc k) b, vr_left_part_pos := 0\<rparr>
        else t1\<lparr>vr_last_line_ending := Some LF\<rparr>)"
      have "vr_loop chunk_read True (Suc fuel) n out stuff t = (Inr (Some (out @ first_line b)), t2)"
        using n Cons b eol f(2,3) same slice_start(2) [of b "Suc k"]
        by (simp add: monad_simps chunk_read_def use_chunk_def Let_def t1_def t2_def)
      moreover have "pending t2 = after_line (concat (vr_raw t))"
        using True Suc.prems(2) f(1,4) by (auto simp: pending_def t1_def t2_def Cons line_append)
      moreover have "CR \<notin> set (pending t2)"
        unfolding calculation(2) using set_after_line [of "concat (vr_raw t)"] b(2,3) by (auto simp: Cons)
      moreover have "line_ready t2"
        using calculation(3) b Suc.prems(2,3) by (auto simp: line_ready_def t1_def t2_def)
      ultimately show ?thesis
        using True by (auto simp: Cons line_append t1_def t2_def)
    next
      case False
      have eol: "find_eol 0 b = None" using False b(2) by (simp add: find_eol_eq)
      have step: "vr_loop chunk_read True (Suc fuel) n out stuff t =
          vr_loop chunk_read True fuel (n - int (length b)) (out @ b) True t1"
        using n Cons b eol Suc.prems(4) by (simp add: monad_simps chunk_read_def use_chunk_def Let_def t1_def)
      have "line_ready t1" "vr_left_part t1 = []" "\<not> vr_eof t1"
        using b Suc.prems(2,3) by (auto simp: line_ready_def t1_def pending_def)
      moreover have "int (length (concat (vr_raw t1))) < n - int (length b)" "length (vr_raw t1) < fuel" "vr_raw t1 = bs"
        using Suc.prems(4,5) Cons by (simp_all add: t1_def)
      ultimately show ?thesis
        using Suc.IH [of t1 "n - int (length b)" "out @ b" True] False Cons
        by (auto simp: step line_append simp del: vr_loop.simps)
    qed
  qed
qed simp

lemma read_line:
  assumes "line_ready t" and "int (length (pending t)) < MAXSIZE" and "length (vr_raw t) < fuel"
  shows "\<exists>t'. vr_read_by chunk_init chunk_read fuel None True t =
      (Inr (if pending t = [] then None else Some (first_line (pending t))), t') \<and>
    pending t' = after_line (pending t) \<and> line_ready t' \<and> length (vr_raw t') \<le> length (vr_raw t)"
proof (cases "vr_eof t")
  case True
  with assms(1) show ?thesis by (simp add: vr_read_by_def MAXSIZE_def line_ready_def after_line_def)
next
  case False
  define u where "u = (if vr_initialized t then t else t\<lparr>vr_initialized := True\<rparr>)"
  have read: "vr_read_by chunk_init chunk_read fuel None True t = vr_read_left chunk_read fuel MAXSIZE True u"
    using False by (cases "vr_initialized t")
      (simp_all add: vr_read_by_def chunk_init_def monad_simps Let_def u_def MAXSIZE_def)
  have u: "line_ready u" "pending u = pending t" "vr_raw u = vr_raw t" "\<not> vr_eof u"
    using assms(1) False by (simp_all add: u_def line_ready_def pending_def)
  define l where "l = drop (vr_left_part_pos u) (vr_left_part u)"
  have p: "pending u = l @ concat (vr_raw u)" by (simp add: pending_def l_def)
  have cr: "CR \<notin> set l" "vr_last_line_ending u \<noteq> Some CR" using u(1) p by (simp_all add: line_ready_def)
  consider "vr_left_part u = []" | "vr_left_part u \<noteq> []" "LF \<in> set l" | "vr_left_part u \<noteq> []" "LF \<notin> set l" by blast
  then show ?thesis
  proof cases
    case 1
    then have "l = []" by (simp add: l_def)
    moreover have "vr_raw u \<noteq> [] \<longleftrightarrow> concat (vr_raw u) \<noteq> []" using u(1) by (cases "vr_raw u") (auto simp: line_ready_def)
    ultimately show ?thesis
      using loop_line [of u MAXSIZE fuel "[]" False] 1 u assms(2,3) p
      by (auto simp: read vr_read_left_def monad_simps simp flip: u(2))
  next
    case 2
    define pos where "pos = vr_left_part_pos u"
    define k where "k = length (takeWhile (\<lambda>b. b \<noteq> LF) l)"
    note f = first_eol [OF cr(1) 2(2) k_def]
    have pos: "pos + length l = length (vr_left_part u)" "pos < length (vr_left_part u)"
      using u(1) 2(1) by (auto simp: l_def pos_def line_ready_def)
    have eol: "find_eol pos l = Some (pos + k)" using 2(2) cr(1) by (simp add: find_eol_eq takeWhile_eol k_def)
    have at: "vr_left_part u ! (pos + k) = LF" using f(1,2) pos by (simp add: l_def pos_def)
    have same: "(vr_left_part u)[pos + k := LF] = vr_left_part u" using at by (metis list_update_id)
    define v where "v = (if Suc (pos + k) = length (vr_left_part u)
      then u\<lparr>vr_last_line_ending := Some LF, vr_left_part := [], vr_left_part_pos := 0\<rparr>
      else u\<lparr>vr_last_line_ending := Some LF, vr_left_part_pos := Suc (pos + k)\<rparr>)"
    have "left_line u = (Inr (Some (first_line l)), v)"
      using pos(2) eol at same cr(2) f(3) slice_start(1) [of "vr_left_part u" pos "Suc k"]
      by (simp add: left_line_def Let_def v_def l_def pos_def)
    then have "vr_read_left chunk_read fuel MAXSIZE True u = (Inr (Some (first_line (pending u))), v)"
      using 2 p by (simp add: vr_read_left_def monad_simps line_append)
    moreover have "pending v = after_line (pending u)"
      using 2(2) f(1,4) pos(1) unfolding p
      by (auto simp: line_append pending_def v_def l_def pos_def add.commute)
    moreover have "CR \<notin> set (pending v)"
      unfolding calculation(2) using set_after_line [of "pending u"] u(1) by (auto simp: line_ready_def)
    moreover have "line_ready v" "vr_raw v = vr_raw u"
      using calculation(3) u(1,4) f(1) pos(1) by (auto simp: line_ready_def v_def)
    ultimately show ?thesis using 2(2) u(3) p unfolding read u(2) [symmetric] by auto
  next
    case 3
    define v where "v = u\<lparr>vr_left_part := [], vr_left_part_pos := 0\<rparr>"
    have pos: "vr_left_part_pos u < length (vr_left_part u)" using u(1) 3(1) by (auto simp: line_ready_def)
    have l: "l \<noteq> []" using pos by (simp add: l_def)
    have "int (length l) < MAXSIZE" using assms(2) unfolding u(2) [symmetric] p by simp
    with l have l: "l \<noteq> []" "int (length l) < MAXSIZE" by simp_all
    have "find_eol (vr_left_part_pos u) l = None" using 3(2) cr(1) by (simp add: find_eol_eq)
    then have "left_line u = (Inr None, u)"
      using pos cr(2) 3(2) by (auto simp: left_line_def Let_def l_def in_set_conv_nth)
    moreover have "left_sized MAXSIZE u = (Inr None, u)"
      using l(2) pos by (simp add: left_sized_def Let_def l_def of_nat_diff)
    ultimately have "vr_read_left chunk_read fuel MAXSIZE True u =
        vr_loop chunk_read True fuel (MAXSIZE - int (length l)) l True v"
      using 3 by (simp add: vr_read_left_def monad_simps take_left_def v_def l_def)
    moreover have "line_ready v" "vr_left_part v = []" "\<not> vr_eof v" "vr_raw v = vr_raw u"
      using u(1,4) p by (auto simp: line_ready_def v_def pending_def)
    ultimately show ?thesis
      using loop_line [of v "MAXSIZE - int (length l)" fuel l True] assms(2,3) u(3) 3(2) l(1) p
      unfolding read u(2) [symmetric] by (auto simp: line_append)
  qed
qed

lemma read_lines:
  assumes "line_ready t" and "int (length (pending t)) < MAXSIZE" and "length (vr_raw t) < fuel"
    and "length (pending t) < n"
  shows "fst (lines_by (vr_read_by chunk_init chunk_read fuel None True) n t) = Inr (lf_lines (pending t))"
  using assms
proof (induction n arbitrary: t)
  case (Suc n)
  from read_line [OF Suc.prems(1-3)] obtain u where u:
    "vr_read_by chunk_init chunk_read fuel None True t =
      (Inr (if pending t = [] then None else Some (first_line (pending t))), u)"
    "pending u = after_line (pending t)" "line_ready u" "length (vr_raw u) \<le> length (vr_raw t)" by blast
  show ?case
  proof (cases "pending t = []")
    case True
    with u(1) show ?thesis by (simp add: sbind_Inr sret_apply lf_lines.simps)
  next
    case False
    with length_after_line [OF this] Suc.prems u(2,4)
    have "int (length (pending u)) < MAXSIZE" "length (vr_raw u) < fuel" "length (pending u) < n" by simp_all
    from Suc.IH [OF u(3) this] u(1,2) False show ?thesis
      by (auto simp: sbind_apply sret_apply lf_lines.simps [of "pending t"] split: prod.splits sum.splits)
  qed
qed simp

section \<open>Files over the network\<close>

lemma full_slices:
  assumes "0 < n"
  shows "full_chunks n (slices_of n D) \<and> length (slices_of n D) \<le> length D"
proof (induction n D rule: slices_of.induct)
  case (1 n D)
  show ?case
  proof (cases "D = [] \<or> n = 0")
    case False
    with 1 have ih: "full_chunks n (slices_of n (drop n D))" "length (slices_of n (drop n D)) \<le> length D - n" by simp_all
    moreover have "slices_of n (drop n D) \<noteq> [] \<Longrightarrow> n \<le> length D"
      by (cases "n \<le> length D") simp_all
    moreover have "1 \<le> length D" using False by (simp add: Suc_le_eq)
    ultimately show ?thesis using False by (auto simp: slices_of.simps [of n D])
  qed (auto simp: slices_of.simps [of n D])
qed

lemma full_chunks_nonempty: "full_chunks n blocks \<Longrightarrow> [] \<notin> set blocks"
  by (induction blocks) auto

lemma length_chunks: "[] \<notin> set blocks \<Longrightarrow> length blocks \<le> length (concat blocks)"
proof (induction blocks)
  case (Cons b bs)
  then show ?case by (cases b) auto
qed simp

lemma reads_open:
  assumes "concat chunks = volume_file n blocks" and "full_chunks n blocks" and "1 \<le> n" and "int n \<le> MAX_CHUNK_SIZE"
  shows "simple_source.reads_file (vr_new (si_open chunks)) (vr_new blocks)"
  using assms
  by (auto simp: simple_source.reads_file_def simple_source.over_file_def same_view_def vr_new_def checksum_new_def
      py_lower_def intro!: exI [of _ n])

lemma vr_new_view [simp]:
  "vr_raw (vr_new raw) = raw" "vr_left_part (vr_new raw) = []" "vr_left_part_pos (vr_new raw) = 0"
  "vr_eof (vr_new raw) = False" "vr_last_line_ending (vr_new raw) = None"
  by (simp_all add: vr_new_def)

lemma pending_new [simp]: "pending (vr_new blocks) = concat blocks"
  by (simp add: pending_def)

lemma ssim_map:
  "(\<And>x. ssim R (f x) (g x)) \<Longrightarrow> ssim R (sseq (List.map f xs)) (sseq (List.map g xs))"
  by (intro ssim_sseq) (simp add: list.rel_map list.rel_refl)

lemma sim_lines:
  "ssim R line line' \<Longrightarrow> ssim R (lines_by line n) (lines_by line' n)"
  by (induction n) (auto intro!: sim_intros ssim_cases)

lemma MAXSIZE_eq: "MAXSIZE = 9223372036854775807"
  by (simp add: MAXSIZE_def)

text \<open>C4: a file written through \<^verbatim>\<open>VolumeWriter\<close> is read back through \<^verbatim>\<open>VolumeReader\<close>: when the writes succeeded, the
  request that carries them finished and \<^verbatim>\<open>close\<close> returned a status, then a reader of the body of that
  request, in whatever blocks the network delivers it, gives with any sequence of sizes consecutive
  pieces of the bytes written, and with a final \<^verbatim>\<open>read()\<close> all the rest; every checksum is accepted.\<close>

theorem volume_file_roundtrip:
  assumes "sseq (List.map vw_write datas) vw_new = (Inr us, w)" and "vw_close finish w = (Inr status, w')"
    and "0 < chunk_size" and "io_reach (\<lambda>e. True) chunk_size (vw_written w') io" and "io_writer io = Finished"
    and "concat chunks = concat (body_pieces chunk_size (io_got io))"
    and "length (volume_bytes datas) < fuel" and "int (length (volume_bytes datas)) < 2 ^ 63"
  shows "\<exists>rs r s s'.
    sseq (List.map (\<lambda>k. vr_read si_read_limit fuel (Some k) False) sizes) (vr_new (si_open chunks)) = (Inr rs, s) \<and>
    concat (List.map read_bytes rs) = take (sum_list sizes) (volume_bytes datas) \<and>
    vr_read si_read_limit fuel None False s = (Inr r, s') \<and>
    read_bytes r = drop (sum_list sizes) (volume_bytes datas)"
proof -
  define D where "D = volume_bytes datas"
  define blocks where "blocks = slices_of CHUNK_SIZE D"
  have "concat chunks = concat (vw_written w')"
    using reached_body [OF assms(3,4)] assms(5,6) by simp
  then have chunks: "concat chunks = volume_file CHUNK_SIZE blocks"
    using vw_file_written [OF assms(1,2)] by (simp add: volume_image_def D_def blocks_def)
  have blocks: "full_chunks CHUNK_SIZE blocks" "concat blocks = D" "length blocks < fuel"
    using full_slices [OF CHUNK_SIZE_pos, of D] assms(7)
    by (simp_all add: blocks_def slices_of_concat CHUNK_SIZE_pos flip: D_def)
  let ?t = "vr_new blocks"
  have t: "sound_reader ?t" "pending ?t = D" "length (vr_raw ?t) < fuel"
    using full_chunks_nonempty [OF blocks(1)] blocks(2,3) by (simp_all add: sound_reader_def)
  from reads_sized [OF t(1,3), of sizes] obtain rs t' where rs:
    "sseq (List.map (\<lambda>k. vr_read_by chunk_init chunk_read fuel (Some k) False) sizes) ?t = (Inr rs, t')"
    "concat (List.map read_bytes rs) = take (sum_list sizes) D" "pending t' = drop (sum_list sizes) D"
    "sound_reader t'" "length (vr_raw t') \<le> length (vr_raw ?t)" unfolding t(2) by blast
  from rs(5) t(3) have "length (vr_raw t') < fuel" by simp
  from read_sized [OF rs(4) this, of None] obtain r t'' where r:
    "vr_read_by chunk_init chunk_read fuel None False t' = (Inr r, t'')"
    "read_bytes r = take (nat MAXSIZE) (drop (sum_list sizes) D)" unfolding rs(3) by auto
  have "length D \<le> nat MAXSIZE" using assms(8) by (simp add: MAXSIZE_eq flip: D_def)
  with r(2) have all: "read_bytes r = drop (sum_list sizes) D" by simp
  have "simple_source.reads_file (vr_new (si_open chunks)) ?t"
    using reads_open [OF chunks blocks(1)] by (simp add: CHUNK_SIZE_def MAX_CHUNK_SIZE_def)
  from ssim_outcome [OF ssim_map [OF simple_source.sim_read] this rs(1)] obtain s where s:
    "sseq (List.map (\<lambda>k. vr_read si_read_limit fuel (Some k) False) sizes) (vr_new (si_open chunks)) = (Inr rs, s)"
    "simple_source.reads_file s t'" .
  from ssim_outcome [OF simple_source.sim_read s(2) r(1)] obtain s' where
    "vr_read si_read_limit fuel None False s = (Inr r, s')" .
  with s(1) rs(2) all show ?thesis unfolding D_def by blast
qed

lemma run_by_weaken: "run_by step P s t \<Longrightarrow> (\<And>e. P e \<Longrightarrow> Q e) \<Longrightarrow> run_by step Q s t"
  by (induction rule: run_by.induct) (auto intro: run_by.intros)

theorem volume_file_roundtrip_witness:
  "\<exists>rs r s s'.
    sseq (List.map (\<lambda>k. vr_read si_read_limit 9 (Some k) False) [1, 0, 3]) (vr_new (si_open [volume_image [65, 66, 67, 68, 69]])) = (Inr rs, s) \<and>
    concat (List.map read_bytes rs) = [65, 66, 67, 68] \<and>
    vr_read si_read_limit 9 None False s = (Inr r, s') \<and> read_bytes r = [69]"
proof -
  let ?datas = "[VBytes [65, 66], VText [67, 68, 69]]"
  have bytes: "volume_bytes ?datas = [65, 66, 67, 68, 69]" by (simp add: volume_bytes_def)
  obtain w where w: "sseq (List.map vw_write ?datas) vw_new = (Inr [(), ()], w)"
    by (simp add: vw_write_def sbind_apply sret_apply Let_def)
  have "in_progress [] vw_new" by (simp add: in_progress_def vw_new_def)
  from vw_writes_progress [OF this w] bytes have "vw_initialized w" "vw_started w"
    by (auto simp: in_progress_def has_written_def split: if_splits)
  then obtain w' where w': "vw_close (Inr (Some 200)) w = (Inr 200, w')"
    by (cases "vw_chunk_offset w = 0") (simp_all add: vw_close_def vw_emit_def Let_def)
  have start: "io_reach (\<lambda>e. e = Quiet) 8 (vw_written w') (io_start (rio_puts 8 (vw_written w')))"
    by (simp add: io_reach_def run_refl)
  from reached_completes [OF _ this] obtain io where io:
    "run_by io_step (\<lambda>e. e = Quiet) (io_start (rio_puts 8 (vw_written w'))) io" "io_writer io = Finished"
    "concat (body_pieces 8 (io_got io)) = concat (vw_written w')" by auto
  from run_by_weaken [OF io(1)] have "io_reach (\<lambda>e. True) 8 (vw_written w') io" by (simp add: io_reach_def)
  from volume_file_roundtrip [OF w w' _ this io(2), of "[volume_image [65, 66, 67, 68, 69]]" 9 "[1, 0, 3]"]
  show ?thesis using vw_file_written [OF w w'] io(3) bytes by simp
qed

text \<open>C5: a file whose text has no CR, in chunks of any size and any network blocks, is read by \<^verbatim>\<open>readlines\<close> as its
  lines, each with its LF, the last one as it is; every round needs no more fuel than there are bytes.\<close>

theorem volume_lines:
  assumes "concat chunks = volume_file n blocks" and "full_chunks n blocks" and "1 \<le> n" and "n \<le> 2 ^ 28"
    and "CR \<notin> set (concat blocks)" and "length (concat blocks) < fuel" and "int fuel < 2 ^ 63"
  shows "fst (vr_readlines si_read_limit fuel None fuel (vr_new (si_open chunks))) = Inr (lf_lines (concat blocks))"
proof -
  have blocks: "[] \<notin> set blocks" "length blocks \<le> length (concat blocks)"
    using full_chunks_nonempty [OF assms(2)] length_chunks by simp_all
  have "int n \<le> MAX_CHUNK_SIZE" using assms(4) by (simp add: MAX_CHUNK_SIZE_def)
  from reads_open [OF assms(1-3) this] have "simple_source.reads_file (vr_new (si_open chunks)) (vr_new blocks)" .
  from ssimD [OF sim_lines [OF simple_source.sim_read] this]
  have "fst (vr_readlines si_read_limit fuel None fuel (vr_new (si_open chunks))) =
      fst (lines_by (vr_read_by chunk_init chunk_read fuel None True) fuel (vr_new blocks))"
    by (simp add: vr_readlines_def vr_readline_def)
  also have "\<dots> = Inr (lf_lines (pending (vr_new blocks)))"
    using assms(5-7) blocks by (intro read_lines) (simp_all add: line_ready_def MAXSIZE_eq)
  finally show ?thesis by simp
qed

theorem volume_lines_witness:
  "fst (vr_readlines si_read_limit 9 None 9 (vr_new (si_open [volume_file 3 [[97, LF, 98], [LF, 99]]]))) =
     Inr [[97, LF], [98, LF], [99]]"
proof -
  have "lf_lines (concat [[97, LF, 98], [LF, 99]]) = [[97, LF], [98, LF], [99]]" by code_simp
  with volume_lines [of "[volume_file 3 [[97, LF, 98], [LF, 99]]]" 3 "[[97, LF, 98], [LF, 99]]" 9]
  show ?thesis by (auto simp: CR_def LF_def)
qed

lemma read_over_slices:
  assumes "full_chunks n blocks" and "1 \<le> n" and "n \<le> 2 ^ 28"
  shows "simple_source.reads_file (vr_new (si_open (slices_of (Suc k) (volume_file n blocks)))) (vr_new blocks)"
  using assms by (intro reads_open) (simp_all add: slices_of_concat MAX_CHUNK_SIZE_def)

text \<open>Three faults of the reader, on three files in any network blocks. The text of the first ends in CR LF and gets an
  empty line too many. In the second a chunk ends in CR and two later chunks begin with LF: the first of these is
  skipped as the rest of CR LF, and so is the second, so that two lines are merged. In the third a read takes
  exactly what is left of a chunk and makes the next \<^verbatim>\<open>readline\<close> raise \<^verbatim>\<open>IndexError\<close>.\<close>

theorem volume_line_flaws:
  "fst (vr_readlines si_read_limit 9 None 9 (vr_new (si_open (slices_of (Suc k)
     (volume_file 3 [[97, CR, LF]]))))) = Inr [[97, LF], []] \<and>
   fst (vr_readlines si_read_limit 9 None 9 (vr_new (si_open (slices_of (Suc k)
     (volume_file 2 [[97, CR], [LF, 98], [LF, 99], [LF]]))))) = Inr [[97, LF], [98, 99]] \<and>
   fst (sseq [vr_read si_read_limit 9 (Some 1) False, vr_read si_read_limit 9 (Some 2) False, vr_readline si_read_limit 9 None]
     (vr_new (si_open (slices_of (Suc k) (volume_file 3 [[97, 98, LF], [99]]))))) = Inl IndexError"
proof (intro conjI)
  note sim = ssimD [OF sim_lines [OF simple_source.sim_read] read_over_slices]
  have "fst (lines_by (vr_read_by chunk_init chunk_read 9 None True) 9 (vr_new [[97, CR, LF]])) = Inr [[97, LF], []]"
    by code_simp
  then show "fst (vr_readlines si_read_limit 9 None 9 (vr_new (si_open (slices_of (Suc k)
     (volume_file 3 [[97, CR, LF]]))))) = Inr [[97, LF], []]"
    using sim [of 3 "[[97, CR, LF]]"] by (simp add: vr_readlines_def vr_readline_def)
  have "fst (lines_by (vr_read_by chunk_init chunk_read 9 None True) 9
      (vr_new [[97, CR], [LF, 98], [LF, 99], [LF]])) = Inr [[97, LF], [98, 99]]" by code_simp
  then show "fst (vr_readlines si_read_limit 9 None 9 (vr_new (si_open (slices_of (Suc k)
     (volume_file 2 [[97, CR], [LF, 98], [LF, 99], [LF]]))))) = Inr [[97, LF], [98, 99]]"
    using sim [of 2 "[[97, CR], [LF, 98], [LF, 99], [LF]]"] by (simp add: vr_readlines_def vr_readline_def)
  let ?ops = "\<lambda>read. [read (Some 1) False, read (Some 2) False, read None True]"
  have "ssim simple_source.reads_file (sseq (?ops (vr_read si_read_limit 9)))
      (sseq (?ops (vr_read_by chunk_init chunk_read 9)))"
    by (intro ssim_sseq) (simp add: simple_source.sim_read)
  from ssimD [OF this read_over_slices [of 3 "[[97, 98, LF], [99]]"]]
  have "fst (sseq (?ops (vr_read si_read_limit 9)) (vr_new (si_open (slices_of (Suc k) (volume_file 3 [[97, 98, LF], [99]]))))) =
      fst (sseq (?ops (vr_read_by chunk_init chunk_read 9)) (vr_new [[97, 98, LF], [99]]))"
    by (simp del: sseq.simps)
  moreover have "fst (sseq (?ops (vr_read_by chunk_init chunk_read 9)) (vr_new [[97, 98, LF], [99]])) = Inl IndexError"
    by code_simp
  ultimately show "fst (sseq [vr_read si_read_limit 9 (Some 1) False, vr_read si_read_limit 9 (Some 2) False,
      vr_readline si_read_limit 9 None]
     (vr_new (si_open (slices_of (Suc k) (volume_file 3 [[97, 98, LF], [99]]))))) = Inl IndexError"
    by (simp add: vr_readline_def del: sseq.simps)
qed

end
