(* ===== verification/Volume_Session.thy ===== *)
theory Volume_Session
  imports Py_String
begin

text \<open>
  The names of the files of a volume, and what \<^verbatim>\<open>VolumeUploadSession.commit\<close> of
  \<^verbatim>\<open>odps/tunnel/volumetunnel.py\<close> checks before it completes an upload. The list of the files that
  \<^verbatim>\<open>reload\<close> gets from the server is a parameter.
\<close>

section \<open>File names\<close>

text \<open>The loop of \<^verbatim>\<open>_format_file_name\<close>.\<close>

fun squeeze_slashes :: "bool \<Rightarrow> string \<Rightarrow> string" where
  "squeeze_slashes pre_slash [] = []"
| "squeeze_slashes pre_slash (ch # rest) =
     (if ch = CHR ''/'' then
        (if pre_slash then squeeze_slashes True rest else ch # squeeze_slashes True rest)
      else ch # squeeze_slashes False rest)"

definition format_file_name :: "string \<Rightarrow> string result" where
  "format_file_name file_name =
     (if file_name \<noteq> [] \<and> file_name ! 0 = CHR ''/'' then Inl TunnelError
      else Inr (squeeze_slashes False file_name))"

section \<open>commit\<close>

datatype commit_files = OneFile string | Files "string list"

definition commit_names :: "commit_files \<Rightarrow> string list result" where
  "commit_names files =
     (case files of OneFile f \<Rightarrow> if f = [] then Inl ValueError else Inr [f]
      | Files fs \<Rightarrow> if fs = [] then Inl ValueError else Inr fs)"

text \<open>What is returned are the names that are committed; then \<^verbatim>\<open>_complete_upload\<close> is called.\<close>

definition volume_commit :: "commit_files \<Rightarrow> string list result \<Rightarrow> string list result" where
  "volume_commit files reloaded =
     rbind (commit_names files) (\<lambda>names.
     rbind (rmap format_file_name names) (\<lambda>formatted.
     rbind reloaded (\<lambda>file_list.
       let files_uploading = remdups file_list in
       if length files_uploading \<noteq> length formatted then Inl TunnelError
       else if \<exists>fn \<in> set formatted. fn \<notin> set files_uploading then Inl TunnelError
       else Inr formatted)))"

section \<open>Properties\<close>

text \<open>No two slashes in a row.\<close>

fun single_slashes :: "string \<Rightarrow> bool" where
  "single_slashes (a # b # s) = (\<not> (a = CHR ''/'' \<and> b = CHR ''/'') \<and> single_slashes (b # s))"
| "single_slashes s = True"

lemma squeeze_single:
  "single_slashes (squeeze_slashes b s) \<and> (b \<longrightarrow> (\<forall>r. squeeze_slashes b s \<noteq> CHR ''/'' # r))"
proof (induction b s rule: squeeze_slashes.induct)
  case (2 b ch s)
  then show ?case by (cases "squeeze_slashes True s"; cases "squeeze_slashes False s") auto
qed simp

text \<open>C6: \<^verbatim>\<open>commit\<close> completes an upload only when every name given, after normalisation, is a file on the server
  and their number is that of the server's files. For names that stay different these are then all the
  files of the upload. The number is compared without removing duplicates on the client's side: a name given twice stands
  in for a file that was not named.\<close>

theorem volume_commit_checked:
  assumes "volume_commit files (Inr file_list) = Inr formatted"
  shows "rbind (commit_names files) (rmap format_file_name) = Inr formatted \<and>
    set formatted \<subseteq> set file_list \<and> length formatted = card (set file_list) \<and>
    list_all single_slashes formatted \<and>
    (distinct formatted \<longrightarrow> set formatted = set file_list) \<and>
    volume_commit (Files [''a'', ''a'']) (Inr [''a'', ''b'']) = Inr [''a'', ''a'']"
proof -
  from assms obtain names where n: "commit_names files = Inr names" "rmap format_file_name names = Inr formatted"
    and f: "length (remdups file_list) = length formatted" "set formatted \<subseteq> set file_list"
    by (auto simp: volume_commit_def rbind_eq_Inr Let_def split: if_splits)
  have l: "length formatted = card (set file_list)" using f(1) by (metis length_remdups_card_conv)
  have "list_all single_slashes formatted"
    using n(2)
  proof (induction names arbitrary: formatted)
    case (Cons a ns)
    then show ?case using squeeze_single by (auto simp: rbind_eq_Inr format_file_name_def split: if_splits)
  qed simp
  moreover have "distinct formatted \<Longrightarrow> set formatted = set file_list"
    using l f(2) by (simp add: card_subset_eq distinct_card)
  moreover have "volume_commit (Files [''a'', ''a'']) (Inr [''a'', ''b'']) = Inr [''a'', ''a'']" by code_simp
  ultimately show ?thesis using n f(2) l by simp
qed

theorem volume_commit_checked_witness:
  "volume_commit (Files [''d//f'', ''g'']) (Inr [''g'', ''d/f'']) = Inr [''d/f'', ''g''] \<and>
   set [''d/f'', ''g''] = set [''g'', ''d/f'']"
proof -
  have c: "volume_commit (Files [''d//f'', ''g'']) (Inr [''g'', ''d/f'']) = Inr [''d/f'', ''g'']" by code_simp
  from volume_commit_checked [OF c] c show ?thesis by simp
qed

end
