(* ===== verification/Arrow_Stream.thy ===== *)
theory Arrow_Stream
  imports Volume_Writer Pb_Codec Input_Source
begin

text \<open>
  How Arrow data travels: \<^verbatim>\<open>BaseArrowWriter\<close> of \<^verbatim>\<open>odps/tunnel/io/writer.py\<close> cuts serialized batches into chunks with
  a CRC-32C each and ends with a checksum of everything, \<^verbatim>\<open>ArrowStreamReader\<close> of \<^verbatim>\<open>odps/tunnel/io/reader.py\<close> verifies
  and removes them. The serialization of batches and of the schema is done by pyarrow: the model starts
  from the bytes it gives. Nothing is compressed.
\<close>

section \<open>BaseArrowWriter\<close>

text \<open>\<open>aw_out\<close> is everything given to \<^verbatim>\<open>self._output.write\<close>.\<close>

record arrow_writer =
  aw_out :: bytes
  aw_chunk_size :: nat
  aw_crc :: checksum
  aw_crccrc :: checksum
  aw_cur_chunk_size :: nat
  aw_chunk_size_written :: bool

definition aw_new :: "nat option \<Rightarrow> nat \<Rightarrow> arrow_writer" where
  "aw_new chunk_size dflt =
     \<lparr>aw_out = [], aw_chunk_size = (case chunk_size of None \<Rightarrow> dflt | Some n \<Rightarrow> if n = 0 then dflt else n),
      aw_crc = checksum_new ''crc32c'', aw_crccrc = checksum_new ''crc32c'', aw_cur_chunk_size = 0,
      aw_chunk_size_written = False\<rparr>"

definition aw_re_init :: "arrow_writer \<Rightarrow> arrow_writer" where
  "aw_re_init w = w\<lparr>aw_out := [], aw_chunk_size_written := False, aw_cur_chunk_size := 0\<rparr>"

definition aw_write_uint32 :: "int \<Rightarrow> arrow_writer \<Rightarrow> arrow_writer" where
  "aw_write_uint32 val w = w\<lparr>aw_out := aw_out w @ be_bytes 4 val\<rparr>"

definition aw_write_chunk_size :: "arrow_writer \<Rightarrow> arrow_writer" where
  "aw_write_chunk_size w = aw_write_uint32 (int (aw_chunk_size w)) w"

definition checksum_value :: "checksum \<Rightarrow> int" where
  "checksum_value c = (case checksum_getvalue c of None \<Rightarrow> 0 | Some v \<Rightarrow> uint v)"

definition aw_write_chunk :: "bytes \<Rightarrow> arrow_writer \<Rightarrow> arrow_writer" where
  "aw_write_chunk buf w =
     (let w = (if aw_chunk_size_written w then w
               else (aw_write_chunk_size w)\<lparr>aw_chunk_size_written := True\<rparr>);
          w = w\<lparr>aw_out := aw_out w @ buf, aw_crc := checksum_raw buf (aw_crc w),
                aw_crccrc := checksum_raw buf (aw_crccrc w),
                aw_cur_chunk_size := aw_cur_chunk_size w + length buf\<rparr>
      in if aw_chunk_size w \<le> aw_cur_chunk_size w
         then (aw_write_uint32 (checksum_value (aw_crc w)) w)
                \<lparr>aw_crc := checksum_reset (aw_crc w), aw_cur_chunk_size := 0\<rparr>
         else w)"

text \<open>
  The loop of \<^verbatim>\<open>write\<close> over the bytes of a batch, \<open>data\<close> being \<^verbatim>\<open>data[written_bytes:]\<close>. The chunk being filled is never
  full here, so that every round takes something.
\<close>

function aw_write_data :: "bytes \<Rightarrow> arrow_writer \<Rightarrow> arrow_writer" where
  "aw_write_data data w =
     (if data = [] then w
      else
        let len = min (aw_chunk_size w - aw_cur_chunk_size w) (length data)
        in if len = 0 then w
           else aw_write_data (drop len data) (aw_write_chunk (take len data) w))"
  by pat_completeness auto
termination
  by (relation "measure (\<lambda>(data, _). length data)") auto

declare aw_write_data.simps [simp del]

text \<open>\<^verbatim>\<open>write\<close>, given the serialized batches.\<close>

definition aw_write :: "bytes list \<Rightarrow> arrow_writer \<Rightarrow> arrow_writer" where
  "aw_write batches w = fold aw_write_data batches w"

definition aw_finish_tags :: "arrow_writer \<Rightarrow> arrow_writer" where
  "aw_finish_tags w =
     (aw_write_uint32 (checksum_value (aw_crccrc w)) w)\<lparr>aw_crccrc := checksum_reset (aw_crccrc w)\<rparr>"

definition aw_close :: "arrow_writer \<Rightarrow> arrow_writer" where
  "aw_close w = aw_finish_tags w"

section \<open>ArrowStreamReader\<close>

text \<open>\<open>as_buffers\<close> holds what each \<^verbatim>\<open>BytesIO\<close> of \<^verbatim>\<open>_buffers\<close> still has after its position.\<close>

record 's arrow_stream =
  as_reader :: 's
  as_crc :: checksum
  as_crccrc :: checksum
  as_pos :: nat
  as_chunk_size :: "nat option"
  as_buffers :: "bytes list"

definition as_new :: "'s \<Rightarrow> bytes \<Rightarrow> 's arrow_stream" where
  "as_new raw schema =
     \<lparr>as_reader = raw, as_crc = checksum_new ''crc32c'', as_crccrc = checksum_new ''crc32c'', as_pos = 0,
      as_chunk_size = None, as_buffers = [schema]\<rparr>"

definition as_raw :: "'s reading \<Rightarrow> nat \<Rightarrow> ('s arrow_stream, bytes) sm" where
  "as_raw rd n s = (case rd n (as_reader s) of (b, raw) \<Rightarrow> (Inr b, s\<lparr>as_reader := raw\<rparr>))"

definition read_chunk_size :: "'s reading \<Rightarrow> ('s arrow_stream, nat) sm" where
  "read_chunk_size rd =
     sbind (as_raw rd 4) (\<lambda>b. case unpack_be32 b of
       Inl e \<Rightarrow> sraise DecodeError
     | Inr i \<Rightarrow> sthen (smod (\<lambda>s. s\<lparr>as_pos := as_pos s + 4\<rparr>)) (sret (nat i)))"

text \<open>\<^verbatim>\<open>b[:-4]\<close> and \<^verbatim>\<open>b[-4:]\<close>.\<close>

definition but_last4 :: "bytes \<Rightarrow> bytes" where
  "but_last4 b = take (length b - 4) b"

definition last4 :: "bytes \<Rightarrow> bytes" where
  "last4 b = drop (length b - 4) b"

definition read_chunk :: "'s reading \<Rightarrow> nat \<Rightarrow> ('s arrow_stream, bytes) sm" where
  "read_chunk rd chunk_size =
     sbind (as_raw rd (chunk_size + 4)) (\<lambda>b.
       if 0 < length b \<and> length b < 4 then sraise ChecksumError
       else sthen (smod (\<lambda>s. s\<lparr>as_pos := as_pos s + length b, as_crc := checksum_raw (but_last4 b) (as_crc s),
                              as_crccrc := checksum_raw (but_last4 b) (as_crccrc s)\<rparr>)) (sret b))"

definition check_chunk :: "nat \<Rightarrow> bytes \<Rightarrow> ('s arrow_stream, unit) sm" where
  "check_chunk chunk_size b s =
     (let data = but_last4 b; crc_data = last4 b in
      if b = [] then (Inr (), s)
      else if length b < chunk_size + 4 then
        (case unpack_be32 crc_data of Inl e \<Rightarrow> (Inl e, s)
         | Inr read_checksum \<Rightarrow>
             if checksum_value (as_crccrc s) \<noteq> read_checksum then (Inl ChecksumError, s)
             else (Inr (), s\<lparr>as_pos := as_pos s + length data + 4, as_buffers := as_buffers s @ [data],
                             as_crccrc := checksum_reset (as_crccrc s)\<rparr>))
      else
        (case unpack_be32 crc_data of Inl e \<Rightarrow> (Inl e, s)
         | Inr read_checksum \<Rightarrow>
             if checksum_value (as_crc s) \<noteq> read_checksum then (Inl ChecksumError, s)
             else (Inr (), s\<lparr>as_crc := checksum_reset (as_crc s), as_buffers := as_buffers s @ [data]\<rparr>)))"

definition fill_next_buffer :: "'s reading \<Rightarrow> ('s arrow_stream, unit) sm" where
  "fill_next_buffer rd =
     sbind (sget as_chunk_size) (\<lambda>known.
     sbind (case known of
         None \<Rightarrow> sbind (read_chunk_size rd) (\<lambda>n. sthen (smod (\<lambda>s. s\<lparr>as_chunk_size := Some n\<rparr>)) (sret n))
       | Some n \<Rightarrow> sret n) (\<lambda>chunk_size.
     sbind (read_chunk rd chunk_size) (check_chunk chunk_size)))"

text \<open>The loop of \<^verbatim>\<open>read\<close>, \<open>out\<close> being what is in \<^verbatim>\<open>bufs\<close>. The stream may be endless: the loop is bounded by fuel.\<close>

definition take_buffer :: "nat option \<Rightarrow> bytes \<Rightarrow> ('s arrow_stream, bytes) sm" where
  "take_buffer nbytes out s =
     (case as_buffers s of [] \<Rightarrow> (Inr out, s)
      | first # others \<Rightarrow>
          let buf = (case nbytes of None \<Rightarrow> first | Some n \<Rightarrow> take (n - length out) first)
          in if buf = [] then (Inr out, s\<lparr>as_buffers := others\<rparr>)
             else (Inr (out @ buf), s\<lparr>as_buffers := drop (length buf) first # others\<rparr>))"

fun as_loop :: "'s reading \<Rightarrow> nat \<Rightarrow> nat option \<Rightarrow> bytes \<Rightarrow> ('s arrow_stream, bytes) sm" where
  "as_loop rd 0 nbytes out = sraise FuelExhausted"
| "as_loop rd (Suc fuel) nbytes out =
     (if (case nbytes of None \<Rightarrow> False | Some n \<Rightarrow> n \<le> length out) then sret out
      else
        sthen (\<lambda>s. if as_buffers s = [] then fill_next_buffer rd s else (Inr (), s))
          (sbind (sget (\<lambda>s. as_buffers s = [])) (\<lambda>no_buffers.
            if no_buffers then sret out
            else sbind (take_buffer nbytes out) (as_loop rd fuel nbytes))))"

definition as_read :: "'s reading \<Rightarrow> nat \<Rightarrow> nat option \<Rightarrow> ('s arrow_stream, bytes) sm" where
  "as_read rd fuel nbytes = as_loop rd fuel nbytes []"

section \<open>The stream\<close>

definition crc4 :: "bytes \<Rightarrow> bytes" where
  "crc4 x = be_bytes 4 (uint (crc32c_of x))"

text \<open>Chunks with their checksums; then the rest, if any, with the checksum of all.\<close>

function full_frames :: "nat \<Rightarrow> bytes \<Rightarrow> bytes" where
  "full_frames n D =
     (if n = 0 \<or> length D < n then []
      else take n D @ crc4 (take n D) @ full_frames n (drop n D))"
  by pat_completeness auto
termination
  by (relation "measure (\<lambda>(_, D). length D)") auto

declare full_frames.simps [simp del]

definition last_part :: "nat \<Rightarrow> bytes \<Rightarrow> bytes" where
  "last_part n D = drop (n * (length D div n)) D"

definition arrow_image :: "nat \<Rightarrow> bytes \<Rightarrow> bytes" where
  "arrow_image n D =
     (if D = [] then [] else be_bytes 4 (int n) @ full_frames n D @ last_part n D) @ crc4 D"

lemma full_frames_short [simp]: "length D < n \<Longrightarrow> full_frames n D = []"
  by (simp add: full_frames.simps)

lemma full_frames_chunk:
  "0 < n \<Longrightarrow> length c = n \<Longrightarrow> full_frames n (c @ D) = c @ crc4 c @ full_frames n D"
  by (simp add: full_frames.simps [of n "c @ D"])

lemma full_frames_append:
  assumes "0 < n"
  shows "n dvd length F \<Longrightarrow> full_frames n (F @ P) = full_frames n F @ full_frames n P"
proof (induction "length F" arbitrary: F rule: less_induct)
  case less
  show ?case
  proof (cases "F = []")
    case True
    with assms show ?thesis by simp
  next
    case False
    with less.prems have l: "n \<le> length F" by (auto dest: dvd_imp_le)
    define c r where "c = take n F" and "r = drop n F"
    then have F: "F = c @ r" "length c = n" using l by simp_all
    with less.prems assms have "n dvd length r" "length r < length F" by (simp_all add: dvd_add_right_iff)
    with less.hyps have "full_frames n (r @ P) = full_frames n r @ full_frames n P" by simp
    then show ?thesis using full_frames_chunk [OF assms F(2)] by (simp add: F(1))
  qed
qed

lemma last_part_eq:
  assumes "n dvd length F" and "length P < n"
  shows "last_part n (F @ P) = P"
proof -
  have "n * ((length F + length P) div n) = length F"
    using assms by (metis add.commute div_less div_plus_div_distrib_dvd_left dvd_mult_div_cancel add_cancel_right_right)
  then show ?thesis by (simp add: last_part_def)
qed

definition crc_fed :: "bytes \<Rightarrow> checksum" where
  "crc_fed x = C32c (crc32c_update x None None CRC_INIT)"

lemma crc_fed_simps [simp]:
  "checksum_raw y (crc_fed x) = crc_fed (x @ y)" "checksum_reset (crc_fed x) = crc_fed []"
  "checksum_value (crc_fed x) = uint (crc32c_of x)"
  by (simp_all add: crc_fed_def crc32c_update_fold checksum_value_def crc32c_of_def)

lemma new_crc_fed: "checksum_new ''crc32c'' = crc_fed []"
  by (simp add: checksum_new_def crc_fed_def crc32c_update_fold py_lower_def py_lower_char_def)

text \<open>A writer that was given \<open>D\<close>: full chunks, then a chunk that is not full.\<close>

definition aw_holds :: "nat \<Rightarrow> bytes \<Rightarrow> arrow_writer \<Rightarrow> bool" where
  "aw_holds n D w \<longleftrightarrow> aw_chunk_size w = n \<and> aw_crccrc w = crc_fed D \<and> (aw_chunk_size_written w \<longleftrightarrow> D \<noteq> []) \<and>
     (\<exists>F P. D = F @ P \<and> n dvd length F \<and> length P < n \<and> aw_cur_chunk_size w = length P \<and> aw_crc w = crc_fed P \<and>
        aw_out w = (if D = [] then [] else be_bytes 4 (int n) @ full_frames n F @ P))"

lemma aw_holds_new: "0 < n \<Longrightarrow> aw_holds n [] (aw_new (Some n) d)"
  by (simp add: aw_holds_def aw_new_def new_crc_fed)

lemma aw_holds_chunk:
  assumes "aw_holds n D w" and "b \<noteq> []" and "length b \<le> n - aw_cur_chunk_size w"
  shows "aw_holds n (D @ b) (aw_write_chunk b w)"
proof -
  from assms(1) obtain F P where D: "D = F @ P" "n dvd length F" "length P < n" "aw_cur_chunk_size w = length P"
    and w: "aw_crc w = crc_fed P" "aw_crccrc w = crc_fed D" "aw_chunk_size w = n" "aw_chunk_size_written w \<longleftrightarrow> D \<noteq> []"
      "aw_out w = (if D = [] then [] else be_bytes 4 (int n) @ full_frames n F @ P)"
    by (auto simp: aw_holds_def)
  define v where "v = (if aw_chunk_size_written w then w else (aw_write_chunk_size w)\<lparr>aw_chunk_size_written := True\<rparr>)"
  have v: "aw_crc v = crc_fed P" "aw_crccrc v = crc_fed D" "aw_chunk_size v = n" "aw_chunk_size_written v"
    "aw_cur_chunk_size v = length P" "aw_out v = be_bytes 4 (int n) @ full_frames n F @ P"
    using w D by (auto simp: v_def aw_write_chunk_size_def aw_write_uint32_def)
  show ?thesis
  proof (cases "length (P @ b) < n")
    case True
    with v assms(2) D(1,2) show ?thesis
      by (simp add: aw_holds_def aw_write_chunk_def Let_def flip: v_def) (metis append.assoc True length_append)
  next
    case False
    with assms(3) D have l: "length (P @ b) = n" "0 < n" by auto
    then have "full_frames n ((F @ P) @ b) = full_frames n F @ P @ b @ crc4 (P @ b)"
      using full_frames_append [OF l(2) D(2), of "P @ b"] full_frames_chunk [OF l(2,1), of "[]"] by simp
    moreover have "n dvd length (D @ b)" using D(1,2) l(1) by simp
    ultimately show ?thesis
      using v assms(2) D(1) l False
      by (auto simp: aw_holds_def aw_write_chunk_def Let_def aw_write_uint32_def crc4_def simp flip: v_def
          intro!: exI [of _ "D @ b"])
  qed
qed

lemma aw_holds_data: "aw_holds n D w \<Longrightarrow> aw_holds n (D @ data) (aw_write_data data w)"
proof (induction data w arbitrary: D rule: aw_write_data.induct)
  case (1 data w)
  define len where "len = min (aw_chunk_size w - aw_cur_chunk_size w) (length data)"
  show ?case
  proof (cases "data = []")
    case True
    with "1.prems" show ?thesis by (simp add: aw_write_data.simps [of "[]"])
  next
    case False
    with "1.prems" have len: "len \<noteq> 0" by (auto simp: aw_holds_def len_def)
    have "aw_holds n (D @ take len data) (aw_write_chunk (take len data) w)"
      using "1.prems" False len by (intro aw_holds_chunk) (auto simp: aw_holds_def len_def)
    from "1.IH" [OF False len_def len this] show ?thesis
      using False len by (simp add: aw_write_data.simps [of data w] Let_def flip: len_def)
  qed
qed

lemma aw_holds_write: "aw_holds n D w \<Longrightarrow> aw_holds n (D @ concat batches) (aw_write batches w)"
  unfolding aw_write_def
proof (induction batches arbitrary: D w)
  case (Cons b bs)
  from Cons.IH [OF aw_holds_data [OF Cons.prems]] show ?case by simp
qed simp

lemma arrow_stream_written:
  assumes "0 < n"
  shows "aw_out (aw_close (fold aw_write batchess (aw_new (Some n) d))) = arrow_image n (concat (concat batchess))"
proof -
  define D' where "D' = concat (concat batchess)"
  have "aw_holds n D w \<Longrightarrow> aw_holds n (D @ concat (concat batchess)) (fold aw_write batchess w)" for D w
  proof (induction batchess arbitrary: D w)
    case (Cons b bs)
    from Cons.IH [OF aw_holds_write [OF Cons.prems]] show ?case by simp
  qed simp
  from this [OF aw_holds_new [OF assms]]
  have "aw_holds n D' (fold aw_write batchess (aw_new (Some n) d))" by (simp add: D'_def)
  then show ?thesis
    using assms unfolding D'_def [symmetric] by (auto simp: aw_holds_def aw_close_def aw_finish_tags_def aw_write_uint32_def arrow_image_def crc4_def
      full_frames_append last_part_eq)
qed

section \<open>Reading the stream\<close>

lemma length_crc4 [simp]: "length (crc4 x) = 4" "crc4 x \<noteq> []"
  by (simp_all add: crc4_def)

lemma unpack_crc4 [simp]: "unpack_be32 (crc4 x) = Inr (uint (crc32c_of x))"
  using uint_lt2p [of "crc32c_of x"] by (simp add: crc4_def unpack_be_bytes)

lemma split_last4 [simp]: "but_last4 (x @ crc4 y) = x" "last4 (x @ crc4 y) = crc4 y" "but_last4 [] = []"
  by (simp_all add: but_last4_def last4_def)

lemma last_part_short: "length R < n \<Longrightarrow> last_part n R = R"
  by (simp add: last_part_def)

lemma last_part_drop: "0 < n \<Longrightarrow> n \<le> length R \<Longrightarrow> last_part n (drop n R) = last_part n R"
  by (simp add: last_part_def le_div_geq algebra_simps)

text \<open>What is on the wire: the whole stream, or, when it was trunc off, only full chunks.\<close>

definition arrow_wire :: "bool \<Rightarrow> nat \<Rightarrow> bytes \<Rightarrow> bytes" where
  "arrow_wire trunc n D = (if trunc then be_bytes 4 (int n) @ full_frames n D else arrow_image n D)"

context byte_source
begin

text \<open>The stream \<open>s\<close> is over the stream of \<open>T\<close> in chunks of \<open>n\<close> bytes, of which \<open>R\<close> is still to come.\<close>

definition as_mid :: "bool \<Rightarrow> nat \<Rightarrow> bytes \<Rightarrow> bytes \<Rightarrow> 's arrow_stream \<Rightarrow> bool" where
  "as_mid trunc n T R s \<longleftrightarrow> as_chunk_size s = Some n \<and> as_crc s = crc_fed [] \<and>
     (\<exists>got. T = got @ R \<and> as_crccrc s = crc_fed got) \<and>
     (trunc \<longrightarrow> n dvd length R) \<and>
     content (as_reader s) = full_frames n R @ (if trunc then [] else last_part n R @ crc4 T)"

definition as_over :: "bool \<Rightarrow> nat \<Rightarrow> bytes \<Rightarrow> bytes \<Rightarrow> 's arrow_stream \<Rightarrow> bool" where
  "as_over trunc n T R s \<longleftrightarrow> valid (as_reader s) \<and>
     (as_mid trunc n T R s \<or>
      as_chunk_size s = None \<and> R = T \<and> as_crc s = crc_fed [] \<and> as_crccrc s = crc_fed [] \<and>
        (trunc \<longrightarrow> n dvd length T \<and> T \<noteq> []) \<and> content (as_reader s) = arrow_wire trunc n T \<or>
      as_chunk_size s \<noteq> None \<and> R = [] \<and> content (as_reader s) = [])"

definition as_weight :: "bytes \<Rightarrow> 's arrow_stream \<Rightarrow> nat" where
  "as_weight R s = sum_list (List.map (\<lambda>b. Suc (length b)) (as_buffers s)) + 3 * length R +
     (if content (as_reader s) = [] then 0 else 3)"

lemma as_raw_content:
  assumes "valid (as_reader s)"
  obtains raw where "as_raw rd n s = (Inr (take n (content (as_reader s))), s\<lparr>as_reader := raw\<rparr>)"
    and "valid raw" and "content raw = drop n (content (as_reader s))"
  using rd_result [OF assms, of n] rd_content [OF assms, of n] rd_valid [OF assms, of n]
  by (cases "rd n (as_reader s)") (auto simp: as_raw_def)

lemma fill_ended:
  assumes "valid (as_reader s)" and "content (as_reader s) = []" and "as_chunk_size s = Some k"
  obtains s' where "fill_next_buffer rd s = (Inr (), s')" and "valid (as_reader s')" and "content (as_reader s') = []"
    and "as_chunk_size s' = Some k" and "as_buffers s' = as_buffers s"
proof -
  obtain raw where raw: "as_raw rd (k + 4) s = (Inr [], s\<lparr>as_reader := raw\<rparr>)" "valid raw" "content raw = []"
    using as_raw_content [OF assms(1), of "k + 4"] assms(2) by auto
  define s' where "s' = s\<lparr>as_reader := raw, as_crc := checksum_raw [] (as_crc s), as_crccrc := checksum_raw [] (as_crccrc s)\<rparr>"
  have "fill_next_buffer rd s = (Inr (), s')"
    using raw(1) assms(3) by (simp add: fill_next_buffer_def read_chunk_def check_chunk_def monad_simps Let_def s'_def)
  then show ?thesis by (rule that) (use raw(2,3) assms(3) in \<open>simp_all add: s'_def\<close>)
qed

lemma fill_mid:
  assumes "valid (as_reader s)" and "as_mid trunc n T R s" and "0 < n" and "as_buffers s = []"
    and "content (as_reader s) \<noteq> []"
  shows "\<exists>s' d R'. fill_next_buffer rd s = (Inr (), s') \<and> as_over trunc n T R' s' \<and> R = d @ R' \<and> as_buffers s' = [d] \<and>
    as_weight R' s' < as_weight R s"
proof -
  from assms(2) obtain got where s: "as_chunk_size s = Some n" "as_crc s = crc_fed []" "T = got @ R"
    "as_crccrc s = crc_fed got" "trunc \<longrightarrow> n dvd length R"
    "content (as_reader s) = full_frames n R @ (if trunc then [] else last_part n R @ crc4 T)"
    by (auto simp: as_mid_def)
  obtain raw where raw: "as_raw rd (n + 4) s = (Inr (take (n + 4) (content (as_reader s))), s\<lparr>as_reader := raw\<rparr>)"
    "valid raw" "content raw = drop (n + 4) (content (as_reader s))"
    using as_raw_content [OF assms(1)] by blast
  show ?thesis
  proof (cases "n \<le> length R")
    case True
    define d R' where "d = take n R" and "R' = drop n R"
    then have d: "length d = n" "R = d @ R'" using True by simp_all
    have "last_part n R' = last_part n R" using last_part_drop [OF assms(3) True] by (simp add: R'_def)
    then have c: "take (n + 4) (content (as_reader s)) = d @ crc4 d"
      "content raw = full_frames n R' @ (if trunc then [] else last_part n R' @ crc4 T)"
      using s(6) raw(3) d(1) full_frames_chunk [OF assms(3) d(1), of R'] by (simp_all add: d(2))
    define s' where "s' = s\<lparr>as_reader := raw, as_pos := as_pos s + (n + 4), as_crccrc := crc_fed (got @ d),
      as_buffers := [d]\<rparr>"
    have "fill_next_buffer rd s = (Inr (), s')"
      using s(1,2,4) raw(1) d(1) assms(4) unfolding c(1)
      by (simp add: fill_next_buffer_def read_chunk_def check_chunk_def monad_simps Let_def s'_def)
    moreover have "as_mid trunc n T R' s'"
    proof -
      have "T = (got @ d) @ R'" "trunc \<longrightarrow> n dvd length R'"
        using s(3,5) d by (simp_all add: dvd_add_right_iff)
      then show ?thesis using s(1,2) c(2) unfolding as_mid_def by (auto simp: s'_def simp del: append_assoc)
    qed
    then have "as_over trunc n T R' s'" using raw(2) by (simp add: as_over_def s'_def)
    moreover have "as_weight R' s' < as_weight R s"
      using d assms(3-5) by (simp add: as_weight_def s'_def)
    moreover have "as_buffers s' = [d]" by (simp add: s'_def)
    ultimately show ?thesis using d(2) by blast
  next
    case False
    have nc: "\<not> trunc"
    proof
      assume trunc
      with s(5) False have "R = []" by (auto dest: dvd_imp_le)
      with s(6) \<open>trunc\<close> assms(3,5) show False by simp
    qed
    with False have c: "take (n + 4) (content (as_reader s)) = R @ crc4 T" "content raw = []"
      using s(6) raw(3) by (simp_all add: last_part_short)
    define s' where "s' = s\<lparr>as_reader := raw, as_pos := as_pos s + (length R + 4) + length R + 4,
      as_crc := crc_fed R, as_crccrc := crc_fed [], as_buffers := [R]\<rparr>"
    have "fill_next_buffer rd s = (Inr (), s')"
      using s(1-4) raw(1) False assms(4) unfolding c(1)
      by (simp add: fill_next_buffer_def read_chunk_def check_chunk_def monad_simps Let_def s'_def)
    moreover have "as_over trunc n T [] s'" using raw(2) c(2) s(1) by (simp add: as_over_def s'_def)
    ultimately show ?thesis
      using s(6) nc c(2) assms(4)
      by (intro exI [of _ s'] exI [of _ R] exI [of _ "[]"]) (auto simp: as_weight_def s'_def)
  qed
qed

lemma fill_start:
  assumes "valid (as_reader s)" and "as_chunk_size s = None" and "as_crc s = crc_fed []" and "as_crccrc s = crc_fed []"
    and "content (as_reader s) = arrow_wire trunc n T" and "trunc \<longrightarrow> n dvd length T \<and> T \<noteq> []" and "0 < n" and "n < 2 ^ 32"
  obtains s' k where "read_chunk_size rd s = (Inr k, s')" and "as_buffers s' = as_buffers s"
    and "valid (as_reader s')" and "T = [] \<longrightarrow> content (as_reader s') = []"
    and "T \<noteq> [] \<longrightarrow> k = n \<and> as_mid trunc n T T (s'\<lparr>as_chunk_size := Some k\<rparr>)"
proof -
  obtain raw where raw: "as_raw rd 4 s = (Inr (take 4 (arrow_wire trunc n T)), s\<lparr>as_reader := raw\<rparr>)"
    "valid raw" "content raw = drop 4 (arrow_wire trunc n T)"
    using as_raw_content [OF assms(1), of 4] assms(5) by metis
  define s' where "s' = s\<lparr>as_reader := raw, as_pos := as_pos s + 4\<rparr>"
  show ?thesis
  proof (cases "T = []")
    case True
    then have "read_chunk_size rd s = (Inr (nat (uint (crc32c_of []))), s')"
      using raw(1) assms(6) by (simp add: read_chunk_size_def monad_simps arrow_wire_def arrow_image_def s'_def)
    then show ?thesis by (rule that) (use raw(2,3) True assms(6) in \<open>simp_all add: s'_def arrow_wire_def arrow_image_def\<close>)
  next
    case False
    then have "read_chunk_size rd s = (Inr n, s')"
      using raw(1) assms(8) by (simp add: read_chunk_size_def monad_simps arrow_wire_def arrow_image_def unpack_be_bytes s'_def)
    then show ?thesis
      by (rule that) (use raw(2,3) False assms(3,4,6) in \<open>simp_all add: s'_def arrow_wire_def arrow_image_def as_mid_def\<close>)
  qed
qed

lemma fill_over:
  assumes "as_over trunc n T R s" and "as_buffers s = []" and "0 < n" and "n < 2 ^ 32"
  obtains (ended) s' where "fill_next_buffer rd s = (Inr (), s')" and "as_buffers s' = []" and "R = []"
      and "as_over trunc n T [] s'" and "as_weight [] s' \<le> as_weight R s"
  | (chunk) s' d R' where "fill_next_buffer rd s = (Inr (), s')" and "as_over trunc n T R' s'" and "R = d @ R'"
      and "as_buffers s' = [d]" and "as_weight R' s' < as_weight R s"
proof -
  have v: "valid (as_reader s)" using assms(1) by (simp add: as_over_def)
  consider "as_mid trunc n T R s" "content (as_reader s) \<noteq> []" | k where "as_chunk_size s = Some k" "R = []" "content (as_reader s) = []"
    | "as_chunk_size s = None" "R = T" "as_crc s = crc_fed []" "as_crccrc s = crc_fed []"
      "content (as_reader s) = arrow_wire trunc n T" "trunc \<longrightarrow> n dvd length T \<and> T \<noteq> []"
  proof -
    have "R = []" if "as_mid trunc n T R s" "content (as_reader s) = []"
      using that assms(3) by (cases "n \<le> length R")
        (auto simp: as_mid_def full_frames.simps [of n R] split: if_splits dest: dvd_imp_le)
    then show ?thesis using assms(1) that by (cases "content (as_reader s) = []") (auto simp: as_over_def as_mid_def)
  qed
  then show thesis
  proof cases
    case 1
    from fill_mid [OF v 1(1) assms(3,2) 1(2)] chunk show thesis by blast
  next
    case 2
    from fill_ended [OF v 2(3,1)] obtain s' where s': "fill_next_buffer rd s = (Inr (), s')" "valid (as_reader s')"
      "content (as_reader s') = []" "as_chunk_size s' = Some k" "as_buffers s' = as_buffers s" .
    show thesis by (rule ended [OF s'(1)]) (use s' 2 assms(2) in \<open>simp_all add: as_over_def as_weight_def\<close>)
  next
    case 3
    from fill_start [OF v 3(1,3-6) assms(3,4)] obtain u k where u: "read_chunk_size rd s = (Inr k, u)"
      "as_buffers u = as_buffers s" "valid (as_reader u)" "T = [] \<longrightarrow> content (as_reader u) = []"
      "T \<noteq> [] \<longrightarrow> k = n \<and> as_mid trunc n T T (u\<lparr>as_chunk_size := Some k\<rparr>)" .
    define t where "t = u\<lparr>as_chunk_size := Some k\<rparr>"
    have step: "fill_next_buffer rd s = fill_next_buffer rd t"
      using u(1) 3(1) by (simp add: fill_next_buffer_def monad_simps t_def)
    have t: "valid (as_reader t)" "as_buffers t = []" "as_chunk_size t = Some k"
      using u(2,3) assms(2) by (simp_all add: t_def)
    have w: "as_weight T t \<le> as_weight R s"
      using t(2) assms(2) 3(2,5) by (simp add: as_weight_def arrow_wire_def arrow_image_def)
    show thesis
    proof (cases "T = []")
      case True
      then have "content (as_reader t) = []" using u(4) by (simp add: t_def)
      from fill_ended [OF t(1) this t(3)] obtain s' where s': "fill_next_buffer rd t = (Inr (), s')" "valid (as_reader s')"
        "content (as_reader s') = []" "as_chunk_size s' = Some k" "as_buffers s' = as_buffers t" .
      show thesis by (rule ended [of s']) (use step s' t(2) True 3(2) in \<open>simp_all add: as_over_def as_weight_def\<close>)
    next
      case False
      with u(5) have m: "as_mid trunc n T T t" unfolding t_def by blast
      have "content (as_reader t) \<noteq> []"
      proof
        assume e: "content (as_reader t) = []"
        then have "\<not> n \<le> length T" using m assms(3) by (auto simp: as_mid_def full_frames.simps [of n T])
        with m e False show False by (auto simp: as_mid_def split: if_splits dest: dvd_imp_le)
      qed
      from fill_mid [OF t(1) m assms(3) t(2) this] obtain s' d R' where
        f: "fill_next_buffer rd t = (Inr (), s')" "as_over trunc n T R' s'" "T = d @ R'" "as_buffers s' = [d]"
        "as_weight R' s' < as_weight T t" by blast
      show thesis by (rule chunk [of s' R' d]) (use step f w 3(2) in simp_all)
    qed
  qed
qed

definition as_pending :: "bytes \<Rightarrow> 's arrow_stream \<Rightarrow> bytes" where
  "as_pending R s = concat (as_buffers s) @ R"

lemma take_buffer_over:
  assumes "as_over trunc n T R s" and "as_buffers s = first # others" and "case nbytes of None \<Rightarrow> True | Some k \<Rightarrow> length out < k"
  obtains s' b where "take_buffer nbytes out s = (Inr (out @ b), s')" and "as_over trunc n T R s'"
    and "as_weight R s' < as_weight R s" and "as_pending R s = b @ as_pending R s'"
    and "case nbytes of None \<Rightarrow> True | Some k \<Rightarrow> length (out @ b) \<le> k"
proof -
  define b where "b = (case nbytes of None \<Rightarrow> first | Some k \<Rightarrow> take (k - length out) first)"
  define s' where "s' = s\<lparr>as_buffers := (if b = [] then others else drop (length b) first # others)\<rparr>"
  obtain m where m: "b = take m first" "m = 0 \<longrightarrow> first = []"
    using assms(3) that [of "length first"] that by (auto simp: b_def split: option.splits)
  then have b: "first = b @ drop (length b) first" "b = [] \<longrightarrow> first = []"
    by (cases "m \<le> length first"; simp)+
  have "take_buffer nbytes out s = (Inr (out @ b), s')"
    using assms(2) by (auto simp: take_buffer_def b_def s'_def Let_def)
  moreover have "as_over trunc n T R s'" using assms(1) by (simp add: as_over_def as_mid_def s'_def)
  moreover have "length (drop (length b) first) + length b = length first" using b(1) by (metis add.commute length_append)
  then have "b \<noteq> [] \<longrightarrow> length (drop (length b) first) < length first" by (cases b) auto
  then have "as_weight R s' < as_weight R s"
    using assms(2) b(2) by (cases "b = []") (simp_all add: as_weight_def s'_def del: length_drop)
  moreover have "as_pending R s = b @ as_pending R s'"
    using assms(2) b by (auto simp: as_pending_def s'_def simp flip: append_assoc)
  moreover have "case nbytes of None \<Rightarrow> True | Some k \<Rightarrow> length (out @ b) \<le> k"
    using assms(3) by (auto simp: b_def split: option.splits)
  ultimately show ?thesis by (rule that)
qed

lemma as_loop_over:
  assumes "as_over trunc n T R s" and "0 < n" and "n < 2 ^ 32" and "as_weight R s < fuel"
    and "case nbytes of None \<Rightarrow> True | Some k \<Rightarrow> length out \<le> k"
  shows "\<exists>s' R' b. as_loop rd fuel nbytes out s = (Inr (out @ b), s') \<and> as_over trunc n T R' s' \<and>
    as_weight R' s' \<le> as_weight R s \<and> as_pending R s = b @ as_pending R' s' \<and>
    (case nbytes of None \<Rightarrow> as_pending R' s' = [] | Some k \<Rightarrow> b = take (k - length out) (as_pending R s))"
  using assms
proof (induction fuel arbitrary: R s out)
  case (Suc fuel)
  show ?case
  proof (cases "case nbytes of None \<Rightarrow> False | Some k \<Rightarrow> k \<le> length out")
    case True
    then obtain k where k: "nbytes = Some k" "k \<le> length out" by (auto split: option.splits)
    with Suc.prems show ?thesis by (intro exI [of _ s] exI [of _ R] exI [of _ "[]"]) (simp add: sret_apply)
  next
    case go: False
    then have lt: "case nbytes of None \<Rightarrow> True | Some k \<Rightarrow> length out < k" by (auto split: option.splits)
    have step: "\<exists>s' R' b. sbind (take_buffer nbytes out) (as_loop rd fuel nbytes) u = (Inr (out @ b), s') \<and>
        as_over trunc n T R' s' \<and> as_weight R' s' \<le> as_weight R s \<and> as_pending Q u = b @ as_pending R' s' \<and>
        (case nbytes of None \<Rightarrow> as_pending R' s' = [] | Some k \<Rightarrow> b = take (k - length out) (as_pending Q u))"
      if u: "as_over trunc n T Q u" "as_buffers u = first # others" "as_weight Q u \<le> as_weight R s" for Q u first others
    proof -
      from take_buffer_over [OF u(1,2) lt] obtain v b where v: "take_buffer nbytes out u = (Inr (out @ b), v)"
        "as_over trunc n T Q v" "as_weight Q v < as_weight Q u" "as_pending Q u = b @ as_pending Q v"
        "case nbytes of None \<Rightarrow> True | Some k \<Rightarrow> length (out @ b) \<le> k" .
      from v(3) u(3) Suc.prems(4) have "as_weight Q v < fuel" by simp
      from Suc.IH [OF v(2) Suc.prems(2,3) this v(5)] obtain s' R' c where
        ih: "as_loop rd fuel nbytes (out @ b) v = (Inr ((out @ b) @ c), s')" "as_over trunc n T R' s'"
        "as_weight R' s' \<le> as_weight Q v" "as_pending Q v = c @ as_pending R' s'"
        "case nbytes of None \<Rightarrow> as_pending R' s' = [] | Some k \<Rightarrow> c = take (k - length (out @ b)) (as_pending Q v)"
        by blast
      have "case nbytes of None \<Rightarrow> as_pending R' s' = [] | Some k \<Rightarrow> b @ c = take (k - length out) (as_pending Q u)"
        using ih(5) v(4,5) by (auto split: option.splits)
      with v ih u(3) show ?thesis
        by (intro exI [of _ s'] exI [of _ R'] exI [of _ "b @ c"]) (simp add: sbind_Inr)
    qed
    show ?thesis
    proof (cases "as_buffers s")
      case (Cons first others)
      have "as_loop rd (Suc fuel) nbytes out s = sbind (take_buffer nbytes out) (as_loop rd fuel nbytes) s"
        using go Cons by (simp add: sbind_Inr sget_apply)
      with step [OF Suc.prems(1) Cons] show ?thesis by simp
    next
      case Nil
      from Suc.prems(1) Nil Suc.prems(2,3) show ?thesis
      proof (cases rule: fill_over)
        case (ended s')
        with go Nil show ?thesis
          by (intro exI [of _ s'] exI [of _ "[]"] exI [of _ "[]"])
            (auto simp: monad_simps as_pending_def split: option.splits)
      next
        case (chunk s' d R')
        then have p: "as_pending R s = as_pending R' s'" using Nil by (simp add: as_pending_def)
        have "as_loop rd (Suc fuel) nbytes out s = sbind (take_buffer nbytes out) (as_loop rd fuel nbytes) s'"
          using go Nil chunk(1,4) by (simp add: sbind_Inr sget_apply)
        with step [OF chunk(2,4)] chunk(5) show ?thesis unfolding p by simp
      qed
    qed
  qed
qed simp
end

section \<open>Properties\<close>

lemma take_rest: "P = take k P @ Q \<Longrightarrow> Q = drop k P"
  by (metis append_take_drop_id same_append_eq)

context byte_source
begin

lemma as_read_over:
  assumes "as_over trunc n T R s" and "0 < n" and "n < 2 ^ 32" and "as_weight R s < fuel"
  shows "\<exists>s' R' b. as_read rd fuel nbytes s = (Inr b, s') \<and> as_over trunc n T R' s' \<and>
    as_weight R' s' \<le> as_weight R s \<and> as_pending R s = b @ as_pending R' s' \<and>
    b = (case nbytes of None \<Rightarrow> as_pending R s | Some k \<Rightarrow> take k (as_pending R s))"
proof (cases nbytes)
  case None
  with as_loop_over [OF assms, where nbytes = nbytes and out = "[]"] show ?thesis by (force simp: as_read_def)
next
  case (Some k)
  with as_loop_over [OF assms, where nbytes = nbytes and out = "[]"] show ?thesis by (simp add: as_read_def)
qed

lemma as_reads_over:
  assumes "as_over trunc n T R s" and "0 < n" and "n < 2 ^ 32" and "as_weight R s < fuel"
  shows "\<exists>pieces s' R'. sseq (List.map (\<lambda>k. as_read rd fuel (Some k)) sizes) s = (Inr pieces, s') \<and>
    concat pieces = take (sum_list sizes) (as_pending R s) \<and> as_over trunc n T R' s' \<and>
    as_weight R' s' \<le> as_weight R s \<and> as_pending R' s' = drop (sum_list sizes) (as_pending R s)"
  using assms
proof (induction sizes arbitrary: R s)
  case Nil
  then show ?case by (auto simp: sret_apply)
next
  case (Cons k ks)
  from as_read_over [OF Cons.prems, of "Some k"] obtain u Q b where u: "as_read rd fuel (Some k) s = (Inr b, u)"
    "as_over trunc n T Q u" "as_weight Q u \<le> as_weight R s" "as_pending R s = b @ as_pending Q u"
    "b = take k (as_pending R s)" unfolding option.case by blast
  from u(3) Cons.prems(4) have "as_weight Q u < fuel" by simp
  from Cons.IH [OF u(2) Cons.prems(2,3) this] obtain pieces s' R' where
    ih: "sseq (List.map (\<lambda>k. as_read rd fuel (Some k)) ks) u = (Inr pieces, s')"
    "concat pieces = take (sum_list ks) (as_pending Q u)" "as_over trunc n T R' s'"
    "as_weight R' s' \<le> as_weight Q u" "as_pending R' s' = drop (sum_list ks) (as_pending Q u)" by blast
  have d: "as_pending Q u = drop k (as_pending R s)"
    using u(4) unfolding u(5) by (rule take_rest)
  show ?case
  proof (intro exI conjI)
    show "sseq (List.map (\<lambda>k. as_read rd fuel (Some k)) (k # ks)) s = (Inr (b # pieces), s')"
      using u(1) ih(1) by (simp add: sbind_Inr sret_apply)
    show "concat (b # pieces) = take (sum_list (k # ks)) (as_pending R s)"
      using ih(2) u(5) by (simp add: d take_add)
    show "as_pending R' s' = drop (sum_list (k # ks)) (as_pending R s)"
      using ih(5) by (simp add: d add.commute)
  qed (use ih u(3) in simp_all)
qed

end

lemma as_new_over:
  assumes "concat chunks = arrow_wire trunc n T" and "trunc \<longrightarrow> n dvd length T \<and> T \<noteq> []"
  shows "simple_source.as_over trunc n T T (as_new (si_open chunks) schema) \<and>
    simple_source.as_weight T (as_new (si_open chunks) schema) \<le> length schema + 3 * length T + 4 \<and>
    simple_source.as_pending T (as_new (si_open chunks) schema) = schema @ T"
  using assms
  by (simp add: simple_source.as_over_def simple_source.as_weight_def simple_source.as_pending_def as_new_def new_crc_fed)

text \<open>C7: the Arrow bytes that \<^verbatim>\<open>BaseArrowWriter\<close> was given, batch by batch, and closed on, are what
  \<^verbatim>\<open>ArrowStreamReader\<close> gives after the schema, whatever the chunk size, the network blocks and the sizes asked
  for, every checksum being accepted: reads with sizes give consecutive pieces, a final \<^verbatim>\<open>read()\<close> all the rest.\<close>

theorem arrow_stream_roundtrip:
  assumes "0 < n" and "n < 2 ^ 32"
    and "concat chunks = aw_out (aw_close (fold aw_write batchess (aw_new (Some n) dflt)))"
    and "data = schema @ concat (concat batchess)" and "3 * length data + 4 < fuel"
  shows "\<exists>pieces s s'.
    sseq (List.map (\<lambda>k. as_read si_read_limit fuel (Some k)) sizes) (as_new (si_open chunks) schema) = (Inr pieces, s) \<and>
    concat pieces = take (sum_list sizes) data \<and>
    as_read si_read_limit fuel None s = (Inr (drop (sum_list sizes) data), s')"
proof -
  define D where "D = concat (concat batchess)"
  have "concat chunks = arrow_wire False n D"
    using arrow_stream_written [OF assms(1)] assms(3) by (simp add: arrow_wire_def D_def)
  from as_new_over [OF this, of schema] have new:
    "simple_source.as_over False n D D (as_new (si_open chunks) schema)"
    "simple_source.as_weight D (as_new (si_open chunks) schema) < fuel"
    "simple_source.as_pending D (as_new (si_open chunks) schema) = data"
    using assms(4,5) by (auto simp: D_def)
  from simple_source.as_reads_over [OF new(1) assms(1,2) new(2), of sizes] obtain pieces s R where s:
    "sseq (List.map (\<lambda>k. as_read si_read_limit fuel (Some k)) sizes) (as_new (si_open chunks) schema) = (Inr pieces, s)"
    "concat pieces = take (sum_list sizes) data" "simple_source.as_over False n D R s"
    "simple_source.as_weight R s \<le> simple_source.as_weight D (as_new (si_open chunks) schema)"
    "simple_source.as_pending R s = drop (sum_list sizes) data" unfolding new(3) by blast
  from s(4) new(2) have "simple_source.as_weight R s < fuel" by simp
  from simple_source.as_read_over [OF s(3) assms(1,2) this, of None] obtain s' where
    "as_read si_read_limit fuel None s = (Inr (drop (sum_list sizes) data), s')"
    unfolding option.case s(5) by blast
  with s(1,2) show ?thesis by blast
qed

theorem arrow_stream_roundtrip_witness:
  "\<exists>pieces s s'.
    sseq (List.map (\<lambda>k. as_read si_read_limit 99 (Some k)) [1, 3])
      (as_new (si_open [aw_out (aw_close (fold aw_write [[[1, 2], [3]], [[4, 5]]] (aw_new (Some 2) 9)))]) [7, 8]) = (Inr pieces, s) \<and>
    concat pieces = [7, 8, 1, 2] \<and> as_read si_read_limit 99 None s = (Inr [3, 4, 5], s')"
  using arrow_stream_roundtrip [of 2 _ "[[[1, 2], [3]], [[4, 5]]]" 9 "[7, 8, 1, 2, 3, 4, 5]" "[7, 8]" 99 "[1, 3]"] by simp

text \<open>C8: a stream that breaks off after the checksum of a full chunk is not told from a complete one: \<^verbatim>\<open>read()\<close> returns
  the chunks received so far, although the checksum of the whole stream never came.\<close>

theorem arrow_truncation_unnoticed:
  assumes "0 < n" and "n < 2 ^ 32" and "n dvd length received" and "received \<noteq> []"
    and "concat (concat batchess) = received @ lost"
    and "concat chunks = take (4 + length (full_frames n received))
           (aw_out (aw_close (fold aw_write batchess (aw_new (Some n) dflt))))"
    and "length schema + 3 * length received + 4 < fuel"
  shows "fst (as_read si_read_limit fuel None (as_new (si_open chunks) schema)) = Inr (schema @ received)"
proof -
  have "full_frames n (received @ lost) = full_frames n received @ full_frames n lost"
    by (rule full_frames_append [OF assms(1,3)])
  then have "take (4 + length (full_frames n received)) (arrow_image n (received @ lost)) =
      be_bytes 4 (int n) @ full_frames n received"
    using assms(4) by (simp add: arrow_image_def)
  then have "concat chunks = arrow_wire True n received"
    unfolding assms(6) arrow_stream_written [OF assms(1)] assms(5) by (simp add: arrow_wire_def)
  from as_new_over [OF this, of schema] assms(3,4) have new:
    "simple_source.as_over True n received received (as_new (si_open chunks) schema)"
    "simple_source.as_weight received (as_new (si_open chunks) schema) \<le> length schema + 3 * length received + 4"
    "simple_source.as_pending received (as_new (si_open chunks) schema) = schema @ received" by simp_all
  from new(2) assms(7) have "simple_source.as_weight received (as_new (si_open chunks) schema) < fuel" by simp
  from simple_source.as_read_over [OF new(1) assms(1,2) this, of None] obtain s' where
    "as_read si_read_limit fuel None (as_new (si_open chunks) schema) = (Inr (schema @ received), s')"
    unfolding option.case new(3) by blast
  then show ?thesis by simp
qed

theorem arrow_truncation_unnoticed_witness:
  "fst (as_read si_read_limit 99 None (as_new (si_open
     [take (4 + length (full_frames 2 [1, 2])) (aw_out (aw_close (fold aw_write [[[1, 2, 3]]] (aw_new (Some 2) 9))))]) [7])) =
   Inr [7, 1, 2]"
  using arrow_truncation_unnoticed [of 2 "[1, 2]" "[[[1, 2, 3]]]" "[3]"
      "[take (4 + length (full_frames 2 [1, 2])) (aw_out (aw_close (fold aw_write [[[1, 2, 3]]] (aw_new (Some 2) 9))))]"
      9 "[7]" 99] by simp

end
