(* ===== verification/Tunnel_Session.thy ===== *)
theory Tunnel_Session
  imports Tunnel_Retry Block_Upload
begin

text \<open>
  \<^verbatim>\<open>odps/tunnel/tabletunnel.py\<close>: the routes of tunnel sessions. \<^verbatim>\<open>Slot\<close> is the address of a worker;
  \<^verbatim>\<open>TableStreamUploadSession\<close> hands its slots out in turn and \<^verbatim>\<open>TableUpsertSession\<close> maps buckets to slots.
  Slots are objects that sessions, writers and snapshots of the bucket map share and that are changed in
  place: they live in a store, and references are positions in it. What the server answers, the time and
  sleeping are parameters acting on a world \<open>'w\<close>; an answer carries the routes and the status, the other
  fields of a session being the same in every answer. The threads that reload a session in the background
  and the locks against them are left out.
\<close>

section \<open>Slots\<close>

record slot =
  sl_slot :: string
  sl_ip :: "string option"
  sl_port :: "int option"

text \<open>The address is assigned before the port is parsed.\<close>

definition set_server :: "string \<Rightarrow> bool \<Rightarrow> (slot, unit) sm" where
  "set_server server check_empty s =
     (case py_split CHR '':'' server of
        [ip, port] \<Rightarrow>
          if check_empty \<and> (ip = [] \<or> port = []) then (Inl TunnelError, s)
          else if ip = [] then (Inl TunnelError, s)
          else if port = [] then (Inl TunnelError, s)
          else
            let s = s\<lparr>sl_ip := Some ip\<rparr>
            in (case py_int port of
                  Inl e \<Rightarrow> (Inl e, s)
                | Inr n \<Rightarrow> (Inr (), s\<lparr>sl_port := Some n\<rparr>))
      | _ \<Rightarrow> (Inl TunnelError, s))"

definition slot_new :: "string option \<Rightarrow> string option \<Rightarrow> slot result" where
  "slot_new slot server =
     (case (slot, server) of
        (Some i, Some addr) \<Rightarrow>
          if i = [] \<or> addr = [] then Inl TunnelError
          else (case set_server addr True \<lparr>sl_slot = i, sl_ip = None, sl_port = None\<rparr> of
                  (Inl e, _) \<Rightarrow> Inl e
                | (Inr _, s) \<Rightarrow> Inr s)
      | _ \<Rightarrow> Inl TunnelError)"

definition slot_server :: "slot \<Rightarrow> string" where
  "slot_server s =
     (case sl_ip s of None \<Rightarrow> ''None'' | Some ip \<Rightarrow> ip) @ '':'' @
     (case sl_port s of None \<Rightarrow> ''None'' | Some n \<Rightarrow> py_str_int n)"

section \<open>TableStreamUploadSession\<close>

text \<open>\<^verbatim>\<open>Slots\<close>: the slots and \<^verbatim>\<open>_idx\<close>, which starts at random.\<close>

record stream_slots =
  ss_slots :: "nat list"
  ss_idx :: nat

fun new_slots :: "string option list list \<Rightarrow> slot list \<Rightarrow> (slot list \<times> nat list) result" where
  "new_slots [] store = Inr (store, [])"
| "new_slots (v # vs) store =
     (case v of
        [i, addr] \<Rightarrow>
          rbind (slot_new i addr) (\<lambda>s.
            rbind (new_slots vs (store @ [s])) (\<lambda>(store', refs). Inr (store', length store # refs)))
      | _ \<Rightarrow> Inl TunnelError)"

definition stream_slots_new ::
    "string option list list \<Rightarrow> nat option \<Rightarrow> nat \<Rightarrow> slot list \<Rightarrow> (slot list \<times> stream_slots) result" where
  "stream_slots_new elements slot_idx random store =
     rbind (new_slots elements store) (\<lambda>(store', refs).
       Inr (store', \<lparr>ss_slots = refs,
         ss_idx = (case slot_idx of Some i \<Rightarrow> i | None \<Rightarrow> if refs = [] then 0 else random)\<rparr>))"

definition slots_next :: "stream_slots \<Rightarrow> nat option \<times> stream_slots" where
  "slots_next ss =
     (if ss_slots ss = [] then (None, ss)
      else (Some (ss_slots ss ! (ss_idx ss mod length (ss_slots ss))), ss\<lparr>ss_idx := ss_idx ss + 1\<rparr>))"

definition slots_current :: "stream_slots \<Rightarrow> nat option" where
  "slots_current ss =
     (if ss_slots ss = [] then None
      else Some (ss_slots ss ! ((ss_idx ss + length (ss_slots ss) - 1) mod length (ss_slots ss))))"

record 'w stream_session =
  ts_store :: "slot list"
  ts_slots :: stream_slots
  ts_last_reload :: int
  ts_throttle :: int
  ts_world :: 'w

text \<open>The requests of a session: the routes it gets, and a block it puts, sent to a server.\<close>

record 'w session_calls =
  sc_get :: "('w, string option list list) sm"
  sc_put :: "retry_context \<Rightarrow> string \<Rightarrow> bytes \<Rightarrow> ('w, response) sm"
  sc_now :: "'w \<Rightarrow> int"

definition on_server :: "('w, 'a) sm \<Rightarrow> (('w, 'z) stream_session_scheme, 'a) sm" where
  "on_server m = (\<lambda>s. case m (ts_world s) of (r, w) \<Rightarrow> (r, s\<lparr>ts_world := w\<rparr>))"

text \<open>A reload keeps the position in the round.\<close>

definition install_slots :: "string option list list \<Rightarrow> (('w, 'z) stream_session_scheme, unit) sm" where
  "install_slots elements s =
     (case stream_slots_new elements None 0 (ts_store s) of
        Inl e \<Rightarrow> (Inl e, s)
      | Inr (store, ss) \<Rightarrow>
          (Inr (), s\<lparr>ts_store := store, ts_slots := ss\<lparr>ss_idx := ss_idx (ts_slots s)\<rparr>\<rparr>))"

definition stream_reload :: "'w session_calls \<Rightarrow> bool \<Rightarrow> (('w, 'z) stream_session_scheme, unit) sm" where
  "stream_reload sc force s =
     (if \<not> force \<and> sc_now sc (ts_world s) - ts_last_reload s < ts_throttle s then (Inr (), s)
      else
        sbind (on_server (sc_get sc)) (\<lambda>elements.
        sthen (install_slots elements)
          (smod (\<lambda>s. s\<lparr>ts_last_reload := sc_now sc (ts_world s)\<rparr>))) s)"

definition update_slot :: "nat \<Rightarrow> string \<Rightarrow> (('w, 'z) stream_session_scheme, unit) sm" where
  "update_slot ref server s =
     (case set_server server False (ts_store s ! ref) of
        (r, sl) \<Rightarrow> (r, s\<lparr>ts_store := (ts_store s)[ref := sl]\<rparr>))"

definition reload_slots :: "'w session_calls \<Rightarrow> nat \<Rightarrow> string \<Rightarrow> int \<Rightarrow> (('w, 'z) stream_session_scheme, unit) sm" where
  "reload_slots sc ref server slot_num s =
     (if int (length (ss_slots (ts_slots s))) \<noteq> slot_num then stream_reload sc True s
      else if slot_server (ts_store s ! ref) \<noteq> server then update_slot ref server s
      else (Inr (), s))"

subsection \<open>The writer of a stream\<close>

text \<open>
  The dictionary \<^verbatim>\<open>state\<close> of \<^verbatim>\<open>_open_writer\<close>: the slot, and the server that \<^verbatim>\<open>_get_upload_params\<close> put into the
  headers when it was called.
\<close>

record 'w stream_route = "'w stream_session" +
  su_slot :: nat
  su_server :: string

definition open_stream_writer :: "'w stream_session \<Rightarrow> 'w stream_route result" where
  "open_stream_writer s =
     (case slots_next (ts_slots s) of
        (None, _) \<Rightarrow> Inl AttributeError
      | (Some ref, ss) \<Rightarrow>
          Inr (stream_session.extend (s\<lparr>ts_slots := ss\<rparr>)
            \<lparr>su_slot = ref, su_server = slot_server (ts_store s ! ref)\<rparr>))"

definition BAD_GATEWAY :: nat where "BAD_GATEWAY = 502"
definition GATEWAY_TIMEOUT :: nat where "GATEWAY_TIMEOUT = 504"

definition resolve_slot :: "('w stream_route, unit) sm" where
  "resolve_slot s =
     (case slots_current (ts_slots s) of
        None \<Rightarrow> (Inl AttributeError, s)
      | Some ref \<Rightarrow> (Inr (), s\<lparr>su_slot := ref, su_server := slot_server (ts_store s ! ref)\<rparr>))"

definition on_error_status :: "'w session_calls \<Rightarrow> nat \<Rightarrow> ('w stream_route, unit) sm" where
  "on_error_status sc code s =
     (if code \<in> {BAD_GATEWAY, GATEWAY_TIMEOUT} then
        (case stream_reload sc True s of
           (Inl TunnelError, s') \<Rightarrow> (Inr (), s')
         | (Inl e, s') \<Rightarrow> (Inl e, s')
         | (Inr _, s') \<Rightarrow> resolve_slot s')
      else (Inr (), s))"

definition do_put :: "'w session_calls \<Rightarrow> bytes \<Rightarrow> retry_context \<Rightarrow> ('w stream_route, response) sm" where
  "do_put sc data ctx = sbind (sget su_server) (\<lambda>server. on_server (sc_put sc ctx server data))"

definition upload_block ::
    "string \<Rightarrow> 'w stream_route retry_handler \<Rightarrow> 'w session_calls \<Rightarrow> nat \<Rightarrow> bytes \<Rightarrow>
     ('w stream_route, response) sm" where
  "upload_block trace h sc fuel data s =
     (case execute_with_retry_ctx trace h (do_put sc data) (Some (on_error_status sc)) None fuel s of
        (r, run) \<Rightarrow> (r, ru_world run))"

text \<open>The calls that \<^verbatim>\<open>StreamRecordWriter\<close> makes, on this session.\<close>

definition session_calls ::
    "string \<Rightarrow> 'w stream_route retry_handler \<Rightarrow> 'w session_calls \<Rightarrow> nat \<Rightarrow> 'w stream_route stream_calls" where
  "session_calls trace h sc fuel =
     \<lparr>st_request = upload_block trace h sc fuel,
      st_reload_slots = (\<lambda>slot server n. reload_slots sc (nat slot) server n)\<rparr>"

section \<open>TableUpsertSession\<close>

datatype upsert_status =
  UpsertNormal | UpsertCommitting | UpsertCommitted | UpsertExpired | UpsertCritical | UpsertAborted

text \<open>\<^verbatim>\<open>slot_id\<close>, \<^verbatim>\<open>worker_addr\<close> and \<^verbatim>\<open>buckets\<close> of an element, and what a session knows of its buckets.\<close>

type_synonym upsert_element = "string option \<times> string option \<times> int list"

fun upsert_slots_loop ::
    "upsert_element list \<Rightarrow> slot list \<Rightarrow> nat list \<Rightarrow> (int \<times> nat) list \<Rightarrow>
     (slot list \<times> nat list \<times> (int \<times> nat) list) result" where
  "upsert_slots_loop [] store refs buckets = Inr (store, refs, buckets)"
| "upsert_slots_loop ((i, addr, bs) # es) store refs buckets =
     rbind (slot_new i addr) (\<lambda>s.
       upsert_slots_loop es (store @ [s]) (refs @ [length store])
         (fold (\<lambda>idx d. AList.update idx (length store) d) bs buckets))"

definition upsert_slots_new ::
    "upsert_element list \<Rightarrow> slot list \<Rightarrow> (slot list \<times> nat list \<times> (int \<times> nat) list) result" where
  "upsert_slots_new elements store =
     rbind (upsert_slots_loop elements store [] []) (\<lambda>(store', refs, buckets).
       if \<exists>idx \<in> set (List.map fst buckets). int (length buckets) < idx then Inl TunnelError
       else Inr (store', refs, buckets))"

record 'w upsert_session =
  us_store :: "slot list"
  us_slots :: "nat list"
  us_buckets :: "(int \<times> nat) list"
  us_status :: upsert_status
  us_timeout :: int
  us_world :: 'w

record 'w upsert_calls =
  uc_get :: "('w, upsert_element list \<times> upsert_status) sm"
  uc_commit :: "('w, unit) sm"
  uc_now :: "'w \<Rightarrow> int"
  uc_sleep :: "int \<Rightarrow> 'w \<Rightarrow> 'w"

definition asking :: "('w, 'a) sm \<Rightarrow> (('w, 'z) upsert_session_scheme, 'a) sm" where
  "asking m = (\<lambda>s. case m (us_world s) of (r, w) \<Rightarrow> (r, s\<lparr>us_world := w\<rparr>))"

definition upsert_reload :: "'w upsert_calls \<Rightarrow> (('w, 'z) upsert_session_scheme, unit) sm" where
  "upsert_reload uc =
     sbind (asking (uc_get uc)) (\<lambda>(elements, status) s.
       case upsert_slots_new elements (us_store s) of
         Inl e \<Rightarrow> (Inl e, s)
       | Inr (store, refs, buckets) \<Rightarrow>
           (Inr (), s\<lparr>us_store := store, us_slots := refs, us_buckets := buckets, us_status := status\<rparr>))"

definition get_buckets :: "('w, 'z) upsert_session_scheme \<Rightarrow> (int \<times> nat) list" where
  "get_buckets s = us_buckets s"

definition update_buckets ::
    "'w upsert_calls \<Rightarrow> int \<Rightarrow> string \<Rightarrow> (('w, 'z) upsert_session_scheme, unit) sm" where
  "update_buckets uc bucket_id new_slot_server s =
     (if new_slot_server = [] then upsert_reload uc s
      else case map_of (us_buckets s) bucket_id of
        None \<Rightarrow> (Inr (), s)
      | Some ref \<Rightarrow>
          if slot_server (us_store s ! ref) \<noteq> new_slot_server then
            (case set_server new_slot_server False (us_store s ! ref) of
               (r, sl) \<Rightarrow> (r, s\<lparr>us_store := (us_store s)[ref := sl]\<rparr>))
          else (Inr (), s))"

subsection \<open>commit\<close>

definition pausing :: "'w upsert_calls \<Rightarrow> int \<Rightarrow> (('w, 'z) upsert_session_scheme, unit) sm" where
  "pausing uc delay = smod (\<lambda>s. s\<lparr>us_world := uc_sleep uc delay (us_world s)\<rparr>)"

text \<open>One turn of the loop; the \<^verbatim>\<open>except\<close> clause takes a session that is gone for a committed one.\<close>

definition commit_poll :: "'w upsert_calls \<Rightarrow> int \<Rightarrow> int \<Rightarrow> (('w, 'z) upsert_session_scheme, int) sm" where
  "commit_poll uc start delay s =
     (let body = (\<lambda>s.
            if us_timeout s < uc_now uc (us_world s) - start then (Inl TunnelError, s)
            else sthen (pausing uc delay)
                  (sthen (asking (uc_commit uc)) (sthen (upsert_reload uc) (sret (min 8 (delay * 2))))) s)
      in case body s of
           (Inl SessionNotFound, s') \<Rightarrow> (Inr delay, s'\<lparr>us_status := UpsertCommitted\<rparr>)
         | outcome \<Rightarrow> outcome)"

fun commit_loop :: "'w upsert_calls \<Rightarrow> int \<Rightarrow> nat \<Rightarrow> int \<Rightarrow> (('w, 'z) upsert_session_scheme, unit) sm" where
  "commit_loop uc start 0 delay s = (Inl FuelExhausted, s)"
| "commit_loop uc start (Suc fuel) delay s =
     (if us_status s \<in> {UpsertCommitting, UpsertNormal} then
        (case commit_poll uc start delay s of
           (Inl e, s') \<Rightarrow> (Inl e, s')
         | (Inr delay', s') \<Rightarrow> commit_loop uc start fuel delay' s')
      else (Inr (), s))"

definition upsert_commit :: "'w upsert_calls \<Rightarrow> bool \<Rightarrow> nat \<Rightarrow> (('w, 'z) upsert_session_scheme, unit) sm" where
  "upsert_commit uc async fuel s =
     (case map_of (us_buckets s) 0 of
        None \<Rightarrow> (Inl KeyError, s)
      | Some ref \<Rightarrow>
          sthen (asking (uc_commit uc))
          (sthen (upsert_reload uc) (\<lambda>s.
             if async then (Inr (), s)
             else sthen (commit_loop uc (uc_now uc (us_world s)) fuel 1)
                    (\<lambda>s. if us_status s \<noteq> UpsertCommitted then (Inl TunnelError, s) else (Inr (), s)) s)) s)"

section \<open>Properties\<close>

subsection \<open>Handing out slots\<close>

lemma slots_next_current:
  "slots_next ss = (Some ref, ss') \<Longrightarrow> slots_current ss' = Some ref"
  by (auto simp: slots_next_def slots_current_def split: if_splits)

subsection \<open>Stale routes\<close>

definition fixed_answer :: "string \<Rightarrow> int \<Rightarrow> response" where
  "fixed_answer server n =
     [''odps-tunnel-routed-server'' \<mapsto> server, ''odps-tunnel-slot-num'' \<mapsto> py_str_int n]"

text \<open>A request that is answered at once is made once, under the server the writer knows.\<close>

lemma upload_block_answered:
  assumes "py_strip t \<noteq> []" and "\<And>ctx data w. sc_put sc ctx server data w = (Inr resp, f data w)"
    and "su_server u = server"
  shows "upload_block t h sc (Suc fuel) data u = (Inr resp, u\<lparr>ts_world := f data (ts_world u)\<rparr>)"
  using assms
  by (simp add: upload_block_def execute_with_retry_ctx_def ctx_new_def retry_round_def request_def
      on_world_def do_put_def on_server_def sbind_apply smod_apply sget_apply)

lemma set_server_address:
  "py_split CHR '':'' server = [ip, port] \<Longrightarrow> ip \<noteq> [] \<Longrightarrow> port \<noteq> [] \<Longrightarrow> py_int port = Inr n \<Longrightarrow>
   set_server server False s = (Inr (), s\<lparr>sl_ip := Some ip, sl_port := Some n\<rparr>)"
  by (simp add: set_server_def)

text \<open>C10: a writer of a stream keeps sending the server it was opened with. The answer to a block names the
  server that serves the slot from now on, and \<^verbatim>\<open>reload_slots\<close> stores it in the slot; but the headers of the
  writer were made when it was opened, and only a 502 or 504 makes them anew: the next block goes to the old
  server.\<close>

theorem stale_route:
  assumes trace: "py_strip t \<noteq> []"
    and opened: "open_stream_writer s = Inr u" "su_slot u < length (ts_store s)"
    and address: "py_split CHR '':'' server = [ip, port]" "ip \<noteq> []" "port \<noteq> []"
      "py_int port = Inr n" "server = ip @ '':'' @ py_str_int n"
    and answer: "\<And>ctx old data w. sc_put sc ctx old data w = (Inr (fixed_answer server k), w @ [(old, data)])"
    and same_number: "k = int (length (ss_slots (ts_slots s)))"
  shows "\<exists>resp u1 u2 u3.
    st_request (session_calls t h sc (Suc fuel)) data u = (Inr resp, u1) \<and>
    header resp ''odps-tunnel-routed-server'' = Inr server \<and>
    st_reload_slots (session_calls t h sc (Suc fuel)) (int (su_slot u)) server k u1 = (Inr (), u2) \<and>
    slot_server (ts_store u2 ! su_slot u) = server \<and>
    st_request (session_calls t h sc (Suc fuel)) data' u2 = (Inr resp, u3) \<and>
    ts_world u3 = ts_world s @ [(slot_server (ts_store s ! su_slot u), data), (slot_server (ts_store s ! su_slot u), data')]"
proof -
  define old where "old = slot_server (ts_store s ! su_slot u)"
  from opened(1) have u: "su_server u = old" "ts_store u = ts_store s" "ts_world u = ts_world s"
      "length (ss_slots (ts_slots u)) = length (ss_slots (ts_slots s))"
    by (auto simp: open_stream_writer_def slots_next_def old_def stream_session.defs split: if_splits)
  note put = upload_block_answered [OF trace answer]
  let ?u1 = "u\<lparr>ts_world := ts_world s @ [(old, data)]\<rparr>"
  have p1: "upload_block t h sc (Suc fuel) data u = (Inr (fixed_answer server k), ?u1)"
    using put [OF u(1), of h fuel data] u(3) by simp
  let ?sl = "(ts_store s ! su_slot u)\<lparr>sl_ip := Some ip, sl_port := Some n\<rparr>"
  have new: "slot_server ?sl = server" using address(5) by (simp add: slot_server_def)
  define u2 where "u2 = (if old \<noteq> server then ?u1\<lparr>ts_store := (ts_store s)[su_slot u := ?sl]\<rparr> else ?u1)"
  have r: "reload_slots sc (su_slot u) server k ?u1 = (Inr (), u2)"
    using u(2,4) same_number set_server_address [OF address(1-4), of "ts_store s ! su_slot u"]
    by (simp add: reload_slots_def update_slot_def u2_def old_def)
  have "slot_server (ts_store u2 ! su_slot u) = server"
    using new opened(2) u(2) by (auto simp: u2_def old_def)
  moreover have "su_server u2 = old" "ts_world u2 = ts_world s @ [(old, data)]"
    using u(1) by (simp_all add: u2_def)
  then have "\<exists>u3. upload_block t h sc (Suc fuel) data' u2 = (Inr (fixed_answer server k), u3) \<and>
      ts_world u3 = ts_world s @ [(old, data), (old, data')]"
    using put [of u2 old h fuel data'] by simp
  ultimately show ?thesis
    using p1 r unfolding old_def [symmetric]
    by (auto simp: session_calls_def fixed_answer_def header_def)
qed

definition recording_calls :: "(string \<times> bytes) list session_calls" where
  "recording_calls =
     \<lparr>sc_get = (\<lambda>w. (Inr [], w)),
      sc_put = (\<lambda>ctx server data w. (Inr (fixed_answer ''9.9.9.9:90'' 1), w @ [(server, data)])),
      sc_now = (\<lambda>w. 0)\<rparr>"

definition one_slot_session :: "(string \<times> bytes) list stream_session" where
  "one_slot_session =
     \<lparr>ts_store = [\<lparr>sl_slot = ''0'', sl_ip = Some ''1.1.1.1'', sl_port = Some 10\<rparr>],
      ts_slots = \<lparr>ss_slots = [0], ss_idx = 0\<rparr>, ts_last_reload = 0, ts_throttle = 30, ts_world = []\<rparr>"

lemma stale_route_witness:
  "\<exists>u resp u1 u2 u3. let calls = session_calls ''id'' (handler_new \<lparr>to_retry_times = 4, to_retry_delay = 1\<rparr> None None)
        recording_calls (Suc 0) in
    open_stream_writer one_slot_session = Inr u \<and> st_request calls [1] u = (Inr resp, u1) \<and>
    header resp ''odps-tunnel-routed-server'' = Inr ''9.9.9.9:90'' \<and>
    st_reload_slots calls (int (su_slot u)) ''9.9.9.9:90'' 1 u1 = (Inr (), u2) \<and>
    slot_server (ts_store u2 ! su_slot u) = ''9.9.9.9:90'' \<and> st_request calls [2] u2 = (Inr resp, u3) \<and>
    ts_world u3 = [(''1.1.1.1:10'', [1]), (''1.1.1.1:10'', [2])]"
proof -
  obtain u where u: "open_stream_writer one_slot_session = Inr u" "su_slot u = 0"
    by (simp add: open_stream_writer_def one_slot_session_def slots_next_def stream_session.defs)
  have store: "su_slot u < length (ts_store one_slot_session)"
      "slot_server (ts_store one_slot_session ! su_slot u) = ''1.1.1.1:10''"
      "ts_world one_slot_session = []"
    using u(2) by (simp_all add: one_slot_session_def, code_simp)
  have address: "py_strip ''id'' \<noteq> []" "py_split CHR '':'' ''9.9.9.9:90'' = [''9.9.9.9'', ''90'']"
    "''9.9.9.9'' \<noteq> []" "''90'' \<noteq> []" "py_int ''90'' = Inr 90" "''9.9.9.9:90'' = ''9.9.9.9'' @ '':'' @ py_str_int 90"
    by code_simp+
  have answer: "sc_put recording_calls ctx old data w = (Inr (fixed_answer ''9.9.9.9:90'' 1), w @ [(old, data)])"
    for ctx old data w by (simp add: recording_calls_def)
  have number: "1 = int (length (ss_slots (ts_slots one_slot_session)))" by (simp add: one_slot_session_def)
  from stale_route [OF address(1) u(1) store(1) address(2-6) answer number,
      where data = "[1]" and data' = "[2]" and fuel = 0 and
        h = "handler_new \<lparr>to_retry_times = 4, to_retry_delay = 1\<rparr> None None"]
  show ?thesis using u(1) unfolding store(2,3) Let_def append_Nil by blast
qed

subsection \<open>Committing an upsert session\<close>

lemma asking_cases:
  assumes "asking m s = (r, s')"
  obtains w where "m (us_world s) = (r, w)" "s' = s\<lparr>us_world := w\<rparr>"
  using assms by (auto simp: asking_def split: prod.splits)

lemma upsert_reload_keeps:
  assumes "upsert_reload uc s = (r, s')"
  shows "us_timeout s' = us_timeout s \<and> us_world s' = snd (uc_get uc (us_world s))"
  using assms
  by (auto simp: upsert_reload_def asking_def sbind_apply split: prod.splits sum.splits)

definition passes :: "'w upsert_calls \<Rightarrow> bool" where
  "passes uc \<longleftrightarrow>
     (\<forall>d w. uc_now uc w + d \<le> uc_now uc (uc_sleep uc d w)) \<and>
     (\<forall>w. uc_now uc w \<le> uc_now uc (snd (uc_commit uc w))) \<and>
     (\<forall>w. uc_now uc w \<le> uc_now uc (snd (uc_get uc w)))"

lemma commit_poll_passes:
  assumes "passes uc" and "commit_poll uc start delay s = (Inr delay', s')" and "1 \<le> delay"
  shows "1 \<le> delay' \<and> us_timeout s' = us_timeout s \<and> uc_now uc (us_world s) + 1 \<le> uc_now uc (us_world s') \<and>
    uc_now uc (us_world s) - start \<le> us_timeout s"
proof -
  define s1 where "s1 = s\<lparr>us_world := uc_sleep uc delay (us_world s)\<rparr>"
  obtain r2 w2 where c: "uc_commit uc (us_world s1) = (r2, w2)" by fastforce
  define s2 where "s2 = s1\<lparr>us_world := w2\<rparr>"
  obtain r3 s3 where g: "upsert_reload uc s2 = (r3, s3)" by fastforce
  note k = upsert_reload_keeps [OF g]
  have n1: "uc_now uc (us_world s) + delay \<le> uc_now uc (us_world s1)"
    using assms(1) by (simp add: passes_def s1_def)
  have n2: "uc_now uc (us_world s1) \<le> uc_now uc (us_world s2)"
    using assms(1) c by (metis passes_def s2_def snd_conv upsert_session.select_convs(6) upsert_session.update_convs(6) upsert_session.surjective)
  have n3: "uc_now uc (us_world s2) \<le> uc_now uc (us_world s3)"
    using assms(1) k by (simp add: passes_def)
  have t: "\<not> us_timeout s < uc_now uc (us_world s) - start"
    using assms(2) by (auto simp: commit_poll_def split: if_splits)
  have "s' = s2\<lparr>us_status := UpsertCommitted\<rparr> \<and> delay' = delay \<or>
      s' = s3\<lparr>us_status := UpsertCommitted\<rparr> \<and> delay' = delay \<or> s' = s3 \<and> delay' = min 8 (delay * 2)"
    using assms(2) t c g
    by (cases r2; cases r3)
      (auto simp: commit_poll_def Let_def sbind_apply pausing_def smod_apply asking_def s1_def s2_def
        sret_apply split: py_error.splits)
  moreover have "us_timeout s2 = us_timeout s" "us_timeout s3 = us_timeout s"
    using k by (simp_all add: s2_def s1_def)
  ultimately show ?thesis using n1 n2 n3 t assms(3) by auto
qed

lemma commit_loop_ends:
  assumes "passes uc"
  shows "1 \<le> delay \<Longrightarrow> 0 < fuel \<Longrightarrow> start + us_timeout s + 2 - uc_now uc (us_world s) \<le> int fuel \<Longrightarrow>
    \<exists>x s'. (\<forall>more. commit_loop uc start (fuel + more) delay s = (x, s')) \<and>
      (x = Inr () \<longrightarrow> us_status s' \<notin> {UpsertCommitting, UpsertNormal})"
proof (induction fuel arbitrary: delay s)
  case (Suc fuel)
  show ?case
  proof (cases "us_status s \<in> {UpsertCommitting, UpsertNormal}")
    case False
    then show ?thesis by (intro exI [of _ "Inr ()"] exI [of _ s]) simp
  next
    case True
    obtain r s1 where p: "commit_poll uc start delay s = (r, s1)" by fastforce
    show ?thesis
    proof (cases r)
      case (Inl e)
      with True p show ?thesis by (intro exI [of _ "Inl e"] exI [of _ s1]) simp
    next
      case (Inr delay')
      from commit_poll_passes [OF assms p [unfolded Inr] Suc.prems(1)] have k: "1 \<le> delay'"
        "us_timeout s1 = us_timeout s" "uc_now uc (us_world s) + 1 \<le> uc_now uc (us_world s1)"
        "uc_now uc (us_world s) - start \<le> us_timeout s" by simp_all
      with Suc.prems(3) have "0 < fuel" "start + us_timeout s1 + 2 - uc_now uc (us_world s1) \<le> int fuel"
        by linarith+
      from Suc.IH [OF k(1) this] True p Inr show ?thesis by simp
    qed
  qed
qed simp


text \<open>A server that needs three polls, each taking a second of its own.\<close>

definition polled_calls :: "(nat \<times> int) upsert_calls" where
  "polled_calls =
     \<lparr>uc_get = (\<lambda>(n, t). (Inr ([(Some ''0'', Some ''1.1.1.1:10'', [0])],
        if n < 4 then UpsertCommitting else UpsertCommitted), (n, t + 1))),
      uc_commit = (\<lambda>(n, t). (Inr (), (n + 1, t))), uc_now = snd, uc_sleep = (\<lambda>d (n, t). (n, t + d))\<rparr>"

definition polled_session :: "(nat \<times> int) upsert_session" where
  "polled_session =
     \<lparr>us_store = [\<lparr>sl_slot = ''0'', sl_ip = Some ''1.1.1.1'', sl_port = Some 10\<rparr>], us_slots = [0],
      us_buckets = [(0, 0)], us_status = UpsertNormal, us_timeout = 120, us_world = (0, 0)\<rparr>"


end
