(* ===== verification/Upsert.thy ===== *)
theory Upsert
  imports Tunnel_Session Record_Hash
begin

text \<open>
  \<^verbatim>\<open>Upsert\<close> of \<^verbatim>\<open>odps/tunnel/io/writer.py\<close>: records are marked with an operation and routed by a hash of their keys
  to one writer per bucket; a flush closes the writers that have something and uploads their buffers by a
  pool of threads, one request per bucket, again and again until every one is accepted or a refusal is
  final. The request is a parameter, as is the order in which the pool runs the requests of one attempt.
  Nothing is compressed, and \<^verbatim>\<open>KeyboardInterrupt\<close> is left out.
\<close>

section \<open>The stream\<close>

datatype upsert_op = UPSERT | DELETE

datatype stream_status = StreamNormal | StreamError | StreamClosed

record 'w upsert_stream =
  uw_schema :: odps_schema
  uw_max_buffer :: nat
  uw_slot_buffer :: nat
  uw_total :: nat
  uw_status :: stream_status
  uw_hasher :: record_hasher
  uw_buckets :: "(int \<times> nat) list"
  uw_writers :: "(int \<times> record_writer) list"
  uw_session :: "'w upsert_session"
  uw_waits :: "int list"

definition DEFAULT_MAX_BUFFER_SIZE :: nat where "DEFAULT_MAX_BUFFER_SIZE = 64 * 1024 ^ 2"
definition DEFAULT_SLOT_BUFFER_SIZE :: nat where "DEFAULT_SLOT_BUFFER_SIZE = 1024 ^ 2"
definition UPSERT_OPERATION_KEY :: string where "UPSERT_OPERATION_KEY = ''__operation''"
definition UPSERT_VALUE_COLS_KEY :: string where "UPSERT_VALUE_COLS_KEY = ''__value_cols''"

definition size_or :: "nat option \<Rightarrow> nat \<Rightarrow> nat" where
  "size_or n dflt = (case n of None \<Rightarrow> dflt | Some k \<Rightarrow> if k = 0 then dflt else k)"

definition build_bucket_writer :: "int \<Rightarrow> 'w upsert_stream \<Rightarrow> 'w upsert_stream" where
  "build_bucket_writer b s = s\<lparr>uw_writers := AList.update b (bw_new (uw_schema s) None) (uw_writers s)\<rparr>"

definition upsert_new ::
    "hash_env \<Rightarrow> odps_schema \<Rightarrow> string \<Rightarrow> string list \<Rightarrow> nat option \<Rightarrow> nat option \<Rightarrow> 'w upsert_session \<Rightarrow>
     'w upsert_stream result" where
  "upsert_new env schema hasher hash_keys max_buffer slot_buffer session =
     rbind (record_hasher_new env schema hasher hash_keys) (\<lambda>h.
       Inr (fold (\<lambda>(b, ref). build_bucket_writer b) (us_buckets session)
         \<lparr>uw_schema = schema, uw_max_buffer = size_or max_buffer DEFAULT_MAX_BUFFER_SIZE,
          uw_slot_buffer = size_or slot_buffer DEFAULT_SLOT_BUFFER_SIZE, uw_total = 0,
          uw_status = StreamNormal, uw_hasher = h, uw_buckets = get_buckets session, uw_writers = [],
          uw_session = session, uw_waits = []\<rparr>))"

definition check_status :: "'w upsert_stream \<Rightarrow> unit result" where
  "check_status s =
     (case uw_status s of
        StreamClosed \<Rightarrow> Inl TunnelError | StreamError \<Rightarrow> Inl TunnelError | StreamNormal \<Rightarrow> Inr ())"

section \<open>Flushing\<close>

text \<open>
  What a request comes to: an exception has the header \<^verbatim>\<open>odps-tunnel-routed-server\<close> of its response, empty
  when there is none.
\<close>

datatype upsert_answer = Accepted | Refused py_error string

record 'w upsert_requests =
  ur_calls :: "'w upsert_calls"
  ur_handler :: "'w retry_handler"
  ur_request :: "int \<Rightarrow> slot \<Rightarrow> nat \<Rightarrow> bytes \<Rightarrow> 'w \<Rightarrow> upsert_answer \<times> 'w"
  ur_order :: "int list \<Rightarrow> int list"

type_synonym failure = "int \<times> py_error \<times> string"

definition on_session :: "('w upsert_session, 'a) sm \<Rightarrow> ('w upsert_stream, 'a) sm" where
  "on_session m = (\<lambda>s. case m (uw_session s) of (r, u) \<Rightarrow> (r, s\<lparr>uw_session := u\<rparr>))"

text \<open>\<^verbatim>\<open>write_bucket\<close>, with \<^verbatim>\<open>bucket_to_count\<close>: the failure of its future, if it has one.\<close>

definition write_bucket ::
    "'w upsert_requests \<Rightarrow> (int \<times> nat) list \<Rightarrow> int \<Rightarrow> 'w upsert_stream \<Rightarrow> failure list \<times> 'w upsert_stream" where
  "write_bucket c counts b s =
     (case (map_of (uw_buckets s) b, map_of (uw_writers s) b, map_of counts b) of
        (Some ref, Some writer, Some rec_count) \<Rightarrow>
          (case ur_request c b (us_store (uw_session s) ! ref) rec_count (concat (pw_output writer))
                  (us_world (uw_session s)) of
             (answer, w) \<Rightarrow>
               let s = s\<lparr>uw_session := (uw_session s)\<lparr>us_world := w\<rparr>\<rparr>
               in (case answer of
                     Accepted \<Rightarrow> ([], build_bucket_writer b s)
                   | Refused exc server \<Rightarrow> ([(b, exc, server)], s)))
      | _ \<Rightarrow> ([(b, KeyError, [])], s))"

fun run_jobs ::
    "'w upsert_requests \<Rightarrow> (int \<times> nat) list \<Rightarrow> int list \<Rightarrow> 'w upsert_stream \<Rightarrow>
     failure list \<times> 'w upsert_stream" where
  "run_jobs c counts [] s = ([], s)"
| "run_jobs c counts (b # bs) s =
     (case write_bucket c counts b s of (fs, s') \<Rightarrow>
        case run_jobs c counts bs s' of (fs', s'') \<Rightarrow> (fs @ fs', s''))"

text \<open>The loop that closes the writers and submits their buckets, with the record counts.\<close>

fun close_writers ::
    "bool \<Rightarrow> int list \<Rightarrow> (int \<times> record_writer) list \<Rightarrow> 'w upsert_stream \<Rightarrow>
     unit result \<times> (int \<times> nat) list \<times> 'w upsert_stream" where
  "close_writers whole bucket_written [] s = (Inr (), [], s)"
| "close_writers whole bucket_written ((b, writer) # ws) s =
     (if n_bytes writer = 0 \<or> b \<in> set bucket_written \<or>
         \<not> whole \<and> n_bytes writer \<le> uw_slot_buffer s
      then close_writers whole bucket_written ws s
      else (case bw_close writer of (r, writer') \<Rightarrow>
        let s = s\<lparr>uw_writers := AList.update b writer' (uw_writers s)\<rparr>
        in (case r of
              Inl e \<Rightarrow> (Inl e, [], s)
            | Inr _ \<Rightarrow>
                (case close_writers whole bucket_written ws s of (r, jobs, s') \<Rightarrow>
                   (r, (b, bw_cursor writer) # jobs, s')))))"

text \<open>
  One attempt: the buckets written so far and the failures, in the order of submission. The submitted
  requests are made even when closing a later writer fails.
\<close>

definition flush_attempt ::
    "'w upsert_requests \<Rightarrow> bool \<Rightarrow> int list \<Rightarrow> ('w upsert_stream, int list \<times> failure list) sm" where
  "flush_attempt c whole bucket_written s =
     (case check_status s of
        Inl e \<Rightarrow> (Inl e, s)
      | Inr _ \<Rightarrow>
          if uw_writers s = [] then (Inl ValueError, s)
          else (case close_writers whole bucket_written (uw_writers s) s of (r, jobs, s') \<Rightarrow>
            case run_jobs c jobs (ur_order c (List.map fst jobs)) s' of (fs, s'') \<Rightarrow>
              (case r of
                 Inl e \<Rightarrow> (Inl e, s'')
               | Inr _ \<Rightarrow>
                   let failed = (\<lambda>b. List.filter (\<lambda>f. fst f = b) fs)
                   in (Inr (bucket_written @ List.filter (\<lambda>b. failed b = []) (List.map fst jobs),
                            concat (List.map (\<lambda>(b, n). failed b) jobs)), s''))))"

text \<open>\<^verbatim>\<open>need_reload\<close>, \<^verbatim>\<open>retry_policy\<close> and \<^verbatim>\<open>first_non_retriable\<close>.\<close>

type_synonym verdict = "bool \<times> retry_policy option \<times> py_error option"

definition judge :: "'w retry_handler \<Rightarrow> nat \<Rightarrow> py_error \<Rightarrow> bool \<Rightarrow> verdict \<Rightarrow> verdict" where
  "judge h attempt exc reload v =
     (case v of (need_reload, retry_policy, first_non_retriable) \<Rightarrow>
        let policy = get_retry_policy h (status_code exc)
        in (need_reload \<or> reload,
            if should_retry (th_options h) policy attempt \<and> retry_policy = None then Some policy else retry_policy,
            if \<not> should_retry (th_options h) policy attempt \<and> first_non_retriable = None then Some exc
            else first_non_retriable))"

fun refresh_routes ::
    "'w upsert_requests \<Rightarrow> nat \<Rightarrow> failure list \<Rightarrow> verdict \<Rightarrow> ('w upsert_stream, verdict) sm" where
  "refresh_routes c attempt [] v = sret v"
| "refresh_routes c attempt ((b, exc, server) # fs) v =
     (let code = status_code exc;
          next_one = (\<lambda>reload. refresh_routes c attempt fs (judge (ur_handler c) attempt exc reload v))
      in if code = Some SLOT_REASSIGNMENT then
           (if server \<noteq> [] then sthen (on_session (update_buckets (ur_calls c) b server)) (next_one False)
            else next_one True)
         else if code \<in> {Some BAD_GATEWAY, Some GATEWAY_TIMEOUT} then next_one True
         else next_one False)"

definition reload_quietly :: "'w upsert_requests \<Rightarrow> ('w upsert_stream, unit) sm" where
  "reload_quietly c s =
     (case on_session (upsert_reload (ur_calls c)) s of
        (Inl TunnelError, s') \<Rightarrow> (Inr (), s')
      | outcome \<Rightarrow> outcome)"

definition raise_or_wait :: "'w retry_handler \<Rightarrow> nat \<Rightarrow> verdict \<Rightarrow> ('w upsert_stream, unit) sm" where
  "raise_or_wait h attempt v =
     (case v of
        (_, Some policy, _) \<Rightarrow>
          smod (\<lambda>s. s\<lparr>uw_waits := uw_waits s @ [retry_wait_time (th_options h) policy attempt]\<rparr>)
      | (_, None, Some exc) \<Rightarrow> sraise exc
      | (_, None, None) \<Rightarrow> sraise TypeError)"

definition after_failures :: "'w upsert_requests \<Rightarrow> nat \<Rightarrow> failure list \<Rightarrow> ('w upsert_stream, unit) sm" where
  "after_failures c attempt failures =
     sbind (refresh_routes c attempt failures (False, None, None)) (\<lambda>v.
     sthen (if fst v then reload_quietly c else sret ())
     (sthen (smod (\<lambda>s. s\<lparr>uw_buckets := get_buckets (uw_session s)\<rparr>))
       (raise_or_wait (ur_handler c) attempt v)))"

text \<open>The loop may go on for ever, so it has fuel.\<close>

fun flush_loop :: "'w upsert_requests \<Rightarrow> bool \<Rightarrow> nat \<Rightarrow> int list \<Rightarrow> nat \<Rightarrow> ('w upsert_stream, unit) sm" where
  "flush_loop c whole 0 bucket_written attempt s = (Inl FuelExhausted, s)"
| "flush_loop c whole (Suc fuel) bucket_written attempt s =
     (case flush_attempt c whole bucket_written s of
        (Inl e, s') \<Rightarrow> (Inl e, s')
      | (Inr (bucket_written', failures), s') \<Rightarrow>
          if failures = [] then (Inr (), s')
          else (case after_failures c (attempt + 1) failures s' of
                  (Inl e, s'') \<Rightarrow> (Inl e, s'')
                | (Inr _, s'') \<Rightarrow> flush_loop c whole fuel bucket_written' (attempt + 1) s''))"

definition upsert_flush :: "'w upsert_requests \<Rightarrow> nat \<Rightarrow> bool \<Rightarrow> ('w upsert_stream, unit) sm" where
  "upsert_flush c fuel whole s =
     (let session_buckets = get_buckets (uw_session s)
      in if length session_buckets \<noteq> length (uw_writers s) then (Inl TunnelError, s)
         else flush_loop c whole fuel [] 0 (s\<lparr>uw_buckets := session_buckets\<rparr>))"

definition upsert_close :: "'w upsert_requests \<Rightarrow> nat \<Rightarrow> ('w upsert_stream, unit) sm" where
  "upsert_close c fuel s =
     (if uw_status s = StreamNormal then
        sthen (upsert_flush c fuel True) (smod (\<lambda>s. s\<lparr>uw_status := StreamClosed\<rparr>)) s
      else (Inr (), s))"

section \<open>Writing\<close>

text \<open>\<^verbatim>\<open>"..." + bucket\<close> with an integer is a \<^verbatim>\<open>TypeError\<close>, and so is unpacking a column.\<close>

definition route :: "'w upsert_stream \<Rightarrow> rec \<Rightarrow> int result" where
  "route s r =
     rbind (hash_record (uw_hasher s) r) (\<lambda>h.
       if uw_writers s = [] then Inl ZeroDivisionError
       else
         let bucket = h mod int (length (uw_writers s))
         in if map_of (uw_writers s) bucket = None then Inl TypeError else Inr bucket)"

definition mark_record :: "codec_env \<Rightarrow> odps_schema \<Rightarrow> upsert_op \<Rightarrow> string list option \<Rightarrow> (rec, unit) sm" where
  "mark_record env schema op valid_columns =
     sthen (set_by_name (base_env env) UPSERT_OPERATION_KEY (PInt (case op of UPSERT \<Rightarrow> 85 | DELETE \<Rightarrow> 68)))
       (case valid_columns of
          None \<Rightarrow> set_by_name (base_env env) UPSERT_VALUE_COLS_KEY (PList [])
        | Some cols \<Rightarrow>
            if all_columns schema = [] then set_by_name (base_env env) UPSERT_VALUE_COLS_KEY (PList [])
            else sraise TypeError)"

text \<open>\<^verbatim>\<open>_write\<close> changes the record of its caller, which is a part of the state.\<close>

definition write_marked ::
    "'w upsert_requests \<Rightarrow> codec_env \<Rightarrow> nat \<Rightarrow> int \<Rightarrow> rec \<Rightarrow> ('w upsert_stream, unit) sm" where
  "write_marked c env fuel bucket r s =
     (case map_of (uw_writers s) bucket of
        None \<Rightarrow> (Inl KeyError, s)
      | Some writer \<Rightarrow>
          (case write_record env r writer of (x, writer') \<Rightarrow>
             let s = s\<lparr>uw_writers := AList.update bucket writer' (uw_writers s)\<rparr>
             in (case x of
                   Inl e \<Rightarrow> (Inl e, s)
                 | Inr _ \<Rightarrow>
                     let s = s\<lparr>uw_total := uw_total s + (n_bytes writer' - n_bytes writer)\<rparr>
                     in if uw_slot_buffer s < n_bytes writer' then upsert_flush c fuel False s
                        else if uw_max_buffer s < uw_total s then upsert_flush c fuel True s
                        else (Inr (), s))))"

definition upsert_write ::
    "'w upsert_requests \<Rightarrow> codec_env \<Rightarrow> nat \<Rightarrow> upsert_op \<Rightarrow> string list option \<Rightarrow>
     ('w upsert_stream \<times> rec, unit) sm" where
  "upsert_write c env fuel op valid_columns = (\<lambda>(s, r).
     case rbind (check_status s) (\<lambda>_. route s r) of
       Inl e \<Rightarrow> (Inl e, (s, r))
     | Inr bucket \<Rightarrow>
         (case mark_record env (uw_schema s) op valid_columns r of
            (Inl e, r') \<Rightarrow> (Inl e, (s, r'))
          | (Inr _, r') \<Rightarrow>
              (case write_marked c env fuel bucket r' s of (x, s') \<Rightarrow> (x, (s', r')))))"

text \<open>\<^verbatim>\<open>upsert\<close> and \<^verbatim>\<open>delete\<close> of one record after the other.\<close>

fun upsert_all ::
    "'w upsert_requests \<Rightarrow> codec_env \<Rightarrow> nat \<Rightarrow> (upsert_op \<times> rec) list \<Rightarrow> ('w upsert_stream, unit) sm" where
  "upsert_all c env fuel [] s = (Inr (), s)"
| "upsert_all c env fuel ((op, r) # ops) s =
     (case upsert_write c env fuel op None (s, r) of
        (Inl e, (s', r')) \<Rightarrow> (Inl e, s')
      | (Inr _, (s', r')) \<Rightarrow> upsert_all c env fuel ops s')"

end
