(* ===== verification/Upsert_Flow.thy ===== *)
theory Upsert_Flow
  imports Upsert
begin

text \<open>
  What \<^verbatim>\<open>Upsert\<close> uploads to a server that accepts every request: the records of a bucket go in order, in files
  that are complete.
\<close>

section \<open>One bucket\<close>

text \<open>The uploads of a world: bucket, record count and data of every accepted request.\<close>

type_synonym upload = "int \<times> nat \<times> bytes"

definition takes_all :: "('w \<Rightarrow> upload list) \<Rightarrow> 'w upsert_requests \<Rightarrow> bool" where
  "takes_all uploaded c \<longleftrightarrow>
     (\<forall>b sl n data w. \<exists>w'. ur_request c b sl n data w = (Accepted, w') \<and> uploaded w' = uploaded w @ [(b, n, data)]) \<and>
     (\<forall>bs. mset (ur_order c bs) = mset bs)"

definition sent :: "('w \<Rightarrow> upload list) \<Rightarrow> int \<Rightarrow> 'w \<Rightarrow> upload list" where
  "sent uploaded b w = List.filter (\<lambda>u. fst u = b) (uploaded w)"

definition file_of :: "codec_env \<Rightarrow> odps_schema \<Rightarrow> int \<Rightarrow> rec list \<Rightarrow> upload" where
  "file_of env schema b seg = (b, length seg, file_bytes env schema seg)"

definition files_sent :: "codec_env \<Rightarrow> odps_schema \<Rightarrow> int \<Rightarrow> upload list \<Rightarrow> upload list \<Rightarrow> rec list list \<Rightarrow> bool" where
  "files_sent env schema b old now segs \<longleftrightarrow>
     now = old @ List.map (file_of env schema b) segs \<and> [] \<notin> set segs"

text \<open>
  The history \<open>h\<close> of a bucket is what its files hold, and what its writer has: still open, or closed with the
  count \<open>n\<close> of its records taken.
\<close>

definition at_rest ::
    "codec_env \<Rightarrow> odps_schema \<Rightarrow> int \<Rightarrow> upload list \<Rightarrow> upload list \<Rightarrow> record_writer option \<Rightarrow> rec list \<Rightarrow> bool" where
  "at_rest env schema b old now wr h \<longleftrightarrow>
     (\<exists>segs seg w. wr = Some w \<and> pending env schema seg w \<and> files_sent env schema b old now segs \<and>
        concat segs @ seg = h)"

definition sealed ::
    "codec_env \<Rightarrow> odps_schema \<Rightarrow> int \<Rightarrow> upload list \<Rightarrow> upload list \<Rightarrow> record_writer option \<Rightarrow> nat option \<Rightarrow>
     rec list \<Rightarrow> bool" where
  "sealed env schema b old now wr n h \<longleftrightarrow>
     (\<exists>segs seg w. wr = Some w \<and> concat (pw_output w) = file_bytes env schema seg \<and> n = Some (length seg) \<and>
        seg \<noteq> [] \<and> files_sent env schema b old now segs \<and> concat segs @ seg = h)"

definition fits :: "codec_env \<Rightarrow> odps_schema \<Rightarrow> rec list \<Rightarrow> bool" where
  "fits env schema h \<longleftrightarrow> all_imaged env schema (set h) \<and> length h < 2 ^ 63"

lemma fits_imaged: "fits env schema h \<Longrightarrow> set seg \<subseteq> set h \<Longrightarrow> \<exists>img cc. imaged env schema seg img cc"
  by (simp add: fits_def all_imaged_def)

lemma pending_bytes:
  assumes "pending env schema seg w" and "imaged env schema seg img cc"
  shows "n_bytes w = length img" "written w = img" "idle schema cc (length seg) w"
    "n_bytes w = 0 \<longleftrightarrow> seg = []"
proof -
  from pending_imaged [OF assms] show *: "written w = img" "idle schema cc (length seg) w" by simp_all
  then show "n_bytes w = length img" by (simp add: idle_def counted_n_bytes)
  with assms(2) show "n_bytes w = 0 \<longleftrightarrow> seg = []" by (simp add: imaged_def)
qed

lemma close_seals:
  assumes "at_rest env schema b old now (Some w) h" and "fits env schema h" and "n_bytes w \<noteq> 0"
  shows "\<exists>w'. bw_close w = (Inr (), w') \<and> sealed env schema b old now (Some w') (Some (bw_cursor w)) h"
proof -
  from assms(1) obtain segs seg where s: "pending env schema seg w" "files_sent env schema b old now segs"
      "concat segs @ seg = h" unfolding at_rest_def by auto
  from s(3) have "set seg \<subseteq> set h" "length seg < 2 ^ 63" using assms(2) by (auto simp: fits_def)
  with fits_imaged [OF assms(2)] obtain img cc where i: "imaged env schema seg img cc" by blast
  note p = pending_bytes [OF s(1) i]
  from close_effect [OF p(3) \<open>length seg < 2 ^ 63\<close>] obtain w' where
    "bw_close w = (Inr (), w')" "concat (pw_output w') = img @ footer (length seg) cc"
    unfolding p(2) by blast
  moreover have "bw_cursor w = length seg" using p(3) by (simp add: idle_def)
  ultimately show ?thesis
    using imaged_file [OF i \<open>length seg < 2 ^ 63\<close>] s(2,3) p(4) assms(3) unfolding sealed_def
    by (intro exI [of _ w'] conjI exI [of _ segs] exI [of _ seg]) simp_all
qed

lemma pending_fresh: "pending env schema [] (bw_new schema None)"
  by (rule pending_Nil) (rule idle_new)+

lemma accepted_rests:
  assumes "sealed env schema b old now (Some w) (Some n) h"
  shows "at_rest env schema b old (now @ [(b, n, concat (pw_output w))]) (Some (bw_new schema None)) h"
proof -
  from assms obtain segs seg where "concat (pw_output w) = file_bytes env schema seg" "n = length seg"
      "seg \<noteq> []" "files_sent env schema b old now segs" "concat segs @ seg = h"
    unfolding sealed_def by auto
  then have "files_sent env schema b old (now @ [(b, n, concat (pw_output w))]) (segs @ [seg])"
    "concat (segs @ [seg]) @ [] = h" by (simp_all add: files_sent_def file_of_def)
  then show ?thesis unfolding at_rest_def using pending_fresh by blast
qed

lemma new_rests: "at_rest env schema b old old (Some (bw_new schema None)) []"
proof -
  have "files_sent env schema b old old []" by (simp add: files_sent_def)
  then show ?thesis unfolding at_rest_def using pending_fresh by force
qed

lemma write_rests:
  assumes "at_rest env schema b old now (Some w) h" and "fits env schema (h @ [r])"
  shows "\<exists>w'. write_record env r w = (Inr (), w') \<and> at_rest env schema b old now (Some w') (h @ [r])"
proof -
  from assms(1) obtain segs seg where s: "pending env schema seg w" "files_sent env schema b old now segs"
      "concat segs @ seg = h" unfolding at_rest_def by auto
  from s(3) have "set (seg @ [r]) \<subseteq> set (h @ [r])" by auto
  from fits_imaged [OF assms(2) this] obtain img cc where "imaged env schema (seg @ [r]) img cc" by blast
  from pending_snoc [OF s(1) this] obtain w' where
    "write_record env r w = (Inr (), w')" "pending env schema (seg @ [r]) w'" by blast
  moreover have "concat segs @ seg @ [r] = h @ [r]" using s(3) by simp
  ultimately show ?thesis using s(2) unfolding at_rest_def by blast
qed

lemma emptied_rests:
  assumes "at_rest env schema b old now (Some w) h" and "fits env schema h" and "n_bytes w = 0"
  shows "\<exists>segs. files_sent env schema b old now segs \<and> concat segs = h"
proof -
  from assms(1) obtain segs seg where s: "pending env schema seg w" "files_sent env schema b old now segs"
      "concat segs @ seg = h" unfolding at_rest_def by auto
  then have "set seg \<subseteq> set h" by auto
  with fits_imaged [OF assms(2)] obtain img cc where "imaged env schema seg img cc" by blast
  from pending_bytes(4) [OF s(1) this] assms(3) s(2,3) show ?thesis by auto
qed

section \<open>One attempt\<close>

lemma close_writers_effect:
  assumes "distinct (List.map fst ws)" and "fst ` set ws \<subseteq> fst ` set (uw_writers s)"
    and "\<And>b w. (b, w) \<in> set ws \<Longrightarrow> at_rest env schema b (old b) (now b) (Some w) (h b) \<and> fits env schema (h b)"
  shows "\<exists>jobs ws'. close_writers whole bucket_written ws s = (Inr (), jobs, s\<lparr>uw_writers := ws'\<rparr>) \<and>
    List.map fst ws' = List.map fst (uw_writers s) \<and> distinct (List.map fst jobs) \<and>
    fst ` set jobs \<subseteq> fst ` set ws \<and>
    (\<forall>b. b \<notin> fst ` set jobs \<longrightarrow> map_of ws' b = map_of (uw_writers s) b) \<and>
    (\<forall>b \<in> fst ` set jobs. sealed env schema b (old b) (now b) (map_of ws' b) (map_of jobs b) (h b)) \<and>
    (\<forall>(b, w) \<in> set ws. b \<notin> fst ` set jobs \<longrightarrow>
       n_bytes w = 0 \<or> b \<in> set bucket_written \<or> \<not> whole \<and> n_bytes w \<le> uw_slot_buffer s)"
  using assms
proof (induction ws arbitrary: s)
  case Nil
  show ?case by (intro exI [of _ "[]"] exI [of _ "uw_writers s"]) simp
next
  case (Cons bw ws)
  obtain b w where bw: "bw = (b, w)" by fastforce
  from Cons.prems bw have d: "distinct (List.map fst ws)" "b \<notin> fst ` set ws"
      "fst ` set ws \<subseteq> fst ` set (uw_writers s)" "b \<in> fst ` set (uw_writers s)"
    and r: "\<And>b w. (b, w) \<in> set ws \<Longrightarrow> at_rest env schema b (old b) (now b) (Some w) (h b) \<and> fits env schema (h b)"
    and rb: "at_rest env schema b (old b) (now b) (Some w) (h b)" "fits env schema (h b)" by auto
  show ?case
  proof (cases "n_bytes w = 0 \<or> b \<in> set bucket_written \<or> \<not> whole \<and> n_bytes w \<le> uw_slot_buffer s")
    case True
    from Cons.IH [OF d(1,3) r] obtain jobs ws' where
      j: "close_writers whole bucket_written ws s = (Inr (), jobs, s\<lparr>uw_writers := ws'\<rparr>)"
        "List.map fst ws' = List.map fst (uw_writers s)" "distinct (List.map fst jobs)"
        "fst ` set jobs \<subseteq> fst ` set ws"
        "\<forall>b. b \<notin> fst ` set jobs \<longrightarrow> map_of ws' b = map_of (uw_writers s) b"
        "\<forall>b \<in> fst ` set jobs. sealed env schema b (old b) (now b) (map_of ws' b) (map_of jobs b) (h b)"
        "\<forall>(b, w) \<in> set ws. b \<notin> fst ` set jobs \<longrightarrow>
           n_bytes w = 0 \<or> b \<in> set bucket_written \<or> \<not> whole \<and> n_bytes w \<le> uw_slot_buffer s"
      by blast
    have "close_writers whole bucket_written (bw # ws) s = (Inr (), jobs, s\<lparr>uw_writers := ws'\<rparr>)"
      using True j(1) bw by simp
    moreover have "fst ` set jobs \<subseteq> fst ` set (bw # ws)" using j(4) by auto
    moreover have "\<forall>(b, w) \<in> set (bw # ws). b \<notin> fst ` set jobs \<longrightarrow>
        n_bytes w = 0 \<or> b \<in> set bucket_written \<or> \<not> whole \<and> n_bytes w \<le> uw_slot_buffer s"
      using j(7) True bw by simp
    ultimately show ?thesis using j(2,3,5,6) by blast
  next
    case False
    then have "n_bytes w \<noteq> 0" by simp
    from close_seals [OF rb this] obtain w' where w': "bw_close w = (Inr (), w')"
        "sealed env schema b (old b) (now b) (Some w') (Some (bw_cursor w)) (h b)" by blast
    define s1 where "s1 = s\<lparr>uw_writers := AList.update b w' (uw_writers s)\<rparr>"
    have s1: "List.map fst (uw_writers s1) = List.map fst (uw_writers s)"
      "map_of (uw_writers s1) = (map_of (uw_writers s))(b \<mapsto> w')" "uw_slot_buffer s1 = uw_slot_buffer s"
      using d(4) by (simp_all add: s1_def AList.update_keys AList.update_conv')
    from s1(1) have "fst ` set (uw_writers s1) = fst ` set (uw_writers s)" by (metis list.set_map)
    with d(3) have "fst ` set ws \<subseteq> fst ` set (uw_writers s1)" by simp
    from Cons.IH [OF d(1) this r] obtain jobs ws' where
      j: "close_writers whole bucket_written ws s1 = (Inr (), jobs, s1\<lparr>uw_writers := ws'\<rparr>)"
        "List.map fst ws' = List.map fst (uw_writers s1)" "distinct (List.map fst jobs)"
        "fst ` set jobs \<subseteq> fst ` set ws"
        "\<forall>b. b \<notin> fst ` set jobs \<longrightarrow> map_of ws' b = map_of (uw_writers s1) b"
        "\<forall>b \<in> fst ` set jobs. sealed env schema b (old b) (now b) (map_of ws' b) (map_of jobs b) (h b)"
        "\<forall>(b, w) \<in> set ws. b \<notin> fst ` set jobs \<longrightarrow>
           n_bytes w = 0 \<or> b \<in> set bucket_written \<or> \<not> whole \<and> n_bytes w \<le> uw_slot_buffer s1"
      by blast
    have nb: "b \<notin> fst ` set jobs" using j(4) d(2) by blast
    have "close_writers whole bucket_written (bw # ws) s =
        (Inr (), (b, bw_cursor w) # jobs, s\<lparr>uw_writers := ws'\<rparr>)"
      using False w'(1) j(1) bw by (auto simp: s1_def)
    moreover have "map_of ws' b = Some w'" using j(5) nb s1(2) by simp
    then have "\<forall>x \<in> fst ` set ((b, bw_cursor w) # jobs).
        sealed env schema x (old x) (now x) (map_of ws' x) (map_of ((b, bw_cursor w) # jobs) x) (h x)"
      using j(6) w'(2) nb by auto
    ultimately show ?thesis
      using j(2-5,7) s1 nb bw
      by (intro exI [of _ "(b, bw_cursor w) # jobs"] exI [of _ ws']) auto
  qed
qed

lemma run_jobs_effect:
  assumes "takes_all uploaded c" and "distinct bs" and "uw_schema s = schema"
    and "set bs \<subseteq> fst ` set (uw_writers s)" and "set bs \<subseteq> fst ` set (uw_buckets s)"
    and "\<And>b. b \<in> set bs \<Longrightarrow> sealed env schema b (old b) (sent uploaded b (us_world (uw_session s)))
      (map_of (uw_writers s) b) (map_of counts b) (h b)"
  shows "\<exists>ws' w'. run_jobs c counts bs s =
      ([], s\<lparr>uw_writers := ws', uw_session := (uw_session s)\<lparr>us_world := w'\<rparr>\<rparr>) \<and>
    List.map fst ws' = List.map fst (uw_writers s) \<and>
    (\<forall>b. b \<notin> set bs \<longrightarrow> map_of ws' b = map_of (uw_writers s) b \<and>
       sent uploaded b w' = sent uploaded b (us_world (uw_session s))) \<and>
    (\<forall>b \<in> set bs. map_of ws' b = Some (bw_new schema None) \<and>
       at_rest env schema b (old b) (sent uploaded b w') (map_of ws' b) (h b))"
  using assms(2-)
proof (induction bs arbitrary: s)
  case Nil
  then show ?case by (intro exI [of _ "uw_writers s"] exI [of _ "us_world (uw_session s)"]) simp
next
  case (Cons b bs)
  let ?u = "uw_session s" and ?now = "\<lambda>b. sent uploaded b (us_world (uw_session s))"
  from Cons.prems(5) [of b] obtain w n where w: "map_of (uw_writers s) b = Some w" "map_of counts b = Some n"
      "sealed env schema b (old b) (?now b) (Some w) (Some n) (h b)"
    by (auto simp: sealed_def)
  from Cons.prems(4) obtain ref where ref: "map_of (uw_buckets s) b = Some ref"
    by (auto simp: image_iff map_of_eq_None_iff dest!: map_of_SomeD) (metis map_of_eq_None_iff not_None_eq fst_conv image_eqI)
  let ?data = "concat (pw_output w)"
  from assms(1) obtain w1 where w1: "ur_request c b (us_store ?u ! ref) n ?data (us_world ?u) = (Accepted, w1)"
      "uploaded w1 = uploaded (us_world ?u) @ [(b, n, ?data)]"
    unfolding takes_all_def by blast
  define s1 where "s1 = build_bucket_writer b (s\<lparr>uw_session := ?u\<lparr>us_world := w1\<rparr>\<rparr>)"
  have step: "write_bucket c counts b s = ([], s1)"
    using w(1,2) ref w1(1) by (simp add: write_bucket_def s1_def)
  have b: "b \<in> fst ` set (uw_writers s)" using Cons.prems(3) by simp
  have s1: "List.map fst (uw_writers s1) = List.map fst (uw_writers s)" "uw_schema s1 = schema"
    "map_of (uw_writers s1) = (map_of (uw_writers s))(b \<mapsto> bw_new schema None)" "uw_buckets s1 = uw_buckets s"
    "us_world (uw_session s1) = w1"
    using b Cons.prems(2) by (simp_all add: s1_def build_bucket_writer_def AList.update_keys AList.update_conv')
  have sent1: "sent uploaded x w1 = ?now x @ (if x = b then [(b, n, ?data)] else [])" for x
    using w1(2) by (simp add: sent_def)
  from s1(1) have keys: "fst ` set (uw_writers s1) = fst ` set (uw_writers s)" by (metis list.set_map)
  have "sealed env schema x (old x) (sent uploaded x (us_world (uw_session s1))) (map_of (uw_writers s1) x)
      (map_of counts x) (h x)" if "x \<in> set bs" for x
    using Cons.prems(5) [of x] Cons.prems(1) that sent1 [of x] s1(3,5) by auto
  from Cons.IH [OF _ s1(2) _ _ this] Cons.prems(1,3,4) keys s1(4) obtain ws' w' where
    j: "run_jobs c counts bs s1 = ([], s1\<lparr>uw_writers := ws', uw_session := (uw_session s1)\<lparr>us_world := w'\<rparr>\<rparr>)"
      "List.map fst ws' = List.map fst (uw_writers s1)"
      "\<forall>b. b \<notin> set bs \<longrightarrow> map_of ws' b = map_of (uw_writers s1) b \<and> sent uploaded b w' = sent uploaded b w1"
      "\<forall>b \<in> set bs. map_of ws' b = Some (bw_new schema None) \<and>
         at_rest env schema b (old b) (sent uploaded b w') (map_of ws' b) (h b)"
    unfolding s1(5) by auto
  have "run_jobs c counts (b # bs) s = ([], s\<lparr>uw_writers := ws', uw_session := ?u\<lparr>us_world := w'\<rparr>\<rparr>)"
    using step j(1) by (simp add: s1_def build_bucket_writer_def)
  moreover have "map_of ws' b = Some (bw_new schema None)" "sent uploaded b w' = ?now b @ [(b, n, ?data)]"
    using j(3) Cons.prems(1) s1(3) sent1 [of b] by simp_all
  then have "at_rest env schema b (old b) (sent uploaded b w') (map_of ws' b) (h b)"
    using accepted_rests [OF w(3)] by simp
  ultimately show ?case
    using j(2-4) s1 sent1 \<open>map_of ws' b = Some (bw_new schema None)\<close>
    by (intro exI [of _ ws'] exI [of _ w']) auto
qed

section \<open>The stream between two calls\<close>

text \<open>
  \<open>h b\<close> is the history of bucket \<open>b\<close> since the world was \<open>w0\<close>. A call leaves the size limits, the hasher
  and the set of the writers alone.
\<close>

definition flowing ::
    "codec_env \<Rightarrow> odps_schema \<Rightarrow> ('w \<Rightarrow> upload list) \<Rightarrow> 'w \<Rightarrow> (int \<Rightarrow> rec list) \<Rightarrow> 'w upsert_stream \<Rightarrow> bool" where
  "flowing env schema uploaded w0 h s \<longleftrightarrow>
     uw_schema s = schema \<and> uw_status s = StreamNormal \<and> uw_writers s \<noteq> [] \<and>
     distinct (List.map fst (uw_writers s)) \<and>
     List.map fst (us_buckets (uw_session s)) = List.map fst (uw_writers s) \<and>
     (\<forall>b \<in> fst ` set (uw_writers s). at_rest env schema b (sent uploaded b w0)
        (sent uploaded b (us_world (uw_session s))) (map_of (uw_writers s) b) (h b))"

definition same_stream :: "'w upsert_stream \<Rightarrow> 'w upsert_stream \<Rightarrow> bool" where
  "same_stream s s' \<longleftrightarrow>
     List.map fst (uw_writers s') = List.map fst (uw_writers s) \<and> uw_hasher s' = uw_hasher s \<and>
     uw_slot_buffer s' = uw_slot_buffer s \<and> uw_max_buffer s' = uw_max_buffer s \<and> uw_total s \<le> uw_total s'"

lemma flush_flows:
  assumes "flowing env schema uploaded w0 h s" and "takes_all uploaded c"
    and fits: "\<And>b. b \<in> fst ` set (uw_writers s) \<Longrightarrow> fits env schema (h b)"
  shows "\<exists>s'. upsert_flush c (Suc fuel) whole s = (Inr (), s') \<and> flowing env schema uploaded w0 h s' \<and>
    same_stream s s' \<and> uw_total s' = uw_total s \<and>
    (\<forall>(b, w) \<in> set (uw_writers s). whole \<or> uw_slot_buffer s < n_bytes w \<longrightarrow>
      (\<exists>w'. map_of (uw_writers s') b = Some w' \<and> n_bytes w' = 0))"
proof -
  define s0 where "s0 = s\<lparr>uw_buckets := us_buckets (uw_session s)\<rparr>"
  let ?old = "\<lambda>b. sent uploaded b w0" and ?now = "\<lambda>b. sent uploaded b (us_world (uw_session s))"
  let ?keys = "fst ` set (uw_writers s)"
  from assms(1) have s: "uw_schema s = schema" "uw_status s = StreamNormal" "uw_writers s \<noteq> []"
      "distinct (List.map fst (uw_writers s))"
      "List.map fst (us_buckets (uw_session s)) = List.map fst (uw_writers s)"
    and rest: "\<And>b. b \<in> ?keys \<Longrightarrow> at_rest env schema b (?old b) (?now b) (map_of (uw_writers s) b) (h b)"
    unfolding flowing_def by blast+
  have len: "length (us_buckets (uw_session s)) = length (uw_writers s)" using s(5) by (metis length_map)
  have "at_rest env schema b (?old b) (?now b) (Some w) (h b) \<and> fits env schema (h b)"
    if "(b, w) \<in> set (uw_writers s)" for b w
  proof -
    from that s(4) have "b \<in> ?keys" "map_of (uw_writers s) b = Some w" by force+
    with rest [of b] fits [of b] show ?thesis by simp
  qed
  from close_writers_effect [OF s(4) _ this, of s0 whole "[]"] obtain jobs ws where
    j: "close_writers whole [] (uw_writers s) s0 = (Inr (), jobs, s0\<lparr>uw_writers := ws\<rparr>)"
      "List.map fst ws = List.map fst (uw_writers s)" "distinct (List.map fst jobs)" "fst ` set jobs \<subseteq> ?keys"
      "\<forall>b. b \<notin> fst ` set jobs \<longrightarrow> map_of ws b = map_of (uw_writers s) b"
      "\<forall>b \<in> fst ` set jobs. sealed env schema b (?old b) (?now b) (map_of ws b) (map_of jobs b) (h b)"
      "\<forall>(b, w) \<in> set (uw_writers s). b \<notin> fst ` set jobs \<longrightarrow> n_bytes w = 0 \<or> \<not> whole \<and> n_bytes w \<le> uw_slot_buffer s"
    by (auto simp: s0_def)
  define order where "order = ur_order c (List.map fst jobs)"
  have "mset order = mset (List.map fst jobs)" using assms(2) by (simp add: takes_all_def order_def)
  with j(3) have o: "distinct order" "set order = fst ` set jobs"
    by (metis mset_eq_imp_distinct_iff, metis list.set_map mset_eq_setD)
  define s1 where "s1 = s0\<lparr>uw_writers := ws\<rparr>"
  have s1: "uw_schema s1 = schema" "uw_writers s1 = ws" "uw_session s1 = uw_session s"
      "uw_buckets s1 = us_buckets (uw_session s)"
    using s(1) by (simp_all add: s1_def s0_def)
  have keys: "fst ` set ws = ?keys" "fst ` set (uw_buckets s1) = ?keys"
    using j(2) s(5) unfolding s1(4) by (metis list.set_map)+
  from run_jobs_effect [OF assms(2) o(1) s1(1), where old = ?old and counts = jobs and h = h and env = env] obtain ws' w' where
    r: "run_jobs c jobs order s1 = ([], s1\<lparr>uw_writers := ws', uw_session := (uw_session s)\<lparr>us_world := w'\<rparr>\<rparr>)"
      "List.map fst ws' = List.map fst ws"
      "\<forall>b. b \<notin> set order \<longrightarrow> map_of ws' b = map_of ws b \<and> sent uploaded b w' = ?now b"
      "\<forall>b \<in> set order. map_of ws' b = Some (bw_new schema None) \<and>
         at_rest env schema b (?old b) (sent uploaded b w') (map_of ws' b) (h b)"
    using j(4,6) o(2) keys unfolding s1(2,3) by auto
  define s2 where "s2 = s1\<lparr>uw_writers := ws', uw_session := (uw_session s)\<lparr>us_world := w'\<rparr>\<rparr>"
  have att: "flush_attempt c whole [] s0 = (Inr (List.map fst jobs, []), s2)"
    using j(1) r(1) s(2,3)
    by (simp add: flush_attempt_def check_status_def s0_def order_def [symmetric] s1_def s2_def
        concat_eq_Nil_conv split: prod.splits)
  have "upsert_flush c (Suc fuel) whole s = (Inr (), s2)"
    using att len by (simp add: upsert_flush_def get_buckets_def Let_def s0_def)
  moreover have w2: "uw_writers s2 = ws'" "us_world (uw_session s2) = w'" by (simp_all add: s2_def)
  have "fst ` set ws' = ?keys" using r(2) keys(1) by (metis list.set_map)
  have "at_rest env schema b (?old b) (sent uploaded b w') (map_of ws' b) (h b)" if "b \<in> ?keys" for b
    using r(3,4) j(5) o(2) rest [OF that] by (cases "b \<in> set order") auto
  then have "flowing env schema uploaded w0 h s2"
    using s j(2) r(2) \<open>fst ` set ws' = ?keys\<close> unfolding flowing_def w2
    by (auto simp: s2_def s1_def s0_def)
  moreover have "same_stream s s2 \<and> uw_total s2 = uw_total s"
    using j(2) r(2) by (simp add: same_stream_def s2_def s1_def s0_def)
  moreover have "\<exists>w'. map_of ws' b = Some w' \<and> n_bytes w' = 0"
    if w: "(b, w) \<in> set (uw_writers s)" "whole \<or> uw_slot_buffer s < n_bytes w" for b w
  proof (cases "b \<in> set order")
    case True
    moreover have "n_bytes (bw_new schema None) = 0"
      by (simp add: n_bytes_def bw_new_def pw_new_def protobuf_writer.defs)
    ultimately show ?thesis using r(4) by blast
  next
    case False
    with w j(7) o(2) have "n_bytes w = 0" by auto
    moreover have "map_of ws' b = Some w" using False r(3) j(5) o(2) w(1) s(4) by simp
    ultimately show ?thesis by blast
  qed
  then have "\<forall>(b, w) \<in> set (uw_writers s). whole \<or> uw_slot_buffer s < n_bytes w \<longrightarrow>
      (\<exists>w'. map_of (uw_writers s2) b = Some w' \<and> n_bytes w' = 0)" unfolding w2(1) by blast
  ultimately show ?thesis by blast
qed

text \<open>Writing one record adds it to the history of its bucket, whether the stream flushes or not.\<close>

lemma write_flows:
  assumes "flowing env schema uploaded w0 h s" and "takes_all uploaded c"
    and fits: "\<And>b. b \<in> fst ` set (uw_writers s) \<Longrightarrow> fits env schema ((h(bucket := h bucket @ [r])) b)"
    and "bucket \<in> fst ` set (uw_writers s)"
  shows "\<exists>s'. write_marked c env (Suc fuel) bucket r s = (Inr (), s') \<and>
    flowing env schema uploaded w0 (h(bucket := h bucket @ [r])) s' \<and> same_stream s s' \<and>
    (uw_max_buffer s < uw_total s \<longrightarrow> (\<exists>w. map_of (uw_writers s') bucket = Some w \<and> n_bytes w = 0)) \<and>
    (\<exists>w w'. map_of (uw_writers s) bucket = Some w \<and> write_record env r w = (Inr (), w') \<and>
       uw_total s' = uw_total s + (n_bytes w' - n_bytes w))"
proof -
  let ?h = "h(bucket := h bucket @ [r])"
  from assms(4) obtain w where w: "map_of (uw_writers s) bucket = Some w"
    by (metis map_of_eq_None_iff not_None_eq)
  from assms(1,4) w have "at_rest env schema bucket (sent uploaded bucket w0)
      (sent uploaded bucket (us_world (uw_session s))) (Some w) (h bucket)"
    unfolding flowing_def by fastforce
  from write_rests [OF this] fits [OF assms(4)] obtain w' where
    w': "write_record env r w = (Inr (), w')" "at_rest env schema bucket (sent uploaded bucket w0)
      (sent uploaded bucket (us_world (uw_session s))) (Some w') (h bucket @ [r])"
    by auto
  define s1 where "s1 = s\<lparr>uw_writers := AList.update bucket w' (uw_writers s),
    uw_total := uw_total s + (n_bytes w' - n_bytes w)\<rparr>"
  have s1: "List.map fst (uw_writers s1) = List.map fst (uw_writers s)"
    "map_of (uw_writers s1) = (map_of (uw_writers s))(bucket \<mapsto> w')"
    using assms(4) by (simp_all add: s1_def AList.update_keys AList.update_conv')
  then have keys: "fst ` set (uw_writers s1) = fst ` set (uw_writers s)" by (metis list.set_map)
  have ne: "uw_writers s1 \<noteq> []" using keys assms(4) by auto
  have flow: "flowing env schema uploaded w0 ?h s1"
    using assms(1) w'(2) ne keys s1 unfolding flowing_def by (auto simp: s1_def)
  have same: "same_stream s s1" using s1(1) by (simp add: same_stream_def s1_def)
  have step: "write_marked c env (Suc fuel) bucket r s =
      (if uw_slot_buffer s < n_bytes w' then upsert_flush c (Suc fuel) False s1
       else if uw_max_buffer s < uw_total s1 then upsert_flush c (Suc fuel) True s1 else (Inr (), s1))"
    using w w'(1) by (simp add: write_marked_def s1_def Let_def)
  have mem: "(bucket, w') \<in> set (uw_writers s1)" using s1(2) by (simp add: map_of_SomeD)
  show ?thesis
  proof (cases "uw_slot_buffer s < n_bytes w' \<or> uw_max_buffer s < uw_total s1")
    case False
    moreover have "uw_total s1 = uw_total s + (n_bytes w' - n_bytes w)" by (simp add: s1_def)
    ultimately show ?thesis using step flow same w w'(1) by (intro exI [of _ s1]) auto
  next
    case True
    define whole where "whole = (\<not> uw_slot_buffer s < n_bytes w')"
    have "upsert_flush c (Suc fuel) whole s1 = write_marked c env (Suc fuel) bucket r s"
      using step True by (auto simp: whole_def)
    moreover obtain s2 where s2: "upsert_flush c (Suc fuel) whole s1 = (Inr (), s2)"
      "flowing env schema uploaded w0 ?h s2" "same_stream s1 s2" "uw_total s2 = uw_total s1"
      "\<forall>(b, w) \<in> set (uw_writers s1). whole \<or> uw_slot_buffer s1 < n_bytes w \<longrightarrow>
        (\<exists>w'. map_of (uw_writers s2) b = Some w' \<and> n_bytes w' = 0)"
      using flush_flows [OF flow assms(2), of fuel whole] fits unfolding keys by blast
    moreover have "whole \<or> uw_slot_buffer s1 < n_bytes w'" by (simp add: whole_def s1_def)
    then have "\<exists>w. map_of (uw_writers s2) bucket = Some w \<and> n_bytes w = 0" using s2(5) mem by blast
    moreover have "same_stream s s2" using same s2(3) by (simp add: same_stream_def)
    moreover have "uw_total s2 = uw_total s + (n_bytes w' - n_bytes w)" using s2(4) by (simp add: s1_def)
    ultimately show ?thesis using w w'(1) by (intro exI [of _ s2]) simp
  qed
qed

section \<open>A whole stream\<close>

definition bucket_of :: "record_hasher \<Rightarrow> nat \<Rightarrow> rec \<Rightarrow> int" where
  "bucket_of h n r = projr (hash_record h r) mod int n"

definition marked :: "codec_env \<Rightarrow> odps_schema \<Rightarrow> upsert_op \<times> rec \<Rightarrow> rec" where
  "marked env schema u = snd (mark_record env schema (fst u) None (snd u))"

text \<open>What goes to a bucket.\<close>

definition bound_for ::
    "codec_env \<Rightarrow> odps_schema \<Rightarrow> record_hasher \<Rightarrow> nat \<Rightarrow> (upsert_op \<times> rec) list \<Rightarrow> int \<Rightarrow> rec list" where
  "bound_for env schema h n ops b =
     List.map (marked env schema) (List.filter (\<lambda>u. bucket_of h n (snd u) = b) ops)"

definition writable ::
    "codec_env \<Rightarrow> reader_options \<Rightarrow> odps_schema \<Rightarrow> record_hasher \<Rightarrow> upsert_op \<times> rec \<Rightarrow> bool" where
  "writable env opts schema h u \<longleftrightarrow>
     \<not> isl (hash_record h (snd u)) \<and> fst (mark_record env schema (fst u) None (snd u)) = Inr () \<and>
     storable_record env opts schema (marked env schema u)"

lemma route_bucket:
  assumes "writable env opts schema (uw_hasher s) u"
    and "fst ` set (uw_writers s) = {0..<int (length (uw_writers s))}" and "uw_writers s \<noteq> []"
  shows "route s (snd u) = Inr (bucket_of (uw_hasher s) (length (uw_writers s)) (snd u)) \<and>
    bucket_of (uw_hasher s) (length (uw_writers s)) (snd u) \<in> fst ` set (uw_writers s)"
proof -
  from assms(1) obtain x where x: "hash_record (uw_hasher s) (snd u) = Inr x"
    unfolding writable_def by (cases "hash_record (uw_hasher s) (snd u)") auto
  have "x mod int (length (uw_writers s)) \<in> fst ` set (uw_writers s)"
    using assms(2,3) by simp
  then show ?thesis using x assms(3)
    by (simp add: route_def bucket_of_def map_of_eq_None_iff)
qed

definition growing :: "codec_env \<Rightarrow> reader_options \<Rightarrow> odps_schema \<Rightarrow> bool" where
  "growing env opts schema \<longleftrightarrow>
     (\<forall>b old now w h r w'. at_rest env schema b old now (Some w) h \<longrightarrow> fits env schema h \<longrightarrow>
        storable_record env opts schema r \<longrightarrow> write_record env r w = (Inr (), w') \<longrightarrow> n_bytes w < n_bytes w')"

lemma write_step:
  assumes "flowing env schema uploaded w0 h s" and "takes_all uploaded c"
    and "writable env opts schema (uw_hasher s) u"
    and keys: "fst ` set (uw_writers s) = {0..<int (length (uw_writers s))}"
    and bucket: "bucket = bucket_of (uw_hasher s) (length (uw_writers s)) (snd u)"
    and fits: "\<And>b. b \<in> fst ` set (uw_writers s) \<Longrightarrow>
      fits env schema ((h(bucket := h bucket @ [marked env schema u])) b)"
    and grows: "growing env opts schema"
  shows "\<exists>s'. upsert_write c env (Suc fuel) (fst u) None (s, snd u) = (Inr (), (s', marked env schema u)) \<and>
    flowing env schema uploaded w0 (h(bucket := h bucket @ [marked env schema u])) s' \<and> same_stream s s' \<and>
    (uw_max_buffer s < uw_total s \<longrightarrow> (\<exists>w. map_of (uw_writers s') bucket = Some w \<and> n_bytes w = 0)) \<and>
    uw_total s < uw_total s'"
proof -
  from assms(1) have s: "uw_schema s = schema" "uw_status s = StreamNormal" "uw_writers s \<noteq> []"
    by (simp_all add: flowing_def)
  from route_bucket [OF assms(3) keys s(3)] have r: "route s (snd u) = Inr bucket" "bucket \<in> fst ` set (uw_writers s)"
    unfolding bucket by simp_all
  from assms(3) have m: "mark_record env schema (fst u) None (snd u) = (Inr (), marked env schema u)"
    by (simp add: writable_def marked_def prod_eq_iff)
  from write_flows [OF assms(1,2) fits r(2), of fuel] obtain s' where
    "write_marked c env (Suc fuel) bucket (marked env schema u) s = (Inr (), s')"
    "flowing env schema uploaded w0 (h(bucket := h bucket @ [marked env schema u])) s'" "same_stream s s'"
    "uw_max_buffer s < uw_total s \<longrightarrow> (\<exists>w. map_of (uw_writers s') bucket = Some w \<and> n_bytes w = 0)"
    "\<exists>w w'. map_of (uw_writers s) bucket = Some w \<and> write_record env (marked env schema u) w = (Inr (), w') \<and>
       uw_total s' = uw_total s + (n_bytes w' - n_bytes w)"
    by blast
  moreover have "n_bytes w < n_bytes w'" if "map_of (uw_writers s) bucket = Some w"
      "write_record env (marked env schema u) w = (Inr (), w')" for w w'
  proof -
    have "at_rest env schema bucket (sent uploaded bucket w0) (sent uploaded bucket (us_world (uw_session s))) (Some w) (h bucket)"
      using assms(1) r(2) that(1) unfolding flowing_def by metis
    moreover have "fits env schema (h bucket @ [marked env schema u])" using fits [OF r(2)] by simp
    then have "fits env schema (h bucket)" by (auto simp: fits_def all_imaged_def)
    moreover have "storable_record env opts schema (marked env schema u)" using assms(3) by (simp add: writable_def)
    ultimately show ?thesis using grows that(2) unfolding growing_def by blast
  qed
  ultimately show ?thesis using r(1) m s(1,2) by (intro exI [of _ s']) (auto simp: upsert_write_def check_status_def)
qed

lemma all_flows:
  assumes "takes_all uploaded c"
    and "\<And>rs. list_all (storable_record env opts schema) rs \<Longrightarrow> length rs < 2 ^ 63 \<Longrightarrow> fits env schema rs"
    and grows: "growing env opts schema"
  shows "flowing env schema uploaded w0 h s \<Longrightarrow> list_all (writable env opts schema (uw_hasher s)) ops \<Longrightarrow>
    fst ` set (uw_writers s) = {0..<int (length (uw_writers s))} \<Longrightarrow>
    (\<And>b. list_all (storable_record env opts schema) (h b) \<and> length (h b) + length ops < 2 ^ 63) \<Longrightarrow>
    \<exists>s'. upsert_all c env (Suc fuel) ops s = (Inr (), s') \<and> same_stream s s' \<and>
      uw_total s + length ops \<le> uw_total s' \<and>
      flowing env schema uploaded w0
        (\<lambda>b. h b @ bound_for env schema (uw_hasher s) (length (uw_writers s)) ops b) s'"
proof (induction ops arbitrary: h s)
  case Nil
  then show ?case by (simp add: bound_for_def same_stream_def)
next
  case (Cons u ops)
  define bucket where "bucket = bucket_of (uw_hasher s) (length (uw_writers s)) (snd u)"
  define m where "m = marked env schema u"
  let ?h = "h(bucket := h bucket @ [m])"
  have u: "writable env opts schema (uw_hasher s) u" "storable_record env opts schema m"
    using Cons.prems(2) by (simp_all add: writable_def m_def)
  have h: "list_all (storable_record env opts schema) (?h b)" "length (?h b) + length ops < 2 ^ 63" for b
    using Cons.prems(4) [of b] u(2) by auto
  then have "fits env schema (?h b)" for b using assms(2) [OF h(1)] by (meson add_lessD1)
  from write_step [OF Cons.prems(1) assms(1) u(1) Cons.prems(3) bucket_def _ grows, where fuel = fuel] this obtain s1 where
    s1: "upsert_write c env (Suc fuel) (fst u) None (s, snd u) = (Inr (), (s1, m))"
      "flowing env schema uploaded w0 ?h s1" "same_stream s s1" "uw_total s < uw_total s1"
    unfolding m_def by blast
  then have eq: "uw_hasher s1 = uw_hasher s" "List.map fst (uw_writers s1) = List.map fst (uw_writers s)"
    by (simp_all add: same_stream_def)
  then have keys: "length (uw_writers s1) = length (uw_writers s)"
    "fst ` set (uw_writers s1) = fst ` set (uw_writers s)" by (metis length_map, metis list.set_map)
  from Cons.IH [OF s1(2)] Cons.prems(2,3) h obtain s' where
    s': "upsert_all c env (Suc fuel) ops s1 = (Inr (), s')" "same_stream s1 s'"
      "uw_total s1 + length ops \<le> uw_total s'"
      "flowing env schema uploaded w0 (\<lambda>b. ?h b @ bound_for env schema (uw_hasher s) (length (uw_writers s)) ops b) s'"
    unfolding eq keys by auto
  have "(\<lambda>b. ?h b @ bound_for env schema (uw_hasher s) (length (uw_writers s)) ops b) =
      (\<lambda>b. h b @ bound_for env schema (uw_hasher s) (length (uw_writers s)) (u # ops) b)"
    by (rule ext) (auto simp: bound_for_def bucket_def m_def)
  then have "flowing env schema uploaded w0
      (\<lambda>b. h b @ bound_for env schema (uw_hasher s) (length (uw_writers s)) (u # ops) b) s'"
    using s'(4) by simp
  moreover have "uw_total s + length (u # ops) \<le> uw_total s'" using s1(4) s'(3) by simp
  moreover have "upsert_all c env (Suc fuel) (u # ops) s = (Inr (), s')"
    using s1(1) s'(1) by (cases u) simp
  moreover have "same_stream s s'" using s1(3) s'(2) by (simp add: same_stream_def)
  ultimately show ?case by blast
qed

lemma build_writers:
  "map_of (uw_writers (fold (\<lambda>(b, ref). build_bucket_writer b) bs s)) b =
     (if b \<in> fst ` set bs then Some (bw_new (uw_schema s) None) else map_of (uw_writers s) b)"
  "distinct (List.map fst bs) \<Longrightarrow> fst ` set bs \<inter> fst ` set (uw_writers s) = {} \<Longrightarrow>
     List.map fst (uw_writers (fold (\<lambda>(b, ref). build_bucket_writer b) bs s)) =
     List.map fst (uw_writers s) @ List.map fst bs"
  "\<exists>ws. fold (\<lambda>(b, ref). build_bucket_writer b) bs s = s\<lparr>uw_writers := ws\<rparr>"
proof -
  show "\<exists>ws. fold (\<lambda>(b, ref). build_bucket_writer b) bs s = s\<lparr>uw_writers := ws\<rparr>"
  proof (induction bs arbitrary: s)
    case Nil
    show ?case by (intro exI [of _ "uw_writers s"]) simp
  next
    case (Cons x bs)
    obtain b ref where x: "x = (b, ref)" by fastforce
    have "fold (\<lambda>(b, ref). build_bucket_writer b) (x # bs) s =
        fold (\<lambda>(b, ref). build_bucket_writer b) bs (build_bucket_writer b s)" using x by simp
    also obtain ws where "\<dots> = (build_bucket_writer b s)\<lparr>uw_writers := ws\<rparr>" using Cons.IH by blast
    also have "\<dots> = s\<lparr>uw_writers := ws\<rparr>" by (simp add: build_bucket_writer_def)
    finally show ?case by blast
  qed
  show "map_of (uw_writers (fold (\<lambda>(b, ref). build_bucket_writer b) bs s)) b =
     (if b \<in> fst ` set bs then Some (bw_new (uw_schema s) None) else map_of (uw_writers s) b)"
    by (induction bs arbitrary: s) (auto simp: build_bucket_writer_def AList.update_conv' split: if_splits)
  show "distinct (List.map fst bs) \<Longrightarrow> fst ` set bs \<inter> fst ` set (uw_writers s) = {} \<Longrightarrow>
     List.map fst (uw_writers (fold (\<lambda>(b, ref). build_bucket_writer b) bs s)) =
     List.map fst (uw_writers s) @ List.map fst bs"
  proof (induction bs arbitrary: s)
    case (Cons x bs)
    obtain b ref where x: "x = (b, ref)" by fastforce
    define s1 where "s1 = build_bucket_writer b s"
    have k: "List.map fst (uw_writers s1) = List.map fst (uw_writers s) @ [b]"
      using Cons.prems(2) x by (simp add: s1_def build_bucket_writer_def AList.update_keys)
    then have "fst ` set (uw_writers s1) = insert b (fst ` set (uw_writers s))"
      by (metis list.set_map set_append list.set(1,2) Un_insert_right sup_bot_right)
    with Cons.prems x have "distinct (List.map fst bs)" "fst ` set bs \<inter> fst ` set (uw_writers s1) = {}" by auto
    from Cons.IH [OF this] k x show ?case by (simp add: s1_def)
  qed simp
qed

lemma new_flows:
  assumes "upsert_new henv schema hasher hash_keys max_buffer slot_buffer session = Inr s"
    and "distinct (List.map fst (us_buckets session))" and "us_buckets session \<noteq> []"
  shows "flowing env schema uploaded (us_world session) (\<lambda>_. []) s" "uw_session s = session"
    "List.map fst (uw_writers s) = List.map fst (us_buckets session)"
proof -
  obtain t where t: "s = fold (\<lambda>(b, ref). build_bucket_writer b) (us_buckets session) t"
      "uw_schema t = schema" "uw_status t = StreamNormal" "uw_writers t = []" "uw_session t = session"
    using assms(1) by (auto simp: upsert_new_def rbind_eq_Inr)
  obtain ws where s: "s = t\<lparr>uw_writers := ws\<rparr>" using build_writers(3) t(1) by metis
  show keys: "List.map fst (uw_writers s) = List.map fst (us_buckets session)"
    using build_writers(2) [OF assms(2), of t] t(1,4) by simp
  then have set: "fst ` set (uw_writers s) = fst ` set (us_buckets session)" by (metis list.set_map)
  have w: "map_of (uw_writers s) b = Some (bw_new schema None)" if "b \<in> fst ` set (us_buckets session)" for b
    using build_writers(1) [of "us_buckets session" t b] t(1,2) that by simp
  show "uw_session s = session" using s t(5) by simp
  have "at_rest env schema b old old (map_of (uw_writers s) b) []" if "b \<in> fst ` set (uw_writers s)" for b old
    using w [of b] that new_rests unfolding set by simp
  moreover have "uw_writers s \<noteq> []" "uw_schema s = schema" "uw_status s = StreamNormal"
    using keys assms(3) s t(2,3) by auto
  ultimately show "flowing env schema uploaded (us_world session) (\<lambda>_. []) s"
    using keys assms(2) \<open>uw_session s = session\<close> by (simp add: flowing_def)
qed

lemma storable_fits:
  assumes "odps_schema_new cols parts = Inr schema" and "length (all_columns schema) < 33553408"
    and "list_all (storable_record env opts schema) rs" and "length rs < 2 ^ 63"
  shows "fits env schema rs"
  unfolding fits_def all_imaged_def
proof (intro conjI allI impI)
  fix seg assume "set seg \<subseteq> set rs"
  with assms(3) have "list_all (storable_record env opts schema) seg" by (auto simp: list_all_iff)
  then show "\<exists>img cc. imaged env schema seg img cc" by (rule storable_imaged [OF assms(1,2)])
qed (rule assms(4))

lemma bound_for_storable:
  "list_all (writable env opts schema h) ops \<Longrightarrow> list_all (storable_record env opts schema) (bound_for env schema h' n ops b)"
  by (auto simp: bound_for_def list_all_iff writable_def)

lemma length_bound_for: "length (bound_for env schema h n ops b) \<le> length ops"
  by (simp add: bound_for_def)

lemma rest_grows:
  assumes "odps_schema_new cols parts = Inr schema" and "length (all_columns schema) < 33553408"
  shows "growing env opts schema"
  unfolding growing_def
proof (intro allI impI)
  fix b old now w h r w'
  assume assms': "at_rest env schema b old now (Some w) h" "fits env schema h"
    "storable_record env opts schema r" "write_record env r w = (Inr (), w')"
  from assms'(1) obtain segs seg where s: "pending env schema seg w" "concat segs @ seg = h"
    unfolding at_rest_def by auto
  from s(2) have "set seg \<subseteq> set h" by auto
  with fits_imaged [OF assms'(2)] obtain img cc where "imaged env schema seg img cc" by blast
  note idle = pending_bytes(3) [OF s(1) this]
  then have "is_c32c cc" by (simp add: idle_def)
  from assms'(3) have "list_all (storable_record env opts schema) [r]" by simp
  from storable_transmits [OF assms(1,2) this \<open>is_c32c cc\<close> lessI] obtain img' cc' where
    t: "transmits env opts schema (os_columns schema) None (Suc (length (all_columns schema))) [r]
      (List.map (as_read schema) [r]) img' cc cc'" by blast
  then have "img' \<noteq> []" by (simp add: transmits_def)
  moreover obtain u where "write_records env [r] w = (Inr (), u)" "written u = written w @ img'"
      "idle schema cc' (length seg + length [r]) u"
    using t idle unfolding transmits_def by blast
  then have "written w' = written w @ img'" "counted w'"
    using assms'(4) by (auto simp: sbind_apply sret_apply idle_def)
  ultimately show "n_bytes w < n_bytes w'" using idle by (simp add: idle_def counted_n_bytes)
qed

text \<open>From a new stream through any calls of \<^verbatim>\<open>upsert\<close> and \<^verbatim>\<open>delete\<close>.\<close>

lemma stream_flows:
  assumes schema: "odps_schema_new cols parts = Inr schema" "length (all_columns schema) < 33553408"
    and stream: "upsert_new henv schema hasher hash_keys max_buffer slot_buffer session = Inr s"
    and buckets: "distinct (List.map fst (us_buckets session))" "us_buckets session \<noteq> []"
      "fst ` set (us_buckets session) = {0..<int (length (us_buckets session))}"
    and recs: "list_all (writable env opts schema (uw_hasher s)) ops" "length ops < 2 ^ 63"
    and server: "takes_all uploaded c"
  shows "\<exists>s1. upsert_all c env (Suc fuel) ops s = (Inr (), s1) \<and> same_stream s s1 \<and> length ops \<le> uw_total s1 \<and>
    flowing env schema uploaded (us_world session)
      (bound_for env schema (uw_hasher s) (length (us_buckets session)) ops) s1"
proof -
  note new = new_flows [OF stream buckets(1,2)]
  from new(3) have "length (uw_writers s) = length (us_buckets session)"
    "fst ` set (uw_writers s) = fst ` set (us_buckets session)" by (metis length_map, metis list.set_map)
  moreover have fits: "list_all (storable_record env opts schema) rs \<Longrightarrow> length rs < 2 ^ 63 \<Longrightarrow> fits env schema rs"
    for rs by (rule storable_fits [OF schema])
  ultimately show ?thesis
    using all_flows [OF server fits rest_grows [OF schema] new(1) recs(1), where fuel = fuel] buckets(3) recs(2) by auto
qed

section \<open>Properties\<close>


definition up_columns :: "column list" where
  "up_columns =
     [mk_column ''k'' (Prim String), mk_column ''__version'' (Prim Bigint), mk_column ''__app_version'' (Prim Bigint),
      mk_column ''__operation'' (Prim Tinyint), mk_column ''__key_cols'' (Array (Prim Bigint)),
      mk_column ''__value_cols'' (Array (Prim Bigint))]"

definition up_schema :: odps_schema where
  "up_schema = \<lparr>os_columns = up_columns, os_partitions = Some [],
     os_schema = raw_schema up_columns, os_pschema = raw_schema []\<rparr>"

definition up_session :: "(nat \<times> upload list) upsert_session" where
  "up_session =
     \<lparr>us_store = [\<lparr>sl_slot = ''0'', sl_ip = Some ''1.1.1.1'', sl_port = Some 10\<rparr>], us_slots = [0],
      us_buckets = [(0, 0), (1, 0)], us_status = UpsertNormal, us_timeout = 120, us_world = (0, [])\<rparr>"

text \<open>A server that refuses as many requests as its counter says.\<close>

definition up_server :: "(nat \<times> upload list) upsert_requests" where
  "up_server =
     \<lparr>ur_calls = \<lparr>uc_get = (\<lambda>w. (Inl TunnelError, w)), uc_commit = (\<lambda>w. (Inr (), w)), uc_now = (\<lambda>_. 0),
        uc_sleep = (\<lambda>_ w. w)\<rparr>,
      ur_handler = handler_new \<lparr>to_retry_times = 4, to_retry_delay = 1\<rparr> None None,
      ur_request = (\<lambda>b sl n data (k, ups).
        if 0 < k then (Refused (ODPSError (Some 503)) [], (k - 1, ups)) else (Accepted, (0, ups @ [(b, n, data)]))),
      ur_order = rev\<rparr>"

definition ready_server :: "(nat \<times> upload list) upsert_requests" where
  "ready_server = up_server\<lparr>ur_request := (\<lambda>b sl n data (k, ups). (Accepted, (k, ups @ [(b, n, data)])))\<rparr>"

definition up_env :: hash_env where
  "up_env = codec_env.extend plain_codec \<lparr>total_seconds = (\<lambda>ns. ns div 10 ^ 9)\<rparr>"

definition up_record :: "bytes \<Rightarrow> rec" where
  "up_record k = (rec_blank up_columns (name_indexes (List.map col_name up_columns)) None)
     \<lparr>rec_values := [PStr k, PNone, PNone, PNone, PNone, PNone]\<rparr>"

definition up_ops :: "(upsert_op \<times> rec) list" where
  "up_ops = [(UPSERT, up_record [1]), (UPSERT, up_record [2]), (DELETE, up_record [1])]"

definition up_stream :: "nat \<Rightarrow> (nat \<times> upload list) upsert_stream" where
  "up_stream max_buffer = projr (upsert_new up_env up_schema ''default'' [''k''] (Some max_buffer) (Some 5) up_session)"

lemma up_stream_new:
  "upsert_new up_env up_schema ''default'' [''k''] (Some max_buffer) (Some 5) up_session = Inr (up_stream max_buffer)"
proof -
  have "\<not> isl (record_hasher_new up_env up_schema ''default'' [''k''])" by code_simp
  then show ?thesis by (cases "record_hasher_new up_env up_schema ''default'' [''k'']")
    (simp_all add: up_stream_def upsert_new_def)
qed

lemma up_schema_new: "odps_schema_new up_columns (Some []) = Inr up_schema" by code_simp

lemma new_hasher:
  assumes "upsert_new henv schema hasher hash_keys max_buffer slot_buffer session = Inr s"
  shows "record_hasher_new henv schema hasher hash_keys = Inr (uw_hasher s)"
proof -
  obtain h where h: "record_hasher_new henv schema hasher hash_keys = Inr h"
    using assms by (auto simp: upsert_new_def rbind_eq_Inr)
  define t where "t = \<lparr>uw_schema = schema, uw_max_buffer = size_or max_buffer DEFAULT_MAX_BUFFER_SIZE,
    uw_slot_buffer = size_or slot_buffer DEFAULT_SLOT_BUFFER_SIZE, uw_total = 0, uw_status = StreamNormal,
    uw_hasher = h, uw_buckets = get_buckets session, uw_writers = [], uw_session = session, uw_waits = []\<rparr>"
  have "s = fold (\<lambda>(b, ref). build_bucket_writer b) (us_buckets session) t"
    using assms h by (simp add: upsert_new_def t_def)
  moreover obtain ws where "fold (\<lambda>(b, ref). build_bucket_writer b) (us_buckets session) t = t\<lparr>uw_writers := ws\<rparr>"
    using build_writers(3) by blast
  ultimately show ?thesis using h by (simp add: t_def)
qed

lemma up_hasher: "uw_hasher (up_stream m) = projr (record_hasher_new up_env up_schema ''default'' [''k''])"
  using new_hasher [OF up_stream_new [of m]] by simp

lemma up_hash_values:
  "\<not> isl (hash_record (projr (record_hasher_new up_env up_schema ''default'' [''k''])) (up_record [1]))"
  "\<not> isl (hash_record (projr (record_hasher_new up_env up_schema ''default'' [''k''])) (up_record [2]))"
  by code_simp+

definition up_mark :: "bytes \<Rightarrow> int \<Rightarrow> rec" where
  "up_mark k n = (up_record k)\<lparr>rec_values := [PStr k, PNone, PNone, PInt n, PNone, PList []]\<rparr>"

lemma up_marks:
  "mark_record plain_codec up_schema UPSERT None (up_record [1]) = (Inr (), up_mark [1] 85)"
  "mark_record plain_codec up_schema UPSERT None (up_record [2]) = (Inr (), up_mark [2] 85)"
  "mark_record plain_codec up_schema DELETE None (up_record [1]) = (Inr (), up_mark [1] 68)"
  "mark_record plain_codec up_schema DELETE None (up_record [2]) = (Inr (), up_mark [2] 68)"
  by code_simp+

lemma up_storable: "storable_record plain_codec demo_options up_schema (up_mark [1] 85)"
  "storable_record plain_codec demo_options up_schema (up_mark [2] 85)"
  "storable_record plain_codec demo_options up_schema (up_mark [1] 68)"
  "storable_record plain_codec demo_options up_schema (up_mark [2] 68)"
  by (simp_all add: storable_record_def up_mark_def up_record_def up_schema_def up_columns_def rec_blank_def
      storable_cell_def is_partition_def raw_schema_def index_of_def name_indexes_def mk_column_def demo_options_def
      storable_prim_def plain_codec_def plain_env_def py_env.defs size_limit_def MAX_FIELD_SIZE_def
      storable_null_def MAX_STRING_def)

lemma up_writable: "list_all (writable plain_codec demo_options up_schema (uw_hasher (up_stream m))) up_ops"
  using up_hash_values by (simp add: up_ops_def writable_def marked_def up_hasher up_marks up_storable)


text \<open>\<^verbatim>\<open>_total_n_bytes\<close> counts all bytes ever written and is never taken back: once it has passed
  \<^verbatim>\<open>max_buffer_size\<close>, every single record is followed by a flush that leaves the writer of its bucket empty,
  so that each record travels in a request of its own, and nothing in the stream brings that to an end.\<close>

theorem buffering_ends:
  assumes schema: "odps_schema_new cols parts = Inr schema" "length (all_columns schema) < 33553408"
    and stream: "upsert_new henv schema hasher hash_keys max_buffer slot_buffer session = Inr s"
    and buckets: "distinct (List.map fst (us_buckets session))" "us_buckets session \<noteq> []"
      "fst ` set (us_buckets session) = {0..<int (length (us_buckets session))}"
    and recs: "list_all (writable env opts schema (uw_hasher s)) (ops @ [u])" "length (ops @ [u]) < 2 ^ 63"
    and server: "takes_all uploaded c"
    and written: "upsert_all c env (Suc fuel) ops s = (Inr (), s1)" "uw_max_buffer s1 < uw_total s1"
  shows "\<exists>s2 w. upsert_write c env (Suc fuel) (fst u) None (s1, snd u) = (Inr (), (s2, marked env schema u)) \<and>
    map_of (uw_writers s2) (bucket_of (uw_hasher s) (length (us_buckets session)) (snd u)) = Some w \<and>
    n_bytes w = 0 \<and> uw_max_buffer s2 < uw_total s2"
proof -
  let ?h = "bound_for env schema (uw_hasher s) (length (us_buckets session))"
  have ops: "list_all (writable env opts schema (uw_hasher s)) ops" "length ops < 2 ^ 63"
    "writable env opts schema (uw_hasher s) u" using recs by simp_all
  from stream_flows [OF schema stream buckets ops(1,2) server, of fuel] written(1) have
    s1: "same_stream s s1" "flowing env schema uploaded (us_world session) (?h ops) s1" by auto
  then have "List.map fst (uw_writers s1) = List.map fst (us_buckets session)" "uw_hasher s1 = uw_hasher s"
    using new_flows(3) [OF stream buckets(1,2)] by (simp_all add: same_stream_def)
  then have keys: "length (uw_writers s1) = length (us_buckets session)"
    "fst ` set (uw_writers s1) = fst ` set (us_buckets session)" "uw_hasher s1 = uw_hasher s"
    by (metis length_map, metis list.set_map, simp)
  define bucket where "bucket = bucket_of (uw_hasher s) (length (us_buckets session)) (snd u)"
  have "((?h ops)(bucket := ?h ops bucket @ [marked env schema u])) b = ?h (ops @ [u]) b" for b
    by (simp add: bound_for_def bucket_def)
  moreover have "length (?h (ops @ [u]) b) < 2 ^ 63" for b
    using length_bound_for recs(2) by (rule le_less_trans)
  then have "fits env schema (?h (ops @ [u]) b)" for b
    using storable_fits [OF schema bound_for_storable [OF recs(1)]] by blast
  ultimately have "fits env schema (((?h ops)(bucket := ?h ops bucket @ [marked env schema u])) b)" for b by simp
  from write_step [OF s1(2) server ops(3) [folded keys(3)] _ _ this rest_grows [OF schema], where fuel = fuel] keys buckets(3) written(2)
  obtain s2 w where "upsert_write c env (Suc fuel) (fst u) None (s1, snd u) = (Inr (), (s2, marked env schema u))"
    "same_stream s1 s2" "map_of (uw_writers s2) bucket = Some w" "n_bytes w = 0"
    unfolding bucket_def by auto
  with written(2) show ?thesis by (auto simp: same_stream_def bucket_def)
qed

definition full_stream :: "(nat \<times> upload list) upsert_stream" where
  "full_stream =
     \<lparr>uw_schema = up_schema, uw_max_buffer = 1, uw_slot_buffer = 5, uw_total = 0, uw_status = StreamNormal,
      uw_hasher = projr (record_hasher_new up_env up_schema ''default'' [''k'']), uw_buckets = [(0, 0), (1, 0)],
      uw_writers = [(0, bw_new up_schema None), (1, bw_new up_schema None)], uw_session = up_session, uw_waits = []\<rparr>"

lemma full_stream_new:
  "upsert_new up_env up_schema ''default'' [''k''] (Some 1) (Some 5) up_session = Inr full_stream"
proof -
  have "\<not> isl (record_hasher_new up_env up_schema ''default'' [''k''])" by code_simp
  then show ?thesis by (cases "record_hasher_new up_env up_schema ''default'' [''k'']")
    (simp_all add: upsert_new_def full_stream_def size_or_def build_bucket_writer_def get_buckets_def up_session_def)
qed

lemma buffering_ends_witness:
  "\<exists>s1 s2 w. upsert_all ready_server plain_codec 1 up_ops full_stream = (Inr (), s1) \<and>
    upsert_write ready_server plain_codec 1 DELETE None (s1, up_record [2]) =
      (Inr (), (s2, marked plain_codec up_schema (DELETE, up_record [2]))) \<and>
    map_of (uw_writers s2) (bucket_of (uw_hasher full_stream) 2 (up_record [2])) = Some w \<and> n_bytes w = 0 \<and>
    uw_max_buffer s2 < uw_total s2"
proof -
  have buckets: "distinct (List.map fst (us_buckets up_session))" "us_buckets up_session \<noteq> []"
      "fst ` set (us_buckets up_session) = {0..<int (length (us_buckets up_session))}"
      "length (us_buckets up_session) = 2"
    by (auto simp: up_session_def)
  have size: "length (all_columns up_schema) < 33553408" "length (up_ops @ [(DELETE, up_record [2])]) < 2 ^ 63"
      "length up_ops < 2 ^ 63"
    by (simp_all add: up_schema_def up_columns_def all_columns_def partition_list_def up_ops_def)
  have server: "takes_all snd ready_server"
    by (auto simp: takes_all_def ready_server_def up_server_def)
  have recs: "list_all (writable plain_codec demo_options up_schema (uw_hasher full_stream)) (up_ops @ [(DELETE, up_record [2])])"
    using up_hash_values by (simp add: up_ops_def writable_def marked_def full_stream_def up_marks up_storable)
  then have "list_all (writable plain_codec demo_options up_schema (uw_hasher full_stream)) up_ops" by simp
  from stream_flows [OF up_schema_new size(1) full_stream_new buckets(1-3) this size(3) server, where fuel = 0]
  obtain s1 where s1: "upsert_all ready_server plain_codec (Suc 0) up_ops full_stream = (Inr (), s1)"
    "same_stream full_stream s1" "length up_ops \<le> uw_total s1" by blast
  then have "uw_max_buffer s1 < uw_total s1" by (simp add: same_stream_def full_stream_def up_ops_def)
  from buffering_ends [OF up_schema_new size(1) full_stream_new buckets(1-3) recs size(2) server s1(1) this]
  show ?thesis using s1(1) unfolding buckets(4) fst_conv snd_conv One_nat_def by blast
qed

end
