(* ===== verification/Upsert_Retry.thy ===== *)
theory Upsert_Retry
  imports Upsert_Flow
begin

text \<open>
  What \<^verbatim>\<open>Upsert\<close> does when requests are refused: the number of attempts of a flush, and what a request that
  is made again carries.
\<close>

section \<open>Refused requests\<close>

lemma close_again:
  assumes "idle schema cc n w" and "n < 2 ^ 63"
  shows "\<exists>w'. bw_close w = (Inr (), w') \<and> concat (pw_output w') = written w @ footer n cc \<and>
    written w' = written w @ footer n cc \<and> idle schema cc 0 w'"
proof -
  from finish_tags_effect [OF assms] obtain w1 where w1: "write_finish_tags w = (Inr (), w1)"
      "written w1 = written w @ footer n cc" "idle schema cc n w1" by blast
  obtain w2 where w2: "pw_close w1 = (Inr (), w2)" "written w2 = written w1" "pw_encoder w2 = []"
      "idle schema cc n w2"
    using w1(3) by (auto simp: pw_close_def flush_all_def pw_flush_def smod_apply written_def idle_def counted_def)
  have "bw_close w = (Inr (), w2\<lparr>bw_cursor := 0\<rparr>)"
    using w1(1) w2(1) by (simp add: bw_close_def sbind_apply smod_apply)
  moreover have "idle schema cc 0 (w2\<lparr>bw_cursor := 0\<rparr>)"
    using w2(4) by (simp add: idle_def counted_def)
  ultimately show ?thesis using w1(2) w2(2,3) by (simp add: written_def)
qed

lemma order_single: "(\<forall>bs. mset (order bs) = mset bs) \<Longrightarrow> order [b] = [b]"
  by (metis mset_eq_length length_0_conv length_Suc_conv mset_single_iff_right mset.simps add_mset_add_single add_0)

text \<open>An attempt of a stream with one bucket: the writer is closed, the request made.\<close>

lemma single_attempt:
  assumes "uw_status s = StreamNormal" and "uw_writers s = [(b, w)]" and "n_bytes w \<noteq> 0"
    and "bw_close w = (Inr (), w')" and "ur_order c [b] = [b]"
  shows "flush_attempt c True [] s =
    (case write_bucket c [(b, bw_cursor w)] b (s\<lparr>uw_writers := [(b, w')]\<rparr>) of
       (fs, s') \<Rightarrow> (Inr (if List.filter (\<lambda>f. fst f = b) fs = [] then [b] else [], List.filter (\<lambda>f. fst f = b) fs), s'))"
  using assms by (simp add: flush_attempt_def check_status_def split: prod.splits)

text \<open>The class of refusals that are retried seven times or not at all.\<close>

definition bounded_refusals :: "'w upsert_requests \<Rightarrow> bool" where
  "bounded_refusals c \<longleftrightarrow>
     th_default (ur_handler c) \<in> {NoRetryPolicy, ExponentialWait} \<and>
     (\<forall>b sl n data w exc server w'. ur_request c b sl n data w = (Refused exc server, w') \<longrightarrow>
        get_retry_policy (ur_handler c) (status_code exc) \<in> {NoRetryPolicy, ExponentialWait})"

definition bounded_failure :: "'w upsert_requests \<Rightarrow> failure \<Rightarrow> bool" where
  "bounded_failure c f \<longleftrightarrow>
     get_retry_policy (ur_handler c) (status_code (fst (snd f))) \<in> {NoRetryPolicy, ExponentialWait}"

lemma write_bucket_bounded:
  assumes "bounded_refusals c" and "write_bucket c counts b s = (fs, s')"
  shows "list_all (bounded_failure c) fs \<and> uw_waits s' = uw_waits s"
proof -
  have "bounded_failure c (b, KeyError, [])"
    using assms(1) by (simp add: bounded_failure_def bounded_refusals_def get_retry_policy_def)
  moreover have "bounded_failure c (b, exc, server)"
    if "ur_request c b sl n data w = (Refused exc server, w')" for sl n data w exc server w'
    using assms(1) that unfolding bounded_failure_def bounded_refusals_def fst_conv snd_conv by blast
  ultimately show ?thesis using assms(2)
    by (auto simp: write_bucket_def build_bucket_writer_def Let_def split: option.splits prod.splits upsert_answer.splits)
qed

lemma run_jobs_bounded:
  "bounded_refusals c \<Longrightarrow> run_jobs c counts bs s = (fs, s') \<Longrightarrow>
   list_all (bounded_failure c) fs \<and> uw_waits s' = uw_waits s"
proof (induction bs arbitrary: s fs)
  case (Cons b bs)
  then show ?case using write_bucket_bounded [OF Cons.prems(1)]
    by (auto split: prod.splits)
qed simp

lemma close_writers_waits:
  "close_writers whole bucket_written ws s = (r, jobs, s') \<Longrightarrow> uw_waits s' = uw_waits s"
  by (induction whole bucket_written ws s arbitrary: r jobs s' rule: close_writers.induct)
    (auto simp: Let_def split: if_splits prod.splits sum.splits)

lemma flush_attempt_bounded:
  assumes "bounded_refusals c" and "flush_attempt c whole bucket_written s = (r, s')"
  shows "uw_waits s' = uw_waits s \<and> (\<forall>bw fs. r = Inr (bw, fs) \<longrightarrow> list_all (bounded_failure c) fs)"
proof -
  obtain r1 jobs s1 where c: "close_writers whole bucket_written (uw_writers s) s = (r1, jobs, s1)"
    by (metis prod_cases3)
  obtain fs s2 where j: "run_jobs c jobs (ur_order c (List.map fst jobs)) s1 = (fs, s2)" by fastforce
  note w = close_writers_waits [OF c] run_jobs_bounded [OF assms(1) j]
  have "list_all (bounded_failure c) (concat (List.map (\<lambda>(b, n). List.filter (\<lambda>f. fst f = b) fs) jobs))"
    using w(2) by (auto simp: list_all_iff)
  with assms(2) c j w show ?thesis
    by (auto simp: flush_attempt_def Let_def split: sum.splits if_splits)
qed

lemma refresh_routes_bounded:
  assumes "refresh_routes c attempt fs v s = (r, s')" and "list_all (bounded_failure c) fs"
    and "fst (snd v) = None \<or> attempt \<le> 7 \<and> fst (snd v) = Some ExponentialWait"
  shows "uw_waits s' = uw_waits s \<and>
    (\<forall>v'. r = Inr v' \<longrightarrow> fst (snd v') = None \<or> attempt \<le> 7 \<and> fst (snd v') = Some ExponentialWait)"
  using assms
proof (induction fs arbitrary: v s)
  case Nil
  then show ?case by (auto simp: sret_apply)
next
  case (Cons f fs)
  obtain b exc server where f: "f = (b, exc, server)" by (metis prod_cases3)
  have v: "fst (snd (judge (ur_handler c) attempt exc reload v)) = None \<or>
      attempt \<le> 7 \<and> fst (snd (judge (ur_handler c) attempt exc reload v)) = Some ExponentialWait" for reload
    using Cons.prems(2,3) f
    by (auto simp: judge_def Let_def bounded_failure_def SERVER_ERROR_MAX_RETRIES_def split: prod.splits)
  note IH = Cons.IH [OF _ _ v]
  have os: "uw_waits t' = uw_waits t" if "on_session m t = (x, t')" for m :: "('a upsert_session, unit) sm" and t x t'
    using that by (auto simp: on_session_def split: prod.splits)
  show ?case
  proof (cases "status_code exc = Some SLOT_REASSIGNMENT \<and> server \<noteq> []")
    case True
    obtain x t where t: "on_session (update_buckets (ur_calls c) b server) s = (x, t)" by fastforce
    with True Cons.prems(1,2) f IH os [OF t] show ?thesis
      by (cases x) (auto simp: Let_def sbind_apply)
  next
    case False
    then obtain reload where "refresh_routes c attempt fs (judge (ur_handler c) attempt exc reload v) s = (r, s')"
      using Cons.prems(1) f by (auto simp: Let_def split: if_splits)
    from IH [OF this] Cons.prems(2) show ?thesis by simp
  qed
qed

lemma reload_quietly_waits: "reload_quietly c s = (r, s') \<Longrightarrow> uw_waits s' = uw_waits s"
  by (auto simp: reload_quietly_def on_session_def split: prod.splits sum.splits py_error.splits)

lemma after_failures_bounded:
  assumes "after_failures c attempt fs s = (r, s')" and "list_all (bounded_failure c) fs"
  shows "if r = Inr () then attempt \<le> 7 \<and> uw_waits s' = uw_waits s @ [2 ^ (attempt - 1)]
    else uw_waits s' = uw_waits s"
proof -
  obtain rv s1 where v: "refresh_routes c attempt fs (False, None, None) s = (rv, s1)" by fastforce
  from refresh_routes_bounded [OF v assms(2)] have b: "uw_waits s1 = uw_waits s"
    "\<And>v. rv = Inr v \<Longrightarrow> fst (snd v) = None \<or> attempt \<le> 7 \<and> fst (snd v) = Some ExponentialWait" by simp_all
  show ?thesis
  proof (cases rv)
    case (Inl e)
    with assms(1) v b show ?thesis by (auto simp: after_failures_def sbind_Inl)
  next
    case (Inr v')
    obtain q s2 where q: "(if fst v' then reload_quietly c else sret ()) s1 = (q, s2)" by fastforce
    then have w2: "uw_waits s2 = uw_waits s"
      using b(1) by (auto simp: sret_apply dest: reload_quietly_waits split: if_splits)
    show ?thesis
    proof (cases q)
      case (Inl e)
      with assms(1) v Inr q w2 show ?thesis by (auto simp: after_failures_def sbind_apply)
    next
      case q': (Inr u)
      then have "raise_or_wait (ur_handler c) attempt v' (s2\<lparr>uw_buckets := get_buckets (uw_session s2)\<rparr>) = (r, s')"
        using assms(1) v Inr q by (simp add: after_failures_def sbind_apply smod_apply)
      with b(2) [OF Inr] w2 show ?thesis
        by (auto simp: raise_or_wait_def smod_apply sraise_apply split: prod.splits option.splits)
    qed
  qed
qed

lemma flush_loop_ends:
  assumes "bounded_refusals c"
  shows "attempt \<le> 7 \<Longrightarrow> 8 - attempt \<le> fuel \<Longrightarrow>
    \<exists>x s' k. (\<forall>more. flush_loop c whole (fuel + more) bucket_written attempt s = (x, s')) \<and>
      uw_waits s' = uw_waits s @ List.map (\<lambda>i. 2 ^ i) [attempt..<k] \<and> attempt \<le> k \<and> k \<le> 7"
proof (induction fuel arbitrary: bucket_written attempt s)
  case (Suc fuel)
  obtain r s1 where a: "flush_attempt c whole bucket_written s = (r, s1)" by fastforce
  note b = flush_attempt_bounded [OF assms a]
  have stop: ?case if "\<And>more. flush_loop c whole (Suc fuel + more) bucket_written attempt s = (x, t)"
      "uw_waits t = uw_waits s" for x t
    using that Suc.prems(1) by (intro exI [of _ x] exI [of _ t] exI [of _ attempt]) simp
  show ?case
  proof (cases r)
    case (Inl e)
    show ?thesis by (rule stop [of "Inl e" s1]) (use a b Inl in simp_all)
  next
    case (Inr p)
    obtain bw fs where p: "p = (bw, fs)" by fastforce
    then have l: "list_all (bounded_failure c) fs" using b Inr by simp
    obtain y s2 where f: "after_failures c (attempt + 1) fs s1 = (y, s2)" by fastforce
    note w = after_failures_bounded [OF f l]
    show ?thesis
    proof (cases "fs = [] \<or> y \<noteq> Inr ()")
      case True
      show ?thesis
        by (rule stop [of "if fs = [] then Inr () else y" "if fs = [] then s1 else s2"])
          (use a b Inr p f w True in \<open>auto split: sum.splits\<close>)
    next
      case False
      with w have k: "attempt + 1 \<le> 7" "uw_waits s2 = uw_waits s1 @ [2 ^ attempt]" by simp_all
      with Suc.prems have "8 - (attempt + 1) \<le> fuel" by simp
      from Suc.IH [OF k(1) this, of bw s2] obtain x t m where
        t: "\<forall>more. flush_loop c whole (fuel + more) bw (attempt + 1) s2 = (x, t)"
        "uw_waits t = uw_waits s2 @ List.map (\<lambda>i. 2 ^ i) [attempt + 1..<m]" "attempt + 1 \<le> m" "m \<le> 7" by blast
      have "[attempt..<m] = attempt # [attempt + 1..<m]" using t(3) by (simp add: upt_conv_Cons)
      with t k(2) b a Inr p f False show ?thesis
        by (intro exI [of _ x] exI [of _ t] exI [of _ m]) simp
    qed
  qed
qed simp

section \<open>Properties\<close>

text \<open>Refused requests end the flush or are waited for: when the server refuses with 5xx or 408, or with a
  status that is never retried, whichever buckets it refuses at each attempt, a flush makes at most eight
  attempts, waiting 1, 2, 4, ... seconds, whatever more fuel it is given.\<close>

theorem upsert_flush_ends:
  assumes "bounded_refusals c" and "8 \<le> fuel"
  shows "\<exists>k. upsert_flush c fuel whole s = upsert_flush c 8 whole s \<and> k \<le> 7 \<and>
    uw_waits (snd (upsert_flush c fuel whole s)) = uw_waits s @ List.map (\<lambda>i. 2 ^ i) [0..<k]"
proof -
  let ?s = "s\<lparr>uw_buckets := get_buckets (uw_session s)\<rparr>"
  from flush_loop_ends [OF assms(1), of 0 8 whole "[]" ?s] obtain x s' k where
    l: "\<And>more. flush_loop c whole (8 + more) [] 0 ?s = (x, s')"
      "uw_waits s' = uw_waits s @ List.map (\<lambda>i. 2 ^ i) [0..<k]" "k \<le> 7" by auto
  from l(1) [of 0] l(1) [of "fuel - 8"] assms(2)
  have "flush_loop c whole fuel [] 0 ?s = (x, s')" "flush_loop c whole 8 [] 0 ?s = (x, s')" by simp_all
  with l(2,3) show ?thesis
    by (cases "length (get_buckets (uw_session s)) = length (uw_writers s)")
      (auto simp: upsert_flush_def Let_def intro: exI [of _ k] exI [of _ 0])
qed

lemma upsert_flush_ends_witness:
  "\<exists>k. upsert_flush up_server 100 True (up_stream 100) = upsert_flush up_server 8 True (up_stream 100) \<and> k \<le> 7 \<and>
    uw_waits (snd (upsert_flush up_server 100 True (up_stream 100))) =
      uw_waits (up_stream 100) @ List.map (\<lambda>i. 2 ^ i) [0..<k]"
proof -
  have "bounded_refusals up_server"
    by (auto simp: bounded_refusals_def up_server_def handler_new_def get_retry_policy_def SLOT_REASSIGNMENT_def
        FLOW_EXCEEDED_def split: if_splits)
  then show ?thesis by (rule upsert_flush_ends) simp
qed

text \<open>A request that is refused once and accepted when it is made again succeeds, but with a file that is
  not the one of the records: the flush closes the writer again before the second attempt, so that a second
  footer, of no records, follows the first, and the number of records announced is 0.\<close>

theorem retried_file_spoilt:
  assumes schema: "odps_schema_new cols parts = Inr schema" "length (all_columns schema) < 33553408"
    and recs: "list_all (storable_record env opts schema) rs" "rs \<noteq> []" "length rs < 2 ^ 63"
    and writer: "write_records env rs (bw_new schema None) = (Inr (), w)"
    and stream: "uw_status s = StreamNormal" "uw_writers s = [(b, w)]" "us_buckets (uw_session s) = [(b, ref)]"
    and order: "\<forall>bs. mset (ur_order c bs) = mset bs"
    and server: "\<And>sl n data w. ur_request c b sl n data w =
      (if refuses w then (Refused (ODPSError (Some 503)) server, forget w)
       else (Accepted, keep n data w))"
      "\<And>n data w. uploaded (keep n data w) = uploaded w @ [(b, n, data)]"
    and first: "refuses (us_world (uw_session s))"
      "uploaded (forget (us_world (uw_session s))) = uploaded (us_world (uw_session s))"
      "\<not> refuses (forget (us_world (uw_session s)))"
  shows "\<exists>s' cc. upsert_close c (Suc (Suc fuel)) s = (Inr (), s') \<and> uw_waits s' = uw_waits s @ [1] \<and>
    uploaded (us_world (uw_session s')) =
      uploaded (us_world (uw_session s)) @ [(b, 0, file_bytes env schema rs @ footer 0 cc)]"
proof -
  from storable_imaged [OF schema recs(1)] obtain img cc where im: "imaged env schema rs img cc" by blast
  have "pending env schema rs w" using writer idle_new unfolding pending_def by blast
  note p = pending_bytes [OF this im]
  from close_again [OF p(3) recs(3)] obtain w1 where w1: "bw_close w = (Inr (), w1)"
    "written w1 = file_bytes env schema rs" "idle schema cc 0 w1"
    unfolding p(2) imaged_file [OF im recs(3), symmetric] by blast
  from close_again [OF w1(3)] obtain w2 where w2: "bw_close w1 = (Inr (), w2)"
    "concat (pw_output w2) = file_bytes env schema rs @ footer 0 cc" unfolding w1(2) by auto
  have n1: "n_bytes w \<noteq> 0" "n_bytes w1 \<noteq> 0"
    using p(4) recs(2) w1(2,3) im imaged_file [OF im recs(3)] by (auto simp: imaged_def idle_def counted_n_bytes)
  have o: "ur_order c [b] = [b]" using order by (rule order_single)
  define s0 where "s0 = s\<lparr>uw_buckets := [(b, ref)]\<rparr>"
  let ?w0 = "us_world (uw_session s)"
  define s1 where "s1 = s0\<lparr>uw_writers := [(b, w1)], uw_session := (uw_session s)\<lparr>us_world := forget ?w0\<rparr>\<rparr>"
  have a1: "flush_attempt c True [] s0 = (Inr ([], [(b, ODPSError (Some 503), server)]), s1)"
    using stream(1,2) w1(1) n1(1) o server(1) first
    by (subst single_attempt [of _ b w w1]) (simp_all add: s0_def s1_def write_bucket_def)
  define s2 where "s2 = s1\<lparr>uw_buckets := [(b, ref)], uw_waits := uw_waits s @ [1]\<rparr>"
  have a2: "after_failures c 1 [(b, ODPSError (Some 503), server)] s1 = (Inr (), s2)"
    using stream(3)
    by (simp add: after_failures_def Let_def judge_def get_retry_policy_def SLOT_REASSIGNMENT_def FLOW_EXCEEDED_def
        BAD_GATEWAY_def GATEWAY_TIMEOUT_def REQUEST_TIMEOUT_def SERVER_ERROR_MAX_RETRIES_def raise_or_wait_def
        smod_apply sbind_apply sret_apply get_buckets_def s1_def s0_def s2_def)
  define s3 where "s3 = build_bucket_writer b (s2\<lparr>uw_writers := [(b, w2)],
    uw_session := (uw_session s2)\<lparr>us_world := keep (bw_cursor w1) (concat (pw_output w2)) (forget ?w0)\<rparr>\<rparr>)"
  have a3: "flush_attempt c True [] s2 = (Inr ([b], []), s3)"
    using stream(1) w2(1) n1(2) o server(1) first
    by (subst single_attempt [of _ b w1 w2]) (simp_all add: s2_def s1_def s0_def s3_def write_bucket_def)
  have "upsert_flush c (Suc (Suc fuel)) True s = (Inr (), s3)"
    using a1 a2 a3 stream(2,3) by (simp add: upsert_flush_def get_buckets_def Let_def s0_def)
  then have "upsert_close c (Suc (Suc fuel)) s = (Inr (), s3\<lparr>uw_status := StreamClosed\<rparr>)"
    using stream(1) by (simp add: upsert_close_def sbind_Inr smod_apply)
  moreover have "uw_waits s3 = uw_waits s @ [1]"
    by (simp add: s3_def s2_def build_bucket_writer_def)
  moreover have "us_world (uw_session s3) = keep 0 (file_bytes env schema rs @ footer 0 cc) (forget ?w0)"
    using w1(3) w2(2) by (simp add: s3_def build_bucket_writer_def idle_def)
  then have "uploaded (us_world (uw_session s3)) =
      uploaded ?w0 @ [(b, 0, file_bytes env schema rs @ footer 0 cc)]"
    using server(2) first(2) by simp
  ultimately show ?thesis by (intro exI [of _ "s3\<lparr>uw_status := StreamClosed\<rparr>"] exI [of _ cc]) simp
qed

definition spoilt_stream :: "record_writer \<Rightarrow> (nat \<times> upload list) upsert_stream" where
  "spoilt_stream w =
     (up_stream 100)\<lparr>uw_writers := [(0, w)],
       uw_session := up_session\<lparr>us_buckets := [(0, 0)], us_world := (1, [])\<rparr>\<rparr>"

lemma retried_file_spoilt_witness:
  "\<exists>w s' cc. write_records plain_codec [up_mark [1] 85] (bw_new up_schema None) = (Inr (), w) \<and>
    upsert_close up_server 2 (spoilt_stream w) = (Inr (), s') \<and> uw_waits s' = uw_waits (up_stream 100) @ [1] \<and>
    snd (us_world (uw_session s')) =
      [(0, 0, file_bytes plain_codec up_schema [up_mark [1] 85] @ footer 0 cc)]"
proof -
  have len: "length (all_columns up_schema) < 33553408"
    by (simp add: up_schema_def up_columns_def all_columns_def partition_list_def)
  have rec: "list_all (storable_record plain_codec demo_options up_schema) [up_mark [1] 85]"
    using up_storable(1) by simp
  from storable_imaged [OF up_schema_new len rec] obtain img cc where
    "imaged plain_codec up_schema [up_mark [1] 85] img cc" by blast
  then obtain w where w: "write_records plain_codec [up_mark [1] 85] (bw_new up_schema None) = (Inr (), w)"
    unfolding imaged_def using idle_new(1) by blast
  have status: "uw_status (up_stream m) = StreamNormal" for m
    using new_flows(1) [OF up_stream_new [of m], where uploaded = snd] by (simp add: flowing_def up_session_def)
  have stream: "uw_status (spoilt_stream w) = StreamNormal" "uw_writers (spoilt_stream w) = [(0, w)]"
      "us_buckets (uw_session (spoilt_stream w)) = [(0, 0)]" "uw_waits (spoilt_stream w) = uw_waits (up_stream 100)"
      "us_world (uw_session (spoilt_stream w)) = (1, [])"
    using status by (simp_all add: spoilt_stream_def)
  have request: "ur_request up_server 0 sl n data u =
      (if 0 < fst u then (Refused (ODPSError (Some 503)) [], (fst u - 1, snd u))
       else (Accepted, (0, snd u @ [(0, n, data)])))" for sl n data u
    by (cases u) (simp add: up_server_def)
  have order: "\<forall>bs. mset (ur_order up_server bs) = mset bs" by (simp add: up_server_def)
  have first: "0 < fst (us_world (uw_session (spoilt_stream w)))"
    "snd (fst (us_world (uw_session (spoilt_stream w))) - 1, snd (us_world (uw_session (spoilt_stream w)))) =
      snd (us_world (uw_session (spoilt_stream w)))"
    "\<not> 0 < fst (fst (us_world (uw_session (spoilt_stream w))) - 1, snd (us_world (uw_session (spoilt_stream w))))"
    by (simp_all add: stream(5))
  have one: "length [up_mark [1] 85] < 2 ^ 63" by simp
  from retried_file_spoilt [where refuses = "\<lambda>u. 0 < fst u" and forget = "\<lambda>u. (fst u - 1, snd u)" and
      keep = "\<lambda>n data u. (0, snd u @ [(0, n, data)])" and uploaded = snd and fuel = 0,
      OF up_schema_new len rec _ one w stream(1-3) order request _ first]
  obtain s' cc where "upsert_close up_server (Suc (Suc 0)) (spoilt_stream w) = (Inr (), s')"
    "uw_waits s' = uw_waits (up_stream 100) @ [1]"
    "snd (us_world (uw_session s')) = [(0, 0, file_bytes plain_codec up_schema [up_mark [1] 85] @ footer 0 cc)]"
    unfolding stream(4,5) by auto
  with w show ?thesis by (auto simp: numeral_2_eq_2)
qed

end
